(* ===== verification/Prelude.thy ===== *)
theory Prelude
  imports Main "HOL-Library.AList" "HOL-Library.Char_ord" "HOL-Library.List_Lexorder"
    "HOL-Library.Product_Lexorder" "HOL-Library.Multiset"
begin

text \<open>
  What every component of the model shares: Go maps as association lists, Go strings as byte
  strings (\<open>string\<close>, one \<open>char\<close> a byte), the part of the Go standard library the engine leans on
  (\<^verbatim>\<open>strings.TrimSpace\<close>, \<^verbatim>\<open>strings.ToLower\<close>, \<^verbatim>\<open>strings.Contains\<close>, \<^verbatim>\<open>strconv\<close> decimals,
  \<^verbatim>\<open>sort\<close>), the interface of a keyed store with the facts its clients use, and the theory of
  self-delimiting encodings that the injectivity of the signed hash input rests on.
\<close>

section \<open>Go maps\<close>

text \<open>
  A Go \<^verbatim>\<open>map[string]T\<close> is an association list: reading a missing key is \<open>None\<close>, writing
  replaces in place or appends, deleting removes. A nil map and an empty map are both \<open>[]\<close>. Go
  iterates a map in an unspecified order, which here is the order of the list; what the engine
  prints is sorted first, and the theorems about printed output say that the order is immaterial.
\<close>

type_synonym 'a gomap = "(string \<times> 'a) list"

abbreviation gm_get :: "'a gomap \<Rightarrow> string \<Rightarrow> 'a option" where
  "gm_get m k \<equiv> map_of m k"

abbreviation gm_put :: "string \<Rightarrow> 'a \<Rightarrow> 'a gomap \<Rightarrow> 'a gomap" where
  "gm_put k v m \<equiv> AList.update k v m"

abbreviation gm_del :: "string \<Rightarrow> 'a gomap \<Rightarrow> 'a gomap" where
  "gm_del k m \<equiv> AList.delete k m"

abbreviation gm_wf :: "'a gomap \<Rightarrow> bool" where
  "gm_wf m \<equiv> distinct (map fst m)"

lemma gm_get_put [simp]: "gm_get (gm_put k v m) j = (if j = k then Some v else gm_get m j)"
  by (simp add: update_conv')

lemma gm_get_del [simp]: "gm_get (gm_del k m) j = (if j = k then None else gm_get m j)"
  by (simp add: delete_conv')

lemma gm_wf_put [simp]: "gm_wf m \<Longrightarrow> gm_wf (gm_put k v m)"
  by (rule distinct_update)

lemma gm_wf_del [simp]: "gm_wf m \<Longrightarrow> gm_wf (gm_del k m)"
  by (rule distinct_delete)

lemma gm_get_mem: "gm_wf m \<Longrightarrow> (k, v) \<in> set m \<longleftrightarrow> gm_get m k = Some v"
  by simp

text \<open>\<^verbatim>\<open>sortedKeys\<close> of a set held as a list: the distinct members in ascending byte order.\<close>

definition sorted_set :: "string list \<Rightarrow> string list" where
  "sorted_set ids = sort (remdups ids)"

lemma set_sorted_set [simp]: "set (sorted_set ids) = set ids"
  by (simp add: sorted_set_def)

lemma sorted_sorted_set [simp]: "sorted (sorted_set ids)"
  by (simp add: sorted_set_def)

text \<open>Sorting by a key: the keys come out sorted, and any image is only rearranged.\<close>

lemma map_sort_key: "map f (sort_key f xs) = sort (map f xs)"
  by (rule properties_for_sort [symmetric]) simp_all

lemma mset_map_sort_key [simp]: "mset (map g (sort_key f xs)) = mset (map g xs)"
  by simp

lemma distinct_map_sort_key [simp]: "distinct (map g (sort_key f xs)) \<longleftrightarrow> distinct (map g xs)"
  by (rule mset_eq_imp_distinct_iff) (rule mset_map_sort_key)

lemma sort_key_eq_Nil [simp]: "sort_key f xs = [] \<longleftrightarrow> xs = []"
  by (metis length_0_conv length_sort)

lemma sort_key_fst_cancel:
  assumes keys: "map fst xs = map fst ys" and d: "distinct (map fst xs)"
  shows "sort_key fst xs = sort_key fst ys \<longleftrightarrow> xs = ys"
proof
  assume "sort_key fst xs = sort_key fst ys"
  then have eq: "set xs = set ys" by (metis set_sort)
  have len: "length xs = length ys" using keys by (rule map_eq_imp_length_eq)
  show "xs = ys"
  proof (rule nth_equalityI [OF len])
    fix i assume i: "i < length xs"
    then have "xs ! i \<in> set ys" by (simp add: eq [symmetric])
    then obtain j where j: "j < length ys" "xs ! i = ys ! j" by (auto simp: in_set_conv_nth)
    from i j have "map fst xs ! i = map fst ys ! j" by simp
    then have "map fst xs ! i = map fst xs ! j" by (simp only: keys)
    with i j len nth_eq_iff_index_eq [OF d, of i j] have "i = j" by (simp del: nth_map)
    with j show "xs ! i = ys ! i" by simp
  qed
qed simp

lemma map_eq_transfer:
  "(\<forall>x \<in> set xs. \<forall>y \<in> set ys. f x = f y \<longleftrightarrow> g x = g y) \<Longrightarrow> map f xs = map f ys \<longleftrightarrow> map g xs = map g ys"
proof (induction xs arbitrary: ys)
  case (Cons x xs)
  then show ?case by (cases ys) auto
qed auto

section \<open>The interface of a keyed store\<close>

text \<open>
  The lock ledger, the baselines and the comment digest store are all read and written by key.
  Their clients need only this: what was put under a key is what is read back, and other keys are
  not disturbed.
\<close>

locale keyed_store =
  fixes get :: "'s \<Rightarrow> 'k \<Rightarrow> 'v option"
    and put :: "'k \<Rightarrow> 'v \<Rightarrow> 's \<Rightarrow> 's"
  assumes get_put: "get (put k v s) j = (if j = k then Some v else get s j)"
begin

text \<open>Writing one entry for every element of a list, in order.\<close>

lemma get_fold_other:
  "k \<notin> key ` set xs \<Longrightarrow> get (fold (\<lambda>x. put (key x) (val x)) xs s) k = get s k"
  by (induction xs arbitrary: s) (auto simp: get_put)

lemma get_fold_same:
  "distinct (map key xs) \<Longrightarrow> x \<in> set xs \<Longrightarrow>
   get (fold (\<lambda>x. put (key x) (val x)) xs s) (key x) = Some (val x)"
proof (induction xs arbitrary: s)
  case Nil
  then show ?case by simp
next
  case (Cons y ys)
  then show ?case
    by (cases "x = y") (auto simp: get_fold_other get_put)
qed

lemma put_idem_get: "get (put k v (put k w s)) j = get (put k v s) j"
  by (simp add: get_put)

end

section \<open>The Go standard library, as far as it is used\<close>

subsection \<open>Decimal numerals (\<^verbatim>\<open>%d\<close>)\<close>

definition digit_char :: "nat \<Rightarrow> char" where
  "digit_char n = char_of (48 + n)"

fun itoa :: "nat \<Rightarrow> string" where
  "itoa n = (if n < 10 then [digit_char n] else itoa (n div 10) @ [digit_char (n mod 10)])"

declare itoa.simps [simp del]

definition itoa_int :: "int \<Rightarrow> string" where
  "itoa_int i = (if i < 0 then CHR ''-'' # itoa (nat (- i)) else itoa (nat i))"

definition is_digit :: "char \<Rightarrow> bool" where
  "is_digit c \<longleftrightarrow> 48 \<le> (of_char c :: nat) \<and> (of_char c :: nat) \<le> 57"

lemma of_char_digit_char: "n < 10 \<Longrightarrow> of_char (digit_char n) = 48 + n"
  by (simp add: digit_char_def)

lemma is_digit_digit_char: "n < 10 \<Longrightarrow> is_digit (digit_char n)"
  by (simp add: is_digit_def of_char_digit_char)

lemma digit_char_inj: "m < 10 \<Longrightarrow> n < 10 \<Longrightarrow> digit_char m = digit_char n \<Longrightarrow> m = n"
  by (metis add_left_cancel of_char_digit_char)

lemma itoa_digits: "c \<in> set (itoa n) \<Longrightarrow> is_digit c"
proof (induction n rule: itoa.induct)
  case (1 n)
  then show ?case
    by (subst (asm) (2) itoa.simps) (auto simp: is_digit_digit_char split: if_splits)
qed

lemma itoa_nonempty [simp]: "itoa n \<noteq> []"
  by (subst itoa.simps) simp

lemma itoa_nonempty' [simp]: "[] \<noteq> itoa n"
  by (metis itoa_nonempty)

lemma itoa_inj: "itoa m = itoa n \<Longrightarrow> m = n"
proof (induction m arbitrary: n rule: itoa.induct)
  case (1 m)
  show ?case
  proof (cases "m < 10")
    case True
    with 1(2) show ?thesis
      by (cases "n < 10") (auto simp: itoa.simps [of m] itoa.simps [of n] dest: digit_char_inj)
  next
    case False
    with 1(2) have n: "\<not> n < 10"
      by (auto simp: itoa.simps [of m] itoa.simps [of n])
    with False 1(2) have "itoa (m div 10) = itoa (n div 10)"
      and "digit_char (m mod 10) = digit_char (n mod 10)"
      by (auto simp: itoa.simps [of m] itoa.simps [of n])
    with 1(1) False have "m div 10 = n div 10" and "m mod 10 = n mod 10"
      by (auto intro: digit_char_inj)
    then show ?thesis by (metis div_mult_mod_eq)
  qed
qed

text \<open>A numeral followed by a character that is no digit is read back unambiguously.\<close>

lemma takeWhile_digits:
  "\<not> is_digit c \<Longrightarrow> takeWhile is_digit (itoa n @ c # s) = itoa n"
  by (subst takeWhile_append2) (auto dest: itoa_digits)

lemma itoa_delim:
  assumes eq: "itoa m @ c # s = itoa n @ d # t" and c: "\<not> is_digit c" and d: "\<not> is_digit d"
  shows "m = n \<and> c = d \<and> s = t"
proof -
  from eq have "takeWhile is_digit (itoa m @ c # s) = takeWhile is_digit (itoa n @ d # t)"
    by simp
  with c d have "itoa m = itoa n" by (simp add: takeWhile_digits)
  with eq show ?thesis by (auto dest: itoa_inj)
qed

lemma itoa_minus: "itoa n \<noteq> CHR ''-'' # s"
proof
  assume "itoa n = CHR ''-'' # s"
  then have "is_digit (CHR ''-'')" using itoa_digits [of "CHR ''-''" n] by simp
  then show False by (simp add: is_digit_def)
qed

lemma itoa_append_minus: "itoa n @ t \<noteq> CHR ''-'' # s"
  using itoa_minus [of n] by (cases "itoa n") auto

lemmas minus_itoa = itoa_append_minus itoa_append_minus [symmetric]

lemma itoa_int_delim:
  assumes eq: "itoa_int i @ c # s = itoa_int j @ d # t" and c: "\<not> is_digit c" and d: "\<not> is_digit d"
  shows "i = j \<and> c = d \<and> s = t"
proof (cases "i < 0")
  case True
  with eq have j: "j < 0" by (auto simp: itoa_int_def minus_itoa split: if_splits)
  with True eq have "itoa (nat (- i)) @ c # s = itoa (nat (- j)) @ d # t"
    by (simp add: itoa_int_def)
  from itoa_delim [OF this c d] True j show ?thesis by (auto simp: eq_nat_nat_iff)
next
  case False
  with eq have j: "\<not> j < 0" by (auto simp: itoa_int_def minus_itoa split: if_splits)
  with False eq have "itoa (nat i) @ c # s = itoa (nat j) @ d # t"
    by (simp add: itoa_int_def)
  from itoa_delim [OF this c d] False j show ?thesis by (auto simp: eq_nat_nat_iff)
qed

subsection \<open>Strings\<close>

text \<open>
  \<^verbatim>\<open>strings.TrimSpace\<close> removes Unicode white space at both ends. The code points with the
  White_Space property, in UTF-8, are the six ASCII ones and the multi-byte ones listed here.
\<close>

definition space_runes :: "string list" where
  "space_runes =
    [[CHR 0x09], [CHR 0x0A], [CHR 0x0B], [CHR 0x0C], [CHR 0x0D], [CHR 0x20], [CHR 0xC2, CHR 0x85],
     [CHR 0xC2, CHR 0xA0], [CHR 0xE1, CHR 0x9A, CHR 0x80], [CHR 0xE2, CHR 0x80, CHR 0x80],
     [CHR 0xE2, CHR 0x80, CHR 0x81], [CHR 0xE2, CHR 0x80, CHR 0x82],
     [CHR 0xE2, CHR 0x80, CHR 0x83], [CHR 0xE2, CHR 0x80, CHR 0x84],
     [CHR 0xE2, CHR 0x80, CHR 0x85], [CHR 0xE2, CHR 0x80, CHR 0x86],
     [CHR 0xE2, CHR 0x80, CHR 0x87], [CHR 0xE2, CHR 0x80, CHR 0x88],
     [CHR 0xE2, CHR 0x80, CHR 0x89], [CHR 0xE2, CHR 0x80, CHR 0x8A],
     [CHR 0xE2, CHR 0x80, CHR 0xA8], [CHR 0xE2, CHR 0x80, CHR 0xA9],
     [CHR 0xE2, CHR 0x80, CHR 0xAF], [CHR 0xE2, CHR 0x81, CHR 0x9F],
     [CHR 0xE3, CHR 0x80, CHR 0x80]]"

fun has_prefix :: "string \<Rightarrow> string \<Rightarrow> bool" where
  "has_prefix s [] = True"
| "has_prefix [] (p # ps) = False"
| "has_prefix (c # s) (p # ps) = (c = p \<and> has_prefix s ps)"

lemma has_prefix_iff: "has_prefix s p \<longleftrightarrow> (\<exists>t. s = p @ t)"
  by (induction s p rule: has_prefix.induct) auto

text \<open>Dropping marks from the front, with the marks given as byte strings; each step drops one.\<close>

fun trim_marks :: "nat \<Rightarrow> string list \<Rightarrow> string \<Rightarrow> string" where
  "trim_marks 0 ms s = s"
| "trim_marks (Suc n) ms s =
     (case find (has_prefix s) ms of
        None \<Rightarrow> s
      | Some m \<Rightarrow> trim_marks n ms (drop (length m) s))"

definition trim_left :: "string \<Rightarrow> string" where
  "trim_left s = trim_marks (length s) space_runes s"

definition trim_right :: "string \<Rightarrow> string" where
  "trim_right s = rev (trim_marks (length s) (map rev space_runes) (rev s))"

definition trim_space :: "string \<Rightarrow> string" where
  "trim_space s = trim_right (trim_left s)"

text \<open>\<^verbatim>\<open>strings.TrimSpace(s) == ""\<close>.\<close>

definition blank :: "string \<Rightarrow> bool" where
  "blank s \<longleftrightarrow> trim_space s = []"

text \<open>A string that starts with a byte no white space starts with is not blank.\<close>

definition space_heads :: "char set" where
  "space_heads =
     {CHR 0x09, CHR 0x0A, CHR 0x0B, CHR 0x0C, CHR 0x0D, CHR 0x20, CHR 0xC2, CHR 0xE1, CHR 0xE2, CHR 0xE3}"

lemma space_runes_heads: "m \<in> set space_runes \<Longrightarrow> m \<noteq> [] \<and> hd m \<in> space_heads"
  by (auto simp: space_runes_def space_heads_def)

lemma trim_marks_snoc:
  assumes "\<And>m. m \<in> set ms \<Longrightarrow> m \<noteq> [] \<and> last m \<noteq> c"
  shows "\<exists>t. trim_marks n ms (s @ [c]) = t @ [c]"
proof (induction n arbitrary: s)
  case 0
  then show ?case by simp
next
  case (Suc n)
  show ?case
  proof (cases "find (has_prefix (s @ [c])) ms")
    case None
    then show ?thesis by simp
  next
    case (Some m)
    then have m: "m \<in> set ms" "has_prefix (s @ [c]) m"
      by (auto simp: find_Some_iff)
    then obtain t where t: "s @ [c] = m @ t" by (auto simp: has_prefix_iff)
    have "t \<noteq> []"
    proof
      assume "t = []"
      with t have "last m = c" by (metis append.right_neutral last_snoc)
      with assms m(1) show False by blast
    qed
    with t have "t = butlast t @ [c]"
      by (metis append_butlast_last_id last_appendR last_snoc)
    moreover have "drop (length m) (s @ [c]) = t" using t by simp
    ultimately show ?thesis using Suc.IH [of "butlast t"] Some by (metis option.simps(5) trim_marks.simps(2))
  qed
qed

lemma not_blank_head [simp]: "c \<notin> space_heads \<Longrightarrow> \<not> blank (c # s)"
proof -
  assume c: "c \<notin> space_heads"
  have "find (has_prefix (c # s)) space_runes = None"
  proof (rule ccontr)
    assume "find (has_prefix (c # s)) space_runes \<noteq> None"
    then obtain m where m: "m \<in> set space_runes" "has_prefix (c # s) m"
      by (auto simp: find_None_iff)
    from space_runes_heads [OF m(1)] obtain d ds where d: "m = d # ds" by (cases m) auto
    with m(2) have "hd m = c" by simp
    with m(1) c space_runes_heads [of m] show False by simp
  qed
  then have left: "trim_left (c # s) = c # s" by (simp add: trim_left_def)
  have "\<exists>t. trim_marks (length (c # s)) (map rev space_runes) (rev s @ [c]) = t @ [c]"
    by (rule trim_marks_snoc) (use c space_runes_heads in \<open>fastforce simp: last_rev\<close>)
  then show "\<not> blank (c # s)"
    by (auto simp: blank_def trim_space_def left trim_right_def)
qed

text \<open>A string that neither starts nor ends with a byte of a white space mark is its own trim.\<close>

definition space_tails :: "char set" where
  "space_tails = set (map last space_runes)"

lemma trim_marks_id:
  "(\<And>m. m \<in> set ms \<Longrightarrow> m \<noteq> [] \<and> hd m \<noteq> c) \<Longrightarrow> trim_marks n ms (c # s) = c # s"
proof (cases n)
  case (Suc k)
  assume ms: "\<And>m. m \<in> set ms \<Longrightarrow> m \<noteq> [] \<and> hd m \<noteq> c"
  have "find (has_prefix (c # s)) ms = None"
    using ms by (auto simp: find_None_iff has_prefix_iff) (metis append_eq_Cons_conv list.sel(1))
  with Suc show ?thesis by simp
qed simp

lemma trim_space_id:
  assumes "s \<noteq> []" "hd s \<notin> space_heads" "last s \<notin> space_tails"
  shows "trim_space s = s"
proof -
  from assms(1,2) obtain c t where s: "s = c # t" "c \<notin> space_heads" by (cases s) auto
  have "trim_left s = s"
    unfolding trim_left_def s by (rule trim_marks_id) (use s(2) space_runes_heads in blast)
  moreover have "trim_right s = s"
  proof -
    from assms(1) obtain u d where u: "s = u @ [d]" by (metis rev_exhaust)
    with assms(3) have "d \<notin> space_tails" by simp
    then have "trim_marks (length s) (map rev space_runes) (d # rev u) = d # rev u"
      by (intro trim_marks_id) (use space_runes_heads in \<open>fastforce simp: space_tails_def hd_rev\<close>)
    then show ?thesis by (simp add: trim_right_def u)
  qed
  ultimately show ?thesis by (simp add: trim_space_def)
qed

lemma blank_Nil [simp]: "blank []"
  by (simp add: blank_def trim_space_def trim_left_def trim_right_def)

text \<open>
  \<^verbatim>\<open>strings.ToLower\<close>, exact on the strings it is compared with (ASCII literals): ASCII capitals,
  and the two non-ASCII letters whose lower case is ASCII, U+212A (Kelvin, to \<open>k\<close>) and U+0130
  (to \<open>i\<close>). Other bytes, which no ASCII literal contains before or after, are left alone.
\<close>

definition lower_byte :: "char \<Rightarrow> char" where
  "lower_byte c = (let n = (of_char c :: nat) in if 65 \<le> n \<and> n \<le> 90 then char_of (n + 32) else c)"

fun to_lower :: "string \<Rightarrow> string" where
  "to_lower (a # b # c # s) =
     (if (a, b, c) = (CHR 0xE2, CHR 0x84, CHR 0xAA) then CHR ''k'' # to_lower s
      else if (a, b) = (CHR 0xC4, CHR 0xB0) then CHR ''i'' # to_lower (c # s)
      else lower_byte a # to_lower (b # c # s))"
| "to_lower (a # b # s) =
     (if (a, b) = (CHR 0xC4, CHR 0xB0) then CHR ''i'' # to_lower s
      else lower_byte a # to_lower (b # s))"
| "to_lower (a # s) = lower_byte a # to_lower s"
| "to_lower [] = []"

text \<open>\<^verbatim>\<open>strings.Contains\<close> and \<^verbatim>\<open>strings.Join\<close>.\<close>

fun contains_str :: "string \<Rightarrow> string \<Rightarrow> bool" where
  "contains_str [] p = (p = [])"
| "contains_str (c # s) p = (has_prefix (c # s) p \<or> contains_str s p)"

lemma contains_str_iff: "contains_str s p \<longleftrightarrow> (\<exists>u v. s = u @ p @ v)"
proof (induction s)
  case Nil
  then show ?case by auto
next
  case (Cons c s)
  show ?case
  proof
    assume "contains_str (c # s) p"
    then consider "has_prefix (c # s) p" | "contains_str s p" by auto
    then show "\<exists>u v. c # s = u @ p @ v"
    proof cases
      case 1
      then show ?thesis by (metis append_Nil has_prefix_iff)
    next
      case 2
      with Cons.IH obtain u v where "s = u @ p @ v" by auto
      then have "c # s = (c # u) @ p @ v" by simp
      then show ?thesis by blast
    qed
  next
    assume "\<exists>u v. c # s = u @ p @ v"
    then obtain u v where uv: "c # s = u @ p @ v" by auto
    show "contains_str (c # s) p"
    proof (cases u)
      case Nil
      with uv have "has_prefix (c # s) p" by (metis append_Nil has_prefix_iff)
      then show ?thesis by simp
    next
      case (Cons d u')
      with uv have "s = u' @ p @ v" by simp
      with Cons.IH show ?thesis by auto
    qed
  qed
qed

lemma find_distinct: "distinct (map f xs) \<Longrightarrow> x \<in> set xs \<Longrightarrow> find (\<lambda>y. f y = f x) xs = Some x"
  by (induction xs) auto

text \<open>\<^verbatim>\<open>strings.Cut\<close> and \<^verbatim>\<open>strings.SplitN\<close> on one byte, for a positive count.\<close>

fun cut_at :: "char \<Rightarrow> string \<Rightarrow> (string \<times> string) option" where
  "cut_at d [] = None"
| "cut_at d (c # s) = (if c = d then Some ([], s) else map_option (\<lambda>(a, b). (c # a, b)) (cut_at d s))"

fun split_n :: "char \<Rightarrow> nat \<Rightarrow> string \<Rightarrow> string list" where
  "split_n d (Suc (Suc n)) s =
     (case cut_at d s of None \<Rightarrow> [s] | Some (a, b) \<Rightarrow> a # split_n d (Suc n) b)"
| "split_n d n s = [s]"

lemma cut_at_append: "d \<notin> set a \<Longrightarrow> cut_at d (a @ d # b) = Some (a, b)"
  by (induction a) auto

lemma cut_unique:
  fixes d :: char
  shows "d \<notin> set a \<Longrightarrow> d \<notin> set b \<Longrightarrow> a @ d # x = b @ d # y \<Longrightarrow> a = b \<and> x = y"
  by (drule arg_cong [of _ _ "cut_at d"]) (simp add: cut_at_append)

lemma cut_at_None: "cut_at d s = None \<longleftrightarrow> d \<notin> set s"
  by (induction s) auto

lemma cut_at_Some: "cut_at d s = Some (a, b) \<longleftrightarrow> s = a @ d # b \<and> d \<notin> set a"
proof
  show "cut_at d s = Some (a, b) \<Longrightarrow> s = a @ d # b \<and> d \<notin> set a"
    by (induction s arbitrary: a) (auto split: if_splits)
qed (auto simp: cut_at_append)

fun join_str :: "string \<Rightarrow> string list \<Rightarrow> string" where
  "join_str sep [] = []"
| "join_str sep [x] = x"
| "join_str sep (x # xs) = x @ sep @ join_str sep xs"

text \<open>
  \<^verbatim>\<open>utf8.RuneCountInString\<close>: a well-formed UTF-8 sequence is one rune, any other byte is one rune
  of its own (the replacement character).
\<close>

definition in_range :: "nat \<Rightarrow> nat \<Rightarrow> char \<Rightarrow> bool" where
  "in_range lo hi c \<longleftrightarrow> lo \<le> (of_char c :: nat) \<and> (of_char c :: nat) \<le> hi"

abbreviation cont_byte :: "char \<Rightarrow> bool" where
  "cont_byte \<equiv> in_range 0x80 0xBF"

definition second_ok :: "nat \<Rightarrow> char \<Rightarrow> bool" where
  "second_ok b c =
     (if b = 0xE0 then in_range 0xA0 0xBF c
      else if b = 0xED then in_range 0x80 0x9F c
      else if b = 0xF0 then in_range 0x90 0xBF c
      else if b = 0xF4 then in_range 0x80 0x8F c
      else cont_byte c)"

definition rune_len :: "string \<Rightarrow> nat" where
  "rune_len s =
     (case s of
        [] \<Rightarrow> 0
      | a # r \<Rightarrow>
          (let b = (of_char a :: nat) in
           if 0xC2 \<le> b \<and> b \<le> 0xDF then
             (case r of c # _ \<Rightarrow> if cont_byte c then 2 else 1 | _ \<Rightarrow> 1)
           else if 0xE0 \<le> b \<and> b \<le> 0xEF then
             (case r of c # d # _ \<Rightarrow> if second_ok b c \<and> cont_byte d then 3 else 1 | _ \<Rightarrow> 1)
           else if 0xF0 \<le> b \<and> b \<le> 0xF4 then
             (case r of c # d # e # _ \<Rightarrow>
                if second_ok b c \<and> cont_byte d \<and> cont_byte e then 4 else 1 | _ \<Rightarrow> 1)
           else 1))"

fun rune_count :: "string \<Rightarrow> nat" where
  "rune_count [] = 0"
| "rune_count (c # s) = Suc (rune_count (drop (rune_len (c # s) - 1) s))"

lemma rune_count_le: "rune_count s \<le> length s"
proof (induction s rule: rune_count.induct)
  case (2 c s)
  then show ?case
    by (metis Suc_le_mono diff_le_self length_Cons length_drop order_trans rune_count.simps(2))
qed simp

subsection \<open>Bytes: \<^verbatim>\<open>encoding/hex\<close> and \<^verbatim>\<open>binary.BigEndian\<close>\<close>

definition hex_digit :: "nat \<Rightarrow> char" where
  "hex_digit n = (if n < 10 then char_of (48 + n) else char_of (87 + n))"

definition hex_byte :: "char \<Rightarrow> string" where
  "hex_byte c = [hex_digit (of_char c div 16), hex_digit (of_char c mod 16)]"

definition hex_encode :: "string \<Rightarrow> string" where
  "hex_encode s = concat (map hex_byte s)"

lemma of_char_lt: "(of_char c :: nat) < 256"
  by (metis of_char_mod_256 mod_less_divisor zero_less_numeral)

lemma of_char_hex_digit:
  "n < 16 \<Longrightarrow> (of_char (hex_digit n) :: nat) = (if n < 10 then 48 + n else 87 + n)"
  by (simp add: hex_digit_def)

lemma hex_digit_inj:
  assumes "m < 16" "n < 16" "hex_digit m = hex_digit n"
  shows "m = n"
proof -
  have "(if m < 10 then 48 + m else 87 + m) = (if n < 10 then 48 + n else 87 + n)"
    using of_char_hex_digit [OF assms(1)] of_char_hex_digit [OF assms(2)] assms(3) by metis
  with assms(1,2) show ?thesis by (cases "m < 10"; cases "n < 10") simp_all
qed

lemma hex_byte_inj: "hex_byte c = hex_byte d \<Longrightarrow> c = d"
proof -
  assume eq: "hex_byte c = hex_byte d"
  have lt: "(of_char e :: nat) div 16 < 16" "(of_char e :: nat) mod 16 < 16" for e :: char
    using of_char_lt [of e] by (simp_all add: div_less_iff_less_mult)
  from eq have "(of_char c :: nat) div 16 = of_char d div 16" "(of_char c :: nat) mod 16 = of_char d mod 16"
    unfolding hex_byte_def by (auto intro: hex_digit_inj lt)
  then have "(of_char c :: nat) = of_char d" by (metis div_mult_mod_eq)
  then show "c = d" by simp
qed

lemma hex_encode_inj: "hex_encode s = hex_encode t \<Longrightarrow> s = t"
proof (induction s arbitrary: t)
  case Nil
  then show ?case by (cases t) (auto simp: hex_encode_def hex_byte_def)
next
  case (Cons c s)
  then obtain d t' where t: "t = d # t'" by (cases t) (auto simp: hex_encode_def hex_byte_def)
  with Cons(2) have "hex_byte c = hex_byte d" "hex_encode s = hex_encode t'"
    by (auto simp: hex_encode_def hex_byte_def)
  with Cons(1) t show ?case by (auto dest: hex_byte_inj)
qed

fun be_bytes :: "nat \<Rightarrow> nat \<Rightarrow> string" where
  "be_bytes 0 n = []"
| "be_bytes (Suc k) n = be_bytes k (n div 256) @ [char_of (n mod 256)]"

lemma length_be_bytes [simp]: "length (be_bytes k n) = k"
  by (induction k n rule: be_bytes.induct) auto

lemma be_bytes_inj: "m < 256 ^ k \<Longrightarrow> n < 256 ^ k \<Longrightarrow> be_bytes k m = be_bytes k n \<Longrightarrow> m = n"
proof (induction k arbitrary: m n)
  case (Suc k)
  then have "char_of (m mod 256) = (char_of (n mod 256) :: char)" "be_bytes k (m div 256) = be_bytes k (n div 256)"
    by auto
  moreover have "m div 256 < 256 ^ k" "n div 256 < 256 ^ k"
    using Suc.prems by (auto simp: less_mult_imp_div_less mult.commute)
  ultimately have "m div 256 = n div 256" "m mod 256 = n mod 256"
    using Suc.IH by (auto dest: arg_cong [of _ _ "of_char :: char \<Rightarrow> nat"])
  then show ?case by (metis div_mult_mod_eq)
qed simp

subsection \<open>Stable sorting with a comparison function\<close>

text \<open>
  \<^verbatim>\<open>sort.SliceStable\<close> with a \<open>less\<close> that is a strict weak order: elements neither of which is
  below the other keep their order. Where the code sorts by a key, \<open>sort_key\<close> is used, which is
  stable too.
\<close>

fun insert_by :: "('a \<Rightarrow> 'a \<Rightarrow> bool) \<Rightarrow> 'a \<Rightarrow> 'a list \<Rightarrow> 'a list" where
  "insert_by lt x [] = [x]"
| "insert_by lt x (y # ys) = (if lt y x then y # insert_by lt x ys else x # y # ys)"

definition stable_sort :: "('a \<Rightarrow> 'a \<Rightarrow> bool) \<Rightarrow> 'a list \<Rightarrow> 'a list" where
  "stable_sort lt xs = foldr (insert_by lt) xs []"

lemma stable_sort_simps [simp]:
  "stable_sort lt [] = []"
  "stable_sort lt (x # xs) = insert_by lt x (stable_sort lt xs)"
  by (simp_all add: stable_sort_def)

lemma mset_insert_by [simp]: "mset (insert_by lt x ys) = add_mset x (mset ys)"
  by (induction ys) auto

lemma mset_stable_sort [simp]: "mset (stable_sort lt xs) = mset xs"
  by (induction xs) auto

lemma set_insert_by [simp]: "set (insert_by lt x ys) = insert x (set ys)"
  by (metis mset_insert_by set_mset_add_mset_insert set_mset_mset)

lemma set_stable_sort [simp]: "set (stable_sort lt xs) = set xs"
  by (metis mset_stable_sort set_mset_mset)

lemma length_stable_sort [simp]: "length (stable_sort lt xs) = length xs"
  by (metis mset_stable_sort size_mset)

text \<open>The comparisons the code sorts with are those of a key into a linear order.\<close>

locale sort_order =
  fixes lt :: "'a \<Rightarrow> 'a \<Rightarrow> bool" and key :: "'a \<Rightarrow> 'b :: linorder"
  assumes lt_key: "lt x y \<longleftrightarrow> key x < key y"
begin

lemma sorted_insert_by:
  "sorted_wrt (\<lambda>x y. \<not> lt y x) ys \<Longrightarrow> sorted_wrt (\<lambda>x y. \<not> lt y x) (insert_by lt x ys)"
  by (induction ys) (auto simp: lt_key)

lemma sorted_stable_sort: "sorted_wrt (\<lambda>x y. \<not> lt y x) (stable_sort lt xs)"
  by (induction xs) (auto intro: sorted_insert_by)

lemma filter_insert_by:
  "sorted_wrt (\<lambda>x y. \<not> lt y x) ys \<Longrightarrow>
   filter (\<lambda>z. key z = k) (insert_by lt x ys) = filter (\<lambda>z. key z = k) (x # ys)"
  by (induction ys) (auto simp: lt_key)

lemma filter_stable_sort:
  "filter (\<lambda>z. key z = k) (stable_sort lt xs) = filter (\<lambda>z. key z = k) xs"
  by (induction xs) (simp_all add: filter_insert_by sorted_stable_sort)

lemma insert_by_below:
  "(\<And>y. y \<in> set ys \<Longrightarrow> \<not> lt y x) \<Longrightarrow> insert_by lt x ys = x # ys"
  by (cases ys) auto

lemma stable_sort_id: "sorted_wrt (\<lambda>x y. \<not> lt y x) xs \<Longrightarrow> stable_sort lt xs = xs"
  by (induction xs) (auto simp: insert_by_below)

end

subsection \<open>First-seen order, without repeats\<close>

text \<open>The shape of \<^verbatim>\<open>dedupeStable\<close>: a seen set and an output list, left to right.\<close>

fun dedupe_acc :: "string list \<Rightarrow> string list \<Rightarrow> string list" where
  "dedupe_acc seen [] = []"
| "dedupe_acc seen (x # xs) =
     (if x \<in> set seen then dedupe_acc seen xs else x # dedupe_acc (x # seen) xs)"

lemma set_dedupe_acc: "set (dedupe_acc seen xs) = set xs - set seen"
  by (induction seen xs rule: dedupe_acc.induct) auto

lemma distinct_dedupe_acc: "distinct (dedupe_acc seen xs)"
  by (induction seen xs rule: dedupe_acc.induct) (auto simp: set_dedupe_acc)

section \<open>Self-delimiting encodings\<close>

text \<open>
  The signed input of a claim is a byte stream put together from the encodings of its fields.
  Every field is followed by a comma or a newline; an encoding is \<^emph>\<open>terminated\<close> on a domain when,
  followed by one of these, it can be read back in only one way. The list encoding of a
  terminated element encoding is terminated, so is every struct of terminated fields.
\<close>

abbreviation nl :: char where
  "nl \<equiv> CHR 0x0A"

definition stops :: "char set" where
  "stops = {CHR '','', nl}"

lemma stops_no_digit: "c \<in> stops \<Longrightarrow> \<not> is_digit c"
  by (auto simp: stops_def is_digit_def)

lemma nl_stops [simp]: "nl \<in> stops" and comma_stops [simp]: "CHR '','' \<in> stops"
  by (simp_all add: stops_def)

lemma until_delim:
  assumes "\<forall>c \<in> set a. \<not> P c" "\<forall>c \<in> set b. \<not> P c" "P c" "P d" "a @ c # s = b @ d # t"
  shows "a = b \<and> c = d \<and> s = t"
proof -
  have "a = takeWhile (\<lambda>c. \<not> P c) (a @ c # s)"
    using assms(1,3) by (subst takeWhile_append2) simp_all
  also have "\<dots> = takeWhile (\<lambda>c. \<not> P c) (b @ d # t)" by (simp only: assms(5))
  also have "\<dots> = b"
    using assms(2,4) by (subst takeWhile_append2) simp_all
  finally have "a = b" .
  with assms(5) show ?thesis by simp
qed

text \<open>
  A sequence of items each of which can be read back: with the length known, or up to a byte no
  item starts with.
\<close>

definition reads_back :: "('a \<Rightarrow> string) \<Rightarrow> 'a list \<Rightarrow> 'a list \<Rightarrow> bool" where
  "reads_back item xs ys \<longleftrightarrow>
     (\<forall>x \<in> set xs. \<forall>y \<in> set ys. \<forall>s t. item x @ s = item y @ t \<longrightarrow> x = y \<and> s = t)"

lemma reads_backI:
  "(\<And>x y s t. x \<in> set xs \<Longrightarrow> y \<in> set ys \<Longrightarrow> item x @ s = item y @ t \<Longrightarrow> x = y \<and> s = t) \<Longrightarrow>
   reads_back item xs ys"
  unfolding reads_back_def by blast

lemma reads_backD:
  "reads_back item xs ys \<Longrightarrow> x \<in> set xs \<Longrightarrow> y \<in> set ys \<Longrightarrow> item x @ s = item y @ t \<Longrightarrow> x = y \<and> s = t"
  unfolding reads_back_def by blast

lemma reads_back_tl: "reads_back item (x # xs) (y # ys) \<Longrightarrow> reads_back item xs ys"
  unfolding reads_back_def by (meson list.set_intros(2))

lemma counted_delim:
  assumes "length xs = length ys" and "reads_back item xs ys"
    and "concat (map item xs) @ s = concat (map item ys) @ t"
  shows "xs = ys \<and> s = t"
  using assms
proof (induction xs ys rule: list_induct2)
  case (Cons x xs y ys)
  from Cons.prems(2) have "item x @ concat (map item xs) @ s = item y @ concat (map item ys) @ t"
    by simp
  from reads_backD [OF Cons.prems(1) _ _ this]
  have xy: "x = y" and eq: "concat (map item xs) @ s = concat (map item ys) @ t" by simp_all
  from Cons.IH [OF reads_back_tl [OF Cons.prems(1)] eq] xy show ?case by simp
qed simp

lemma closed_delim:
  assumes "reads_back item xs ys"
    and "\<forall>x \<in> set xs \<union> set ys. item x \<noteq> [] \<and> hd (item x) \<noteq> b"
    and "concat (map item xs) @ b # s = concat (map item ys) @ b # t"
  shows "xs = ys \<and> s = t"
  using assms
proof (induction xs arbitrary: ys)
  case Nil
  show ?case
  proof (cases ys)
    case (Cons y ys')
    with Nil show ?thesis by (cases "item y") auto
  qed (use Nil in simp)
next
  case (Cons x xs)
  show ?case
  proof (cases ys)
    case Nil
    with Cons.prems(2,3) show ?thesis by (cases "item x") auto
  next
    case ys: (Cons y ys')
    from Cons.prems(3) ys have "item x @ concat (map item xs) @ b # s = item y @ concat (map item ys') @ b # t"
      by simp
    from reads_backD [OF Cons.prems(1) _ _ this] ys
    have xy: "x = y" and eq: "concat (map item xs) @ b # s = concat (map item ys') @ b # t" by simp_all
    have "xs = ys' \<and> s = t"
      by (rule Cons.IH [OF _ _ eq]) (use Cons.prems(1,2) ys in \<open>auto dest: reads_back_tl\<close>)
    with xy ys show ?thesis by simp
  qed
qed

text \<open>The slice form of \<^verbatim>\<open>hashValue\<close>: the length, then every element followed by a comma.\<close>

definition enc_list :: "('a \<Rightarrow> string) \<Rightarrow> 'a list \<Rightarrow> string" where
  "enc_list enc xs =
     CHR ''l'' # itoa (length xs) @ '':['' @ concat (map (\<lambda>x. enc x @ '','') xs) @ '']''"

locale terminated_code =
  fixes dom :: "'a \<Rightarrow> bool" and enc :: "'a \<Rightarrow> string"
  assumes delim: "\<lbrakk>dom x; dom y; c \<in> stops; d \<in> stops; enc x @ c # s = enc y @ d # t\<rbrakk> \<Longrightarrow>
    x = y \<and> c = d \<and> s = t"
begin

lemma enc_inj: "dom x \<Longrightarrow> dom y \<Longrightarrow> enc x = enc y \<Longrightarrow> x = y"
  using delim [of x y nl nl "[]" "[]"] by simp

lemma item_delim: "list_all dom xs \<Longrightarrow> list_all dom ys \<Longrightarrow> reads_back (\<lambda>x. enc x @ '','') xs ys"
  by (rule reads_backI) (metis Cons_eq_appendI append.assoc append_Nil comma_stops delim list_all_iff)

lemma list_delim:
  assumes "list_all dom xs" "list_all dom ys" and eq: "enc_list enc xs @ s = enc_list enc ys @ t"
  shows "xs = ys \<and> s = t"
proof -
  from eq have "itoa (length xs) @ CHR '':'' # CHR ''['' # concat (map (\<lambda>x. enc x @ '','') xs) @ '']'' @ s
      = itoa (length ys) @ CHR '':'' # CHR ''['' # concat (map (\<lambda>x. enc x @ '','') ys) @ '']'' @ t"
    by (simp add: enc_list_def)
  from itoa_delim [OF this] have len: "length xs = length ys"
    and "concat (map (\<lambda>x. enc x @ '','') xs) @ '']'' @ s
       = concat (map (\<lambda>x. enc x @ '','') ys) @ '']'' @ t"
    by (auto simp: is_digit_def)
  from counted_delim [OF len item_delim [OF assms(1,2)] this(2)] show ?thesis by simp
qed

lemma list_terminated:
  "\<lbrakk>list_all dom xs; list_all dom ys; enc_list enc xs @ c # s = enc_list enc ys @ d # t\<rbrakk> \<Longrightarrow>
   xs = ys \<and> c = d \<and> s = t"
  using list_delim [of xs ys "c # s" "d # t"] by simp

end

end
