(* ===== verification/Histories.thy ===== *)
theory Histories
  imports Prelude
begin

text \<open>
  Histories: what a relation of single steps gives for sequences of them. A component that has a step relation and
  the runs of it interprets \<open>history\<close> and takes its invariants and the origins of its facts from here; a
  component whose runs are runs of an abstract machine interprets \<open>simulation\<close>.
\<close>

text \<open>The runs of a step relation, with their events in order.\<close>

locale history =
  fixes step :: "'s \<Rightarrow> 'e \<Rightarrow> 's \<Rightarrow> bool"
    and run :: "'s \<Rightarrow> 'e list \<Rightarrow> 's \<Rightarrow> bool"
  assumes run_iff: "run s es s' \<longleftrightarrow> es = [] \<and> s' = s \<or> (\<exists>ds e u. es = ds @ [e] \<and> run s ds u \<and> step u e s')"
begin

lemma run_Nil: "run s [] s"
  using run_iff by blast

lemma run_snoc: "run s es u \<Longrightarrow> step u e s' \<Longrightarrow> run s (es @ [e]) s'"
  using run_iff by blast

text \<open>What every event of a run preserves holds at its end.\<close>

lemma preserved:
  assumes "run s es s'" "I s" "\<And>u e u'. step u e u' \<Longrightarrow> e \<in> set es \<Longrightarrow> I u \<Longrightarrow> I u'"
  shows "I s'"
  using assms
proof (induction es arbitrary: s' rule: rev_induct)
  case Nil
  then show ?case using run_iff [of s "[]" s'] by simp
next
  case (snoc e es)
  from snoc.prems(1) obtain u where u: "run s es u" "step u e s'" using run_iff [of s "es @ [e]" s'] by auto
  have "I u" by (rule snoc.IH [OF u(1) snoc.prems(2)]) (use snoc.prems(3) in auto)
  with u(2) snoc.prems(3) show ?case by auto
qed

text \<open>What holds at the end held at the start, or an event of the run brought it about.\<close>

lemma origin:
  assumes "run s es s'" "I s'" "\<And>u e u'. step u e u' \<Longrightarrow> I u' \<Longrightarrow> I u \<or> Q e"
  shows "I s \<or> (\<exists>e \<in> set es. Q e)"
  using assms(1,2)
proof (induction es arbitrary: s' rule: rev_induct)
  case Nil
  then show ?case using run_iff [of s "[]" s'] by simp
next
  case (snoc e es)
  from snoc.prems(1) obtain u where u: "run s es u" "step u e s'" using run_iff [of s "es @ [e]" s'] by auto
  from assms(3) [OF u(2) snoc.prems(2)] snoc.IH [OF u(1)] show ?case by auto
qed

end

text \<open>Two kinds of history, one an abstraction of the other as far as an invariant holds.\<close>

locale simulation = conc: history cstep crun + abst: history astep arun
  for cstep :: "'s \<Rightarrow> 'e \<Rightarrow> 's \<Rightarrow> bool" and crun and astep :: "'a \<Rightarrow> 'e \<Rightarrow> 'a \<Rightarrow> bool" and arun +
  fixes ok :: "'s \<Rightarrow> bool" and abs :: "'s \<Rightarrow> 'a"
  assumes simulates: "cstep u e u' \<Longrightarrow> ok u \<Longrightarrow> ok u' \<and> astep (abs u) e (abs u')"
begin

lemma run_simulates: "crun s es s' \<Longrightarrow> ok s \<Longrightarrow> ok s' \<and> arun (abs s) es (abs s')"
proof (induction es arbitrary: s' rule: rev_induct)
  case Nil
  then show ?case using conc.run_iff [of s "[]" s'] abst.run_Nil by simp
next
  case (snoc e es)
  from snoc.prems(1) obtain u where u: "crun s es u" "cstep u e s'" using conc.run_iff [of s "es @ [e]" s'] by auto
  with snoc.IH [OF u(1) snoc.prems(2)] simulates [OF u(2)] abst.run_snoc show ?case by blast
qed

end

end
