(* ===== verification/Claim_Model.thy ===== *)
theory Claim_Model
  imports Prelude
begin

text \<open>
  The data model of \<^verbatim>\<open>internal/model\<close>: claims, their rows, embodiments, sources, dependency
  declarations and comment threads, field by field; the small questions asked of them; the YAML
  decoding of a dependency declaration; and the display order of claims. The records carry the
  source's field names behind a prefix of their own (\<open>cl_\<close> for \<^verbatim>\<open>Claim\<close>, \<open>cm_\<close> for \<^verbatim>\<open>Comment\<close>,
  and so on), because an Isabelle field name is a constant.
\<close>

section \<open>Types\<close>

text \<open>
  \<^verbatim>\<open>Status\<close>, \<^verbatim>\<open>Kind\<close> and \<^verbatim>\<open>CommentRole\<close> are Go string types: a claim file can hold any string
  there, so they are strings here and the named values are constants.
\<close>

definition StatusDraft :: string where
  "StatusDraft = ''draft''"

definition StatusLocked :: string where
  "StatusLocked = ''locked''"

definition KindFact :: string where
  "KindFact = ''fact''"

definition ScopeProject :: string where
  "ScopeProject = ''project''"

definition CommentRoleHuman :: string where
  "CommentRoleHuman = ''human''"

definition CommentRoleAgent :: string where
  "CommentRoleAgent = ''agent''"

definition CommentStatusOpen :: string where
  "CommentStatusOpen = ''open''"

definition CommentStatusResolved :: string where
  "CommentStatusResolved = ''resolved''"

definition LayoutBanner :: string where
  "LayoutBanner = ''banner''"

lemmas status_defs = StatusDraft_def StatusLocked_def
lemmas comment_status_defs = CommentStatusOpen_def CommentStatusResolved_def

lemma draft_not_locked [simp]: "StatusDraft \<noteq> StatusLocked" "StatusLocked \<noteq> StatusDraft"
  by (simp_all add: status_defs)

lemma open_not_resolved [simp]:
  "CommentStatusOpen \<noteq> CommentStatusResolved" "CommentStatusResolved \<noteq> CommentStatusOpen"
  by (simp_all add: comment_status_defs)

text \<open>
  A row cell is an \<^verbatim>\<open>any\<close> holding what yaml.v3 decodes a scalar, sequence or mapping into. A float
  carries its shortest rendering and a timestamp its printed form; \<open>VStrings\<close> is a \<^verbatim>\<open>[]string\<close>,
  the type the captured column order has.
\<close>

datatype cell =
    VNil
  | VStr string
  | VBool bool
  | VInt int
  | VFloat string
  | VTime string
  | VStrings "string list"
  | VSeq "cell list"
  | VMap "(string \<times> cell) list"

type_synonym row = "cell gomap"

text \<open>
  The value of an expectation is an \<^verbatim>\<open>any\<close>: a \<^verbatim>\<open>[]string\<close> or a \<^verbatim>\<open>string\<close> from YAML; \<open>EVList\<close> is the \<^verbatim>\<open>[]any\<close> of
  strings that a set is read back as from JSON.
\<close>

datatype exp_value = EVNil | EVSet "string list" | EVScalar string | EVList "string list"

record expectation =
  ex_Shape :: string
  ex_Value :: exp_value

record emb_check =
  ec_ID :: string
  ec_Adapter :: string
  ec_Target :: string
  ec_Expectation :: "expectation option"

record embodiment =
  em_Mode :: string
  em_Checks :: "emb_check list"
  em_Reason :: string
  em_checksPresent :: bool
  em_reasonPresent :: bool

record source =
  sr_Ref :: int
  sr_Kind :: string
  sr_Title :: string
  sr_URL :: string
  sr_AccessedOn :: string
  sr_Path :: string
  sr_RecordID :: string
  sr_SHA256 :: string
  sr_Supports :: string
  sr_DoesNotSupport :: string

record reply =
  rp_ID :: string
  rp_Author :: string
  rp_Created :: string
  rp_Body :: string
  rp_Edited :: bool

record comment =
  cm_ID :: string
  cm_Status :: string
  cm_Author :: string
  cm_Created :: string
  cm_Body :: string
  cm_Edited :: bool
  cm_Replies :: "reply list"
  cm_ResolvedBy :: string
  cm_ResolvedAt :: string
  cm_ReopenedBy :: string
  cm_ReopenedAt :: string

record rests_on =
  ro_None :: bool
  ro_Reason :: string
  ro_IDs :: "string list"

record claim =
  cl_ID :: string
  cl_Facet :: string
  cl_Module :: string
  cl_Scope :: string
  cl_Status :: string
  cl_Layout :: string
  cl_Kind :: string
  cl_Embodiment :: "embodiment option"
  cl_Summary :: string
  cl_Body :: string
  cl_Rows :: "row list"
  cl_Section :: string
  cl_RawHTML :: string
  cl_RawHTMLReviewed :: bool
  cl_Steps :: "string list"
  cl_RestsOn :: rests_on
  cl_Sources :: "source list"
  cl_Order :: int
  cl_Emphasis :: bool
  cl_ReviewPending :: bool
  cl_AuditNotes :: "string list"
  cl_Comments :: "comment list"
  cl_SourcePath :: string

text \<open>The zero values of Go: \<^verbatim>\<open>model.RestsOn{}\<close> and \<^verbatim>\<open>model.Claim{}\<close>.\<close>

definition zero_rests_on :: rests_on where
  "zero_rests_on = \<lparr>ro_None = False, ro_Reason = [], ro_IDs = []\<rparr>"

definition zero_claim :: claim where
  "zero_claim =
     \<lparr>cl_ID = [], cl_Facet = [], cl_Module = [], cl_Scope = [], cl_Status = [], cl_Layout = [],
      cl_Kind = [], cl_Embodiment = None, cl_Summary = [], cl_Body = [], cl_Rows = [],
      cl_Section = [], cl_RawHTML = [], cl_RawHTMLReviewed = False, cl_Steps = [],
      cl_RestsOn = zero_rests_on, cl_Sources = [], cl_Order = 0, cl_Emphasis = False,
      cl_ReviewPending = False, cl_AuditNotes = [], cl_Comments = [], cl_SourcePath = []\<rparr>"

section \<open>Questions asked of a claim\<close>

definition EffectiveKind :: "claim \<Rightarrow> string" where
  "EffectiveKind c = (if cl_Kind c = [] then KindFact else cl_Kind c)"

text \<open>\<^verbatim>\<open>strings.Cut(id, ".")\<close>: the text before and after the first dot, if there is one.\<close>

fun cut_dot :: "string \<Rightarrow> (string \<times> string) option" where
  "cut_dot [] = None"
| "cut_dot (c # s) =
     (if c = CHR ''.'' then Some ([], s)
      else map_option (\<lambda>(a, b). (c # a, b)) (cut_dot s))"

definition IsProjectClaimID :: "string \<Rightarrow> bool" where
  "IsProjectClaimID i =
     (case cut_dot i of
        None \<Rightarrow> False
      | Some (module, slug) \<Rightarrow>
          \<not> (module \<noteq> ScopeProject \<or> slug = [] \<or> contains_str slug ''.''))"

definition IsProjectClaim :: "claim \<Rightarrow> bool" where
  "IsProjectClaim c \<longleftrightarrow> cl_Scope c = ScopeProject \<or> IsProjectClaimID (cl_ID c)"

definition SummaryIsMissing :: "string \<Rightarrow> bool" where
  "SummaryIsMissing s \<longleftrightarrow> blank s"

fun OpenThreadIDs_loop :: "comment list \<Rightarrow> string list \<Rightarrow> string list" where
  "OpenThreadIDs_loop [] ids = ids"
| "OpenThreadIDs_loop (cm # cms) ids =
     OpenThreadIDs_loop cms (if cm_Status cm = CommentStatusOpen then ids @ [cm_ID cm] else ids)"

definition OpenThreadIDs :: "claim \<Rightarrow> string list" where
  "OpenThreadIDs c = OpenThreadIDs_loop (cl_Comments c) []"

fun HasOpenThreads_loop :: "comment list \<Rightarrow> bool" where
  "HasOpenThreads_loop [] = False"
| "HasOpenThreads_loop (cm # cms) =
     (if cm_Status cm = CommentStatusOpen then True else HasOpenThreads_loop cms)"

definition HasOpenThreads :: "claim \<Rightarrow> bool" where
  "HasOpenThreads c = HasOpenThreads_loop (cl_Comments c)"

lemma OpenThreadIDs_loop_eq:
  "OpenThreadIDs_loop cms ids =
   ids @ map cm_ID (filter (\<lambda>cm. cm_Status cm = CommentStatusOpen) cms)"
  by (induction cms arbitrary: ids) auto

lemma OpenThreadIDs_eq:
  "OpenThreadIDs c = map cm_ID (filter (\<lambda>cm. cm_Status cm = CommentStatusOpen) (cl_Comments c))"
  by (simp add: OpenThreadIDs_def OpenThreadIDs_loop_eq)

lemma HasOpenThreads_iff:
  "HasOpenThreads c \<longleftrightarrow> (\<exists>cm \<in> set (cl_Comments c). cm_Status cm = CommentStatusOpen)"
proof -
  have "HasOpenThreads_loop cms \<longleftrightarrow> (\<exists>cm \<in> set cms. cm_Status cm = CommentStatusOpen)" for cms
    by (induction cms) auto
  then show ?thesis by (simp add: HasOpenThreads_def)
qed

lemma HasOpenThreads_ids: "HasOpenThreads c \<longleftrightarrow> OpenThreadIDs c \<noteq> []"
  by (auto simp: HasOpenThreads_iff OpenThreadIDs_eq filter_empty_conv)

section \<open>Rows\<close>

text \<open>\<^verbatim>\<open>rowOrderKey\<close>: a leading NUL byte, which no YAML string scalar produces.\<close>

definition rowOrderKey :: string where
  "rowOrderKey = CHR 0x00 # ''order''"

definition RowColumns :: "row \<Rightarrow> string list option" where
  "RowColumns r =
     (case gm_get r rowOrderKey of
        None \<Rightarrow> None
      | Some (VStrings order) \<Rightarrow> Some order
      | Some _ \<Rightarrow> None)"

text \<open>The rendering of a cell by \<^verbatim>\<open>fmt\<close> (\<open>%v\<close>): maps print their keys in ascending order.\<close>

fun show_cell :: "cell \<Rightarrow> string" where
  "show_cell VNil = ''<nil>''"
| "show_cell (VStr s) = s"
| "show_cell (VBool b) = (if b then ''true'' else ''false'')"
| "show_cell (VInt i) = itoa_int i"
| "show_cell (VFloat s) = s"
| "show_cell (VTime s) = s"
| "show_cell (VStrings ss) = ''['' @ join_str '' '' ss @ '']''"
| "show_cell (VSeq cs) = ''['' @ join_str '' '' (map show_cell cs) @ '']''"
| "show_cell (VMap m) =
     ''map['' @ join_str '' ''
       (map (\<lambda>(k, s). k @ '':'' @ s) (sort_key fst (map (\<lambda>(k, v). (k, show_cell v)) m))) @ '']''"

definition rowCellText :: "cell \<Rightarrow> string" where
  "rowCellText v = (case v of VStr s \<Rightarrow> s | VNil \<Rightarrow> [] | _ \<Rightarrow> show_cell v)"

definition ClaimProseChars :: "claim \<Rightarrow> nat" where
  "ClaimProseChars c =
     rune_count (cl_Body c)
     + sum_list (map rune_count (cl_Steps c))
     + sum_list (map (\<lambda>r. sum_list (map (\<lambda>(k, v).
         if k = rowOrderKey then 0 else rune_count (rowCellText v)) r)) (cl_Rows c))"

section \<open>Display order\<close>

text \<open>
  \<^verbatim>\<open>OrderClaims\<close>: the first loop splits the claims into runs of equal \<^verbatim>\<open>Section\<close>, the second sorts
  each run by the comparison below, stably, and concatenates.
\<close>

fun split_runs :: "bool \<Rightarrow> string \<Rightarrow> claim list list \<Rightarrow> claim list \<Rightarrow> claim list list" where
  "split_runs first prev runs [] = runs"
| "split_runs first prev runs (c # cs) =
     (let runs' = (if first \<or> cl_Section c \<noteq> prev then runs @ [[]] else runs)
      in split_runs False (cl_Section c) (butlast runs' @ [last runs' @ [c]]) cs)"

definition order_less :: "claim \<Rightarrow> claim \<Rightarrow> bool" where
  "order_less a b =
     (let oi = cl_Order a; oj = cl_Order b in
      if oi = oj then False
      else if oi = 0 then False
      else if oj = 0 then True
      else oi < oj)"

definition OrderClaims :: "claim list \<Rightarrow> claim list" where
  "OrderClaims cs = concat (map (stable_sort order_less) (split_runs True [] [] cs))"

text \<open>The comparison is that of the key "no order last, then by order".\<close>

definition order_key :: "claim \<Rightarrow> bool \<times> int" where
  "order_key c = (cl_Order c = 0, cl_Order c)"

interpretation ord: sort_order order_less order_key
  by unfold_locales (auto simp: order_less_def order_key_def Let_def)

end
