(* ===== verification/Display_Order.thy ===== *)
theory Display_Order
  imports Claim_Model
begin

text \<open>
  The viewer's order (\<^verbatim>\<open>model.OrderClaims\<close>): what the two loops establish. The runs are the maximal
  blocks of equal section, each is sorted in place, and nothing moves between runs.
\<close>

definition one_section :: "claim list \<Rightarrow> bool" where
  "one_section r \<longleftrightarrow> r \<noteq> [] \<and> (\<exists>s. \<forall>x \<in> set r. cl_Section x = s)"

definition runs_ok :: "claim list list \<Rightarrow> bool" where
  "runs_ok rs \<longleftrightarrow>
     (\<forall>r \<in> set rs. one_section r) \<and> distinct_adj (map (\<lambda>r. cl_Section (hd r)) rs)"

lemma one_section_ne: "one_section r \<Longrightarrow> r \<noteq> []"
  by (simp add: one_section_def)

lemma one_section_hd: "one_section r \<Longrightarrow> x \<in> set r \<Longrightarrow> cl_Section x = cl_Section (hd r)"
  unfolding one_section_def by (metis hd_in_set)

lemma one_section_single: "one_section [c]"
  by (auto simp: one_section_def)

lemma one_section_snoc: "one_section r \<Longrightarrow> cl_Section c = cl_Section (hd r) \<Longrightarrow> one_section (r @ [c])"
  unfolding one_section_def
  by (metis Un_iff empty_iff hd_in_set list.set(1) set_ConsD set_append snoc_eq_iff_butlast)

lemma runs_ok_Nil: "runs_ok []"
  by (simp add: runs_ok_def)

lemma runs_ok_snoc:
  "runs_ok (rs @ [r]) \<longleftrightarrow>
     runs_ok rs \<and> one_section r \<and>
     (rs \<noteq> [] \<longrightarrow> cl_Section (hd (last rs)) \<noteq> cl_Section (hd r))"
  unfolding runs_ok_def by (auto simp: distinct_adj_append_iff last_map)

lemma split_runs_ok:
  assumes "runs_ok runs"
    and "if first then runs = [] else runs \<noteq> [] \<and> cl_Section (hd (last runs)) = prev"
  shows "runs_ok (split_runs first prev runs cs) \<and>
         concat (split_runs first prev runs cs) = concat runs @ cs"
  using assms
proof (induction first prev runs cs rule: split_runs.induct)
  case (1 first prev runs)
  then show ?case by simp
next
  case (2 first prev runs c cs)
  define runs' where "runs' = (if first \<or> cl_Section c \<noteq> prev then runs @ [[]] else runs)"
  define nxt where "nxt = butlast runs' @ [last runs' @ [c]]"
  have step: "split_runs first prev runs (c # cs) = split_runs False (cl_Section c) nxt cs"
    by (simp add: runs'_def nxt_def Let_def)
  have "runs_ok nxt \<and> concat nxt = concat runs @ [c] \<and> cl_Section (hd (last nxt)) = cl_Section c"
  proof (cases "first \<or> cl_Section c \<noteq> prev")
    case True
    then have "nxt = runs @ [[c]]" by (simp add: nxt_def runs'_def)
    moreover have "runs \<noteq> [] \<longrightarrow> cl_Section (hd (last runs)) \<noteq> cl_Section c"
      using True 2(3) by (cases first) auto
    ultimately show ?thesis using 2(2) by (simp add: runs_ok_snoc one_section_single)
  next
    case False
    then have r: "runs \<noteq> []" "cl_Section (hd (last runs)) = cl_Section c"
      using 2(3) by auto
    then obtain rs r where rs: "runs = rs @ [r]" by (metis append_butlast_last_id)
    with False have nxt: "nxt = rs @ [r @ [c]]" by (simp add: nxt_def runs'_def)
    from 2(2) rs have "runs_ok rs" "one_section r"
      and d: "rs \<noteq> [] \<longrightarrow> cl_Section (hd (last rs)) \<noteq> cl_Section (hd r)"
      by (simp_all add: runs_ok_snoc)
    with r rs have "one_section (r @ [c])" and "hd (r @ [c]) = hd r"
      by (auto intro: one_section_snoc dest: one_section_ne)
    with r rs \<open>runs_ok rs\<close> d show ?thesis by (simp add: nxt runs_ok_snoc)
  qed
  moreover have "nxt \<noteq> []" by (simp add: nxt_def)
  ultimately show ?case
    unfolding step using 2(1) [OF runs'_def] by (simp add: nxt_def [symmetric])
qed

lemma runs_of:
  "runs_ok (split_runs True [] [] cs)" "concat (split_runs True [] [] cs) = cs"
  using split_runs_ok [OF runs_ok_Nil, of True "[]" cs] by simp_all

lemma sections_of_run:
  assumes "one_section r"
  shows "map cl_Section (stable_sort order_less r) = map cl_Section r"
proof -
  from assms obtain s where s: "\<forall>x \<in> set r. cl_Section x = s" by (auto simp: one_section_def)
  have "map cl_Section q = replicate (length q) s" if "\<forall>x \<in> set q. cl_Section x = s" for q
    using that by (induction q) auto
  from this [of r] this [of "stable_sort order_less r"] s show ?thesis by simp
qed

lemma successively_concat_runs:
  assumes "runs_ok rs"
  shows "successively (\<lambda>a b. cl_Section a = cl_Section b \<longrightarrow> \<not> order_less b a)
           (concat (map (stable_sort order_less) rs))"
  using assms
proof (induction rs rule: rev_induct)
  case Nil
  then show ?case by simp
next
  case (snoc r rs)
  let ?Q = "\<lambda>a b. cl_Section a = cl_Section b \<longrightarrow> \<not> order_less b a"
  from snoc.prems have ok: "runs_ok rs" and r: "one_section r"
    and diff: "rs \<noteq> [] \<longrightarrow> cl_Section (hd (last rs)) \<noteq> cl_Section (hd r)"
    by (simp_all add: runs_ok_snoc)
  have "sorted_wrt ?Q (stable_sort order_less r)"
    by (rule sorted_wrt_mono_rel [OF _ ord.sorted_stable_sort]) auto
  then have "successively ?Q (stable_sort order_less r)"
    by (rule successively_if_sorted_wrt)
  moreover have "?Q (last (concat (map (stable_sort order_less) rs))) (hd (stable_sort order_less r))"
    if ne: "concat (map (stable_sort order_less) rs) \<noteq> []"
  proof -
    from ne obtain rs' q where rs: "rs = rs' @ [q]" by (cases rs rule: rev_exhaust) auto
    with ok have q: "one_section q" by (simp add: runs_ok_snoc)
    have "last (stable_sort order_less q) \<in> set q"
      by (metis last_in_set one_section_ne q set_empty set_stable_sort)
    from one_section_hd [OF q this]
    have l: "cl_Section (last (stable_sort order_less q)) = cl_Section (hd q)" .
    have "hd (stable_sort order_less r) \<in> set r"
      by (metis hd_in_set one_section_ne r set_empty set_stable_sort)
    from one_section_hd [OF r this]
    have h: "cl_Section (hd (stable_sort order_less r)) = cl_Section (hd r)" .
    have "stable_sort order_less q \<noteq> []"
      by (metis one_section_ne q set_empty set_stable_sort)
    with l h diff show ?thesis by (simp add: rs)
  qed
  ultimately show ?case
    using snoc.IH ok by (auto simp: successively_append_iff)
qed

text \<open>\<open>OrderClaims\<close> returns the claims it was given, leaves every section block where it was,
  keeps the incoming order of claims with the same \<open>Order\<close> value, and inside a section block never
  places a claim after one that should follow it.\<close>

theorem OrderClaims_spec:
  "mset (OrderClaims cs) = mset cs \<and>
   map cl_Section (OrderClaims cs) = map cl_Section cs \<and>
   filter (\<lambda>c. cl_Order c = k) (OrderClaims cs) = filter (\<lambda>c. cl_Order c = k) cs \<and>
   successively (\<lambda>a b. cl_Section a = cl_Section b \<longrightarrow> \<not> order_less b a) (OrderClaims cs)"
proof -
  let ?rs = "split_runs True [] [] cs"
  have ms: "mset (concat (map (stable_sort order_less) rs)) = mset (concat rs)" for rs
    by (induction rs) auto
  have sec: "map cl_Section (concat (map (stable_sort order_less) rs)) = map cl_Section (concat rs)"
    if "runs_ok rs" for rs
    using that
  proof (induction rs rule: rev_induct)
    case (snoc r rs)
    then show ?case by (simp add: runs_ok_snoc sections_of_run)
  qed simp
  have key: "(cl_Order c = k) = (order_key c = (k = 0, k))" for c
    by (auto simp: order_key_def)
  have fil: "filter (\<lambda>c. cl_Order c = k) (concat (map (stable_sort order_less) rs))
      = filter (\<lambda>c. cl_Order c = k) (concat rs)" for rs
    by (induction rs) (simp_all add: key ord.filter_stable_sort)
  show ?thesis
    using ms [of ?rs] sec [of ?rs] fil [of ?rs] successively_concat_runs [of ?rs] runs_of [of cs]
    by (simp add: OrderClaims_def)
qed

definition ordered_claim :: "string \<Rightarrow> string \<Rightarrow> int \<Rightarrow> claim" where
  "ordered_claim i sec ord = zero_claim\<lparr>cl_ID := i, cl_Section := sec, cl_Order := ord\<rparr>"

theorem OrderClaims_spec_witness:
  "map cl_ID (OrderClaims
     [ordered_claim ''a'' ''s'' 0, ordered_claim ''b'' ''s'' 2, ordered_claim ''c'' ''s'' 1,
      ordered_claim ''d'' ''t'' 0]) = [''c'', ''b'', ''a'', ''d''] \<and>
   successively (\<lambda>a b. cl_Section a = cl_Section b \<longrightarrow> \<not> order_less b a) (OrderClaims
     [ordered_claim ''a'' ''s'' 0, ordered_claim ''b'' ''s'' 2, ordered_claim ''c'' ''s'' 1,
      ordered_claim ''d'' ''t'' 0])"
  using OrderClaims_spec [of "[ordered_claim ''a'' ''s'' 0, ordered_claim ''b'' ''s'' 2,
      ordered_claim ''c'' ''s'' 1, ordered_claim ''d'' ''t'' 0]"]
  by (simp add: OrderClaims_def ordered_claim_def zero_claim_def order_less_def Let_def)

end
