(* ===== verification/Claim_Decode.thy ===== *)
theory Claim_Decode
  imports Claim_Model
begin

text \<open>
  The custom YAML decoders of \<^verbatim>\<open>internal/model\<close>: \<^verbatim>\<open>RestsOn\<close>, \<^verbatim>\<open>Row\<close> and \<^verbatim>\<open>Embodiment\<close>, over the node
  type yaml.v3 hands them, and the validation that puts an embodiment into canonical form. What
  yaml.v3 itself does (decoding a scalar into a Go value, encoding one) is a parameter.
\<close>

section \<open>YAML nodes\<close>

datatype ykind = DocumentNode | SequenceNode | MappingNode | ScalarNode | AliasNode

datatype ynode = YNode (yn_Kind: ykind) (yn_Tag: string) (yn_Value: string) (yn_Content: "ynode list")

text \<open>The loop \<^verbatim>\<open>for i := 0; i+1 < len(Content); i += 2\<close> of every mapping decoder.\<close>

fun node_pairs :: "ynode list \<Rightarrow> (ynode \<times> ynode) list" where
  "node_pairs (k # v # rest) = (k, v) # node_pairs rest"
| "node_pairs _ = []"

section \<open>RestsOn\<close>

definition RestsOnIDs :: "string list \<Rightarrow> rests_on" where
  "RestsOnIDs ids = zero_rests_on\<lparr>ro_IDs := ids\<rparr>"

definition RestsNone :: "string \<Rightarrow> rests_on" where
  "RestsNone reason = zero_rests_on\<lparr>ro_None := True, ro_Reason := reason\<rparr>"

definition RestsOn_Empty :: "rests_on \<Rightarrow> bool" where
  "RestsOn_Empty r \<longleftrightarrow> \<not> ro_None r \<and> length (ro_IDs r) = 0"

definition RestsOn_IsZero :: "rests_on \<Rightarrow> bool" where
  "RestsOn_IsZero r \<longleftrightarrow> \<not> ro_None r \<and> ro_Reason r = [] \<and> length (ro_IDs r) = 0"

datatype rests_error =
    RestsFieldNotFound string
  | RestsDecode string
  | RestsNoneWithTargets
  | RestsMappingNotNone
  | RestsItemNotScalar nat
  | RestsItemBlank nat
  | RestsBadShape

fun rests_keys :: "(ynode \<times> ynode) list \<Rightarrow> bool \<Rightarrow> rests_error + bool" where
  "rests_keys [] hasIDs = Inr hasIDs"
| "rests_keys ((k, v) # kvs) hasIDs =
     (if yn_Value k = ''none'' \<or> yn_Value k = ''reason'' then rests_keys kvs hasIDs
      else if yn_Value k = ''ids'' then rests_keys kvs True
      else Inl (RestsFieldNotFound (yn_Value k)))"

fun rests_items :: "nat \<Rightarrow> ynode list \<Rightarrow> string list \<Rightarrow> rests_error + string list" where
  "rests_items i [] ids = Inr ids"
| "rests_items i (item # items) ids =
     (if yn_Kind item \<noteq> ScalarNode then Inl (RestsItemNotScalar i)
      else if blank (yn_Value item) then Inl (RestsItemBlank i)
      else rests_items (Suc i) items (ids @ [yn_Value item]))"

text \<open>
  \<open>decode_raw\<close> is yaml.v3's \<^verbatim>\<open>node.Decode\<close> into the struct of a \<^verbatim>\<open>none\<close> bool and a \<^verbatim>\<open>reason\<close> string:
  an error text, or the two fields. A nil node is \<open>None\<close>.
\<close>

definition RestsOn_UnmarshalYAML ::
  "(ynode \<Rightarrow> string + (bool \<times> string)) \<Rightarrow> ynode option \<Rightarrow> rests_error + rests_on" where
  "RestsOn_UnmarshalYAML decode_raw value =
     (case value of
        None \<Rightarrow> Inr zero_rests_on
      | Some n \<Rightarrow>
          if yn_Kind n = ScalarNode \<and> (yn_Tag n = ''!!null'' \<or> yn_Value n = []) then Inr zero_rests_on
          else
            (case yn_Kind n of
               MappingNode \<Rightarrow>
                 (case rests_keys (node_pairs (yn_Content n)) False of
                    Inl e \<Rightarrow> Inl e
                  | Inr hasIDs \<Rightarrow>
                      (case decode_raw n of
                         Inl e \<Rightarrow> Inl (RestsDecode e)
                       | Inr (none, reason) \<Rightarrow>
                           if none \<and> hasIDs then Inl RestsNoneWithTargets
                           else if \<not> none then Inl RestsMappingNotNone
                           else Inr (zero_rests_on\<lparr>ro_None := True, ro_Reason := reason\<rparr>)))
             | SequenceNode \<Rightarrow>
                 (case rests_items 0 (yn_Content n) [] of
                    Inl e \<Rightarrow> Inl e
                  | Inr ids \<Rightarrow> Inr (zero_rests_on\<lparr>ro_IDs := ids\<rparr>))
             | _ \<Rightarrow> Inl RestsBadShape))"

text \<open>What \<^verbatim>\<open>MarshalYAML\<close> hands to yaml.v3: the two-key struct, nil, or the list.\<close>

datatype rests_yaml = RestsNoneYAML bool string | RestsNilYAML | RestsListYAML "string list"

definition RestsOn_MarshalYAML :: "rests_on \<Rightarrow> rests_yaml" where
  "RestsOn_MarshalYAML r =
     (if ro_None r then RestsNoneYAML True (ro_Reason r)
      else if length (ro_IDs r) = 0 then RestsNilYAML
      else RestsListYAML (ro_IDs r))"

text \<open>
  The node yaml.v3 builds for such a value: a mapping of the two keys in order, or a sequence of
  string scalars; nil writes no key at all, so nothing is decoded from it.
\<close>

definition str_node :: "string \<Rightarrow> ynode" where
  "str_node s = YNode ScalarNode ''!!str'' s []"

definition bool_node :: "bool \<Rightarrow> ynode" where
  "bool_node b = YNode ScalarNode ''!!bool'' (if b then ''true'' else ''false'') []"

fun rests_node :: "rests_yaml \<Rightarrow> ynode option" where
  "rests_node (RestsNoneYAML b r) =
     Some (YNode MappingNode ''!!map'' []
       [str_node ''none'', bool_node b, str_node ''reason'', str_node r])"
| "rests_node RestsNilYAML = None"
| "rests_node (RestsListYAML ids) = Some (YNode SequenceNode ''!!seq'' [] (map str_node ids))"

lemma str_node_simps [simp]:
  "yn_Kind (str_node s) = ScalarNode" "yn_Value (str_node s) = s" "yn_Tag (str_node s) = ''!!str''"
  by (simp_all add: str_node_def)

lemma rests_items_strs:
  "\<forall>x \<in> set xs. \<not> blank x \<Longrightarrow> rests_items i (map str_node xs) ids = Inr (ids @ xs)"
  by (induction xs arbitrary: i ids) auto

lemma rests_items_Inr:
  "rests_items i items ids = Inr out \<Longrightarrow>
   out = ids @ map yn_Value items \<and> (\<forall>n \<in> set items. yn_Kind n = ScalarNode \<and> \<not> blank (yn_Value n))"
  by (induction items arbitrary: i ids) (force split: if_splits)+

lemma rests_keys_Inr:
  "rests_keys kvs h = Inr b \<Longrightarrow>
   (\<forall>(k, v) \<in> set kvs. yn_Value k \<in> {''none'', ''reason'', ''ids''}) \<and>
   b = (h \<or> (\<exists>(k, v) \<in> set kvs. yn_Value k = ''ids''))"
  by (induction kvs h rule: rests_keys.induct) (auto split: if_splits)

text \<open>
  A declaration is \<^emph>\<open>writable\<close> when it is one of the two shapes \<^verbatim>\<open>RestsOn\<close> documents or undeclared:
  the stated absence names no target, a target list carries no reason and no blank id.
\<close>

definition rests_writable :: "rests_on \<Rightarrow> bool" where
  "rests_writable r \<longleftrightarrow>
     (if ro_None r then ro_IDs r = []
      else ro_Reason r = [] \<and> (\<forall>x \<in> set (ro_IDs r). \<not> blank x))"

lemma RestsOn_UnmarshalYAML_writable:
  "RestsOn_UnmarshalYAML dec v = Inr r \<Longrightarrow> rests_writable r"
  by (auto simp: RestsOn_UnmarshalYAML_def rests_writable_def zero_rests_on_def
      split: option.splits if_splits ykind.splits sum.splits prod.splits
      dest!: rests_items_Inr)

text \<open>a dependency declaration survives being written to a claim file and read back, for any
  yaml.v3 that decodes the two-key mapping it wrote; and every declaration the decoder accepts is
  one of those, so load, save and load again is the identity.\<close>

theorem RestsOn_roundtrip:
  assumes "\<And>b s n. rests_node (RestsNoneYAML b s) = Some n \<Longrightarrow> decode_raw n = Inr (b, s)"
    and "rests_writable r"
  shows "RestsOn_UnmarshalYAML decode_raw (rests_node (RestsOn_MarshalYAML r)) = Inr r"
proof (cases "ro_None r")
  case True
  have dec: "decode_raw (YNode MappingNode ''!!map'' []
       [str_node ''none'', bool_node True, str_node ''reason'', str_node (ro_Reason r)])
       = Inr (True, ro_Reason r)"
    by (rule assms(1)) simp
  from True assms(2) show ?thesis
    by (simp add: RestsOn_UnmarshalYAML_def RestsOn_MarshalYAML_def dec rests_writable_def
        zero_rests_on_def)
next
  case False
  with assms(2) show ?thesis
    by (auto simp: RestsOn_UnmarshalYAML_def RestsOn_MarshalYAML_def rests_writable_def
        zero_rests_on_def rests_items_strs)
qed

text \<open>A concrete decoder for the witness: it reads the two scalars by position.\<close>

definition pair_decoder :: "ynode \<Rightarrow> string + (bool \<times> string)" where
  "pair_decoder n =
     (case yn_Content n of
        [k, v, k', v'] \<Rightarrow> Inr (yn_Value v = ''true'', yn_Value v')
      | _ \<Rightarrow> Inl ''not the two-key mapping'')"

theorem RestsOn_roundtrip_witness:
  "RestsOn_UnmarshalYAML pair_decoder (rests_node (RestsOn_MarshalYAML (RestsNone ''first fact'')))
     = Inr (RestsNone ''first fact'') \<and>
   RestsOn_UnmarshalYAML pair_decoder
     (rests_node (RestsOn_MarshalYAML (RestsOnIDs [''a.contract.b'', ''project.c'']))) =
     Inr (RestsOnIDs [''a.contract.b'', ''project.c''])"
proof -
  have d: "\<And>b s n. rests_node (RestsNoneYAML b s) = Some n \<Longrightarrow> pair_decoder n = Inr (b, s)"
    by (auto simp: pair_decoder_def bool_node_def)
  have w1: "rests_writable (RestsNone ''first fact'')"
    by (simp add: rests_writable_def RestsNone_def zero_rests_on_def)
  have w2: "rests_writable (RestsOnIDs [''a.contract.b'', ''project.c''])"
    by (simp add: rests_writable_def RestsOnIDs_def zero_rests_on_def space_heads_def)
  from RestsOn_roundtrip [OF d w1] RestsOn_roundtrip [OF d w2] show ?thesis by simp
qed

section \<open>Rows\<close>

text \<open>
  \<open>dec_key\<close>, \<open>dec_any\<close> are \<^verbatim>\<open>node.Decode\<close> into a string and into an \<^verbatim>\<open>any\<close>; \<open>enc_key\<close>, \<open>enc_any\<close>
  are \<^verbatim>\<open>node.Encode\<close>. Each may fail with an error text.
\<close>

datatype row_error = RowNotMapping | RowKey string | RowValue string string

fun row_loop ::
  "(ynode \<Rightarrow> string + string) \<Rightarrow> (ynode \<Rightarrow> string + cell) \<Rightarrow> (ynode \<times> ynode) list \<Rightarrow>
   row \<Rightarrow> string list \<Rightarrow> row_error + (row \<times> string list)" where
  "row_loop dec_key dec_any [] out order = Inr (out, order)"
| "row_loop dec_key dec_any ((k, v) # kvs) out order =
     (case dec_key k of
        Inl e \<Rightarrow> Inl (RowKey e)
      | Inr key \<Rightarrow>
          (case dec_any v of
             Inl e \<Rightarrow> Inl (RowValue key e)
           | Inr val \<Rightarrow> row_loop dec_key dec_any kvs (gm_put key val out) (order @ [key])))"

definition Row_UnmarshalYAML ::
  "(ynode \<Rightarrow> string + string) \<Rightarrow> (ynode \<Rightarrow> string + cell) \<Rightarrow> ynode \<Rightarrow> row_error + row" where
  "Row_UnmarshalYAML dec_key dec_any n =
     (if yn_Kind n \<noteq> MappingNode then Inl RowNotMapping
      else
        (case row_loop dec_key dec_any (node_pairs (yn_Content n)) [] [] of
           Inl e \<Rightarrow> Inl e
         | Inr (out, order) \<Rightarrow> Inr (gm_put rowOrderKey (VStrings order) out)))"

text \<open>A row with a captured order becomes a mapping node, any other row a plain map without the
  order entry. Reading an absent column gives the nil value.\<close>

datatype row_yaml = RowNode ynode | RowMap row

definition row_at :: "row \<Rightarrow> string \<Rightarrow> cell" where
  "row_at r k = (case gm_get r k of None \<Rightarrow> VNil | Some v \<Rightarrow> v)"

fun row_nodes ::
  "(string \<Rightarrow> string + ynode) \<Rightarrow> (cell \<Rightarrow> string + ynode) \<Rightarrow> row \<Rightarrow> string list \<Rightarrow>
   ynode list \<Rightarrow> row_error + ynode list" where
  "row_nodes enc_key enc_any r [] content = Inr content"
| "row_nodes enc_key enc_any r (k # ks) content =
     (case enc_key k of
        Inl e \<Rightarrow> Inl (RowKey e)
      | Inr kn \<Rightarrow>
          (case enc_any (row_at r k) of
             Inl e \<Rightarrow> Inl (RowValue k e)
           | Inr vn \<Rightarrow> row_nodes enc_key enc_any r ks (content @ [kn, vn])))"

definition Row_MarshalYAML ::
  "(string \<Rightarrow> string + ynode) \<Rightarrow> (cell \<Rightarrow> string + ynode) \<Rightarrow> row \<Rightarrow> row_error + row_yaml" where
  "Row_MarshalYAML enc_key enc_any r =
     (case RowColumns r of
        Some order \<Rightarrow>
          (case row_nodes enc_key enc_any r order [] of
             Inl e \<Rightarrow> Inl e
           | Inr content \<Rightarrow> Inr (RowNode (YNode MappingNode [] [] content)))
      | None \<Rightarrow>
          if gm_get r rowOrderKey = None then Inr (RowMap r)
          else Inr (RowMap (gm_del rowOrderKey r)))"

text \<open>What the decoding loop computes: columns put in authored order, and that order.\<close>

fun put_all :: "(string \<times> cell) list \<Rightarrow> row \<Rightarrow> row" where
  "put_all [] out = out"
| "put_all ((k, v) # kvs) out = put_all kvs (gm_put k v out)"

lemma row_loop_Inr:
  "row_loop dk da kvs out order = Inr (out', order') \<Longrightarrow>
   \<exists>pairs. out' = put_all pairs out \<and> order' = order @ map fst pairs \<and>
     (\<forall>(k, v) \<in> set pairs. (\<exists>m. dk m = Inr k) \<and> (\<exists>m. da m = Inr v))"
proof (induction dk da kvs out order rule: row_loop.induct)
  case (1 dk da out order)
  then show ?case by (auto intro: exI [of _ "[]"])
next
  case (2 dk da k v kvs out order)
  then obtain key val where kv: "dk k = Inr key" "da v = Inr val"
    and rest: "row_loop dk da kvs (gm_put key val out) (order @ [key]) = Inr (out', order')"
    by (auto split: sum.splits)
  from 2(1) [OF kv rest] obtain pairs
    where "out' = put_all pairs (gm_put key val out)" "order' = (order @ [key]) @ map fst pairs"
      "\<forall>(k, v) \<in> set pairs. (\<exists>m. dk m = Inr k) \<and> (\<exists>m. da m = Inr v)"
    by blast
  with kv show ?case by (intro exI [of _ "(key, val) # pairs"]) auto
qed

lemma put_all_wf: "gm_wf out \<Longrightarrow> gm_wf (put_all pairs out)"
  by (induction pairs out rule: put_all.induct) auto

lemma put_all_keys:
  "map fst pairs = map fst pairs' \<Longrightarrow> map fst out = map fst out' \<Longrightarrow>
   map fst (put_all pairs out) = map fst (put_all pairs' out')"
proof (induction pairs arbitrary: pairs' out out')
  case Nil
  then show ?case by simp
next
  case (Cons p ps)
  obtain k v where p: "p = (k, v)" by force
  with Cons.prems(1) obtain w ps' where ps': "pairs' = (k, w) # ps'" "map fst ps = map fst ps'"
    by (cases pairs') auto
  have "map fst (gm_put k v out) = map fst (gm_put k w out')"
    using Cons.prems(2) by (metis list.set_map update_keys)
  from Cons.IH [OF ps'(2) this] show ?case by (simp add: p ps')
qed

lemma put_all_get:
  "gm_get (put_all pairs out) j =
   (case gm_get (rev pairs) j of Some v \<Rightarrow> Some v | None \<Rightarrow> gm_get out j)"
  by (induction pairs out rule: put_all.induct) (auto simp: map_add_def split: option.splits)

lemma gomap_eqI:
  assumes "map fst m = map fst m'" "gm_wf m" "\<And>j. gm_get m j = gm_get m' j"
  shows "m = m'"
proof (rule nth_equalityI)
  from assms(1) show len: "length m = length m'" by (metis length_map)
  fix i assume i: "i < length m"
  obtain k v where kv: "m ! i = (k, v)" by force
  obtain k' v' where kv': "m' ! i = (k', v')" by force
  from assms(1) i len kv kv' have "k' = k" by (metis fst_conv nth_map)
  moreover have "gm_get m k = Some v" using assms(2) i kv by (metis gm_get_mem nth_mem)
  moreover have "gm_get m' k' = Some v'"
    using assms(1,2) i len kv' by (metis gm_get_mem nth_mem)
  ultimately have "v' = v" using assms(3) by (metis option.inject)
  with \<open>k' = k\<close> kv kv' show "m ! i = m' ! i" by simp
qed

lemma map_of_graph: "map_of (map (\<lambda>k. (k, f k)) ks) j = (if j \<in> set ks then Some (f j) else None)"
  by (induction ks) auto

text \<open>Putting the final values again, in the same order, rebuilds the same map.\<close>

lemma put_all_again:
  assumes out: "out = put_all pairs []"
  shows "put_all (map (\<lambda>k. (k, row_at out k)) (map fst pairs)) [] = out"
proof (rule gomap_eqI)
  let ?again = "map (\<lambda>k. (k, row_at out k)) (map fst pairs)"
  show "map fst (put_all ?again []) = map fst out"
    unfolding out by (rule put_all_keys) (simp_all add: comp_def)
  show "gm_wf (put_all ?again [])" by (rule put_all_wf) simp
  fix j
  show "gm_get (put_all ?again []) j = gm_get out j"
  proof (cases "j \<in> fst ` set pairs")
    case True
    have "rev ?again = map (\<lambda>k. (k, row_at out k)) (rev (map fst pairs))"
      by (simp add: rev_map)
    with True have "gm_get (rev ?again) j = Some (row_at out j)"
      by (simp add: map_of_graph)
    moreover have "gm_get out j \<noteq> None"
      using True unfolding out put_all_get by (auto simp: map_of_eq_None_iff split: option.splits)
    ultimately show ?thesis by (auto simp: put_all_get row_at_def)
  next
    case False
    then have "gm_get (rev ?again) j = None" and "gm_get (rev pairs) j = None"
      by (force simp: map_of_eq_None_iff)+
    then show ?thesis by (simp add: put_all_get out)
  qed
qed

lemma row_nodes_Inr:
  "(\<forall>k \<in> set ks. enc_key k = Inr (ek k) \<and> enc_any (row_at r k) = Inr (ea (row_at r k))) \<Longrightarrow>
   row_nodes enc_key enc_any r ks content =
     Inr (content @ concat (map (\<lambda>k. [ek k, ea (row_at r k)]) ks))"
  by (induction ks arbitrary: content) auto

lemma row_loop_nodes:
  "(\<forall>k \<in> set ks. dk (ek k) = Inr k \<and> da (ea (f k)) = Inr (f k)) \<Longrightarrow>
   row_loop dk da (node_pairs (concat (map (\<lambda>k. [ek k, ea (f k)]) ks))) out order =
     Inr (put_all (map (\<lambda>k. (k, f k)) ks) out, order @ ks)"
  by (induction ks arbitrary: out order) auto

lemma row_at_put_other: "k \<noteq> j \<Longrightarrow> row_at (gm_put j v r) k = row_at r k"
  by (simp add: row_at_def)

lemma row_at_put_all:
  "k \<in> fst ` set pairs \<Longrightarrow> (k, row_at (put_all pairs []) k) \<in> set pairs"
  by (auto simp: row_at_def put_all_get split: option.splits dest: map_of_SomeD)
    (force simp: map_of_eq_None_iff)

text \<open>A table row keeps its cells and its authored column order through save and load, also
  when a column name was written twice: whatever the decoder produced from a file is written to a
  node that decodes to the same row. The YAML library's own scalar codec is assumed to be a round
  trip on what it decoded, and a YAML key never starts with the NUL byte.\<close>

theorem Row_roundtrip:
  assumes row: "Row_UnmarshalYAML dec_key dec_any n = Inr r"
    and no_nul: "\<And>m k. dec_key m = Inr k \<Longrightarrow> k \<noteq> rowOrderKey"
    and key_codec: "\<And>m k. dec_key m = Inr k \<Longrightarrow> enc_key k = Inr (ek k) \<and> dec_key (ek k) = Inr k"
    and any_codec: "\<And>m v. dec_any m = Inr v \<Longrightarrow> enc_any v = Inr (ea v) \<and> dec_any (ea v) = Inr v"
  shows "\<exists>n'. Row_MarshalYAML enc_key enc_any r = Inr (RowNode n') \<and>
              Row_UnmarshalYAML dec_key dec_any n' = Inr r"
proof -
  from row obtain out order where
    loop: "row_loop dec_key dec_any (node_pairs (yn_Content n)) [] [] = Inr (out, order)"
    and r: "r = gm_put rowOrderKey (VStrings order) out"
    by (auto simp: Row_UnmarshalYAML_def split: if_splits sum.splits)
  from row_loop_Inr [OF loop] obtain pairs where
    out: "out = put_all pairs []" and order: "order = map fst pairs"
    and src: "\<forall>(k, v) \<in> set pairs. (\<exists>m. dec_key m = Inr k) \<and> (\<exists>m. dec_any m = Inr v)"
    by auto
  have keys: "k \<noteq> rowOrderKey \<and> enc_key k = Inr (ek k) \<and> dec_key (ek k) = Inr k" if "k \<in> set order" for k
    using that src no_nul key_codec by (fastforce simp: order)
  have at: "row_at r k = row_at out k" if "k \<in> set order" for k
    using keys [OF that] by (auto simp: r row_at_put_other)
  have cells: "enc_any (row_at r k) = Inr (ea (row_at r k)) \<and> dec_any (ea (row_at r k)) = Inr (row_at r k)"
    if "k \<in> set order" for k
    using row_at_put_all [of k pairs] src any_codec at [OF that] that
    by (fastforce simp: order out)
  let ?n' = "YNode MappingNode [] [] (concat (map (\<lambda>k. [ek k, ea (row_at r k)]) order))"
  have "RowColumns r = Some order" by (simp add: RowColumns_def r)
  then have marshal: "Row_MarshalYAML enc_key enc_any r = Inr (RowNode ?n')"
    using keys cells by (simp add: Row_MarshalYAML_def row_nodes_Inr [of order enc_key ek enc_any r ea])
  have "map (\<lambda>k. (k, row_at r k)) order = map (\<lambda>k. (k, row_at out k)) (map fst pairs)"
    using at by (auto simp: order)
  then have again: "put_all (map (\<lambda>k. (k, row_at r k)) order) [] = out"
    using put_all_again [OF out] by simp
  have "row_loop dec_key dec_any (node_pairs (yn_Content ?n')) [] [] = Inr (out, order)"
    using row_loop_nodes [of order dec_key ek dec_any ea "row_at r" "[]" "[]"] keys cells again by simp
  then have "Row_UnmarshalYAML dec_key dec_any ?n' = Inr r"
    by (simp add: Row_UnmarshalYAML_def r)
  with marshal show ?thesis by blast
qed

text \<open>For the witness: the codec of a file whose keys and cells are all strings.\<close>

definition key_codec_dec :: "ynode \<Rightarrow> string + string" where
  "key_codec_dec n =
     (if yn_Value n = rowOrderKey then Inl ''NUL in a scalar'' else Inr (yn_Value n))"

definition cell_codec_dec :: "ynode \<Rightarrow> string + cell" where
  "cell_codec_dec n = Inr (VStr (yn_Value n))"

definition two_column_node :: ynode where
  "two_column_node =
     YNode MappingNode ''!!map'' []
       [str_node ''b'', str_node ''1'', str_node ''a'', str_node ''2'']"

theorem Row_roundtrip_witness:
  "Row_UnmarshalYAML key_codec_dec cell_codec_dec two_column_node =
     Inr [(''b'', VStr ''1''), (''a'', VStr ''2''), (rowOrderKey, VStrings [''b'', ''a''])] \<and>
   (\<exists>n'. Row_MarshalYAML (\<lambda>k. Inr (str_node k)) (\<lambda>v. Inr (str_node (rowCellText v)))
           [(''b'', VStr ''1''), (''a'', VStr ''2''), (rowOrderKey, VStrings [''b'', ''a''])] =
           Inr (RowNode n') \<and>
         Row_UnmarshalYAML key_codec_dec cell_codec_dec n' =
           Inr [(''b'', VStr ''1''), (''a'', VStr ''2''), (rowOrderKey, VStrings [''b'', ''a''])])"
proof -
  let ?r = "[(''b'', VStr ''1''), (''a'', VStr ''2''), (rowOrderKey, VStrings [''b'', ''a''])]"
  have dec: "Row_UnmarshalYAML key_codec_dec cell_codec_dec two_column_node = Inr ?r"
    by (simp add: Row_UnmarshalYAML_def two_column_node_def key_codec_dec_def cell_codec_dec_def
        rowOrderKey_def)
  moreover have "\<exists>n'. Row_MarshalYAML (\<lambda>k. Inr (str_node k)) (\<lambda>v. Inr (str_node (rowCellText v))) ?r
      = Inr (RowNode n') \<and> Row_UnmarshalYAML key_codec_dec cell_codec_dec n' = Inr ?r"
    by (rule Row_roundtrip [OF dec, where ek = str_node and ea = "\<lambda>v. str_node (rowCellText v)"])
      (auto simp: key_codec_dec_def cell_codec_dec_def rowCellText_def split: if_splits)
  ultimately show ?thesis by blast
qed

end
