(* ===== verification/Embodiment.thy ===== *)
theory Embodiment
  imports Claim_Decode
begin

text \<open>
  \<^verbatim>\<open>internal/model/embodiment.go\<close>: the strict decoders of an embodiment declaration and
  \<^verbatim>\<open>ValidateEmbodiment\<close>, which refuses a malformed declaration and puts a well-formed one into
  canonical order. \<open>dec_seq\<close> and \<open>dec_one\<close> are yaml.v3's \<^verbatim>\<open>node.Decode\<close> of a sequence and of one
  value through the item's own \<^verbatim>\<open>UnmarshalYAML\<close>.
\<close>

definition EmbodimentModeCompare :: string where
  "EmbodimentModeCompare = ''compare''"

definition EmbodimentModeNone :: string where
  "EmbodimentModeNone = ''none''"

definition ExpectationShapeSet :: string where
  "ExpectationShapeSet = ''set''"

definition ExpectationShapeScalar :: string where
  "ExpectationShapeScalar = ''scalar''"

lemmas emb_names =
  EmbodimentModeCompare_def EmbodimentModeNone_def ExpectationShapeSet_def ExpectationShapeScalar_def

section \<open>Decoding\<close>

datatype emb_error =
    NotMapping string
  | DuplicateField string string
  | UnknownField string string
  | NotString string
  | NotStringAt string nat
  | NotStringSequence string
  | ChecksNotSequence

definition strictYAMLString :: "ynode \<Rightarrow> emb_error \<Rightarrow> emb_error + string" where
  "strictYAMLString n err =
     (if yn_Kind n \<noteq> ScalarNode \<or> yn_Tag n \<noteq> ''!!str'' then Inl err else Inr (yn_Value n))"

fun strict_members :: "string \<Rightarrow> nat \<Rightarrow> ynode list \<Rightarrow> emb_error + string list" where
  "strict_members field i [] = Inr []"
| "strict_members field i (m # ms) =
     (case strictYAMLString m (NotStringAt field i) of
        Inl e \<Rightarrow> Inl e
      | Inr v \<Rightarrow>
          (case strict_members field (Suc i) ms of
             Inl e \<Rightarrow> Inl e
           | Inr vs \<Rightarrow> Inr (v # vs)))"

definition strictYAMLStringSequence :: "ynode \<Rightarrow> string \<Rightarrow> emb_error + string list" where
  "strictYAMLStringSequence n field =
     (if yn_Kind n \<noteq> SequenceNode \<or> yn_Tag n \<noteq> ''!!seq'' then Inl (NotStringSequence field)
      else strict_members field 0 (yn_Content n))"

fun expectation_keys ::
  "(ynode \<times> ynode) list \<Rightarrow> (string \<times> ynode) list \<Rightarrow> emb_error + (string \<times> ynode) list" where
  "expectation_keys [] seen = Inr seen"
| "expectation_keys ((k, v) # kvs) seen =
     (if gm_get seen (yn_Value k) \<noteq> None then Inl (DuplicateField ''expectation'' (yn_Value k))
      else if yn_Value k \<noteq> ''shape'' \<and> yn_Value k \<noteq> ''value'' then
        Inl (UnknownField ''model.EmbodimentExpectation'' (yn_Value k))
      else expectation_keys kvs (gm_put (yn_Value k) v seen))"

definition expectation_shape :: "ynode option \<Rightarrow> emb_error + string" where
  "expectation_shape sn =
     (case sn of None \<Rightarrow> Inr [] | Some n \<Rightarrow> strictYAMLString n (NotString ''expectation.shape''))"

definition expectation_value :: "string \<Rightarrow> ynode option \<Rightarrow> emb_error + exp_value" where
  "expectation_value shape vn =
     (case vn of
        None \<Rightarrow> Inr EVNil
      | Some n \<Rightarrow>
          if shape = ExpectationShapeSet then
            map_sum id EVSet (strictYAMLStringSequence n ''expectation.value'')
          else if shape = ExpectationShapeScalar then
            map_sum id EVScalar (strictYAMLString n (NotString ''expectation.value''))
          else Inr EVNil)"

definition Expectation_UnmarshalYAML :: "ynode \<Rightarrow> emb_error + expectation" where
  "Expectation_UnmarshalYAML n =
     (if yn_Kind n \<noteq> MappingNode then Inl (NotMapping ''expectation'')
      else
        (case expectation_keys (node_pairs (yn_Content n)) [] of
           Inl e \<Rightarrow> Inl e
         | Inr seen \<Rightarrow>
             (case expectation_shape (gm_get seen ''shape'') of
                Inl e \<Rightarrow> Inl e
              | Inr shape \<Rightarrow>
                  (case expectation_value shape (gm_get seen ''value'') of
                     Inl e \<Rightarrow> Inl e
                   | Inr v \<Rightarrow> Inr \<lparr>ex_Shape = shape, ex_Value = v\<rparr>))))"

definition zero_check :: emb_check where
  "zero_check = \<lparr>ec_ID = [], ec_Adapter = [], ec_Target = [], ec_Expectation = None\<rparr>"

fun check_fields ::
  "((ynode \<Rightarrow> emb_error + expectation) \<Rightarrow> ynode \<Rightarrow> emb_error + expectation) \<Rightarrow>
   (ynode \<times> ynode) list \<Rightarrow> string list \<Rightarrow> emb_check \<Rightarrow> emb_error + emb_check" where
  "check_fields dec_one [] seen c = Inr c"
| "check_fields dec_one ((k, v) # kvs) seen c =
     (let key = yn_Value k in
      if key \<in> set seen then Inl (DuplicateField ''embodiment check'' key)
      else if key = ''id'' then
        (case strictYAMLString v (NotString ''check.id'') of
           Inl e \<Rightarrow> Inl e | Inr s \<Rightarrow> check_fields dec_one kvs (key # seen) (c\<lparr>ec_ID := s\<rparr>))
      else if key = ''adapter'' then
        (case strictYAMLString v (NotString ''check.adapter'') of
           Inl e \<Rightarrow> Inl e | Inr s \<Rightarrow> check_fields dec_one kvs (key # seen) (c\<lparr>ec_Adapter := s\<rparr>))
      else if key = ''target'' then
        (case strictYAMLString v (NotString ''check.target'') of
           Inl e \<Rightarrow> Inl e | Inr s \<Rightarrow> check_fields dec_one kvs (key # seen) (c\<lparr>ec_Target := s\<rparr>))
      else if key = ''expectation'' then
        (if yn_Tag v \<noteq> ''!!null'' then
           (case dec_one Expectation_UnmarshalYAML v of
              Inl e \<Rightarrow> Inl e
            | Inr x \<Rightarrow> check_fields dec_one kvs (key # seen) (c\<lparr>ec_Expectation := Some x\<rparr>))
         else check_fields dec_one kvs (key # seen) c)
      else Inl (UnknownField ''model.EmbodimentCheck'' key))"

definition Check_UnmarshalYAML ::
  "((ynode \<Rightarrow> emb_error + expectation) \<Rightarrow> ynode \<Rightarrow> emb_error + expectation) \<Rightarrow>
   ynode \<Rightarrow> emb_error + emb_check" where
  "Check_UnmarshalYAML dec_one n =
     (if yn_Kind n \<noteq> MappingNode then Inl (NotMapping ''embodiment check'')
      else check_fields dec_one (node_pairs (yn_Content n)) [] zero_check)"

definition zero_embodiment :: embodiment where
  "zero_embodiment =
     \<lparr>em_Mode = [], em_Checks = [], em_Reason = [], em_checksPresent = False,
      em_reasonPresent = False\<rparr>"

fun embodiment_fields ::
  "(ynode \<Rightarrow> emb_error + emb_check list) \<Rightarrow>
   (ynode \<times> ynode) list \<Rightarrow> string list \<Rightarrow> embodiment \<Rightarrow> emb_error + embodiment" where
  "embodiment_fields dec_checks [] seen e = Inr e"
| "embodiment_fields dec_checks ((k, v) # kvs) seen e =
     (let key = yn_Value k in
      if key \<in> set seen then Inl (DuplicateField ''embodiment'' key)
      else if key = ''mode'' then
        (case strictYAMLString v (NotString ''embodiment.mode'') of
           Inl er \<Rightarrow> Inl er | Inr s \<Rightarrow> embodiment_fields dec_checks kvs (key # seen) (e\<lparr>em_Mode := s\<rparr>))
      else if key = ''checks'' then
        (if yn_Kind v \<noteq> SequenceNode \<or> yn_Tag v \<noteq> ''!!seq'' then Inl ChecksNotSequence
         else
           (case dec_checks v of
              Inl er \<Rightarrow> Inl er
            | Inr cs \<Rightarrow>
                embodiment_fields dec_checks kvs (key # seen)
                  (e\<lparr>em_checksPresent := True, em_Checks := cs\<rparr>)))
      else if key = ''reason'' then
        (case strictYAMLString v (NotString ''embodiment.reason'') of
           Inl er \<Rightarrow> Inl er
         | Inr s \<Rightarrow>
             embodiment_fields dec_checks kvs (key # seen)
               (e\<lparr>em_reasonPresent := True, em_Reason := s\<rparr>))
      else Inl (UnknownField ''model.Embodiment'' key))"

definition Embodiment_UnmarshalYAML ::
  "((ynode \<Rightarrow> emb_error + emb_check) \<Rightarrow> ynode \<Rightarrow> emb_error + emb_check list) \<Rightarrow>
   ((ynode \<Rightarrow> emb_error + expectation) \<Rightarrow> ynode \<Rightarrow> emb_error + expectation) \<Rightarrow>
   ynode \<Rightarrow> emb_error + embodiment" where
  "Embodiment_UnmarshalYAML dec_seq dec_one n =
     (if yn_Kind n \<noteq> MappingNode then Inl (NotMapping ''embodiment'')
      else embodiment_fields (dec_seq (Check_UnmarshalYAML dec_one)) (node_pairs (yn_Content n)) []
             zero_embodiment)"

section \<open>Validation\<close>

datatype emb_invalid =
    ReasonWithCompare
  | NoChecks
  | CheckIDBlank nat
  | CheckIDDuplicate string
  | CheckAdapterBlank nat
  | CheckTargetBlank nat
  | AddressDuplicate string string
  | ExpectationMissing nat
  | SetNotStrings nat
  | SetEmpty nat
  | SetMemberBlank nat nat
  | SetMemberDuplicate nat string
  | ScalarNotString nat
  | ScalarBlank nat
  | ShapeUnsupported nat string
  | NoneReasonBlank
  | NoneWithChecks
  | ModeUnsupported string

fun members_loop :: "nat \<Rightarrow> nat \<Rightarrow> string list \<Rightarrow> string list \<Rightarrow> emb_invalid option" where
  "members_loop ci i seen [] = None"
| "members_loop ci i seen (v # vs) =
     (if blank v then Some (SetMemberBlank ci i)
      else if v \<in> set seen then Some (SetMemberDuplicate ci v)
      else members_loop ci (Suc i) (v # seen) vs)"

definition validateSetMembers :: "nat \<Rightarrow> string list \<Rightarrow> emb_invalid option" where
  "validateSetMembers ci values =
     (if length values = 0 then Some (SetEmpty ci) else members_loop ci 0 [] values)"

definition validateExpectation :: "nat \<Rightarrow> expectation \<Rightarrow> emb_invalid + expectation" where
  "validateExpectation ci x =
     (if ex_Shape x = ExpectationShapeSet then
        (case ex_Value x of
           EVSet values \<Rightarrow>
             (case validateSetMembers ci values of
                Some e \<Rightarrow> Inl e
              | None \<Rightarrow> Inr (x\<lparr>ex_Value := EVSet (sort values)\<rparr>))
         | _ \<Rightarrow> Inl (SetNotStrings ci))
      else if ex_Shape x = ExpectationShapeScalar then
        (case ex_Value x of
           EVScalar v \<Rightarrow> if blank v then Inl (ScalarBlank ci) else Inr x
         | _ \<Rightarrow> Inl (ScalarNotString ci))
      else Inl (ShapeUnsupported ci (ex_Shape x)))"

fun validate_checks ::
  "nat \<Rightarrow> string list \<Rightarrow> (string \<times> string) list \<Rightarrow> emb_check list \<Rightarrow> emb_invalid + emb_check list" where
  "validate_checks i ids addresses [] = Inr []"
| "validate_checks i ids addresses (c # cs) =
     (if blank (ec_ID c) then Inl (CheckIDBlank i)
      else if ec_ID c \<in> set ids then Inl (CheckIDDuplicate (ec_ID c))
      else if blank (ec_Adapter c) then Inl (CheckAdapterBlank i)
      else if blank (ec_Target c) then Inl (CheckTargetBlank i)
      else if (ec_Adapter c, ec_Target c) \<in> set addresses then
        Inl (AddressDuplicate (ec_Adapter c) (ec_Target c))
      else
        (case ec_Expectation c of
           None \<Rightarrow> Inl (ExpectationMissing i)
         | Some x \<Rightarrow>
             (case validateExpectation i x of
                Inl e \<Rightarrow> Inl e
              | Inr x' \<Rightarrow>
                  (case validate_checks (Suc i) (ec_ID c # ids)
                          ((ec_Adapter c, ec_Target c) # addresses) cs of
                     Inl e \<Rightarrow> Inl e
                   | Inr cs' \<Rightarrow> Inr (c\<lparr>ec_Expectation := Some x'\<rparr> # cs')))))"

definition validate_embodiment :: "embodiment \<Rightarrow> emb_invalid + embodiment" where
  "validate_embodiment e =
     (if em_Mode e = EmbodimentModeCompare then
        (if em_reasonPresent e \<or> em_Reason e \<noteq> [] then Inl ReasonWithCompare
         else if length (em_Checks e) = 0 then Inl NoChecks
         else
           (case validate_checks 0 [] [] (em_Checks e) of
              Inl er \<Rightarrow> Inl er
            | Inr cs \<Rightarrow> Inr (e\<lparr>em_Checks := sort_key ec_ID cs\<rparr>)))
      else if em_Mode e = EmbodimentModeNone then
        (if blank (em_Reason e) then Inl NoneReasonBlank
         else if em_checksPresent e \<or> length (em_Checks e) \<noteq> 0 then Inl NoneWithChecks
         else Inr e)
      else Inl (ModeUnsupported (em_Mode e)))"

text \<open>\<^verbatim>\<open>ValidateEmbodiment\<close> works on the claim's embodiment in place; a nil claim is \<open>None\<close>.\<close>

definition ValidateEmbodiment :: "claim option \<Rightarrow> emb_invalid + claim option" where
  "ValidateEmbodiment oc =
     (case oc of
        None \<Rightarrow> Inr None
      | Some c \<Rightarrow>
          (case cl_Embodiment c of
             None \<Rightarrow> Inr (Some c)
           | Some e \<Rightarrow>
               (case validate_embodiment e of
                  Inl er \<Rightarrow> Inl er
                | Inr e' \<Rightarrow> Inr (Some (c\<lparr>cl_Embodiment := Some e'\<rparr>)))))"

section \<open>What validation establishes\<close>

definition canonical_expectation :: "expectation \<Rightarrow> bool" where
  "canonical_expectation x \<longleftrightarrow>
     (case ex_Value x of
        EVSet vs \<Rightarrow>
          ex_Shape x = ExpectationShapeSet \<and> vs \<noteq> [] \<and> sorted vs \<and> distinct vs \<and>
          (\<forall>v \<in> set vs. \<not> blank v)
      | EVScalar v \<Rightarrow> ex_Shape x = ExpectationShapeScalar \<and> \<not> blank v
      | EVNil \<Rightarrow> False
      | EVList vs \<Rightarrow> False)"

definition canonical_check :: "emb_check \<Rightarrow> bool" where
  "canonical_check c \<longleftrightarrow>
     \<not> blank (ec_ID c) \<and> \<not> blank (ec_Adapter c) \<and> \<not> blank (ec_Target c) \<and>
     (\<exists>x. ec_Expectation c = Some x \<and> canonical_expectation x)"

definition canonical_embodiment :: "embodiment \<Rightarrow> bool" where
  "canonical_embodiment e \<longleftrightarrow>
     (if em_Mode e = EmbodimentModeCompare then
        \<not> em_reasonPresent e \<and> em_Reason e = [] \<and> em_Checks e \<noteq> [] \<and>
        (\<forall>c \<in> set (em_Checks e). canonical_check c) \<and>
        sorted_wrt (<) (map ec_ID (em_Checks e)) \<and>
        distinct (map (\<lambda>c. (ec_Adapter c, ec_Target c)) (em_Checks e))
      else
        em_Mode e = EmbodimentModeNone \<and> \<not> blank (em_Reason e) \<and>
        \<not> em_checksPresent e \<and> em_Checks e = [])"

lemma members_loop_None:
  "members_loop ci i seen vs = None \<longleftrightarrow>
   (\<forall>v \<in> set vs. \<not> blank v) \<and> distinct vs \<and> set vs \<inter> set seen = {}"
  by (induction ci i seen vs rule: members_loop.induct) auto

lemma shapes_differ [simp]: "ExpectationShapeSet \<noteq> ExpectationShapeScalar"
  "ExpectationShapeScalar \<noteq> ExpectationShapeSet"
  by (simp_all add: emb_names)

lemma modes_differ [simp]: "EmbodimentModeCompare \<noteq> EmbodimentModeNone"
  "EmbodimentModeNone \<noteq> EmbodimentModeCompare"
  by (simp_all add: emb_names)

lemma validateSetMembers_None:
  "validateSetMembers ci vs = None \<longleftrightarrow> vs \<noteq> [] \<and> distinct vs \<and> (\<forall>v \<in> set vs. \<not> blank v)"
  by (auto simp: validateSetMembers_def members_loop_None)

lemma validateExpectation_canonical:
  "validateExpectation ci x = Inr x' \<Longrightarrow> canonical_expectation x'"
  by (auto simp: validateExpectation_def canonical_expectation_def validateSetMembers_None
      split: if_splits exp_value.splits option.splits)

lemma validateExpectation_fix:
  assumes "canonical_expectation x"
  shows "validateExpectation ci x = Inr x"
proof (cases "ex_Value x")
  case (EVSet vs)
  with assms have "validateSetMembers ci vs = None" "ex_Shape x = ExpectationShapeSet" "sorted vs"
    by (auto simp: canonical_expectation_def validateSetMembers_None)
  with EVSet show ?thesis by (simp add: validateExpectation_def sorted_sort_id)
qed (use assms in \<open>auto simp: canonical_expectation_def validateExpectation_def\<close>)

lemma validate_checks_Inr:
  "validate_checks i ids ads cs = Inr cs' \<Longrightarrow>
   map ec_ID cs' = map ec_ID cs \<and>
   map (\<lambda>c. (ec_ID c, ec_Adapter c, ec_Target c)) cs' =
     map (\<lambda>c. (ec_ID c, ec_Adapter c, ec_Target c)) cs \<and>
   map (\<lambda>c. (ec_Adapter c, ec_Target c)) cs' = map (\<lambda>c. (ec_Adapter c, ec_Target c)) cs \<and>
   (\<forall>c \<in> set cs'. canonical_check c) \<and>
   distinct (map ec_ID cs) \<and> set (map ec_ID cs) \<inter> set ids = {} \<and>
   distinct (map (\<lambda>c. (ec_Adapter c, ec_Target c)) cs) \<and>
   set (map (\<lambda>c. (ec_Adapter c, ec_Target c)) cs) \<inter> set ads = {}"
proof (induction i ids ads cs arbitrary: cs' rule: validate_checks.induct)
  case (1 i ids ads)
  then show ?case by simp
next
  case (2 i ids ads c cs)
  from 2(2) obtain x x' cs0 where x: "ec_Expectation c = Some x" "validateExpectation i x = Inr x'"
    and rest: "validate_checks (Suc i) (ec_ID c # ids) ((ec_Adapter c, ec_Target c) # ads) cs = Inr cs0"
    and cs': "cs' = c\<lparr>ec_Expectation := Some x'\<rparr> # cs0"
    and ok: "\<not> blank (ec_ID c)" "ec_ID c \<notin> set ids" "\<not> blank (ec_Adapter c)"
      "\<not> blank (ec_Target c)" "(ec_Adapter c, ec_Target c) \<notin> set ads"
    by (auto split: if_splits option.splits sum.splits)
  from 2(1) [OF ok(1-5) x rest] ok validateExpectation_canonical [OF x(2)]
  show ?case by (auto simp: cs' canonical_check_def)
qed

lemma validate_checks_fix:
  "\<forall>c \<in> set cs. canonical_check c \<Longrightarrow> distinct (map ec_ID cs) \<Longrightarrow>
   set (map ec_ID cs) \<inter> set ids = {} \<Longrightarrow>
   distinct (map (\<lambda>c. (ec_Adapter c, ec_Target c)) cs) \<Longrightarrow>
   set (map (\<lambda>c. (ec_Adapter c, ec_Target c)) cs) \<inter> set ads = {} \<Longrightarrow>
   validate_checks i ids ads cs = Inr cs"
proof (induction cs arbitrary: i ids ads)
  case Nil
  then show ?case by simp
next
  case (Cons c cs)
  from Cons.prems(1) obtain x where x: "ec_Expectation c = Some x" "canonical_expectation x"
    by (auto simp: canonical_check_def)
  have "validate_checks (Suc i) (ec_ID c # ids) ((ec_Adapter c, ec_Target c) # ads) cs = Inr cs"
    by (rule Cons.IH) (use Cons.prems in auto)
  with Cons.prems x show ?case
    by (auto simp: canonical_check_def validateExpectation_fix)
qed

lemma validate_embodiment_fix:
  assumes "canonical_embodiment e"
  shows "validate_embodiment e = Inr e"
proof (cases "em_Mode e = EmbodimentModeCompare")
  case True
  with assms have s: "sorted_wrt (<) (map ec_ID (em_Checks e))"
    and "validate_checks 0 [] [] (em_Checks e) = Inr (em_Checks e)"
    by (auto simp: canonical_embodiment_def strict_sorted_iff intro!: validate_checks_fix)
  moreover from s have "sort_key ec_ID (em_Checks e) = em_Checks e"
    by (simp add: strict_sorted_iff sort_key_id_if_sorted)
  ultimately show ?thesis
    using assms True by (simp add: canonical_embodiment_def validate_embodiment_def)
qed (use assms in \<open>auto simp: canonical_embodiment_def validate_embodiment_def\<close>)

text \<open>
  Validating an embodiment either refuses it or leaves it in canonical form: in \<open>compare\<close> mode
  at least one check, every check with an id, an adapter, a target and a well-shaped expectation,
  the checks in strictly ascending id order at pairwise different addresses, and no reason; in
  \<open>none\<close> mode a reason and no checks. The checks keep their ids and addresses, nothing is dropped
  or invented, and validating the result again changes nothing.
\<close>

theorem validate_embodiment_canonical:
  assumes "validate_embodiment e = Inr e'"
  shows "canonical_embodiment e' \<and>
    em_Mode e' = em_Mode e \<and> em_Reason e' = em_Reason e \<and>
    mset (map (\<lambda>c. (ec_ID c, ec_Adapter c, ec_Target c)) (em_Checks e')) =
      mset (map (\<lambda>c. (ec_ID c, ec_Adapter c, ec_Target c)) (em_Checks e)) \<and>
    validate_embodiment e' = Inr e'"
proof (cases "em_Mode e = EmbodimentModeCompare")
  case True
  with assms obtain cs where cs: "validate_checks 0 [] [] (em_Checks e) = Inr cs"
    and e': "e' = e\<lparr>em_Checks := sort_key ec_ID cs\<rparr>"
    and ok: "\<not> em_reasonPresent e" "em_Reason e = []" "em_Checks e \<noteq> []"
    by (auto simp: validate_embodiment_def split: if_splits sum.splits)
  note checks = validate_checks_Inr [OF cs]
  have ids: "map ec_ID (em_Checks e') = sort (map ec_ID cs)"
    by (simp add: e' map_sort_key)
  have addresses: "distinct (map (\<lambda>c. (ec_Adapter c, ec_Target c)) (em_Checks e'))"
    using checks by (simp add: e')
  have nonempty: "em_Checks e' \<noteq> []"
    using checks ok(3) by (auto simp: e')
  have canon: "canonical_embodiment e'"
    using checks True ok addresses nonempty
    by (auto simp: canonical_embodiment_def ids strict_sorted_iff) (simp_all add: e')
  moreover have "validate_embodiment e' = Inr e'"
    by (rule validate_embodiment_fix [OF canon])
  moreover have "mset (map (\<lambda>c. (ec_ID c, ec_Adapter c, ec_Target c)) (em_Checks e')) =
      mset (map (\<lambda>c. (ec_ID c, ec_Adapter c, ec_Target c)) (em_Checks e))"
    using conjunct1 [OF conjunct2 [OF checks]] by (simp add: e' del: mset_map)
  ultimately show ?thesis by (simp add: e')
next
  case False
  with assms have "e' = e" "canonical_embodiment e"
    by (auto simp: validate_embodiment_def canonical_embodiment_def split: if_splits)
  with validate_embodiment_fix show ?thesis by auto
qed

theorem validate_embodiment_canonical_witness:
  "validate_embodiment
     \<lparr>em_Mode = EmbodimentModeCompare,
      em_Checks = [\<lparr>ec_ID = ''b'', ec_Adapter = ''json'', ec_Target = ''x'',
          ec_Expectation = Some \<lparr>ex_Shape = ExpectationShapeSet, ex_Value = EVSet [''q'', ''p'']\<rparr>\<rparr>,
        \<lparr>ec_ID = ''a'', ec_Adapter = ''json'', ec_Target = ''y'',
          ec_Expectation = Some \<lparr>ex_Shape = ExpectationShapeScalar, ex_Value = EVScalar ''1''\<rparr>\<rparr>],
      em_Reason = [], em_checksPresent = True, em_reasonPresent = False\<rparr> =
   Inr \<lparr>em_Mode = EmbodimentModeCompare,
      em_Checks = [\<lparr>ec_ID = ''a'', ec_Adapter = ''json'', ec_Target = ''y'',
          ec_Expectation = Some \<lparr>ex_Shape = ExpectationShapeScalar, ex_Value = EVScalar ''1''\<rparr>\<rparr>,
        \<lparr>ec_ID = ''b'', ec_Adapter = ''json'', ec_Target = ''x'',
          ec_Expectation = Some \<lparr>ex_Shape = ExpectationShapeSet, ex_Value = EVSet [''p'', ''q'']\<rparr>\<rparr>],
      em_Reason = [], em_checksPresent = True, em_reasonPresent = False\<rparr> \<and>
   canonical_embodiment \<lparr>em_Mode = EmbodimentModeCompare,
      em_Checks = [\<lparr>ec_ID = ''a'', ec_Adapter = ''json'', ec_Target = ''y'',
          ec_Expectation = Some \<lparr>ex_Shape = ExpectationShapeScalar, ex_Value = EVScalar ''1''\<rparr>\<rparr>,
        \<lparr>ec_ID = ''b'', ec_Adapter = ''json'', ec_Target = ''x'',
          ec_Expectation = Some \<lparr>ex_Shape = ExpectationShapeSet, ex_Value = EVSet [''p'', ''q'']\<rparr>\<rparr>],
      em_Reason = [], em_checksPresent = True, em_reasonPresent = False\<rparr>"
  (is "?v = Inr ?e' \<and> _")
proof -
  have v: "?v = Inr ?e'"
    by (simp add: validate_embodiment_def validateExpectation_def validateSetMembers_def
        space_heads_def)
  show ?thesis using validate_embodiment_canonical [OF v] v by blast
qed

end
