(* ===== verification/Locked_Hash.thy ===== *)
theory Locked_Hash
  imports Claim_Decode
begin

text \<open>
  The hash a lock-ledger record signs a claim with (\<^verbatim>\<open>internal/lock/lockedhash.go\<close>). SHA-256
  is a parameter \<open>sha\<close> from byte strings to byte strings; what is modelled is the byte stream it is given: the
  reflection over the claim's fields, the deny-list, the omit-when-empty gate and the canonical
  encoding of every kind of value the schema holds. The result is that the stream determines the
  signed fields, so that a changed signed field is either seen or a collision of \<open>sha\<close>.
\<close>

section \<open>Reflection\<close>

text \<open>
  A struct field as \<^verbatim>\<open>reflect.StructField\<close> shows it: its Go name, whether it is exported, and its
  \<^verbatim>\<open>yaml\<close> tag if it has one. A reflected value is one of the kinds the claim schema reaches; a
  pointer and an interface are both \<open>RPtr\<close>, and \<^verbatim>\<open>model.RestsOn\<close> is recognised by its type.
\<close>

datatype struct_field = SF (sf_Name: string) (sf_exported: bool) (sf_tag: "string option")

datatype rvalue =
    RPtr "rvalue option"
  | RStr string
  | RBool bool
  | RInt int
  | RFloat string
  | RSlice "rvalue list"
  | RMap "(string \<times> rvalue) list"
  | RRests rests_on
  | RStruct "(struct_field \<times> rvalue) list"

fun cut_comma :: "string \<Rightarrow> string" where
  "cut_comma [] = []"
| "cut_comma (c # s) = (if c = CHR '','' then [] else c # cut_comma s)"

definition YAMLTagName :: "struct_field \<Rightarrow> string" where
  "YAMLTagName sf = (case sf_tag sf of None \<Rightarrow> [] | Some tag \<Rightarrow> cut_comma tag)"

definition PersistedYAMLName :: "struct_field \<Rightarrow> string option" where
  "PersistedYAMLName sf =
     (if \<not> sf_exported sf then None
      else if YAMLTagName sf = ''-'' then None
      else if YAMLTagName sf = [] then Some (to_lower (sf_Name sf))
      else Some (YAMLTagName sf))"

definition isEmptyValue :: "rvalue \<Rightarrow> bool" where
  "isEmptyValue v =
     (case v of
        RSlice vs \<Rightarrow> length vs = 0
      | RMap m \<Rightarrow> length m = 0
      | RStr s \<Rightarrow> length s = 0
      | RPtr p \<Rightarrow> p = None
      | RBool b \<Rightarrow> \<not> b
      | RInt i \<Rightarrow> i = 0
      | RFloat s \<Rightarrow> s = ''0'' \<or> s = ''-0''
      | RRests r \<Rightarrow> False
      | RStruct fs \<Rightarrow> False)"

section \<open>The encoding\<close>

definition hash_str :: "string \<Rightarrow> string" where
  "hash_str s = CHR ''s'' # itoa (length s) @ CHR '':'' # s"

definition hash_entry :: "string \<times> string \<Rightarrow> string" where
  "hash_entry e = CHR ''k'' # itoa (length (fst e)) @ CHR '':'' # fst e @ CHR ''='' # snd e @ '',''"

definition hash_field :: "string \<times> string \<Rightarrow> string" where
  "hash_field f = fst f @ CHR ''='' # snd f @ [nl]"

text \<open>
  \<^verbatim>\<open>hashStructFields\<close>: the persisted fields outside \<open>exclude\<close>, without the empty ones of
  \<open>omitWhenEmpty\<close>, in ascending order of their names, one line each. The encoding of a field's
  value is what \<^verbatim>\<open>hashValue\<close> writes for it; it is computed first and then placed.
\<close>

definition signed_field ::
  "string list \<Rightarrow> string list \<Rightarrow> struct_field \<Rightarrow> rvalue \<Rightarrow> string option" where
  "signed_field exclude omitWhenEmpty sf v =
     (case PersistedYAMLName sf of
        None \<Rightarrow> None
      | Some tag \<Rightarrow>
          if tag \<in> set exclude then None
          else if tag \<in> set omitWhenEmpty \<and> isEmptyValue v then None
          else Some tag)"

definition write_fields :: "(string \<times> string) list \<Rightarrow> string" where
  "write_fields fs = concat (map hash_field (sort_key fst fs))"

fun hashValue :: "rvalue \<Rightarrow> string" where
  "hashValue (RPtr None) = ''n:''"
| "hashValue (RPtr (Some v)) = hashValue v"
| "hashValue (RStr s) = hash_str s"
| "hashValue (RBool b) = ''b:'' @ (if b then ''true'' else ''false'')"
| "hashValue (RInt i) = ''i:'' @ itoa_int i"
| "hashValue (RFloat s) = ''f:'' @ s"
| "hashValue (RSlice vs) =
     CHR ''l'' # itoa (length vs) @ '':['' @ concat (map (\<lambda>v. hashValue v @ '','') vs) @ '']''"
| "hashValue (RMap m) =
     CHR ''m'' # itoa (length m) @ '':{'' @
       concat (map hash_entry (sort_key fst (map (\<lambda>(k, v). (k, hashValue v)) m))) @ ''}''"
| "hashValue (RRests r) =
     (if ro_None r then ''none:'' @ hash_str (ro_Reason r)
      else CHR ''l'' # itoa (length (ro_IDs r)) @ '':['' @
             concat (map (\<lambda>i. hash_str i @ '','') (ro_IDs r)) @ '']'')"
| "hashValue (RStruct fs) =
     ''{'' @ write_fields (concat (map (\<lambda>(sf, v).
        case signed_field [] [] sf v of None \<Rightarrow> [] | Some tag \<Rightarrow> [(tag, hashValue v)]) fs)) @ ''}''"

definition hashStructFields ::
  "(struct_field \<times> rvalue) list \<Rightarrow> string list \<Rightarrow> string list \<Rightarrow> string" where
  "hashStructFields fs exclude omitWhenEmpty =
     write_fields (concat (map (\<lambda>(sf, v).
        case signed_field exclude omitWhenEmpty sf v of
          None \<Rightarrow> [] | Some tag \<Rightarrow> [(tag, hashValue v)]) fs))"

lemma hashValue_RStruct: "hashValue (RStruct fs) = ''{'' @ hashStructFields fs [] [] @ ''}''"
  by (simp add: hashStructFields_def)

section \<open>The claim seen by reflection\<close>

text \<open>
  Every struct of the schema as its declared field list. A timestamp cell is a Go \<^verbatim>\<open>time.Time\<close>,
  whose three fields are unexported; their contents are of no consequence and stand for its text.
\<close>

abbreviation tagged :: "string \<Rightarrow> string \<Rightarrow> struct_field" where
  "tagged name tag \<equiv> SF name True (Some tag)"

fun cell_value :: "cell \<Rightarrow> rvalue" where
  "cell_value VNil = RPtr None"
| "cell_value (VStr s) = RStr s"
| "cell_value (VBool b) = RBool b"
| "cell_value (VInt i) = RInt i"
| "cell_value (VFloat s) = RFloat s"
| "cell_value (VTime s) =
     RStruct [(SF ''wall'' False None, RStr s), (SF ''ext'' False None, RStr s),
       (SF ''loc'' False None, RStr s)]"
| "cell_value (VStrings ss) = RSlice (map RStr ss)"
| "cell_value (VSeq cs) = RSlice (map cell_value cs)"
| "cell_value (VMap m) = RMap (map (\<lambda>(k, v). (k, cell_value v)) m)"

definition row_value :: "row \<Rightarrow> rvalue" where
  "row_value r = RMap (map (\<lambda>(k, v). (k, cell_value v)) r)"

definition expectation_rvalue :: "expectation \<Rightarrow> rvalue" where
  "expectation_rvalue x = RStruct
     [(tagged ''Shape'' ''shape'', RStr (ex_Shape x)),
      (tagged ''Value'' ''value'',
        case ex_Value x of
          EVNil \<Rightarrow> RPtr None | EVSet vs \<Rightarrow> RSlice (map RStr vs) | EVScalar v \<Rightarrow> RStr v
        | EVList vs \<Rightarrow> RSlice (map RStr vs))]"

definition check_rvalue :: "emb_check \<Rightarrow> rvalue" where
  "check_rvalue c = RStruct
     [(tagged ''ID'' ''id'', RStr (ec_ID c)), (tagged ''Adapter'' ''adapter'', RStr (ec_Adapter c)),
      (tagged ''Target'' ''target'', RStr (ec_Target c)),
      (tagged ''Expectation'' ''expectation'', RPtr (map_option expectation_rvalue (ec_Expectation c)))]"

definition embodiment_rvalue :: "embodiment \<Rightarrow> rvalue" where
  "embodiment_rvalue e = RStruct
     [(tagged ''Mode'' ''mode'', RStr (em_Mode e)),
      (tagged ''Checks'' ''checks,omitempty'', RSlice (map check_rvalue (em_Checks e))),
      (tagged ''Reason'' ''reason,omitempty'', RStr (em_Reason e)),
      (SF ''checksPresent'' False None, RBool (em_checksPresent e)),
      (SF ''reasonPresent'' False None, RBool (em_reasonPresent e))]"

definition source_rvalue :: "source \<Rightarrow> rvalue" where
  "source_rvalue s = RStruct
     [(tagged ''Ref'' ''ref'', RInt (sr_Ref s)), (tagged ''Kind'' ''kind'', RStr (sr_Kind s)),
      (tagged ''Title'' ''title'', RStr (sr_Title s)),
      (tagged ''URL'' ''url,omitempty'', RStr (sr_URL s)),
      (tagged ''AccessedOn'' ''accessed_on,omitempty'', RStr (sr_AccessedOn s)),
      (tagged ''Path'' ''path,omitempty'', RStr (sr_Path s)),
      (tagged ''RecordID'' ''record_id,omitempty'', RStr (sr_RecordID s)),
      (tagged ''SHA256'' ''sha256,omitempty'', RStr (sr_SHA256 s)),
      (tagged ''Supports'' ''supports,omitempty'', RStr (sr_Supports s)),
      (tagged ''DoesNotSupport'' ''does_not_support,omitempty'', RStr (sr_DoesNotSupport s))]"

definition reply_rvalue :: "reply \<Rightarrow> rvalue" where
  "reply_rvalue r = RStruct
     [(tagged ''ID'' ''id'', RStr (rp_ID r)), (tagged ''Author'' ''author'', RStr (rp_Author r)),
      (tagged ''Created'' ''created'', RStr (rp_Created r)), (tagged ''Body'' ''body'', RStr (rp_Body r)),
      (tagged ''Edited'' ''edited'', RBool (rp_Edited r))]"

definition comment_rvalue :: "comment \<Rightarrow> rvalue" where
  "comment_rvalue m = RStruct
     [(tagged ''ID'' ''id'', RStr (cm_ID m)), (tagged ''Status'' ''status'', RStr (cm_Status m)),
      (tagged ''Author'' ''author'', RStr (cm_Author m)),
      (tagged ''Created'' ''created'', RStr (cm_Created m)), (tagged ''Body'' ''body'', RStr (cm_Body m)),
      (tagged ''Edited'' ''edited'', RBool (cm_Edited m)),
      (tagged ''Replies'' ''replies,omitempty'', RSlice (map reply_rvalue (cm_Replies m))),
      (tagged ''ResolvedBy'' ''resolved_by,omitempty'', RStr (cm_ResolvedBy m)),
      (tagged ''ResolvedAt'' ''resolved_at,omitempty'', RStr (cm_ResolvedAt m)),
      (tagged ''ReopenedBy'' ''reopened_by,omitempty'', RStr (cm_ReopenedBy m)),
      (tagged ''ReopenedAt'' ''reopened_at,omitempty'', RStr (cm_ReopenedAt m))]"

definition claim_fields :: "claim \<Rightarrow> (struct_field \<times> rvalue) list" where
  "claim_fields c =
     [(tagged ''ID'' ''id'', RStr (cl_ID c)),
      (tagged ''Facet'' ''facet,omitempty'', RStr (cl_Facet c)),
      (tagged ''Module'' ''module,omitempty'', RStr (cl_Module c)),
      (tagged ''Scope'' ''scope,omitempty'', RStr (cl_Scope c)),
      (tagged ''Status'' ''status'', RStr (cl_Status c)),
      (tagged ''Layout'' ''layout,omitempty'', RStr (cl_Layout c)),
      (tagged ''Kind'' ''kind,omitempty'', RStr (cl_Kind c)),
      (tagged ''Embodiment'' ''embodiment,omitempty'',
        RPtr (map_option embodiment_rvalue (cl_Embodiment c))),
      (tagged ''Summary'' ''summary,omitempty'', RStr (cl_Summary c)),
      (tagged ''Body'' ''body,omitempty'', RStr (cl_Body c)),
      (tagged ''Rows'' ''rows,omitempty'', RSlice (map row_value (cl_Rows c))),
      (tagged ''Section'' ''section,omitempty'', RStr (cl_Section c)),
      (tagged ''RawHTML'' ''raw_html,omitempty'', RStr (cl_RawHTML c)),
      (tagged ''RawHTMLReviewed'' ''raw_html_reviewed,omitempty'', RBool (cl_RawHTMLReviewed c)),
      (tagged ''Steps'' ''steps,omitempty'', RSlice (map RStr (cl_Steps c))),
      (tagged ''RestsOn'' ''rests_on,omitempty'', RRests (cl_RestsOn c)),
      (tagged ''Sources'' ''sources,omitempty'', RSlice (map source_rvalue (cl_Sources c))),
      (tagged ''Order'' ''order,omitempty'', RInt (cl_Order c)),
      (tagged ''Emphasis'' ''emphasis,omitempty'', RBool (cl_Emphasis c)),
      (tagged ''ReviewPending'' ''review_pending,omitempty'', RBool (cl_ReviewPending c)),
      (tagged ''AuditNotes'' ''audit_notes,omitempty'', RSlice (map RStr (cl_AuditNotes c))),
      (tagged ''Comments'' ''comments,omitempty'', RSlice (map comment_rvalue (cl_Comments c))),
      (tagged ''SourcePath'' ''-'', RStr (cl_SourcePath c))]"

definition lockedClaimHashVersion :: nat where
  "lockedClaimHashVersion = 1"

definition lockedClaimHashExcluded :: "string list" where
  "lockedClaimHashExcluded = [''status'', ''review_pending'', ''comments'']"

definition lockedClaimHashOmitWhenEmpty :: "string list" where
  "lockedClaimHashOmitWhenEmpty = [''embodiment'', ''sources'', ''scope'', ''summary'']"

definition locked_preimage :: "claim \<Rightarrow> string" where
  "locked_preimage c =
     ''dossierx-locked-claim/v'' @ itoa lockedClaimHashVersion @ [nl] @
     hashStructFields (claim_fields c) lockedClaimHashExcluded lockedClaimHashOmitWhenEmpty"

definition LockedClaimHash :: "(string \<Rightarrow> string) \<Rightarrow> claim \<Rightarrow> string" where
  "LockedClaimHash sha c = hex_encode (sha (locked_preimage c))"

section \<open>The encoding read back\<close>

text \<open>
  What an encoded value determines: its kind and contents, with map entries and struct fields in
  ascending order. \<open>emit\<close> writes such a value without sorting.
\<close>

datatype code =
    CNil
  | CStr string
  | CBool bool
  | CInt int
  | CFloat string
  | CList "code list"
  | CMap "(string \<times> code) list"
  | CNone string
  | CStruct "(string \<times> code) list"

fun emit :: "code \<Rightarrow> string" where
  "emit CNil = ''n:''"
| "emit (CStr s) = hash_str s"
| "emit (CBool b) = ''b:'' @ (if b then ''true'' else ''false'')"
| "emit (CInt i) = ''i:'' @ itoa_int i"
| "emit (CFloat s) = ''f:'' @ s"
| "emit (CList cs) = CHR ''l'' # itoa (length cs) @ '':['' @ concat (map (\<lambda>c. emit c @ '','') cs) @ '']''"
| "emit (CMap m) =
     CHR ''m'' # itoa (length m) @ '':{'' @ concat (map (\<lambda>(k, c). hash_entry (k, emit c)) m) @ ''}''"
| "emit (CNone r) = ''none:'' @ hash_str r"
| "emit (CStruct fs) = ''{'' @ concat (map (\<lambda>(t, c). hash_field (t, emit c)) fs) @ ''}''"

fun canon :: "rvalue \<Rightarrow> code" where
  "canon (RPtr None) = CNil"
| "canon (RPtr (Some v)) = canon v"
| "canon (RStr s) = CStr s"
| "canon (RBool b) = CBool b"
| "canon (RInt i) = CInt i"
| "canon (RFloat s) = CFloat s"
| "canon (RSlice vs) = CList (map canon vs)"
| "canon (RMap m) = CMap (sort_key fst (map (\<lambda>(k, v). (k, canon v)) m))"
| "canon (RRests r) = (if ro_None r then CNone (ro_Reason r) else CList (map CStr (ro_IDs r)))"
| "canon (RStruct fs) = CStruct (sort_key fst (concat (map (\<lambda>(sf, v).
     case signed_field [] [] sf v of None \<Rightarrow> [] | Some tag \<Rightarrow> [(tag, canon v)]) fs)))"

lemma sort_key_map_snd:
  "sort_key fst (map (\<lambda>(k, v). (k, f v)) m) = map (\<lambda>(k, v). (k, f v)) (sort_key fst m)"
proof -
  have ins: "insort_key fst (k, f v) (map (\<lambda>(k, v). (k, f v)) m)
      = map (\<lambda>(k, v). (k, f v)) (insort_key fst (k, v) m)" for k v m
    by (induction m) auto
  show ?thesis by (induction m) (auto simp: ins)
qed

lemma write_emit:
  "concat (map hash_entry (sort_key fst (map (\<lambda>(k, c). (k, emit c)) m)))
   = concat (map (\<lambda>(k, c). hash_entry (k, emit c)) (sort_key fst m))"
  unfolding sort_key_map_snd by (simp add: split_def comp_def)

lemma write_fields_emit:
  "write_fields (map (\<lambda>(t, c). (t, emit c)) fs) = concat (map (\<lambda>(t, c). hash_field (t, emit c)) (sort_key fst fs))"
  unfolding write_fields_def sort_key_map_snd by (simp add: split_def comp_def)

lemma signed_emit:
  assumes "\<forall>(sf, v) \<in> set fs. signed_field ex om sf v \<noteq> None \<longrightarrow> hv v = emit (cv v)"
  shows "concat (map (\<lambda>(sf, v). case signed_field ex om sf v of
        None \<Rightarrow> [] | Some tag \<Rightarrow> [(tag, hv v)]) fs)
     = map (\<lambda>(t, c). (t, emit c)) (concat (map (\<lambda>(sf, v). case signed_field ex om sf v of
        None \<Rightarrow> [] | Some tag \<Rightarrow> [(tag, cv v)]) fs))"
  using assms by (induction fs) (auto split: option.splits)

lemma hashValue_emit: "hashValue v = emit (canon v)"
proof (induction v rule: hashValue.induct)
  case (7 vs)
  then have "map (\<lambda>v. hashValue v @ '','') vs = map (\<lambda>v. emit (canon v) @ '','') vs" by simp
  then show ?case by (simp only: hashValue.simps canon.simps emit.simps length_map map_map comp_def)
next
  case (8 m)
  then have "map (\<lambda>(k, v). (k, hashValue v)) m
      = map (\<lambda>(k, c). (k, emit c)) (map (\<lambda>(k, v). (k, canon v)) m)"
    by auto
  then show ?case by (simp only: hashValue.simps canon.simps emit.simps write_emit length_sort length_map)
next
  case (10 fs)
  have "concat (map (\<lambda>(sf, v). case signed_field [] [] sf v of
        None \<Rightarrow> [] | Some tag \<Rightarrow> [(tag, hashValue v)]) fs)
     = map (\<lambda>(t, c). (t, emit c)) (concat (map (\<lambda>(sf, v). case signed_field [] [] sf v of
        None \<Rightarrow> [] | Some tag \<Rightarrow> [(tag, canon v)]) fs))"
    by (rule signed_emit) (use 10 in auto)
  then show ?case by (simp only: hashValue.simps canon.simps emit.simps write_fields_emit)
qed (simp_all add: comp_def)

text \<open>
  The encoding can be read back. The tags of the schema contain no equals sign and do not start
  with a brace, and the shortest rendering of a float has no comma or newline in it.
\<close>

definition tag_ok :: "string \<Rightarrow> bool" where
  "tag_ok t \<longleftrightarrow> CHR ''='' \<notin> set t \<and> t \<noteq> [] \<and> hd t \<noteq> CHR ''}''"

fun code_ok :: "code \<Rightarrow> bool" where
  "code_ok (CFloat s) = (\<forall>c \<in> set s. c \<notin> stops)"
| "code_ok (CList cs) = list_all code_ok cs"
| "code_ok (CMap m) = list_all (\<lambda>(k, c). code_ok c) m"
| "code_ok (CStruct fs) = list_all (\<lambda>(t, c). tag_ok t \<and> code_ok c) fs"
| "code_ok _ = True"

lemma hash_str_delim: "hash_str s @ u = hash_str t @ v \<Longrightarrow> s = t \<and> u = v"
proof -
  assume "hash_str s @ u = hash_str t @ v"
  then have "itoa (length s) @ CHR '':'' # s @ u = itoa (length t) @ CHR '':'' # t @ v"
    by (simp add: hash_str_def)
  from itoa_delim [OF this] show ?thesis by (auto simp: is_digit_def)
qed

lemma emit_kinds:
  assumes "emit x @ c # s = emit y @ d # t"
  shows "(case x of CNil \<Rightarrow> y = CNil | CStr _ \<Rightarrow> (\<exists>r. y = CStr r) | CBool _ \<Rightarrow> (\<exists>b. y = CBool b)
    | CInt _ \<Rightarrow> (\<exists>i. y = CInt i) | CFloat _ \<Rightarrow> (\<exists>f. y = CFloat f) | CList _ \<Rightarrow> (\<exists>l. y = CList l)
    | CMap _ \<Rightarrow> (\<exists>m. y = CMap m) | CNone _ \<Rightarrow> (\<exists>r. y = CNone r) | CStruct _ \<Rightarrow> (\<exists>f. y = CStruct f))"
  using assms by (cases x; cases y) (auto simp: hash_str_def)

lemma emit_delim:
  "code_ok x \<Longrightarrow> code_ok y \<Longrightarrow> c \<in> stops \<Longrightarrow> d \<in> stops \<Longrightarrow> emit x @ c # s = emit y @ d # t \<Longrightarrow>
   x = y \<and> c = d \<and> s = t"
proof (induction x arbitrary: y c d s t rule: emit.induct)
  case 1
  from emit_kinds [OF 1(5)] 1 show ?case by simp
next
  case (2 u)
  from emit_kinds [OF 2(5)] obtain v where "y = CStr v" by auto
  with 2 show ?case by (auto dest: hash_str_delim)
next
  case (3 b)
  from emit_kinds [OF 3(5)] obtain b' where "y = CBool b'" by auto
  with 3 show ?case by (auto split: if_splits)
next
  case (4 i)
  from emit_kinds [OF 4(5)] obtain j where "y = CInt j" by auto
  with 4 show ?case by (auto dest!: itoa_int_delim dest: stops_no_digit)
next
  case (5 u)
  from emit_kinds [OF 5(5)] obtain v where "y = CFloat v" by auto
  with 5 until_delim [of u \<open>\<lambda>c. c \<in> stops\<close> v c d s t] show ?case by simp
next
  case (6 xs)
  from emit_kinds [OF 6(6)] obtain ys where y: "y = CList ys" by auto
  with 6(6) have "itoa (length xs) @ CHR '':'' # CHR ''['' # concat (map (\<lambda>c. emit c @ '','') xs) @ '']'' @ c # s
      = itoa (length ys) @ CHR '':'' # CHR ''['' # concat (map (\<lambda>c. emit c @ '','') ys) @ '']'' @ d # t"
    by simp
  from itoa_delim [OF this] have len: "length xs = length ys"
    and eq: "concat (map (\<lambda>c. emit c @ '','') xs) @ '']'' @ c # s
      = concat (map (\<lambda>c. emit c @ '','') ys) @ '']'' @ d # t"
    by (auto simp: is_digit_def)
  have "xs = ys \<and> '']'' @ c # s = '']'' @ d # t"
  proof (rule counted_delim [OF len reads_backI eq])
    fix a b u v
    assume a: "a \<in> set xs" "b \<in> set ys" "(emit a @ '','') @ u = (emit b @ '','') @ v"
    with 6(2,3) y have "code_ok a" "code_ok b" by (auto simp: list_all_iff)
    with 6(1) [OF a(1), of b "CHR '',''" "CHR '',''" u v] a(3) show "a = b \<and> u = v" by simp
  qed
  with y show ?case by simp
next
  case (7 m)
  from emit_kinds [OF 7(6)] obtain n where y: "y = CMap n" by auto
  let ?item = "\<lambda>(k, c). hash_entry (k, emit c)"
  from y 7(6) have "itoa (length m) @ CHR '':'' # CHR ''{'' # concat (map ?item m) @ ''}'' @ c # s
      = itoa (length n) @ CHR '':'' # CHR ''{'' # concat (map ?item n) @ ''}'' @ d # t"
    by simp
  from itoa_delim [OF this] have len: "length m = length n"
    and eq: "concat (map ?item m) @ ''}'' @ c # s = concat (map ?item n) @ ''}'' @ d # t"
    by (auto simp: is_digit_def)
  have item: "(j, a) = (k, b) \<and> u = v"
    if "(j, a) \<in> set m" "(k, b) \<in> set n" "hash_entry (j, emit a) @ u = hash_entry (k, emit b) @ v"
    for j a k b u v
  proof -
    from that(3) have "itoa (length j) @ CHR '':'' # j @ CHR ''='' # emit a @ CHR '','' # u
        = itoa (length k) @ CHR '':'' # k @ CHR ''='' # emit b @ CHR '','' # v"
      by (simp add: hash_entry_def)
    from itoa_delim [OF this] have "j = k" "emit a @ CHR '','' # u = emit b @ CHR '','' # v"
      by (auto simp: is_digit_def)
    moreover have "code_ok a" "code_ok b" using that(1,2) 7(2,3) y by (auto simp: list_all_iff)
    ultimately show ?thesis
      using 7(1) [OF that(1) refl, of b "CHR '',''" "CHR '',''" u v] by simp
  qed
  have "m = n \<and> ''}'' @ c # s = ''}'' @ d # t"
    by (rule counted_delim [OF len reads_backI eq]) (auto dest: item)
  with y show ?case by simp
next
  case (8 r)
  from emit_kinds [OF 8(5)] obtain v where "y = CNone v" by auto
  with 8 show ?case by (auto dest: hash_str_delim)
next
  case (9 fs)
  from emit_kinds [OF 9(6)] obtain gs where y: "y = CStruct gs" by auto
  let ?item = "\<lambda>(t, c). hash_field (t, emit c)"
  from y 9(6) have eq: "concat (map ?item fs) @ CHR ''}'' # c # s = concat (map ?item gs) @ CHR ''}'' # d # t"
    by simp
  have item: "(j, a) = (k, b) \<and> u = v"
    if "(j, a) \<in> set fs" "(k, b) \<in> set gs" "hash_field (j, emit a) @ u = hash_field (k, emit b) @ v"
    for j a k b u v
  proof -
    from that(1,2) 9(2,3) y
    have tags: "CHR ''='' \<notin> set j" "CHR ''='' \<notin> set k" "code_ok a" "code_ok b"
      by (auto simp: list_all_iff tag_ok_def)
    from that(3) have "j @ CHR ''='' # emit a @ nl # u = k @ CHR ''='' # emit b @ nl # v"
      by (simp add: hash_field_def)
    from until_delim [OF _ _ _ _ this, of "\<lambda>c. c = CHR ''=''"] tags
    have "j = k" "emit a @ nl # u = emit b @ nl # v" by auto
    with 9(1) [OF that(1) refl tags(3,4), of nl nl u v] show ?thesis by simp
  qed
  have "fs = gs \<and> c # s = d # t"
  proof (rule closed_delim [OF reads_backI _ eq])
    show "\<forall>x \<in> set fs \<union> set gs. ?item x \<noteq> [] \<and> hd (?item x) \<noteq> CHR ''}''"
      using 9(2,3) y by (auto simp: list_all_iff tag_ok_def hash_field_def)
  qed (auto dest: item)
  with y show ?case by simp
qed

interpretation hv: terminated_code code_ok emit
  by unfold_locales (rule emit_delim)

section \<open>What the signature covers\<close>

text \<open>The signed fields of a claim by tag, in declaration order, before the values are written.\<close>

definition signed_fields ::
  "string list \<Rightarrow> string list \<Rightarrow> (struct_field \<times> rvalue) list \<Rightarrow> (string \<times> code) list" where
  "signed_fields exclude omitWhenEmpty fs =
     concat (map (\<lambda>(sf, v). case signed_field exclude omitWhenEmpty sf v of
       None \<Rightarrow> [] | Some tag \<Rightarrow> [(tag, canon v)]) fs)"

definition claim_codes :: "claim \<Rightarrow> (string \<times> code) list" where
  "claim_codes c =
     signed_fields lockedClaimHashExcluded lockedClaimHashOmitWhenEmpty (claim_fields c)"

lemma hashStructFields_emit:
  "hashStructFields fs exclude om =
   concat (map (\<lambda>(t, c). hash_field (t, emit c)) (sort_key fst (signed_fields exclude om fs)))"
proof -
  have "concat (map (\<lambda>(sf, v). case signed_field exclude om sf v of
        None \<Rightarrow> [] | Some tag \<Rightarrow> [(tag, hashValue v)]) fs)
     = map (\<lambda>(t, c). (t, emit c)) (signed_fields exclude om fs)"
    unfolding signed_fields_def by (rule signed_emit) (auto simp: hashValue_emit)
  then show ?thesis by (simp only: hashStructFields_def write_fields_emit)
qed

lemma signed_field_eq:
  "signed_field ex om (tagged name tag) v =
   (let t = cut_comma tag in
    if t = ''-'' then None
    else if t = [] then (if to_lower name \<in> set ex \<or> to_lower name \<in> set om \<and> isEmptyValue v then None
      else Some (to_lower name))
    else if t \<in> set ex \<or> t \<in> set om \<and> isEmptyValue v then None else Some t)"
  by (cases "cut_comma tag = []") (auto simp: signed_field_def PersistedYAMLName_def YAMLTagName_def)

lemma claim_codes_eq:
  "claim_codes c =
     [(''id'', CStr (cl_ID c)), (''facet'', CStr (cl_Facet c)), (''module'', CStr (cl_Module c))] @
     (if cl_Scope c = [] then [] else [(''scope'', CStr (cl_Scope c))]) @
     [(''layout'', CStr (cl_Layout c)), (''kind'', CStr (cl_Kind c))] @
     (case cl_Embodiment c of None \<Rightarrow> []
      | Some e \<Rightarrow> [(''embodiment'', canon (embodiment_rvalue e))]) @
     (if cl_Summary c = [] then [] else [(''summary'', CStr (cl_Summary c))]) @
     [(''body'', CStr (cl_Body c)), (''rows'', CList (map (\<lambda>r. canon (row_value r)) (cl_Rows c))),
      (''section'', CStr (cl_Section c)), (''raw_html'', CStr (cl_RawHTML c)),
      (''raw_html_reviewed'', CBool (cl_RawHTMLReviewed c)),
      (''steps'', CList (map CStr (cl_Steps c))), (''rests_on'', canon (RRests (cl_RestsOn c)))] @
     (if cl_Sources c = [] then []
      else [(''sources'', CList (map (\<lambda>s. canon (source_rvalue s)) (cl_Sources c)))]) @
     [(''order'', CInt (cl_Order c)), (''emphasis'', CBool (cl_Emphasis c)),
      (''audit_notes'', CList (map CStr (cl_AuditNotes c)))]"
  by (simp add: claim_codes_def signed_fields_def claim_fields_def signed_field_eq
      lockedClaimHashExcluded_def lockedClaimHashOmitWhenEmpty_def isEmptyValue_def Let_def
      comp_def split: option.split)

text \<open>
  What of a claim is signed: everything but the engine's bookkeeping (status, review flag, comment
  threads), the file it was loaded from, the decoder's presence flags of an embodiment, the unused
  half of a dependency declaration, and the order in which a row's map happens to be listed (the
  authored column order is an entry of the row and is signed).
\<close>

definition rests_view :: "rests_on \<Rightarrow> rests_on" where
  "rests_view r =
     (if ro_None r then \<lparr>ro_None = True, ro_Reason = ro_Reason r, ro_IDs = []\<rparr>
      else \<lparr>ro_None = False, ro_Reason = [], ro_IDs = ro_IDs r\<rparr>)"

text \<open>A set is signed by its members, whatever Go type holds them.\<close>

definition expectation_view :: "expectation \<Rightarrow> expectation" where
  "expectation_view x = x\<lparr>ex_Value := (case ex_Value x of EVList vs \<Rightarrow> EVSet vs | v \<Rightarrow> v)\<rparr>"

definition check_view :: "emb_check \<Rightarrow> emb_check" where
  "check_view c = c\<lparr>ec_Expectation := map_option expectation_view (ec_Expectation c)\<rparr>"

definition embodiment_view :: "embodiment \<Rightarrow> embodiment" where
  "embodiment_view e =
     \<lparr>em_Mode = em_Mode e, em_Checks = map check_view (em_Checks e), em_Reason = em_Reason e,
      em_checksPresent = False, em_reasonPresent = False\<rparr>"

definition signed_view :: "claim \<Rightarrow> claim" where
  "signed_view c =
     \<lparr>cl_ID = cl_ID c, cl_Facet = cl_Facet c, cl_Module = cl_Module c, cl_Scope = cl_Scope c,
      cl_Status = [], cl_Layout = cl_Layout c, cl_Kind = cl_Kind c,
      cl_Embodiment = map_option embodiment_view (cl_Embodiment c), cl_Summary = cl_Summary c,
      cl_Body = cl_Body c, cl_Rows = map (sort_key fst) (cl_Rows c), cl_Section = cl_Section c,
      cl_RawHTML = cl_RawHTML c, cl_RawHTMLReviewed = cl_RawHTMLReviewed c, cl_Steps = cl_Steps c,
      cl_RestsOn = rests_view (cl_RestsOn c), cl_Sources = cl_Sources c, cl_Order = cl_Order c,
      cl_Emphasis = cl_Emphasis c, cl_ReviewPending = False, cl_AuditNotes = cl_AuditNotes c,
      cl_Comments = [], cl_SourcePath = []\<rparr>"

text \<open>
  Row cells the signature separates: scalars other than timestamps, and the captured column order.
\<close>

fun flat_cell :: "cell \<Rightarrow> bool" where
  "flat_cell (VFloat s) = (\<forall>c \<in> set s. c \<notin> stops)"
| "flat_cell (VTime s) = False"
| "flat_cell (VSeq cs) = False"
| "flat_cell (VMap m) = False"
| "flat_cell v = True"

definition rows_ok :: "claim \<Rightarrow> bool" where
  "rows_ok c \<longleftrightarrow> (\<forall>r \<in> set (cl_Rows c). \<forall>(k, v) \<in> set r. flat_cell v)"

lemma map_CStr_eq [simp]: "map CStr xs = map CStr ys \<longleftrightarrow> xs = ys"
  by (rule inj_map_eq_map) (auto intro: injI)

lemma canon_RStr [simp]: "map (\<lambda>s. canon (RStr s)) ss = map CStr ss" "canon \<circ> RStr = CStr"
  by (auto simp: comp_def)

lemma canon_cell_eq:
  "flat_cell v \<Longrightarrow> flat_cell w \<Longrightarrow> canon (cell_value v) = canon (cell_value w) \<longleftrightarrow> v = w"
  by (cases v; cases w) auto

lemma code_ok_cell: "flat_cell v \<Longrightarrow> code_ok (canon (cell_value v))"
  by (cases v) (auto simp: list_all_iff)

lemma canon_row: "canon (row_value r) = CMap (map (\<lambda>(k, v). (k, canon (cell_value v))) (sort_key fst r))"
  using sort_key_map_snd [of "\<lambda>v. canon (cell_value v)" r]
  by (simp add: row_value_def split_def comp_def)

lemma canon_row_eq:
  assumes "\<forall>(k, v) \<in> set r. flat_cell v" "\<forall>(k, v) \<in> set r'. flat_cell v"
  shows "canon (row_value r) = canon (row_value r') \<longleftrightarrow> sort_key fst r = sort_key fst r'"
proof -
  have flat: "flat_cell v" if "(k, v) \<in> set r \<union> set r'" for k v
    using that assms by auto
  have "inj_on (\<lambda>(k, v). (k, canon (cell_value v))) (set (sort_key fst r) \<union> set (sort_key fst r'))"
    by (rule inj_onI) (auto dest!: canon_cell_eq [OF flat flat, THEN iffD1, rotated 2])
  from inj_on_map_eq_map [OF this] show ?thesis by (simp add: canon_row)
qed

lemma canon_rests_eq: "canon (RRests r) = canon (RRests r') \<longleftrightarrow> rests_view r = rests_view r'"
  by (auto simp: rests_view_def)

text \<open>A struct whose fields all are tagged and persisted under distinct names.\<close>

lemma canon_RStruct:
  "canon (RStruct fs) = CStruct (sort_key fst (signed_fields [] [] fs))"
  by (simp add: signed_fields_def)

lemma struct_cancel:
  assumes "map fst (signed_fields [] [] fs) = map fst (signed_fields [] [] gs)"
    and "distinct (map fst (signed_fields [] [] fs))"
  shows "canon (RStruct fs) = canon (RStruct gs) \<longleftrightarrow> signed_fields [] [] fs = signed_fields [] [] gs"
  using sort_key_fst_cancel [OF assms] by (simp only: canon_RStruct code.inject)

lemma signed_field_unexported: "signed_field ex om (SF n False t) v = None"
  by (simp add: signed_field_def PersistedYAMLName_def)

lemmas struct_simps = signed_fields_def signed_field_eq signed_field_unexported Let_def comp_def

lemma canon_source_eq: "canon (source_rvalue s) = canon (source_rvalue s') \<longleftrightarrow> s = s'"
  unfolding source_rvalue_def
  by (subst struct_cancel) (auto simp: struct_simps)

lemma canon_expectation_eq:
  "canon (expectation_rvalue x) = canon (expectation_rvalue y) \<longleftrightarrow> expectation_view x = expectation_view y"
proof -
  have view: "expectation_view x = expectation_view y \<longleftrightarrow> ex_Shape x = ex_Shape y \<and>
      (case ex_Value x of EVList vs \<Rightarrow> EVSet vs | v \<Rightarrow> v) = (case ex_Value y of EVList vs \<Rightarrow> EVSet vs | v \<Rightarrow> v)"
    by (cases x; cases y) (simp add: expectation_view_def)
  show ?thesis
    unfolding expectation_rvalue_def view
    by (subst struct_cancel) (auto simp: struct_simps split: exp_value.splits)
qed

lemma check_view_eq: "check_view c = check_view d \<longleftrightarrow> ec_ID c = ec_ID d \<and> ec_Adapter c = ec_Adapter d \<and>
    ec_Target c = ec_Target d \<and> map_option expectation_view (ec_Expectation c) = map_option expectation_view (ec_Expectation d)"
  by (cases c; cases d) (simp add: check_view_def)

lemma canon_check_eq: "canon (check_rvalue c) = canon (check_rvalue d) \<longleftrightarrow> check_view c = check_view d"
proof -
  have "canon (RPtr (map_option expectation_rvalue (ec_Expectation c)))
      = canon (RPtr (map_option expectation_rvalue (ec_Expectation d))) \<longleftrightarrow>
      map_option expectation_view (ec_Expectation c) = map_option expectation_view (ec_Expectation d)"
    using canon_expectation_eq
    by (cases "ec_Expectation c"; cases "ec_Expectation d") (auto simp: expectation_rvalue_def)
  then show ?thesis
    unfolding check_rvalue_def check_view_eq by (subst struct_cancel) (auto simp: struct_simps)
qed

lemma canon_embodiment_eq:
  "canon (embodiment_rvalue e) = canon (embodiment_rvalue e') \<longleftrightarrow> embodiment_view e = embodiment_view e'"
proof -
  have "map (\<lambda>c. canon (check_rvalue c)) (em_Checks e) = map (\<lambda>c. canon (check_rvalue c)) (em_Checks e')
      \<longleftrightarrow> map check_view (em_Checks e) = map check_view (em_Checks e')"
    by (rule map_eq_transfer) (simp add: canon_check_eq)
  then show ?thesis
    unfolding embodiment_rvalue_def embodiment_view_def
    by (subst struct_cancel) (auto simp: struct_simps)
qed

lemma code_ok_simps [simp]: "list_all code_ok (map CStr ss)"
  by (auto simp: list_all_iff)

lemma tag_ok_struct: "\<forall>(t, c) \<in> set fs. tag_ok t \<and> code_ok c \<Longrightarrow> code_ok (CStruct (sort_key fst fs))"
  by (auto simp: list_all_iff)

lemma code_ok_source: "code_ok (canon (source_rvalue s))"
  unfolding source_rvalue_def canon_RStruct
  by (rule tag_ok_struct) (simp add: struct_simps tag_ok_def)

lemma code_ok_expectation: "code_ok (canon (expectation_rvalue x))"
  unfolding expectation_rvalue_def canon_RStruct
  by (rule tag_ok_struct) (simp add: struct_simps tag_ok_def split: exp_value.split)

lemma code_ok_check: "code_ok (canon (check_rvalue c))"
  unfolding check_rvalue_def canon_RStruct
  by (rule tag_ok_struct)
    (cases "ec_Expectation c"; simp add: struct_simps tag_ok_def code_ok_expectation)

lemma code_ok_embodiment: "code_ok (canon (embodiment_rvalue e))"
  unfolding embodiment_rvalue_def canon_RStruct
  by (rule tag_ok_struct) (simp add: struct_simps tag_ok_def list_all_iff code_ok_check)

lemma code_ok_row: "\<forall>(k, v) \<in> set r. flat_cell v \<Longrightarrow> code_ok (canon (row_value r))"
  by (auto simp: canon_row list_all_iff code_ok_cell)

lemma code_ok_claim: "rows_ok c \<Longrightarrow> code_ok (CStruct (sort_key fst (claim_codes c)))"
  by (rule tag_ok_struct)
    (auto simp: claim_codes_eq tag_ok_def code_ok_embodiment code_ok_source list_all_iff rows_ok_def
      code_ok_row split: option.splits)

lemma distinct_claim_codes: "distinct (map fst (claim_codes c))"
  by (simp add: claim_codes_eq split: option.split)

lemma map_of_claim_codes:
  "map_of (claim_codes c) ''id'' = Some (CStr (cl_ID c))"
  "map_of (claim_codes c) ''facet'' = Some (CStr (cl_Facet c))"
  "map_of (claim_codes c) ''module'' = Some (CStr (cl_Module c))"
  "map_of (claim_codes c) ''scope'' = (if cl_Scope c = [] then None else Some (CStr (cl_Scope c)))"
  "map_of (claim_codes c) ''layout'' = Some (CStr (cl_Layout c))"
  "map_of (claim_codes c) ''kind'' = Some (CStr (cl_Kind c))"
  "map_of (claim_codes c) ''embodiment'' =
     map_option (\<lambda>e. canon (embodiment_rvalue e)) (cl_Embodiment c)"
  "map_of (claim_codes c) ''summary'' =
     (if cl_Summary c = [] then None else Some (CStr (cl_Summary c)))"
  "map_of (claim_codes c) ''body'' = Some (CStr (cl_Body c))"
  "map_of (claim_codes c) ''rows'' = Some (CList (map (\<lambda>r. canon (row_value r)) (cl_Rows c)))"
  "map_of (claim_codes c) ''section'' = Some (CStr (cl_Section c))"
  "map_of (claim_codes c) ''raw_html'' = Some (CStr (cl_RawHTML c))"
  "map_of (claim_codes c) ''raw_html_reviewed'' = Some (CBool (cl_RawHTMLReviewed c))"
  "map_of (claim_codes c) ''steps'' = Some (CList (map CStr (cl_Steps c)))"
  "map_of (claim_codes c) ''rests_on'' = Some (canon (RRests (cl_RestsOn c)))"
  "map_of (claim_codes c) ''sources'' =
     (if cl_Sources c = [] then None
      else Some (CList (map (\<lambda>s. canon (source_rvalue s)) (cl_Sources c))))"
  "map_of (claim_codes c) ''order'' = Some (CInt (cl_Order c))"
  "map_of (claim_codes c) ''emphasis'' = Some (CBool (cl_Emphasis c))"
  "map_of (claim_codes c) ''audit_notes'' = Some (CList (map CStr (cl_AuditNotes c)))"
  by (simp_all add: claim_codes_eq map_add_def del: canon.simps split: option.split)

lemma rows_view:
  "rows_ok c \<Longrightarrow> rows_ok d \<Longrightarrow>
   map (\<lambda>r. canon (row_value r)) (cl_Rows c) = map (\<lambda>r. canon (row_value r)) (cl_Rows d) \<longleftrightarrow>
   map (sort_key fst) (cl_Rows c) = map (sort_key fst) (cl_Rows d)"
  by (rule map_eq_transfer) (auto simp: rows_ok_def canon_row_eq)

lemma sources_view:
  "map (\<lambda>s. canon (source_rvalue s)) xs = map (\<lambda>s. canon (source_rvalue s)) ys \<longleftrightarrow> xs = ys"
  by (rule inj_map_eq_map) (auto intro: injI simp: canon_source_eq)

lemma embodiments_view:
  "map_option (\<lambda>e. canon (embodiment_rvalue e)) x = map_option (\<lambda>e. canon (embodiment_rvalue e)) y \<longleftrightarrow>
   map_option embodiment_view x = map_option embodiment_view y"
  by (cases x; cases y) (simp_all add: canon_embodiment_eq)

lemma claim_codes_view:
  assumes "rows_ok c" "rows_ok d"
    and "map_of (claim_codes c) = map_of (claim_codes d)"
  shows "signed_view c = signed_view d"
proof -
  have eq: "map_of (claim_codes c) t = map_of (claim_codes d) t" for t
    using assms(3) by simp
  note codes = map_of_claim_codes rows_view [OF assms(1,2)] sources_view embodiments_view canon_rests_eq
  show "signed_view c = signed_view d"
    unfolding signed_view_def
    using eq [of "''id''"] eq [of "''facet''"] eq [of "''module''"] eq [of "''scope''"]
      eq [of "''layout''"] eq [of "''kind''"] eq [of "''embodiment''"] eq [of "''summary''"]
      eq [of "''body''"] eq [of "''rows''"] eq [of "''section''"] eq [of "''raw_html''"]
      eq [of "''raw_html_reviewed''"] eq [of "''steps''"] eq [of "''rests_on''"]
      eq [of "''sources''"] eq [of "''order''"] eq [of "''emphasis''"] eq [of "''audit_notes''"]
    by (simp add: codes split: if_splits del: canon.simps)
qed

lemma view_claim_codes:
  assumes "rows_ok c" "rows_ok d" and eq: "signed_view c = signed_view d"
  shows "claim_codes c = claim_codes d"
proof -
  have "map_option (\<lambda>e. canon (embodiment_rvalue e)) (cl_Embodiment c)
      = map_option (\<lambda>e. canon (embodiment_rvalue e)) (cl_Embodiment d)"
    using eq by (simp add: signed_view_def embodiments_view)
  moreover have "canon (RRests (cl_RestsOn c)) = canon (RRests (cl_RestsOn d))"
    using eq by (simp add: signed_view_def canon_rests_eq del: canon.simps)
  moreover have "map (\<lambda>r. canon (row_value r)) (cl_Rows c) = map (\<lambda>r. canon (row_value r)) (cl_Rows d)"
    using eq by (simp add: signed_view_def rows_view [OF assms(1,2)])
  ultimately show ?thesis
    using eq
    by (cases "cl_Embodiment c"; cases "cl_Embodiment d")
      (simp_all add: claim_codes_eq signed_view_def del: canon.simps)
qed

lemma locked_preimage_codes:
  assumes "rows_ok c" "rows_ok d" "locked_preimage c = locked_preimage d"
  shows "map_of (claim_codes c) = map_of (claim_codes d)"
proof -
  from assms(3) have "emit (CStruct (sort_key fst (claim_codes c))) = emit (CStruct (sort_key fst (claim_codes d)))"
    by (simp add: locked_preimage_def hashStructFields_emit claim_codes_def)
  with hv.enc_inj code_ok_claim assms(1,2)
  have "sort_key fst (claim_codes c) = sort_key fst (claim_codes d)"
    by blast
  then have "set (claim_codes c) = set (claim_codes d)" by (metis set_sort)
  then show ?thesis
    by (simp add: map_of_inject_set distinct_claim_codes)
qed

text \<open>
  C35. The signed byte stream of a claim determines exactly its signed fields: for claims whose row
  cells are scalars (and the captured column order), two claims are given the same stream if and
  only if they agree on every signed field. Concatenation cannot forge one field out of another,
  and nothing the engine rewrites by itself (status, review flag, comments) moves the hash.
\<close>

theorem locked_preimage_iff:
  assumes "rows_ok c" "rows_ok d"
  shows "locked_preimage c = locked_preimage d \<longleftrightarrow> signed_view c = signed_view d"
proof
  assume "locked_preimage c = locked_preimage d"
  with assms show "signed_view c = signed_view d"
    by (intro claim_codes_view locked_preimage_codes)
next
  assume "signed_view c = signed_view d"
  with assms have "claim_codes c = claim_codes d" by (rule view_claim_codes)
  then show "locked_preimage c = locked_preimage d"
    by (simp add: locked_preimage_def hashStructFields_emit claim_codes_def)
qed

definition rests_a_b :: claim where
  "rests_a_b = zero_claim\<lparr>cl_ID := ''m.x'', cl_Body := ''t'', cl_RestsOn := RestsOnIDs [''a'', ''b'']\<rparr>"

definition rests_a_body :: claim where
  "rests_a_body =
     zero_claim\<lparr>cl_ID := ''m.x'', cl_Body := ''t'' @ [nl] @ ''rests_on=b'', cl_RestsOn := RestsOnIDs [''a'']\<rparr>"

theorem locked_preimage_iff_witness:
  "locked_preimage rests_a_b \<noteq> locked_preimage rests_a_body \<and>
   locked_preimage (rests_a_b\<lparr>cl_Status := StatusLocked, cl_ReviewPending := True\<rparr>) =
     locked_preimage rests_a_b"
proof -
  have "rows_ok rests_a_b" "rows_ok rests_a_body"
    "rows_ok (rests_a_b\<lparr>cl_Status := StatusLocked, cl_ReviewPending := True\<rparr>)"
    by (simp_all add: rests_a_b_def rests_a_body_def zero_claim_def rows_ok_def)
  then show ?thesis
    by (simp add: locked_preimage_iff)
      (simp add: rests_a_b_def rests_a_body_def zero_claim_def signed_view_def)
qed

text \<open>
  What the ledger gate draws from it: two claims that differ in a signed field and have the same
  hash are a collision of the hash function.
\<close>

lemma LockedClaimHash_collision:
  assumes "rows_ok c" "rows_ok d" "signed_view c \<noteq> signed_view d"
    and "LockedClaimHash sha c = LockedClaimHash sha d"
  shows "locked_preimage c \<noteq> locked_preimage d \<and> sha (locked_preimage c) = sha (locked_preimage d)"
  using assms hex_encode_inj locked_preimage_codes [of c d] claim_codes_view [of c d]
  unfolding LockedClaimHash_def by blast

lemma locked_preimage_of_codes: "claim_codes c = claim_codes d \<Longrightarrow> locked_preimage c = locked_preimage d"
  by (simp add: locked_preimage_def hashStructFields_emit claim_codes_def)

text \<open>
  The hash does not depend on the fields the engine rewrites as bookkeeping, nor on where the
  file lies: locking, unlocking, flagging, clearing a flag and every comment operation leave the
  hash of the claim as it was.
\<close>

theorem LockedClaimHash_bookkeeping:
  "LockedClaimHash sha (c\<lparr>cl_Status := s, cl_ReviewPending := b, cl_Comments := ms, cl_SourcePath := p\<rparr>) =
   LockedClaimHash sha c"
  unfolding LockedClaimHash_def
  by (rule arg_cong [of _ _ "\<lambda>x. hex_encode (sha x)"], rule locked_preimage_of_codes)
    (simp add: claim_codes_eq del: canon.simps)

text \<open>
  A timestamp cell is not signed: a row cell that YAML decodes into a time is hashed as a
  struct without exported fields, so replacing one date by another in a locked claim's row moves
  neither the signed stream nor the hash.
\<close>

theorem timestamp_cell_unsigned:
  "LockedClaimHash sha (c\<lparr>cl_Rows := [[(col, VTime t)]]\<rparr>) =
   LockedClaimHash sha (c\<lparr>cl_Rows := [[(col, VTime t')]]\<rparr>)"
  unfolding LockedClaimHash_def
  by (rule arg_cong [of _ _ "\<lambda>x. hex_encode (sha x)"], rule locked_preimage_of_codes)
    (simp add: claim_codes_eq row_value_def signed_field_unexported)

end
