(* ===== verification/Content_Hash.thy ===== *)
theory Content_Hash
  imports Embodiment Locked_Hash
begin

text \<open>
  The staleness hash (\<^verbatim>\<open>ContentHash\<close> in \<^verbatim>\<open>internal/lock/lock.go\<close>): a hand-picked list of fields
  whose change has to be looked at by whoever rests on the claim. A claim without an embodiment
  keeps the historical line-oriented stream; one with an embodiment moves into a second, length-framed
  domain over the completed historical digest.
\<close>

section \<open>The historical stream\<close>

definition hash_line :: "string \<Rightarrow> string \<Rightarrow> string" where
  "hash_line key v = key @ CHR ''='' # v @ [nl]"

definition legacy_preimage :: "claim \<Rightarrow> string" where
  "legacy_preimage c =
     hash_line ''id'' (cl_ID c) @ hash_line ''facet'' (cl_Facet c) @ hash_line ''module'' (cl_Module c) @
     hash_line ''layout'' (cl_Layout c) @ hash_line ''body'' (cl_Body c) @
     concat (map (\<lambda>r. hash_line ''row'' (show_cell (VMap r))) (cl_Rows c)) @
     concat (map (hash_line ''step'') (cl_Steps c)) @
     (if ro_None (cl_RestsOn c) then hash_line ''rests_on'' (''none/'' @ ro_Reason (cl_RestsOn c)) else []) @
     concat (map (hash_line ''rests_on'') (ro_IDs (cl_RestsOn c))) @
     (if cl_RawHTML c \<noteq> [] then hash_line ''raw_html'' (cl_RawHTML c) else []) @
     (if cl_Summary c \<noteq> [] then hash_line ''summary'' (cl_Summary c) else [])"

section \<open>The embodiment domain\<close>

text \<open>\<^verbatim>\<open>writeContentHashUint64\<close> and \<^verbatim>\<open>writeContentHashString\<close>: eight bytes, then the string.\<close>

definition frame_uint64 :: "nat \<Rightarrow> string" where
  "frame_uint64 n = be_bytes 8 (n mod 2 ^ 64)"

definition frame_str :: "string \<Rightarrow> string" where
  "frame_str s = frame_uint64 (length s) @ s"

definition expectation_stream :: "expectation \<Rightarrow> string" where
  "expectation_stream x =
     frame_str (ex_Shape x) @
     (if ex_Shape x = ExpectationShapeSet then
        CHR 0x01 #
        (case ex_Value x of
           EVSet members \<Rightarrow>
             CHR 0x01 # frame_uint64 (length members) @ concat (map frame_str (sort members))
         | _ \<Rightarrow> [CHR 0x00])
      else if ex_Shape x = ExpectationShapeScalar then
        CHR 0x02 #
        (case ex_Value x of EVScalar v \<Rightarrow> CHR 0x01 # frame_str v | _ \<Rightarrow> [CHR 0x00])
      else [CHR 0x00])"

definition check_stream :: "emb_check \<Rightarrow> string" where
  "check_stream c =
     frame_str (ec_ID c) @
     (case ec_Expectation c of
        None \<Rightarrow> [CHR 0x00]
      | Some x \<Rightarrow> CHR 0x01 # expectation_stream x)"

text \<open>
  \<^verbatim>\<open>sort.Slice\<close> need not be stable; the stable sort below is the code's answer whenever the check
  ids are distinct, which validation enforces.
\<close>

definition embodiment_stream :: "embodiment \<Rightarrow> string" where
  "embodiment_stream e =
     frame_str (em_Mode e) @
     (if em_Mode e = EmbodimentModeCompare then
        CHR 0x01 # frame_uint64 (length (em_Checks e)) @
          concat (map check_stream (sort_key ec_ID (em_Checks e)))
      else if em_Mode e = EmbodimentModeNone then CHR 0x02 # frame_str (em_Reason e)
      else [CHR 0x00])"

definition embodiment_preimage :: "(string \<Rightarrow> string) \<Rightarrow> claim \<Rightarrow> embodiment \<Rightarrow> string" where
  "embodiment_preimage sha c e =
     ''dossierx/content-hash/embodiment/v1'' @ CHR 0x00 # sha (legacy_preimage c) @ embodiment_stream e"

definition ContentHash :: "(string \<Rightarrow> string) \<Rightarrow> claim \<Rightarrow> string" where
  "ContentHash sha c =
     (let legacyDigest = sha (legacy_preimage c) in
      case cl_Embodiment c of
        None \<Rightarrow> hex_encode legacyDigest
      | Some e \<Rightarrow> hex_encode (sha (embodiment_preimage sha c e)))"

section \<open>What it does not see\<close>

definition readdress :: "(emb_check \<Rightarrow> string) \<Rightarrow> (emb_check \<Rightarrow> string) \<Rightarrow> embodiment \<Rightarrow> embodiment" where
  "readdress f g e =
     e\<lparr>em_Checks := map (\<lambda>c. c\<lparr>ec_Adapter := f c, ec_Target := g c\<rparr>) (em_Checks e)\<rparr>"

lemma sort_key_map_same: "(\<And>x. k (f x) = k x) \<Longrightarrow> sort_key k (map f xs) = map f (sort_key k xs)"
proof -
  assume k: "\<And>x. k (f x) = k x"
  have "insort_key k (f x) (map f ys) = map f (insort_key k x ys)" for x ys
    by (induction ys) (auto simp: k)
  then show ?thesis by (induction xs) auto
qed

lemma embodiment_stream_readdress: "embodiment_stream (readdress f g e) = embodiment_stream e"
proof -
  have "check_stream (c\<lparr>ec_Adapter := f c, ec_Target := g c\<rparr>) = check_stream c" for c
    by (simp add: check_stream_def)
  then show ?thesis
    by (simp add: embodiment_stream_def readdress_def sort_key_map_same comp_def)
qed

text \<open>
  The staleness hash sees content only. Locking, unlocking and flagging a claim, its comments,
  its kind, scope, section, order and emphasis, its audit notes, sources and raw-HTML review mark
  do not move it, and neither does pointing the checks of its embodiment at other adapters and
  targets: no bookkeeping and no change of observation address marks a dependent as stale.
\<close>

theorem ContentHash_ignores:
  "ContentHash sha
     (c\<lparr>cl_Status := s, cl_ReviewPending := b, cl_Comments := ms, cl_Kind := k, cl_Scope := sc,
        cl_Section := sec, cl_Order := ord, cl_Emphasis := em, cl_AuditNotes := ns,
        cl_Sources := srcs, cl_RawHTMLReviewed := rr, cl_SourcePath := p,
        cl_Embodiment := map_option (readdress f g) (cl_Embodiment c)\<rparr>) =
   ContentHash sha c"
  by (cases "cl_Embodiment c")
    (simp_all add: ContentHash_def embodiment_preimage_def legacy_preimage_def embodiment_stream_readdress Let_def)

lemma legacy_preimage_bookkeeping [simp]:
  "legacy_preimage (c\<lparr>cl_ReviewPending := b\<rparr>) = legacy_preimage c"
  "legacy_preimage (c\<lparr>cl_Status := x\<rparr>) = legacy_preimage c"
  "legacy_preimage (c\<lparr>cl_Comments := ms\<rparr>) = legacy_preimage c"
  "legacy_preimage (c\<lparr>cl_SourcePath := p\<rparr>) = legacy_preimage c"
  by (simp_all add: legacy_preimage_def)

lemma ContentHash_bookkeeping [simp]:
  "ContentHash sha (c\<lparr>cl_ReviewPending := b\<rparr>) = ContentHash sha c"
  "ContentHash sha (c\<lparr>cl_Status := x\<rparr>) = ContentHash sha c"
  "ContentHash sha (c\<lparr>cl_Comments := ms\<rparr>) = ContentHash sha c"
  "ContentHash sha (c\<lparr>cl_SourcePath := p\<rparr>) = ContentHash sha c"
  by (simp_all add: ContentHash_def embodiment_preimage_def cong: option.case_cong)

section \<open>The embodiment domain can be read back\<close>

definition short :: "'a list \<Rightarrow> bool" where
  "short xs \<longleftrightarrow> length xs < 2 ^ 64"

lemma frame_uint64_delim:
  "m < 2 ^ 64 \<Longrightarrow> n < 2 ^ 64 \<Longrightarrow> frame_uint64 m @ s = frame_uint64 n @ t \<Longrightarrow> m = n \<and> s = t"
  unfolding frame_uint64_def using be_bytes_inj [of m 8 n] by simp

lemma frame_str_delim:
  "short u \<Longrightarrow> short v \<Longrightarrow> frame_str u @ s = frame_str v @ t \<Longrightarrow> u = v \<and> s = t"
proof -
  assume a: "short u" "short v" "frame_str u @ s = frame_str v @ t"
  then have "frame_uint64 (length u) @ u @ s = frame_uint64 (length v) @ v @ t"
    by (simp add: frame_str_def)
  from frame_uint64_delim [OF _ _ this] a(1,2) have "length u = length v" "u @ s = v @ t"
    by (simp_all add: short_def)
  then show ?thesis by simp
qed

lemma frames_delim:
  assumes "short us" "short vs" "list_all short us" "list_all short vs"
    and "frame_uint64 (length us) @ concat (map frame_str us) @ s =
         frame_uint64 (length vs) @ concat (map frame_str vs) @ t"
  shows "us = vs \<and> s = t"
proof -
  from frame_uint64_delim [OF _ _ assms(5)] assms(1,2)
  have "length us = length vs" "concat (map frame_str us) @ s = concat (map frame_str vs) @ t"
    by (simp_all add: short_def)
  note eq = this
  have "reads_back frame_str us vs"
    using assms(3,4) by (intro reads_backI frame_str_delim) (auto simp: list_all_iff)
  from counted_delim [OF eq(1) this eq(2)] show ?thesis .
qed

text \<open>The strings and lists of a claim are shorter than 2 to the 64, as any Go value is.\<close>

definition expectation_short :: "expectation \<Rightarrow> bool" where
  "expectation_short x \<longleftrightarrow>
     short (ex_Shape x) \<and>
     (case ex_Value x of EVNil \<Rightarrow> True | EVSet vs \<Rightarrow> short vs \<and> list_all short vs | EVScalar v \<Rightarrow> short v
        | EVList vs \<Rightarrow> short vs \<and> list_all short vs)"

definition check_short :: "emb_check \<Rightarrow> bool" where
  "check_short c \<longleftrightarrow>
     short (ec_ID c) \<and> (case ec_Expectation c of None \<Rightarrow> True | Some x \<Rightarrow> expectation_short x)"

definition embodiment_short :: "embodiment \<Rightarrow> bool" where
  "embodiment_short e \<longleftrightarrow>
     short (em_Mode e) \<and> short (em_Reason e) \<and> short (em_Checks e) \<and> list_all check_short (em_Checks e)"

lemma expectation_delim:
  assumes c: "canonical_expectation x" "canonical_expectation y"
    and sh: "expectation_short x" "expectation_short y"
    and eq: "expectation_stream x @ s = expectation_stream y @ t"
  shows "x = y \<and> s = t"
proof -
  have "\<exists>r. expectation_stream z = frame_str (ex_Shape z) @ r" for z
    unfolding expectation_stream_def by blast
  then obtain p q where "expectation_stream x = frame_str (ex_Shape x) @ p"
    "expectation_stream y = frame_str (ex_Shape y) @ q" by blast
  with eq have "frame_str (ex_Shape x) @ p @ s = frame_str (ex_Shape y) @ q @ t" by simp
  from frame_str_delim [OF _ _ this] sh have shape: "ex_Shape x = ex_Shape y"
    by (simp add: expectation_short_def)
  show ?thesis
  proof (cases "ex_Value x")
    case EVNil
    with c show ?thesis by (simp add: canonical_expectation_def)
  next
    case EVList
    with c show ?thesis by (simp add: canonical_expectation_def)
  next
    case x: (EVSet us)
    with c shape obtain vs where y: "ex_Value y = EVSet vs"
      by (auto simp: canonical_expectation_def split: exp_value.splits)
    from x y c have ids: "sort us = us" "sort vs = vs" "ex_Shape x = ExpectationShapeSet"
      by (auto simp: canonical_expectation_def sorted_sort_id)
    from eq shape x y ids
    have "frame_uint64 (length us) @ concat (map frame_str us) @ s =
          frame_uint64 (length vs) @ concat (map frame_str vs) @ t"
      by (simp add: expectation_stream_def)
    from frames_delim [OF _ _ _ _ this] sh x y have "us = vs" "s = t"
      by (auto simp: expectation_short_def)
    with x y shape show ?thesis by (simp add: expectation.equality)
  next
    case x: (EVScalar u)
    with c shape obtain v where y: "ex_Value y = EVScalar v"
      by (auto simp: canonical_expectation_def split: exp_value.splits)
    from x c have "ex_Shape x = ExpectationShapeScalar"
      by (simp add: canonical_expectation_def)
    with eq shape x y have "frame_str u @ s = frame_str v @ t"
      by (simp add: expectation_stream_def)
    from frame_str_delim [OF _ _ this] sh x y have "u = v" "s = t"
      by (auto simp: expectation_short_def)
    with x y shape show ?thesis by (simp add: expectation.equality)
  qed
qed

text \<open>What a check means: its id and its expectation; where it is observed is not part of it.\<close>

definition check_meaning :: "emb_check \<Rightarrow> string \<times> expectation option" where
  "check_meaning c = (ec_ID c, ec_Expectation c)"

lemma check_delim:
  assumes c: "canonical_check a" "canonical_check b" and sh: "check_short a" "check_short b"
    and eq: "check_stream a @ s = check_stream b @ t"
  shows "check_meaning a = check_meaning b \<and> s = t"
proof -
  from c obtain x y where xy: "ec_Expectation a = Some x" "ec_Expectation b = Some y"
    "canonical_expectation x" "canonical_expectation y"
    by (auto simp: canonical_check_def)
  with eq have "frame_str (ec_ID a) @ CHR 0x01 # expectation_stream x @ s =
      frame_str (ec_ID b) @ CHR 0x01 # expectation_stream y @ t"
    by (simp add: check_stream_def)
  from frame_str_delim [OF _ _ this] sh have "ec_ID a = ec_ID b"
    and "expectation_stream x @ s = expectation_stream y @ t"
    by (auto simp: check_short_def)
  moreover from expectation_delim [OF xy(3,4) _ _ this(2)] sh xy have "x = y" "s = t"
    by (simp_all add: check_short_def)
  ultimately show ?thesis by (simp add: check_meaning_def xy)
qed

definition embodiment_meaning ::
  "embodiment \<Rightarrow> string \<times> string \<times> (string \<times> expectation option) list" where
  "embodiment_meaning e = (em_Mode e, em_Reason e, map check_meaning (em_Checks e))"

lemma check_stream_meaning: "check_meaning a = check_meaning b \<Longrightarrow> check_stream a = check_stream b"
  by (simp add: check_meaning_def check_stream_def)

lemma check_streams_meaning:
  "map check_meaning xs = map check_meaning ys \<Longrightarrow> map check_stream xs = map check_stream ys"
proof (induction xs arbitrary: ys)
  case (Cons x xs)
  then obtain y ys' where ys: "ys = y # ys'" "check_meaning x = check_meaning y"
    "map check_meaning xs = map check_meaning ys'" by auto
  with Cons.IH [OF ys(3)] check_stream_meaning [OF ys(2)] show ?case by simp
qed simp

lemma map_delim:
  assumes "length xs = length ys" "concat (map item xs) @ s = concat (map item ys) @ t"
    and "\<And>x y u v. x \<in> set xs \<Longrightarrow> y \<in> set ys \<Longrightarrow> item x @ u = item y @ v \<Longrightarrow> f x = f y \<and> u = v"
  shows "map f xs = map f ys"
  using assms
proof (induction xs ys rule: list_induct2)
  case (Cons x xs y ys)
  from Cons.prems(1) have "item x @ concat (map item xs) @ s = item y @ concat (map item ys) @ t"
    by simp
  from Cons.prems(2) [OF _ _ this]
  have xy: "f x = f y" and eq: "concat (map item xs) @ s = concat (map item ys) @ t" by simp_all
  have "map f xs = map f ys"
    by (rule Cons.IH [OF eq]) (rule Cons.prems(2); simp)
  with xy show ?case by simp
qed simp

lemma embodiment_stream_iff:
  assumes c: "canonical_embodiment e" "canonical_embodiment e'"
    and sh: "embodiment_short e" "embodiment_short e'"
  shows "embodiment_stream e = embodiment_stream e' \<longleftrightarrow> embodiment_meaning e = embodiment_meaning e'"
proof
  assume eq: "embodiment_stream e = embodiment_stream e'"
  have "\<exists>r. embodiment_stream z = frame_str (em_Mode z) @ r" for z
    unfolding embodiment_stream_def by blast
  then obtain p q where "embodiment_stream e = frame_str (em_Mode e) @ p"
    "embodiment_stream e' = frame_str (em_Mode e') @ q" by blast
  with eq have "frame_str (em_Mode e) @ p = frame_str (em_Mode e') @ q" by simp
  from frame_str_delim [OF _ _ this] sh have mode: "em_Mode e = em_Mode e'"
    by (simp add: embodiment_short_def)
  show "embodiment_meaning e = embodiment_meaning e'"
  proof (cases "em_Mode e = EmbodimentModeCompare")
    case True
    with mode have m': "em_Mode e' = EmbodimentModeCompare" by simp
    have srt: "sort_key ec_ID (em_Checks e) = em_Checks e" "sort_key ec_ID (em_Checks e') = em_Checks e'"
      using c True m' by (auto simp: canonical_embodiment_def strict_sorted_iff sort_key_id_if_sorted)
    from eq True m' srt
    have "frame_uint64 (length (em_Checks e)) @ concat (map check_stream (em_Checks e)) =
          frame_uint64 (length (em_Checks e')) @ concat (map check_stream (em_Checks e'))"
      by (simp add: embodiment_stream_def)
    from frame_uint64_delim [OF _ _ this] sh
    have len: "length (em_Checks e) = length (em_Checks e')"
      and cs: "concat (map check_stream (em_Checks e)) @ [] = concat (map check_stream (em_Checks e')) @ []"
      by (simp_all add: embodiment_short_def short_def)
    have ok: "canonical_check a" "check_short a" if "a \<in> set (em_Checks e) \<union> set (em_Checks e')" for a
      using that c sh True m' by (auto simp: canonical_embodiment_def embodiment_short_def list_all_iff)
    have "map check_meaning (em_Checks e) = map check_meaning (em_Checks e')"
      by (rule map_delim [OF len cs]) (rule check_delim; simp add: ok)
    with c True m' show ?thesis by (simp add: embodiment_meaning_def canonical_embodiment_def)
  next
    case False
    with c mode have m: "em_Mode e = EmbodimentModeNone" "em_Mode e' = EmbodimentModeNone"
      and none: "em_Checks e = []" "em_Checks e' = []"
      by (auto simp: canonical_embodiment_def split: if_splits)
    from eq m have "frame_str (em_Reason e) @ [] = frame_str (em_Reason e') @ []"
      by (simp add: embodiment_stream_def)
    from frame_str_delim [OF _ _ this] sh m none show ?thesis
      by (simp add: embodiment_meaning_def embodiment_short_def)
  qed
next
  assume eq: "embodiment_meaning e = embodiment_meaning e'"
  have srt: "sort_key ec_ID (em_Checks z) = em_Checks z" if "canonical_embodiment z" for z
    using that by (cases "em_Mode z = EmbodimentModeCompare")
      (auto simp: canonical_embodiment_def strict_sorted_iff sort_key_id_if_sorted)
  from eq have "map check_stream (em_Checks e) = map check_stream (em_Checks e')"
    by (intro check_streams_meaning) (simp add: embodiment_meaning_def)
  with eq srt c show "embodiment_stream e = embodiment_stream e'"
    by (simp add: embodiment_stream_def embodiment_meaning_def)
      (auto dest: map_eq_imp_length_eq)
qed

text \<open>
  C39. In the embodiment domain the staleness hash misses nothing: for two claims with validated
  embodiments whose hashes agree, the historical streams agree and the embodiments mean the same
  (mode, reason, and the id and expectation of every check), unless two different inputs of the
  hash function with the same digest are at hand. Validation has made the order of checks and of
  set members irrelevant.
\<close>

theorem ContentHash_embodiment:
  assumes len: "\<forall>x. length (sha x) = 32"
    and e: "cl_Embodiment c = Some e" "cl_Embodiment d = Some e'"
    and ok: "canonical_embodiment e" "canonical_embodiment e'" "embodiment_short e" "embodiment_short e'"
    and eq: "ContentHash sha c = ContentHash sha d"
  shows "(legacy_preimage c = legacy_preimage d \<and> embodiment_meaning e = embodiment_meaning e') \<or>
    (legacy_preimage c \<noteq> legacy_preimage d \<and> sha (legacy_preimage c) = sha (legacy_preimage d)) \<or>
    (embodiment_preimage sha c e \<noteq> embodiment_preimage sha d e' \<and>
     sha (embodiment_preimage sha c e) = sha (embodiment_preimage sha d e'))"
proof (cases "embodiment_preimage sha c e = embodiment_preimage sha d e'")
  case True
  with len have "sha (legacy_preimage c) = sha (legacy_preimage d)" "embodiment_stream e = embodiment_stream e'"
    by (simp_all add: embodiment_preimage_def)
  with embodiment_stream_iff [OF ok] show ?thesis by blast
next
  case False
  from eq e have "sha (embodiment_preimage sha c e) = sha (embodiment_preimage sha d e')"
    by (auto simp: ContentHash_def dest: hex_encode_inj)
  with False show ?thesis by blast
qed

text \<open>A stand-in digest for the witness: the first 32 bytes, padded.\<close>

definition first32 :: "string \<Rightarrow> string" where
  "first32 x = take 32 (x @ replicate 32 CHR 0x00)"

definition unbound :: "string \<Rightarrow> string \<Rightarrow> claim" where
  "unbound i why = zero_claim\<lparr>cl_ID := i, cl_Embodiment :=
     Some \<lparr>em_Mode = EmbodimentModeNone, em_Checks = [], em_Reason = why, em_checksPresent = False,
       em_reasonPresent = True\<rparr>\<rparr>"

theorem ContentHash_embodiment_witness:
  "legacy_preimage (unbound ''m.x'' ''r'') = legacy_preimage ((unbound ''m.x'' ''r'')\<lparr>cl_Kind := ''rule''\<rparr>)"
proof -
  let ?c = "unbound ''m.x'' ''r''" and ?d = "(unbound ''m.x'' ''r'')\<lparr>cl_Kind := ''rule''\<rparr>"
  have len: "\<forall>x. length (first32 x) = 32" by (auto simp: first32_def)
  have e: "cl_Embodiment ?c = Some (the (cl_Embodiment ?c))" "cl_Embodiment ?d = Some (the (cl_Embodiment ?c))"
    by (simp_all add: unbound_def)
  have ok: "canonical_embodiment (the (cl_Embodiment ?c))" "embodiment_short (the (cl_Embodiment ?c))"
    by (simp_all add: unbound_def canonical_embodiment_def embodiment_short_def short_def emb_names
        space_heads_def)
  have pre: "legacy_preimage ?c = legacy_preimage ?d" by (simp add: legacy_preimage_def)
  then have eq: "ContentHash first32 ?c = ContentHash first32 ?d"
    by (simp add: ContentHash_def embodiment_preimage_def Let_def split: option.split)
  from ContentHash_embodiment [OF len e ok(1) ok(1) ok(2) ok(2) eq] pre show ?thesis
    by (simp add: embodiment_preimage_def)
qed

end
