(* ===== verification/Claim_Json.thy ===== *)
theory Claim_Json
  imports Content_Hash
begin

text \<open>
  A claim inside the lock store. The receipts, the ledger and the briefs' records keep whole claims, and
  \<^verbatim>\<open>encoding/json\<close> carries them through the file: a \<^verbatim>\<open>model.Claim\<close> has no JSON tags, so each exported field
  is written under its name, while a cell of type \<^verbatim>\<open>any\<close> is read back as what JSON knows (a number as a
  \<^verbatim>\<open>float64\<close>, an array as a \<^verbatim>\<open>[]any\<close>, a time as its text) and the presence flags of an embodiment, which are
  unexported, are lost. A cell that stands in the file is a JSON value: there \<open>VInt\<close> is an integer literal,
  and neither \<open>VTime\<close> nor \<open>VStrings\<close> occurs. Strings are taken as valid UTF-8, which JSON carries unchanged.
\<close>

section \<open>An integer read as a \<^verbatim>\<open>float64\<close>\<close>

fun bit_length :: "nat \<Rightarrow> nat" where
  "bit_length n = (if n = 0 then 0 else Suc (bit_length (n div 2)))"

declare bit_length.simps [simp del]

text \<open>The nearest \<^verbatim>\<open>float64\<close> of an integer: 53 bits of mantissa, ties to even.\<close>

definition float64_of :: "nat \<Rightarrow> nat" where
  "float64_of n =
     (let e = bit_length n - 53; q = n div 2 ^ e; r = n mod 2 ^ e in
      if e = 0 then n
      else (if 2 * r > 2 ^ e \<or> (2 * r = 2 ^ e \<and> odd q) then q + 1 else q) * 2 ^ e)"

text \<open>The decimals of \<open>k\<close> digits around a \<^verbatim>\<open>float64\<close> that read back as it, the nearest one first.\<close>

definition short_decimals :: "nat \<Rightarrow> nat \<Rightarrow> nat list" where
  "short_decimals n k =
     (let unit = 10 ^ (length (itoa n) - k); lo = n div unit * unit; hi = lo + unit
      in filter (\<lambda>d. float64_of d = n) (if n - lo \<le> hi - n then [lo, hi] else [hi, lo]))"

definition shortest_decimal :: "nat \<Rightarrow> nat" where
  "shortest_decimal n = hd (concat (map (short_decimals n) [1..<Suc (length (itoa n))]) @ [n])"

definition two_digits :: "nat \<Rightarrow> string" where
  "two_digits n = (if n < 10 then CHR ''0'' # itoa n else itoa n)"

fun trim_zeros :: "string \<Rightarrow> string" where
  "trim_zeros [] = []"
| "trim_zeros (c # s) = (let t = trim_zeros s in if c = CHR ''0'' \<and> t = [] then [] else c # t)"

text \<open>The shortest rendering (\<^verbatim>\<open>%v\<close>), with an exponent from a million on.\<close>

definition float_text :: "int \<Rightarrow> string" where
  "float_text i =
     (let n = float64_of (nat \<bar>i\<bar>); ds = itoa (shortest_decimal n); frac = trim_zeros (tl ds) in
      (if i < 0 then ''-'' else []) @
      (if length (itoa n) \<le> 6 then itoa n
       else hd ds # (if frac = [] then [] else CHR ''.'' # frac) @ ''e+'' @ two_digits (length ds - 1)))"

section \<open>Cells\<close>

text \<open>
  A time is written in RFC 3339; its printed form is the date, the time, the offset and the zone, with a
  blank between them.
\<close>

definition until_blank :: "string \<Rightarrow> string" where
  "until_blank s = takeWhile (\<lambda>c. c \<noteq> CHR '' '') s"

definition after_blank :: "string \<Rightarrow> string" where
  "after_blank s = drop 1 (dropWhile (\<lambda>c. c \<noteq> CHR '' '') s)"

definition rfc3339 :: "string \<Rightarrow> string" where
  "rfc3339 printed =
     (let rest = after_blank printed; offset = until_blank (after_blank rest) in
      until_blank printed @ ''T'' @ until_blank rest @
      (if offset = ''+0000'' then ''Z'' else take 3 offset @ '':'' @ drop 3 offset))"

fun json_encode_cell :: "cell \<Rightarrow> cell" where
  "json_encode_cell (VTime t) = VStr (rfc3339 t)"
| "json_encode_cell (VStrings ss) = VSeq (map VStr ss)"
| "json_encode_cell (VSeq cs) = VSeq (map json_encode_cell cs)"
| "json_encode_cell (VMap m) = VMap (map (\<lambda>(k, v). (k, json_encode_cell v)) m)"
| "json_encode_cell v = v"

fun json_decode_cell :: "cell \<Rightarrow> cell" where
  "json_decode_cell (VInt i) = VFloat (float_text i)"
| "json_decode_cell (VSeq cs) = VSeq (map json_decode_cell cs)"
| "json_decode_cell (VMap m) = VMap (map (\<lambda>(k, v). (k, json_decode_cell v)) m)"
| "json_decode_cell v = v"

section \<open>Claims\<close>

definition exported_embodiment :: "embodiment \<Rightarrow> embodiment" where
  "exported_embodiment e = e\<lparr>em_checksPresent := False, em_reasonPresent := False\<rparr>"

definition json_expectation :: "expectation \<Rightarrow> expectation" where
  "json_expectation x = x\<lparr>ex_Value := (case ex_Value x of EVSet vs \<Rightarrow> EVList vs | v \<Rightarrow> v)\<rparr>"

definition json_check :: "emb_check \<Rightarrow> emb_check" where
  "json_check c = c\<lparr>ec_Expectation := map_option json_expectation (ec_Expectation c)\<rparr>"

definition json_embodiment :: "embodiment \<Rightarrow> embodiment" where
  "json_embodiment e = exported_embodiment (e\<lparr>em_Checks := map json_check (em_Checks e)\<rparr>)"

definition json_encode :: "claim \<Rightarrow> claim" where
  "json_encode c =
     c\<lparr>cl_Embodiment := map_option json_embodiment (cl_Embodiment c),
       cl_Rows := map (map (\<lambda>(k, v). (k, json_encode_cell v))) (cl_Rows c)\<rparr>"

definition json_decode :: "claim \<Rightarrow> claim" where
  "json_decode c =
     c\<lparr>cl_Embodiment := map_option json_embodiment (cl_Embodiment c),
       cl_Rows := map (map (\<lambda>(k, v). (k, json_decode_cell v))) (cl_Rows c)\<rparr>"

text \<open>What a claim is after one trip through the file.\<close>

definition json_claim :: "claim \<Rightarrow> claim" where
  "json_claim c = json_decode (json_encode c)"

section \<open>What survives the trip\<close>

lemma exported_embodiment_simps [simp]:
  "em_Mode (exported_embodiment e) = em_Mode e" "em_Checks (exported_embodiment e) = em_Checks e"
  "em_Reason (exported_embodiment e) = em_Reason e"
  "em_checksPresent (exported_embodiment e) = False" "em_reasonPresent (exported_embodiment e) = False"
  by (simp_all add: exported_embodiment_def)

text \<open>A second trip changes nothing more.\<close>

lemma json_cell_again: "json_decode_cell (json_encode_cell (json_decode_cell (json_encode_cell v))) = json_decode_cell (json_encode_cell v)"
  by (induction v) (auto simp: comp_def split_def)

lemma json_embodiment_again [simp]: "json_embodiment (json_embodiment e) = json_embodiment e"
proof -
  have x: "json_expectation (json_expectation x) = json_expectation x" for x
    by (simp add: json_expectation_def split: exp_value.split)
  have "json_check (json_check c) = json_check c" for c
    by (simp add: json_check_def x option.map_comp comp_def)
  then show ?thesis by (simp add: json_embodiment_def exported_embodiment_def comp_def)
qed

lemma json_claim_eq:
  "json_claim c =
     c\<lparr>cl_Embodiment := map_option json_embodiment (cl_Embodiment c),
       cl_Rows := map (map (\<lambda>(k, v). (k, json_decode_cell (json_encode_cell v)))) (cl_Rows c)\<rparr>"
  by (simp add: json_claim_def json_decode_def json_encode_def option.map_comp comp_def split_def)

lemma json_frame:
  "cl_ID (json_claim c) = cl_ID c" "cl_Facet (json_claim c) = cl_Facet c" "cl_Module (json_claim c) = cl_Module c"
  "cl_Layout (json_claim c) = cl_Layout c" "cl_Summary (json_claim c) = cl_Summary c" "cl_Body (json_claim c) = cl_Body c"
  "cl_RawHTML (json_claim c) = cl_RawHTML c" "cl_Steps (json_claim c) = cl_Steps c"
  "cl_RestsOn (json_claim c) = cl_RestsOn c" "cl_Status (json_claim c) = cl_Status c"
  by (simp_all add: json_claim_eq)

lemma json_claim_again [simp]: "json_claim (json_claim c) = json_claim c"
  by (simp add: json_claim_eq option.map_comp comp_def split_def json_cell_again)

text \<open>
  The rows whose cells keep their meaning: no integer, whose type changes, and no time, which is written
  as text. With them the ledger's hash of a claim is the hash of what is read back.
\<close>

fun typed_cell :: "cell \<Rightarrow> bool" where
  "typed_cell (VInt i) = False"
| "typed_cell (VTime t) = False"
| "typed_cell (VSeq cs) = list_all typed_cell cs"
| "typed_cell (VMap m) = list_all (\<lambda>(k, v). typed_cell v) m"
| "typed_cell v = True"

definition typed_rows :: "claim \<Rightarrow> bool" where
  "typed_rows c \<longleftrightarrow> (\<forall>r \<in> set (cl_Rows c). \<forall>(k, v) \<in> set r. typed_cell v)"

lemma cell_value_json: "typed_cell v \<Longrightarrow> cell_value (json_decode_cell (json_encode_cell v)) = cell_value v"
  by (induction v) (auto simp: comp_def list_all_iff split_def)

lemma show_cell_json: "typed_cell v \<Longrightarrow> show_cell (json_decode_cell (json_encode_cell v)) = show_cell v"
proof (induction v)
  case (VStrings ss)
  show ?case by (simp add: comp_def)
next
  case (VSeq cs)
  then have "map (\<lambda>v. show_cell (json_decode_cell (json_encode_cell v))) cs = map show_cell cs"
    by (auto simp: list_all_iff)
  then show ?case by (simp only: json_encode_cell.simps json_decode_cell.simps show_cell.simps map_map comp_def)
next
  case (VMap m)
  then have "map (\<lambda>(k, v). (k, show_cell (json_decode_cell (json_encode_cell v)))) m = map (\<lambda>(k, v). (k, show_cell v)) m"
    by (fastforce simp: list_all_iff split_def)
  then show ?case
    by (simp only: json_encode_cell.simps json_decode_cell.simps show_cell.simps map_map comp_def split_def fst_conv snd_conv)
qed simp_all

lemma LockedClaimHash_json: "typed_rows c \<Longrightarrow> LockedClaimHash sha (json_claim c) = LockedClaimHash sha c"
proof -
  assume rows: "typed_rows c"
  have view: "canon (embodiment_rvalue (json_embodiment e)) = canon (embodiment_rvalue e)" for e
  proof -
    have "expectation_view (json_expectation x) = expectation_view x" for x
      by (simp add: expectation_view_def json_expectation_def split: exp_value.split)
    then have "check_view (json_check x) = check_view x" for x
      by (simp add: check_view_def json_check_def option.map_comp comp_def)
    then show ?thesis by (simp add: canon_embodiment_eq embodiment_view_def json_embodiment_def comp_def)
  qed
  have "row_value (map (\<lambda>(k, v). (k, json_decode_cell (json_encode_cell v))) r) = row_value r" if "r \<in> set (cl_Rows c)" for r
    using that rows by (fastforce simp: row_value_def typed_rows_def cell_value_json)
  then have "map (\<lambda>r. canon (row_value r)) (cl_Rows (json_claim c)) = map (\<lambda>r. canon (row_value r)) (cl_Rows c)"
    by (simp add: json_claim_eq)
  then have "claim_codes (json_claim c) = claim_codes c"
    by (cases "cl_Embodiment c") (simp_all add: claim_codes_eq json_claim_eq view del: canon.simps)
  from locked_preimage_of_codes [OF this] show ?thesis by (simp add: LockedClaimHash_def)
qed

text \<open>
  The staleness hash reads a set only as a \<^verbatim>\<open>[]string\<close>: without an expectation of that type it is kept too.
\<close>

definition no_typed_set :: "claim \<Rightarrow> bool" where
  "no_typed_set c \<longleftrightarrow>
     (\<forall>e. cl_Embodiment c = Some e \<longrightarrow> (\<forall>ch \<in> set (em_Checks e). \<forall>x vs. ec_Expectation ch = Some x \<longrightarrow> ex_Value x \<noteq> EVSet vs))"

lemma ContentHash_json: "typed_rows c \<Longrightarrow> no_typed_set c \<Longrightarrow> ContentHash sha (json_claim c) = ContentHash sha c"
proof -
  assume rows: "typed_rows c" and sets: "no_typed_set c"
  have row: "show_cell (VMap (map (\<lambda>(k, v). (k, json_decode_cell (json_encode_cell v))) r)) = show_cell (VMap r)"
    if "r \<in> set (cl_Rows c)" for r
  proof -
    have "typed_cell (VMap r)" using that rows by (auto simp: typed_rows_def list_all_iff)
    from show_cell_json [OF this] have "show_cell (VMap (map (\<lambda>(k, v). (k, json_decode_cell v)) (map (\<lambda>(k, v). (k, json_encode_cell v)) r))) = show_cell (VMap r)"
      by (simp del: show_cell.simps)
    then show ?thesis by (simp add: comp_def split_def del: show_cell.simps)
  qed
  have legacy: "legacy_preimage (json_claim c) = legacy_preimage c"
  proof -
    have "map (\<lambda>r. hash_line ''row'' (show_cell (VMap r))) (cl_Rows (json_claim c)) =
        map (\<lambda>r. hash_line ''row'' (show_cell (VMap r))) (cl_Rows c)"
      using row by (simp add: json_claim_eq comp_def del: show_cell.simps)
    then show ?thesis unfolding legacy_preimage_def by (simp only: json_frame)
  qed
  have "json_embodiment e = exported_embodiment e" if "cl_Embodiment c = Some e" for e
  proof -
    have "json_check ch = ch" if "ch \<in> set (em_Checks e)" for ch
    proof (cases "ec_Expectation ch")
      case None
      then show ?thesis by (simp add: json_check_def)
    next
      case (Some x)
      with sets that \<open>cl_Embodiment c = Some e\<close> have "ex_Value x \<noteq> EVSet vs" for vs by (simp add: no_typed_set_def)
      then have "json_expectation x = x" by (cases x) (simp add: json_expectation_def split: exp_value.split)
      with Some show ?thesis by (cases ch) (simp add: json_check_def)
    qed
    then have "map json_check (em_Checks e) = em_Checks e" by (simp add: map_idI)
    then show ?thesis by (simp add: json_embodiment_def)
  qed
  then have "cl_Embodiment (json_claim c) = map_option exported_embodiment (cl_Embodiment c)"
    by (cases "cl_Embodiment c") (simp_all add: json_claim_eq)
  moreover have "embodiment_preimage sha (json_claim c) (exported_embodiment e) = embodiment_preimage sha c e" for e
    by (simp add: embodiment_preimage_def legacy embodiment_stream_def)
  ultimately show ?thesis
    by (cases "cl_Embodiment c") (simp_all add: ContentHash_def Let_def legacy)
qed

end
