(* ===== verification/Digest_Store.thy ===== *)
theory Digest_Store
  imports Claim_Model
begin

text \<open>
  The comment digest store (\<^verbatim>\<open>internal/digest\<close>): a hash of every claim's comment block as the engine
  last wrote it. The theory holds the block's byte stream, the store and its operations, the
  decoding of its file, and what adoption may and may not do. SHA-256 is the parameter \<open>sha\<close>, the
  clock an argument \<open>now\<close>.
\<close>

section \<open>The digest of a comment block\<close>

definition digestVersion :: nat where
  "digestVersion = 1"

definition show_bool :: "bool \<Rightarrow> string" where
  "show_bool b = (if b then ''true'' else ''false'')"

abbreviation bar :: char where
  "bar \<equiv> CHR ''|''"

definition body_line :: "string \<Rightarrow> string \<Rightarrow> string" where
  "body_line tag b = tag @ itoa (length b) @ CHR '':'' # b @ [nl]"

definition reply_lines :: "reply \<Rightarrow> string" where
  "reply_lines r =
     ''r:'' @ rp_ID r @ bar # rp_Author r @ bar # rp_Created r @ bar # show_bool (rp_Edited r) @ nl #
     body_line ''rb'' (rp_Body r)"

definition thread_lines :: "comment \<Rightarrow> string" where
  "thread_lines t =
     ''t:'' @ cm_ID t @ bar # cm_Status t @ bar # cm_Author t @ bar # cm_Created t @ bar #
     show_bool (cm_Edited t) @ bar # cm_ResolvedBy t @ bar # cm_ResolvedAt t @ bar #
     cm_ReopenedBy t @ bar # cm_ReopenedAt t @ bar # ''replies='' @ itoa (length (cm_Replies t)) @ nl #
     body_line ''tb'' (cm_Body t) @ concat (map reply_lines (cm_Replies t))"

definition comments_preimage :: "claim \<Rightarrow> string" where
  "comments_preimage c =
     ''dossierx-comment-digest/v'' @ itoa digestVersion @ nl # ''claim='' @ cl_ID c @ nl #
     ''threads='' @ itoa (length (cl_Comments c)) @ nl # concat (map thread_lines (cl_Comments c))"

definition CommentsDigest :: "(string \<Rightarrow> string) \<Rightarrow> claim \<Rightarrow> string" where
  "CommentsDigest sha c = hex_encode (sha (comments_preimage c))"

definition EmptyCommentsDigest :: "(string \<Rightarrow> string) \<Rightarrow> string \<Rightarrow> string" where
  "EmptyCommentsDigest sha i = CommentsDigest sha (zero_claim\<lparr>cl_ID := i\<rparr>)"

definition BriefCommentsDigest :: "(string \<Rightarrow> string) \<Rightarrow> string \<Rightarrow> comment list \<Rightarrow> string" where
  "BriefCommentsDigest sha i threads =
     CommentsDigest sha (zero_claim\<lparr>cl_ID := ''brief:'' @ i, cl_Comments := threads\<rparr>)"

section \<open>The store\<close>

record digest_reaudit =
  ra_At :: string
  ra_Actor :: string
  ra_Reason :: string
  ra_Digest :: string

record dstore =
  ds_Version :: int
  ds_Digests :: "string gomap"
  ds_Briefs :: "string gomap"
  ds_Reaudits :: "digest_reaudit list gomap"
  ds_fileExists :: bool

definition StoreSchemaVersion :: int where
  "StoreSchemaVersion = 1"

definition empty_dstore :: dstore where
  "empty_dstore =
     \<lparr>ds_Version = StoreSchemaVersion, ds_Digests = [], ds_Briefs = [], ds_Reaudits = [],
      ds_fileExists = False\<rparr>"

definition ds_Digest :: "dstore \<Rightarrow> string \<Rightarrow> string option" where
  "ds_Digest s i = gm_get (ds_Digests s) i"

definition ds_Record :: "(string \<Rightarrow> string) \<Rightarrow> claim \<Rightarrow> dstore \<Rightarrow> dstore" where
  "ds_Record sha c s = s\<lparr>ds_Digests := gm_put (cl_ID c) (CommentsDigest sha c) (ds_Digests s)\<rparr>"

definition ds_Reaudit :: "(string \<Rightarrow> string) \<Rightarrow> string \<Rightarrow> claim \<Rightarrow> string \<Rightarrow> string \<Rightarrow> dstore \<Rightarrow> dstore" where
  "ds_Reaudit sha now c actor reason s =
     (let s1 = ds_Record sha c s;
          old = (case gm_get (ds_Reaudits s1) (cl_ID c) of None \<Rightarrow> [] | Some rs \<Rightarrow> rs);
          new = \<lparr>ra_At = now, ra_Actor = actor, ra_Reason = reason,
                 ra_Digest = (case gm_get (ds_Digests s1) (cl_ID c) of None \<Rightarrow> [] | Some d \<Rightarrow> d)\<rparr>
      in s1\<lparr>ds_Reaudits := gm_put (cl_ID c) (old @ [new]) (ds_Reaudits s1)\<rparr>)"

definition ds_Forget :: "string \<Rightarrow> dstore \<Rightarrow> dstore" where
  "ds_Forget i s = s\<lparr>ds_Digests := gm_del i (ds_Digests s)\<rparr>"

definition ds_BriefDigest :: "dstore \<Rightarrow> string \<Rightarrow> string option" where
  "ds_BriefDigest s i = gm_get (ds_Briefs s) i"

definition ds_RecordBrief :: "(string \<Rightarrow> string) \<Rightarrow> string \<Rightarrow> comment list \<Rightarrow> dstore \<Rightarrow> dstore" where
  "ds_RecordBrief sha i threads s =
     s\<lparr>ds_Briefs := gm_put i (BriefCommentsDigest sha i threads) (ds_Briefs s)\<rparr>"

fun adopt_loop :: "(string \<Rightarrow> string) \<Rightarrow> claim list \<Rightarrow> dstore \<times> string list \<Rightarrow> dstore \<times> string list" where
  "adopt_loop sha [] (s, adopted) = (s, adopted)"
| "adopt_loop sha (c # cs) (s, adopted) =
     (if ds_Digest s (cl_ID c) \<noteq> None then adopt_loop sha cs (s, adopted)
      else adopt_loop sha cs (ds_Record sha c s, adopted @ [cl_ID c]))"

definition Adopt :: "(string \<Rightarrow> string) \<Rightarrow> dstore \<Rightarrow> claim list \<Rightarrow> dstore \<times> string list" where
  "Adopt sha s claims =
     (let (s', adopted) = adopt_loop sha claims (s, []) in (s', sort adopted))"

text \<open>The store is a keyed store, through its digests.\<close>

interpretation dig: keyed_store ds_Digest "\<lambda>k v s. s\<lparr>ds_Digests := gm_put k v (ds_Digests s)\<rparr>"
  by unfold_locales (simp add: ds_Digest_def)

lemma ds_Digest_Record [simp]:
  "ds_Digest (ds_Record sha c s) i = (if i = cl_ID c then Some (CommentsDigest sha c) else ds_Digest s i)"
  using dig.get_put [of "cl_ID c" _ s i] by (simp add: ds_Record_def)

lemma ds_Digest_Forget [simp]:
  "ds_Digest (ds_Forget i s) j = (if j = i then None else ds_Digest s j)"
  by (simp add: ds_Digest_def ds_Forget_def)

section \<open>The file\<close>

text \<open>
  What \<^verbatim>\<open>encoding/json\<close> makes of the file: whether it parses, whether it holds a key outside the
  known four, its version if it has one, and the three maps (\<open>None\<close> for an absent or null one).
\<close>

record digest_file =
  df_unknown :: bool
  df_version :: "int option"
  df_digests :: "string gomap option"
  df_briefs :: "string gomap option"
  df_reaudits :: "digest_reaudit list gomap option"

datatype digest_error = DigestReadFailed | DigestMalformed | DigestTooNew int | DigestNoVersion
  | DigestWrongVersion int | DigestUnknownKey

definition opt_map :: "'a gomap option \<Rightarrow> 'a gomap" where
  "opt_map m = (case m of None \<Rightarrow> [] | Some x \<Rightarrow> x)"

definition decodeInto :: "dstore \<Rightarrow> digest_file option \<Rightarrow> bool \<Rightarrow> digest_error + dstore" where
  "decodeInto s raw strict =
     (case raw of
        None \<Rightarrow> Inl DigestMalformed
      | Some f \<Rightarrow>
          let v = (case df_version f of None \<Rightarrow> 0 | Some v \<Rightarrow> v) in
          if strict \<and> df_unknown f then Inl DigestUnknownKey
          else if v > StoreSchemaVersion then Inl (DigestTooNew v)
          else Inr (s\<lparr>ds_Digests := (case df_digests f of None \<Rightarrow> ds_Digests s | Some d \<Rightarrow> d),
                      ds_Briefs := opt_map (df_briefs f), ds_Reaudits := opt_map (df_reaudits f),
                      ds_fileExists := True\<rparr>))"

text \<open>The file as \<^verbatim>\<open>os.ReadFile\<close> finds it: absent, unreadable, or bytes that may or may not parse.\<close>

datatype 'f disk_file = Absent | Unreadable | Bytes "'f option"

definition ds_LoadStore :: "digest_file disk_file \<Rightarrow> digest_error + dstore" where
  "ds_LoadStore f =
     (case f of
        Absent \<Rightarrow> Inr empty_dstore
      | Unreadable \<Rightarrow> Inl DigestReadFailed
      | Bytes raw \<Rightarrow> decodeInto empty_dstore raw False)"

definition ds_DecodeStore :: "digest_file option \<Rightarrow> digest_error + dstore" where
  "ds_DecodeStore raw =
     (case raw of
        None \<Rightarrow> Inl DigestMalformed
      | Some f \<Rightarrow>
          (case df_version f of
             None \<Rightarrow> Inl DigestNoVersion
           | Some v \<Rightarrow>
               if v > StoreSchemaVersion then Inl (DigestTooNew v)
               else if v \<noteq> StoreSchemaVersion then Inl (DigestWrongVersion v)
               else decodeInto empty_dstore raw True))"

definition some_map :: "'a gomap \<Rightarrow> 'a gomap option" where
  "some_map m = (if m = [] then None else Some m)"

definition ds_Save :: "dstore \<Rightarrow> digest_file" where
  "ds_Save s =
     \<lparr>df_unknown = False, df_version = Some (ds_Version s), df_digests = Some (ds_Digests s),
      df_briefs = some_map (ds_Briefs s), df_reaudits = some_map (ds_Reaudits s)\<rparr>"

lemma opt_some_map [simp]: "opt_map (some_map m) = m"
  by (simp add: opt_map_def some_map_def)

lemma ds_load_save:
  "ds_Version s = StoreSchemaVersion \<Longrightarrow>
   ds_LoadStore (Bytes (Some (ds_Save s))) = Inr (s\<lparr>ds_fileExists := True\<rparr>)"
  by (simp add: ds_LoadStore_def decodeInto_def ds_Save_def empty_dstore_def)

lemma ds_decode_save:
  "ds_Version s = StoreSchemaVersion \<Longrightarrow>
   ds_DecodeStore (Some (ds_Save s)) = Inr (s\<lparr>ds_fileExists := True\<rparr>)"
  by (simp add: ds_DecodeStore_def decodeInto_def ds_Save_def empty_dstore_def)

section \<open>Adoption\<close>

lemma adopt_keeps:
  "ds_Digest s i = Some d \<Longrightarrow> ds_Digest (fst (adopt_loop sha cs (s, ad))) i = Some d"
proof (induction cs arbitrary: s ad)
  case (Cons c cs)
  then show ?case by (cases "i = cl_ID c") auto
qed simp

lemma adopt_adds:
  "ds_Digest s i = None \<Longrightarrow>
   ds_Digest (fst (adopt_loop sha cs (s, ad))) i =
     map_option (CommentsDigest sha) (find (\<lambda>c. cl_ID c = i) cs)"
  by (induction cs arbitrary: s ad) (auto simp: adopt_keeps)

lemma adopt_ids:
  "set (snd (adopt_loop sha cs (s, ad))) = set ad \<union> {i \<in> cl_ID ` set cs. ds_Digest s i = None}"
  by (induction cs arbitrary: s ad) auto

lemma adopt_distinct:
  "distinct ad \<Longrightarrow> (\<And>i. i \<in> set ad \<Longrightarrow> ds_Digest s i \<noteq> None) \<Longrightarrow>
   distinct (snd (adopt_loop sha cs (s, ad)))"
proof (induction cs arbitrary: s ad)
  case (Cons c cs)
  show ?case
  proof (cases "ds_Digest s (cl_ID c) = None")
    case True
    with Cons.prems(2) have "cl_ID c \<notin> set ad" by blast
    with Cons.prems True show ?thesis by (simp) (rule Cons.IH; auto)
  next
    case False
    with Cons show ?thesis by simp
  qed
qed simp

lemma adopt_other:
  "ds_fileExists (fst (adopt_loop sha cs (s, ad))) = ds_fileExists s"
  "ds_Version (fst (adopt_loop sha cs (s, ad))) = ds_Version s"
  by (induction cs arbitrary: s ad) (auto simp: ds_Record_def)

lemma Adopt_eq: "Adopt sha s cs = (fst (adopt_loop sha cs (s, [])), sort (snd (adopt_loop sha cs (s, []))))"
  by (simp add: Adopt_def split: prod.split)

text \<open>
  Adoption only adds. After \<open>Adopt\<close> every claim of the list has a digest; a digest recorded
  before is exactly what it was, so adoption never launders a block that has drifted; a digest that
  was missing is the digest of the first listed claim with that id; and the reported ids are, in
  ascending order and once each, the ids of the list that had none.
\<close>

theorem Adopt_spec:
  assumes "Adopt sha s claims = (s', adopted)"
  shows "(\<forall>i d. ds_Digest s i = Some d \<longrightarrow> ds_Digest s' i = Some d) \<and>
    (\<forall>i. ds_Digest s i = None \<longrightarrow>
       ds_Digest s' i = map_option (CommentsDigest sha) (find (\<lambda>c. cl_ID c = i) claims)) \<and>
    (\<forall>c \<in> set claims. ds_Digest s' (cl_ID c) \<noteq> None) \<and>
    sorted_wrt (<) adopted \<and> set adopted = {i \<in> cl_ID ` set claims. ds_Digest s i = None}"
proof -
  from assms have s': "s' = fst (adopt_loop sha claims (s, []))"
    and ad: "adopted = sort (snd (adopt_loop sha claims (s, [])))"
    by (simp_all add: Adopt_eq)
  have "ds_Digest s' (cl_ID c) \<noteq> None" if "c \<in> set claims" for c
  proof (cases "ds_Digest s (cl_ID c)")
    case None
    from that have "find (\<lambda>d. cl_ID d = cl_ID c) claims \<noteq> None" by (auto simp: find_None_iff)
    with None show ?thesis by (auto simp: s' adopt_adds)
  qed (simp add: s' adopt_keeps)
  moreover have "distinct (snd (adopt_loop sha claims (s, [])))" by (rule adopt_distinct) auto
  ultimately show ?thesis
    by (auto simp: s' ad adopt_keeps adopt_adds adopt_ids strict_sorted_iff)
qed

theorem Adopt_spec_witness:
  "snd (Adopt (\<lambda>x. x) (ds_Record (\<lambda>x. x) (zero_claim\<lparr>cl_ID := ''a''\<rparr>) empty_dstore)
      [zero_claim\<lparr>cl_ID := ''c''\<rparr>, zero_claim\<lparr>cl_ID := ''a''\<rparr>, zero_claim\<lparr>cl_ID := ''b''\<rparr>]) = [''b'', ''c''] \<and>
   sorted_wrt (<) [''b'', ''c'']"
proof -
  let ?s = "ds_Record (\<lambda>x. x) (zero_claim\<lparr>cl_ID := ''a''\<rparr>) empty_dstore"
  let ?cs = "[zero_claim\<lparr>cl_ID := ''c''\<rparr>, zero_claim\<lparr>cl_ID := ''a''\<rparr>, zero_claim\<lparr>cl_ID := ''b''\<rparr>]"
  have ids: "snd (Adopt (\<lambda>x. x) ?s ?cs) = [''b'', ''c'']"
    by (simp add: Adopt_eq zero_claim_def empty_dstore_def) (simp add: ds_Digest_def)
  then obtain s' where "Adopt (\<lambda>x. x) ?s ?cs = (s', [''b'', ''c''])" by (metis prod.collapse)
  from Adopt_spec [OF this] ids show ?thesis by blast
qed

section \<open>What the digest sees\<close>

text \<open>
  Every field of a thread and of a reply takes part. The metadata of a thread is one line of fields
  separated by bars, so the stream can be read back when the fields hold no bar and no newline,
  which is so for everything the engine writes into them.
\<close>

definition plain :: "string \<Rightarrow> bool" where
  "plain s \<longleftrightarrow> bar \<notin> set s \<and> nl \<notin> set s"

definition plain_reply :: "reply \<Rightarrow> bool" where
  "plain_reply r \<longleftrightarrow> plain (rp_ID r) \<and> plain (rp_Author r) \<and> plain (rp_Created r)"

definition plain_thread :: "comment \<Rightarrow> bool" where
  "plain_thread t \<longleftrightarrow>
     list_all plain [cm_ID t, cm_Status t, cm_Author t, cm_Created t, cm_ResolvedBy t, cm_ResolvedAt t,
       cm_ReopenedBy t, cm_ReopenedAt t] \<and> list_all plain_reply (cm_Replies t)"

lemma bar_delim: "plain a \<Longrightarrow> plain b \<Longrightarrow> a @ bar # s = b @ bar # t \<Longrightarrow> a = b \<and> s = t"
  using until_delim [of a "\<lambda>c. c = bar" b bar bar s t] by (auto simp: plain_def)

lemma bool_delim: "show_bool a @ c # s = show_bool b @ c # t \<Longrightarrow> a = b \<and> s = t"
  by (auto simp: show_bool_def split: if_splits)

lemma count_delim: "itoa m @ nl # s = itoa n @ nl # t \<Longrightarrow> m = n \<and> s = t"
  using itoa_delim [of m nl s n nl t] by (simp add: is_digit_def)

lemma body_delim: "body_line tag a @ s = body_line tag b @ t \<Longrightarrow> a = b \<and> s = t"
proof -
  assume "body_line tag a @ s = body_line tag b @ t"
  then have "itoa (length a) @ CHR '':'' # a @ nl # s = itoa (length b) @ CHR '':'' # b @ nl # t"
    by (simp add: body_line_def)
  from itoa_delim [OF this] have "length a = length b" "a @ nl # s = b @ nl # t"
    by (simp_all add: is_digit_def)
  then show ?thesis by (metis append_eq_append_conv list.inject)
qed

lemma reply_delim:
  assumes p: "plain_reply q" "plain_reply r" and eq: "reply_lines q @ s = reply_lines r @ t"
  shows "q = r \<and> s = t"
proof -
  from eq have "rp_ID q @ bar # rp_Author q @ bar # rp_Created q @ bar # show_bool (rp_Edited q) @ nl #
      body_line ''rb'' (rp_Body q) @ s = rp_ID r @ bar # rp_Author r @ bar # rp_Created r @ bar #
      show_bool (rp_Edited r) @ nl # body_line ''rb'' (rp_Body r) @ t"
    by (simp add: reply_lines_def)
  note 1 = bar_delim [OF _ _ this]
  note 2 = bar_delim [OF _ _ conjunct2 [OF 1]]
  note 3 = bar_delim [OF _ _ conjunct2 [OF 2]]
  note 4 = bool_delim [OF conjunct2 [OF 3]]
  note 5 = body_delim [OF conjunct2 [OF 4]]
  show ?thesis using 1 2 3 4 5 p by (simp add: plain_reply_def reply.equality)
qed

lemma thread_delim:
  assumes p: "plain_thread a" "plain_thread b" and eq: "thread_lines a @ s = thread_lines b @ t"
  shows "a = b \<and> s = t"
proof -
  from p have pa: "plain (cm_ID a)" "plain (cm_Status a)" "plain (cm_Author a)" "plain (cm_Created a)"
      "plain (cm_ResolvedBy a)" "plain (cm_ResolvedAt a)" "plain (cm_ReopenedBy a)" "plain (cm_ReopenedAt a)"
      "list_all plain_reply (cm_Replies a)"
    and pb: "plain (cm_ID b)" "plain (cm_Status b)" "plain (cm_Author b)" "plain (cm_Created b)"
      "plain (cm_ResolvedBy b)" "plain (cm_ResolvedAt b)" "plain (cm_ReopenedBy b)" "plain (cm_ReopenedAt b)"
      "list_all plain_reply (cm_Replies b)"
    by (simp_all add: plain_thread_def)
  from eq have "cm_ID a @ bar # cm_Status a @ bar # cm_Author a @ bar # cm_Created a @ bar #
      show_bool (cm_Edited a) @ bar # cm_ResolvedBy a @ bar # cm_ResolvedAt a @ bar #
      cm_ReopenedBy a @ bar # cm_ReopenedAt a @ bar # ''replies='' @ itoa (length (cm_Replies a)) @ nl #
      body_line ''tb'' (cm_Body a) @ concat (map reply_lines (cm_Replies a)) @ s =
      cm_ID b @ bar # cm_Status b @ bar # cm_Author b @ bar # cm_Created b @ bar #
      show_bool (cm_Edited b) @ bar # cm_ResolvedBy b @ bar # cm_ResolvedAt b @ bar #
      cm_ReopenedBy b @ bar # cm_ReopenedAt b @ bar # ''replies='' @ itoa (length (cm_Replies b)) @ nl #
      body_line ''tb'' (cm_Body b) @ concat (map reply_lines (cm_Replies b)) @ t"
    by (simp add: thread_lines_def)
  note 1 = bar_delim [OF pa(1) pb(1) this]
  note 2 = bar_delim [OF pa(2) pb(2) conjunct2 [OF 1]]
  note 3 = bar_delim [OF pa(3) pb(3) conjunct2 [OF 2]]
  note 4 = bar_delim [OF pa(4) pb(4) conjunct2 [OF 3]]
  note 5 = bool_delim [OF conjunct2 [OF 4]]
  note 6 = bar_delim [OF pa(5) pb(5) conjunct2 [OF 5]]
  note 7 = bar_delim [OF pa(6) pb(6) conjunct2 [OF 6]]
  note 8 = bar_delim [OF pa(7) pb(7) conjunct2 [OF 7]]
  note 9 = bar_delim [OF pa(8) pb(8) conjunct2 [OF 8]]
  from conjunct2 [OF 9]
  have "itoa (length (cm_Replies a)) @ nl # body_line ''tb'' (cm_Body a) @
        concat (map reply_lines (cm_Replies a)) @ s =
      itoa (length (cm_Replies b)) @ nl # body_line ''tb'' (cm_Body b) @
        concat (map reply_lines (cm_Replies b)) @ t" by simp
  note 10 = count_delim [OF this]
  note 11 = body_delim [OF conjunct2 [OF 10]]
  have "reads_back reply_lines (cm_Replies a) (cm_Replies b)"
    using pa(9) pb(9) by (intro reads_backI reply_delim) (auto simp: list_all_iff)
  note 12 = counted_delim [OF conjunct1 [OF 10] this conjunct2 [OF 11]]
  show ?thesis using 1 2 3 4 5 6 7 8 9 11 12 by (simp add: comment.equality)
qed

text \<open>
  The comment digest misses no edit that stays within plain fields: for two claims whose ids
  hold no newline and whose thread and reply metadata hold no bar and no newline, the hashed stream
  is the same if and only if the ids are the same and the comment blocks are the same, thread by
  thread, reply by reply, in the same order.
\<close>

theorem comments_preimage_iff:
  assumes "nl \<notin> set (cl_ID c)" "nl \<notin> set (cl_ID d)"
    and "list_all plain_thread (cl_Comments c)" "list_all plain_thread (cl_Comments d)"
  shows "comments_preimage c = comments_preimage d \<longleftrightarrow>
    cl_ID c = cl_ID d \<and> cl_Comments c = cl_Comments d"
proof
  assume "comments_preimage c = comments_preimage d"
  then have "cl_ID c @ nl # ''threads='' @ itoa (length (cl_Comments c)) @ nl #
        concat (map thread_lines (cl_Comments c)) =
      cl_ID d @ nl # ''threads='' @ itoa (length (cl_Comments d)) @ nl #
        concat (map thread_lines (cl_Comments d))"
    by (simp add: comments_preimage_def)
  from until_delim [OF _ _ _ _ this, of "\<lambda>c. c = nl"] assms(1,2)
  have i: "cl_ID c = cl_ID d" and "itoa (length (cl_Comments c)) @ nl #
        concat (map thread_lines (cl_Comments c)) = itoa (length (cl_Comments d)) @ nl #
        concat (map thread_lines (cl_Comments d))" by auto
  note 1 = count_delim [OF this(2)]
  have "reads_back thread_lines (cl_Comments c) (cl_Comments d)"
    using assms(3,4) by (intro reads_backI thread_delim) (auto simp: list_all_iff)
  from counted_delim [OF conjunct1 [OF 1] this, of "[]" "[]"] 1 i
  show "cl_ID c = cl_ID d \<and> cl_Comments c = cl_Comments d" by simp
qed (simp add: comments_preimage_def)

definition one_thread :: "string \<Rightarrow> string \<Rightarrow> string \<Rightarrow> claim" where
  "one_thread i status body = zero_claim\<lparr>cl_ID := ''m.x'', cl_Comments :=
     [\<lparr>cm_ID = i, cm_Status = status, cm_Author = CommentRoleAgent, cm_Created = ''T'', cm_Body = body,
       cm_Edited = False, cm_Replies = [], cm_ResolvedBy = [], cm_ResolvedAt = [], cm_ReopenedBy = [],
       cm_ReopenedAt = []\<rparr>]\<rparr>"

theorem comments_preimage_iff_witness:
  "comments_preimage (one_thread ''c-1'' CommentStatusOpen ''a|b'') \<noteq>
   comments_preimage (one_thread ''c-1'' CommentStatusResolved ''a|b'')"
  by (subst comments_preimage_iff)
    (simp_all add: one_thread_def zero_claim_def plain_thread_def plain_def CommentStatusOpen_def
      CommentStatusResolved_def CommentRoleAgent_def)

text \<open>
  Outside plain fields the digest can be fooled. A thread's id, status and timestamps are not
  length-prefixed, so a thread that was written honestly, open, with a body that spells out the rest
  of a metadata line, has the same digest as a resolved thread whose id swallows the original line:
  replacing the one by the other by hand is not seen as drift.
\<close>

definition honest_body :: string where
  "honest_body = ''x|resolved|agent|T|false|||||replies=0'' @ [nl] @ ''tb1:y''"

definition forged_id :: string where
  "forged_id = ''c-1|open|agent|T|false|||||replies=0'' @ [nl] @ ''tb44:x''"

theorem comment_digest_forgeable:
  "CommentsDigest sha (one_thread ''c-1'' CommentStatusOpen honest_body) =
   CommentsDigest sha (one_thread forged_id CommentStatusResolved ''y'')"
proof -
  have digits: "itoa 44 = ''44''" "itoa 1 = ''1''" "itoa 0 = ''0''"
    by code_simp+
  have len: "length honest_body = 44" "length ''y'' = 1"
    by (simp_all add: honest_body_def)
  have empty: "length ([] :: reply list) = 0" by simp
  show ?thesis
    unfolding CommentsDigest_def comments_preimage_def one_thread_def thread_lines_def zero_claim_def
      body_line_def
    by (simp only: claim.simps comment.simps len digits empty list.map concat.simps)
      (simp add: honest_body_def forged_id_def show_bool_def CommentStatusOpen_def
        CommentStatusResolved_def CommentRoleAgent_def)
qed

end
