(* ===== verification/Lock_Store.thy ===== *)
theory Lock_Store
  imports Claim_Json Digest_Store
begin

text \<open>
  The lock store (\<^verbatim>\<open>internal/lock/lock.go\<close>): its state, its file and the decoding of it, the
  per-dependent baselines with staleness detection, and saving. What lies on disk is a record of its
  own: the two store files and whether the operating system lets them be locked and written, so that
  the best-effort branches of the code are branches here. The clock is an argument \<open>now\<close>.
\<close>

section \<open>State\<close>

record receipt =
  rc_Hash :: string
  rc_Content :: claim

record ledger_record =
  lr_Subject :: string
  lr_Hash :: string
  lr_At :: string
  lr_Actor :: string
  lr_Reason :: string
  lr_Grandfathered :: bool
  lr_ReleasedAt :: string
  lr_ReleasedBy :: string
  lr_ReleasedReason :: string
  lr_Content :: "claim option"

record roof_record =
  rr_Hash :: string
  rr_Reason :: string
  rr_LockedAt :: string

record brief_reaudit =
  bra_At :: string
  bra_Actor :: string
  bra_Reason :: string
  bra_Claims :: "string list"

record brief_record =
  br_Path :: string
  br_Hash :: string
  br_At :: string
  br_Actor :: string
  br_Reason :: string
  br_Summary :: string
  br_RestsOn :: "string list"
  br_Markdown :: string
  br_Images :: "string gomap"
  br_Baselines :: "string gomap"
  br_Receipts :: "claim gomap"
  br_Reaudits :: "brief_reaudit list"
  br_ReleasedAt :: string
  br_ReleasedBy :: string
  br_ReleasedReason :: string

record store =
  st_Version :: int
  st_PolicyVersion :: int
  st_PolicyMigratedAt :: string
  st_PolicyMigrationReason :: string
  st_Hashes :: "string gomap gomap"
  st_Receipts :: "receipt gomap gomap"
  st_LockedAt :: "string gomap"
  st_Ledger :: "ledger_record gomap"
  st_Constitution :: "roof_record option"
  st_Briefs :: "brief_record gomap"
  st_path :: string
  st_diskVersion :: int
  st_fileExists :: bool
  st_ledgerKeyOnDisk :: bool
  st_rebaselined :: "string list"
  st_commentDigestsAdopted :: "string list"

definition storeSchemaVersion :: int where
  "storeSchemaVersion = 3"

definition nestedHashSchemaVersion :: int where
  "nestedHashSchemaVersion = 1"

definition ledgerSchemaVersion :: int where
  "ledgerSchemaVersion = 2"

definition briefsSchemaVersion :: int where
  "briefsSchemaVersion = 4"

definition PolicyLocalApprovalV1 :: int where
  "PolicyLocalApprovalV1 = 1"

definition retiredPolicyMigrationReason :: string where
  "retiredPolicyMigrationReason =
     ''lock policy 0 retired in v0.7.21; this store now records local approval v1''"

lemmas schema_defs = storeSchemaVersion_def nestedHashSchemaVersion_def ledgerSchemaVersion_def
  briefsSchemaVersion_def

definition emptyStore :: "string \<Rightarrow> store" where
  "emptyStore path =
     \<lparr>st_Version = storeSchemaVersion, st_PolicyVersion = PolicyLocalApprovalV1,
      st_PolicyMigratedAt = [], st_PolicyMigrationReason = [], st_Hashes = [], st_Receipts = [],
      st_LockedAt = [], st_Ledger = [], st_Constitution = None, st_Briefs = [], st_path = path,
      st_diskVersion = 0, st_fileExists = False, st_ledgerKeyOnDisk = False, st_rebaselined = [],
      st_commentDigestsAdopted = []\<rparr>"

section \<open>Keyed access\<close>

definition Baseline :: "store \<Rightarrow> string \<Rightarrow> string \<Rightarrow> string option" where
  "Baseline s dependent dep =
     (case gm_get (st_Hashes s) dependent of None \<Rightarrow> None | Some deps \<Rightarrow> gm_get deps dep)"

definition recordBaseline :: "string \<Rightarrow> string \<Rightarrow> string \<Rightarrow> store \<Rightarrow> store" where
  "recordBaseline dependent dep h s =
     (let deps = (case gm_get (st_Hashes s) dependent of None \<Rightarrow> [] | Some m \<Rightarrow> m)
      in s\<lparr>st_Hashes := gm_put dependent (gm_put dep h deps) (st_Hashes s)\<rparr>)"

definition Receipt :: "store \<Rightarrow> string \<Rightarrow> string \<Rightarrow> receipt option" where
  "Receipt s dependent dep =
     (case gm_get (st_Receipts s) dependent of None \<Rightarrow> None | Some deps \<Rightarrow> gm_get deps dep)"

definition put_receipt :: "string \<Rightarrow> string \<Rightarrow> receipt \<Rightarrow> store \<Rightarrow> store" where
  "put_receipt dependent dep r s =
     (let deps = (case gm_get (st_Receipts s) dependent of None \<Rightarrow> [] | Some m \<Rightarrow> m)
      in s\<lparr>st_Receipts := gm_put dependent (gm_put dep r deps) (st_Receipts s)\<rparr>)"

definition recordReceipt :: "(string \<Rightarrow> string) \<Rightarrow> string \<Rightarrow> claim \<Rightarrow> store \<Rightarrow> store" where
  "recordReceipt sha dependent dep s =
     put_receipt dependent (cl_ID dep) \<lparr>rc_Hash = ContentHash sha dep, rc_Content = dep\<rparr> s"

definition st_Record :: "store \<Rightarrow> string \<Rightarrow> ledger_record option" where
  "st_Record s key = gm_get (st_Ledger s) key"

definition putRecord :: "string \<Rightarrow> ledger_record \<Rightarrow> store \<Rightarrow> store" where
  "putRecord key r s = s\<lparr>st_Ledger := gm_put key r (st_Ledger s)\<rparr>"

definition st_LockedAt_put :: "string \<Rightarrow> string \<Rightarrow> store \<Rightarrow> store" where
  "st_LockedAt_put i t s = s\<lparr>st_LockedAt := gm_put i t (st_LockedAt s)\<rparr>"

interpretation base: keyed_store "\<lambda>s (a, b). Baseline s a b" "\<lambda>(a, b) h. recordBaseline a b h"
  by unfold_locales (auto simp: Baseline_def recordBaseline_def Let_def split: option.splits if_splits)

interpretation receipts: keyed_store "\<lambda>s (a, b). Receipt s a b" "\<lambda>(a, b) r. put_receipt a b r"
  by unfold_locales (auto simp: Receipt_def put_receipt_def Let_def split: option.splits if_splits)

interpretation ledger: keyed_store st_Record putRecord
  by unfold_locales (simp add: st_Record_def putRecord_def)

lemma Baseline_recordBaseline [simp]:
  "Baseline (recordBaseline a b h s) c d = (if (c, d) = (a, b) then Some h else Baseline s c d)"
  using base.get_put [of "(a, b)" h s "(c, d)"] by simp

lemma st_Record_putRecord [simp]: "st_Record (putRecord k r s) j = (if j = k then Some r else st_Record s j)"
  by (rule ledger.get_put)

lemma put_frame [simp]:
  "Baseline (put_receipt a b r s) = Baseline s" "Baseline (putRecord k l s) = Baseline s"
  "Baseline (st_LockedAt_put i t s) = Baseline s"
  "Receipt (recordBaseline a b h s) = Receipt s" "Receipt (putRecord k l s) = Receipt s"
  "Receipt (st_LockedAt_put i t s) = Receipt s"
  "st_Record (recordBaseline a b h s) = st_Record s" "st_Record (put_receipt a b r s) = st_Record s"
  "st_Record (st_LockedAt_put i t s) = st_Record s"
  by (auto simp: Baseline_def recordBaseline_def put_receipt_def putRecord_def st_LockedAt_put_def
      Receipt_def st_Record_def Let_def fun_eq_iff)

section \<open>Staleness\<close>

definition dedupeStable :: "string list \<Rightarrow> string list" where
  "dedupeStable ids = dedupe_acc [] ids"

definition BaselineDependencyIDs :: "claim \<Rightarrow> string list" where
  "BaselineDependencyIDs c = dedupeStable (ro_IDs (cl_RestsOn c))"

fun findByID :: "claim list \<Rightarrow> string \<Rightarrow> claim option" where
  "findByID [] i = None"
| "findByID (c # cs) i = (if cl_ID c = i then Some c else findByID cs i)"

lemma findByID_ID: "findByID cs i = Some c \<Longrightarrow> cl_ID c = i \<and> c \<in> set cs"
  by (induction cs) (auto split: if_splits)

lemma set_BaselineDependencyIDs [simp]: "set (BaselineDependencyIDs c) = set (ro_IDs (cl_RestsOn c))"
  by (simp add: BaselineDependencyIDs_def dedupeStable_def set_dedupe_acc)

text \<open>The inner loop of \<^verbatim>\<open>DetectStale\<close>, with its \<open>continue\<close> and its \<open>break\<close>.\<close>

fun drift_loop :: "(string \<Rightarrow> string) \<Rightarrow> store \<Rightarrow> claim list \<Rightarrow> string \<Rightarrow> string list \<Rightarrow> bool" where
  "drift_loop sha s claims i [] = False"
| "drift_loop sha s claims i (dep # deps) =
     (case findByID claims dep of
        None \<Rightarrow> drift_loop sha s claims i deps
      | Some d \<Rightarrow>
          (case Baseline s i dep of
             None \<Rightarrow> drift_loop sha s claims i deps
           | Some stored \<Rightarrow>
               if stored \<noteq> ContentHash sha d then True else drift_loop sha s claims i deps))"

definition DetectStale :: "(string \<Rightarrow> string) \<Rightarrow> claim list \<Rightarrow> store \<Rightarrow> claim list" where
  "DetectStale sha claims s =
     map (\<lambda>c. if cl_Status c \<noteq> StatusLocked then c
              else if drift_loop sha s claims (cl_ID c) (BaselineDependencyIDs c)
                then c\<lparr>cl_ReviewPending := True\<rparr> else c) claims"

fun refresh_loop :: "(string \<Rightarrow> string) \<Rightarrow> string \<Rightarrow> claim list \<Rightarrow> string list \<Rightarrow> store \<Rightarrow> store" where
  "refresh_loop sha i claims [] s = s"
| "refresh_loop sha i claims (dep # deps) s =
     refresh_loop sha i claims deps
       (case findByID claims dep of
          None \<Rightarrow> s
        | Some d \<Rightarrow> recordReceipt sha i d (recordBaseline i dep (ContentHash sha d) s))"

definition RefreshBaseline :: "(string \<Rightarrow> string) \<Rightarrow> string \<Rightarrow> claim \<Rightarrow> claim list \<Rightarrow> store \<Rightarrow> store" where
  "RefreshBaseline sha now c claims s =
     st_LockedAt_put (cl_ID c) now (refresh_loop sha (cl_ID c) claims (BaselineDependencyIDs c) s)"

definition ClearReviewPending ::
  "(string \<Rightarrow> string) \<Rightarrow> string \<Rightarrow> claim \<Rightarrow> claim list \<Rightarrow> store \<Rightarrow> claim \<times> store" where
  "ClearReviewPending sha now c claims s =
     (c\<lparr>cl_ReviewPending := False\<rparr>, RefreshBaseline sha now c claims s)"

text \<open>What it means for a claim to rest on something that moved.\<close>

definition drifted :: "(string \<Rightarrow> string) \<Rightarrow> store \<Rightarrow> claim list \<Rightarrow> claim \<Rightarrow> bool" where
  "drifted sha s claims c \<longleftrightarrow>
     (\<exists>dep \<in> set (ro_IDs (cl_RestsOn c)). \<exists>d h.
        findByID claims dep = Some d \<and> Baseline s (cl_ID c) dep = Some h \<and> h \<noteq> ContentHash sha d)"

lemma drift_loop_iff:
  "drift_loop sha s claims i deps \<longleftrightarrow>
   (\<exists>dep \<in> set deps. \<exists>d h. findByID claims dep = Some d \<and> Baseline s i dep = Some h \<and> h \<noteq> ContentHash sha d)"
  by (induction deps) (auto split: option.splits)

lemma drift_iff: "drift_loop sha s claims (cl_ID c) (BaselineDependencyIDs c) \<longleftrightarrow> drifted sha s claims c"
  by (simp add: drift_loop_iff drifted_def)

lemma findByID_map:
  "(\<And>c. cl_ID (f c) = cl_ID c) \<Longrightarrow> findByID (map f cs) i = map_option f (findByID cs i)"
  by (induction cs) auto

lemma Baseline_refresh_loop:
  "Baseline (refresh_loop sha i claims deps s) j d =
     (if j = i \<and> d \<in> set deps \<and> findByID claims d \<noteq> None
      then Some (ContentHash sha (the (findByID claims d))) else Baseline s j d)"
  by (induction deps arbitrary: s) (auto simp: recordReceipt_def split: option.splits)

lemma Baseline_RefreshBaseline:
  "Baseline (RefreshBaseline sha now c claims s) j d =
     (if j = cl_ID c \<and> d \<in> set (ro_IDs (cl_RestsOn c)) \<and> findByID claims d \<noteq> None
      then Some (ContentHash sha (the (findByID claims d))) else Baseline s j d)"
  by (simp add: RefreshBaseline_def Baseline_refresh_loop)

lemma st_Record_refresh_loop: "st_Record (refresh_loop sha i claims deps s) = st_Record s"
  by (induction deps arbitrary: s) (auto simp: recordReceipt_def split: option.splits)

lemma st_Record_RefreshBaseline [simp]: "st_Record (RefreshBaseline sha now c claims s) = st_Record s"
  by (simp add: RefreshBaseline_def st_Record_refresh_loop)

text \<open>
  \<open>DetectStale\<close> flags exactly the locked claims one of whose dependencies has moved away from
  the baseline recorded for that very claim, or that were flagged already; it changes nothing else
  of any claim, keeps the list in place, and running it on its own result changes nothing.
\<close>

theorem DetectStale_spec:
  "length (DetectStale sha claims s) = length claims \<and>
   (i < length claims \<longrightarrow>
      DetectStale sha claims s ! i = (claims ! i)\<lparr>cl_ReviewPending :=
        cl_ReviewPending (claims ! i) \<or>
        (cl_Status (claims ! i) = StatusLocked \<and> drifted sha s claims (claims ! i))\<rparr>) \<and>
   DetectStale sha (DetectStale sha claims s) s = DetectStale sha claims s"
proof -
  define f where "f c = (if cl_Status c \<noteq> StatusLocked then c
    else if drifted sha s claims c then c\<lparr>cl_ReviewPending := True\<rparr> else c)" for c
  have eq: "DetectStale sha claims s = map f claims"
    by (simp add: DetectStale_def drift_iff f_def)
  have f_id: "cl_ID (f c) = cl_ID c" and f_hash: "ContentHash sha (f c) = ContentHash sha c" for c
    by (simp_all add: f_def)
  have fid: "findByID (map f claims) d = map_option f (findByID claims d)" for d
    by (rule findByID_map) (rule f_id)
  have same: "drifted sha s (map f claims) c \<longleftrightarrow> drifted sha s claims c" for c
  proof -
    have "(\<exists>e h. map_option f y = Some e \<and> b = Some h \<and> h \<noteq> ContentHash sha e) \<longleftrightarrow>
        (\<exists>e h. y = Some e \<and> b = Some h \<and> h \<noteq> ContentHash sha e)" for y b
      by (cases y) (auto simp: f_hash)
    then show ?thesis unfolding drifted_def fid by simp
  qed
  have pend: "drifted sha s claims (f c) \<longleftrightarrow> drifted sha s claims c" for c
    by (simp add: drifted_def f_def)
  have "DetectStale sha (map f claims) s = map f (map f claims)"
    by (simp add: DetectStale_def drift_iff same) (simp add: f_def)
  also have "\<dots> = map f claims" by (auto simp: f_def pend)
  finally have "DetectStale sha (DetectStale sha claims s) s = DetectStale sha claims s" by (simp add: eq)
  moreover have "f c = c\<lparr>cl_ReviewPending := cl_ReviewPending c \<or>
      (cl_Status c = StatusLocked \<and> drifted sha s claims c)\<rparr>" for c
    by (cases "cl_ReviewPending c") (auto simp: f_def)
  ultimately show ?thesis by (simp add: eq)
qed

definition demo :: "string \<Rightarrow> string list \<Rightarrow> string \<Rightarrow> claim" where
  "demo i deps status = zero_claim\<lparr>cl_ID := i, cl_Status := status, cl_RestsOn := RestsOnIDs deps\<rparr>"

lemma demo_simps [simp]:
  "cl_ID (demo i deps st) = i" "cl_Status (demo i deps st) = st"
  "cl_RestsOn (demo i deps st) = RestsOnIDs deps" "cl_ReviewPending (demo i deps st) = False"
  "cl_Embodiment (demo i deps st) = None" "cl_Comments (demo i deps st) = []"
  "ro_IDs (RestsOnIDs deps) = deps"
  by (simp_all add: demo_def zero_claim_def RestsOnIDs_def)

lemma ContentHash_const: "cl_Embodiment c = None \<Longrightarrow> ContentHash (\<lambda>_. x) c = hex_encode x"
  by (simp add: ContentHash_def Let_def)

theorem DetectStale_spec_witness:
  "DetectStale (\<lambda>_. ''A'') [demo ''a'' [] StatusLocked, demo ''b'' [''a''] StatusLocked]
     (recordBaseline ''b'' ''a'' ''old'' (emptyStore ''p'')) ! 1 =
   (demo ''b'' [''a''] StatusLocked)\<lparr>cl_ReviewPending := True\<rparr>"
  using DetectStale_spec [of "\<lambda>_. ''A''" "[demo ''a'' [] StatusLocked, demo ''b'' [''a''] StatusLocked]"
      "recordBaseline ''b'' ''a'' ''old'' (emptyStore ''p'')" 1]
  by (simp add: drifted_def ContentHash_const hex_encode_def hex_byte_def)

text \<open>
  Re-baselining settles drift for the claim it is done for and for no other: after
  \<open>RefreshBaseline\<close> the claim does not rest on anything that moved, the drift of every other claim is
  what it was, no ledger record is touched, and a later change of a dependency is seen again.
\<close>

theorem RefreshBaseline_settles:
  "\<not> drifted sha (RefreshBaseline sha now c claims s) claims c \<and>
   (cl_ID e \<noteq> cl_ID c \<longrightarrow>
      drifted sha (RefreshBaseline sha now c claims s) claims e = drifted sha s claims e) \<and>
   (dep \<in> set (ro_IDs (cl_RestsOn c)) \<and> findByID claims dep = Some d \<and> findByID claims' dep = Some d' \<and>
      ContentHash sha d' \<noteq> ContentHash sha d \<longrightarrow>
      drifted sha (RefreshBaseline sha now c claims s) claims' c) \<and>
   st_Record (RefreshBaseline sha now c claims s) = st_Record s"
proof -
  have seen: "drifted sha (RefreshBaseline sha now c claims s) claims' c"
    if "dep \<in> set (ro_IDs (cl_RestsOn c))" "findByID claims dep = Some d" "findByID claims' dep = Some d'"
      "ContentHash sha d' \<noteq> ContentHash sha d"
    unfolding drifted_def using that
    by (intro bexI [of _ dep]) (auto simp: Baseline_RefreshBaseline)
  moreover have "\<not> drifted sha (RefreshBaseline sha now c claims s) claims c"
    by (auto simp: drifted_def Baseline_RefreshBaseline)
  moreover have "drifted sha (RefreshBaseline sha now c claims s) claims e = drifted sha s claims e"
    if "cl_ID e \<noteq> cl_ID c"
    using that by (simp add: drifted_def Baseline_RefreshBaseline)
  ultimately show ?thesis by simp
qed

theorem RefreshBaseline_settles_witness:
  "drifted first32 (RefreshBaseline first32 ''t'' (demo ''b'' [''a''] StatusLocked) [demo ''a'' [] StatusLocked]
      (emptyStore ''p'')) [(demo ''a'' [] StatusLocked)\<lparr>cl_ID := ''a'', cl_Facet := ''f''\<rparr>] (demo ''b'' [''a''] StatusLocked)"
proof -
  have "ContentHash first32 ((demo ''a'' [] StatusLocked)\<lparr>cl_ID := ''a'', cl_Facet := ''f''\<rparr>)
      \<noteq> ContentHash first32 (demo ''a'' [] StatusLocked)"
    by (auto simp: ContentHash_def Let_def demo_def zero_claim_def legacy_preimage_def hash_line_def
        first32_def RestsOnIDs_def dest!: hex_encode_inj)
  then show ?thesis
    using RefreshBaseline_settles [of first32 "''t''" "demo ''b'' [''a''] StatusLocked"
        "[demo ''a'' [] StatusLocked]" "emptyStore ''p''" _ "''a''" "demo ''a'' [] StatusLocked"
        "[(demo ''a'' [] StatusLocked)\<lparr>cl_ID := ''a'', cl_Facet := ''f''\<rparr>]"
        "(demo ''a'' [] StatusLocked)\<lparr>cl_ID := ''a'', cl_Facet := ''f''\<rparr>"]
    by simp
qed

section \<open>Disk\<close>

text \<open>
  The two store files, and whether the operating system grants the file lock of the digest store and
  the writes; a NaN or an infinity in a cell, which the encoder refuses, counts as a write of the store
  that is not granted. JSON is decoded by \<^verbatim>\<open>encoding/json\<close>: a raw message is absent, null, of the wanted
  shape or of another one. The claims inside a file are in the form \<open>json_encode\<close> gives them.
\<close>

datatype 'a raw = NoKey | NullKey | Good 'a | Malformed

text \<open>The claims inside the records of a store, each put through a function.\<close>

definition gm_values :: "('a \<Rightarrow> 'b) \<Rightarrow> 'a gomap \<Rightarrow> 'b gomap" where
  "gm_values f m = map (\<lambda>(k, v). (k, f v)) m"

definition receipt_via :: "(claim \<Rightarrow> claim) \<Rightarrow> receipt \<Rightarrow> receipt" where
  "receipt_via f r = r\<lparr>rc_Content := f (rc_Content r)\<rparr>"

definition record_via :: "(claim \<Rightarrow> claim) \<Rightarrow> ledger_record \<Rightarrow> ledger_record" where
  "record_via f r = r\<lparr>lr_Content := map_option f (lr_Content r)\<rparr>"

definition brief_via :: "(claim \<Rightarrow> claim) \<Rightarrow> brief_record \<Rightarrow> brief_record" where
  "brief_via f r = r\<lparr>br_Receipts := gm_values f (br_Receipts r)\<rparr>"

record store_file =
  sf_unknown :: bool
  sf_version :: "int option"
  sf_policy :: int
  sf_policyMigratedAt :: string
  sf_policyMigrationReason :: string
  sf_hashes :: "string gomap gomap raw"
  sf_receipts :: "receipt gomap gomap raw"
  sf_lockedAt :: "string gomap option"
  sf_ledger :: "ledger_record gomap raw"
  sf_constitution :: "roof_record option"
  sf_briefs :: "brief_record gomap option"

record disk =
  dk_store :: "store_file disk_file"
  dk_digests :: "digest_file disk_file"
  dk_lockable :: bool
  dk_writable :: bool
  dk_storeWritable :: bool

datatype store_error = StoreReadFailed | StoreMalformed | StoreTooNew int | StoreNoVersion
  | StoreUnknownKey | StoreWrongVersion int | StoreBriefsVersion int

definition set_raw :: "'a raw \<Rightarrow> 'a \<Rightarrow> 'a" where
  "set_raw r old = (case r of Good x \<Rightarrow> x | _ \<Rightarrow> old)"

definition decodeStore :: "string \<Rightarrow> store_file option \<Rightarrow> string \<Rightarrow> store_error + store" where
  "decodeStore now raw path =
     (case raw of
        None \<Rightarrow> Inl StoreMalformed
      | Some f \<Rightarrow>
          let v = (case sf_version f of None \<Rightarrow> 0 | Some v \<Rightarrow> v);
              s0 = emptyStore path;
              s1 = s0\<lparr>st_LockedAt := (case sf_lockedAt f of None \<Rightarrow> st_LockedAt s0 | Some m \<Rightarrow> m),
                     st_Constitution := sf_constitution f, st_Briefs := gm_values (brief_via json_decode) (opt_map (sf_briefs f)),
                     st_ledgerKeyOnDisk := (sf_ledger f \<noteq> NoKey),
                     st_Ledger := gm_values (record_via json_decode) (set_raw (sf_ledger f) (st_Ledger s0)),
                     st_fileExists := True, st_diskVersion := v, st_Version := v,
                     st_PolicyVersion := sf_policy f, st_PolicyMigratedAt := sf_policyMigratedAt f,
                     st_PolicyMigrationReason := sf_policyMigrationReason f\<rparr>;
              s2 = (if st_PolicyVersion s1 < PolicyLocalApprovalV1
                    then s1\<lparr>st_PolicyVersion := PolicyLocalApprovalV1, st_PolicyMigratedAt := now,
                            st_PolicyMigrationReason := retiredPolicyMigrationReason\<rparr>
                    else s1)
          in
          if v > briefsSchemaVersion then Inl (StoreTooNew v)
          else if sf_briefs f \<noteq> None \<and> v < briefsSchemaVersion then Inl (StoreBriefsVersion v)
          else if sf_ledger f = Malformed then Inl StoreMalformed
          else if v < nestedHashSchemaVersion then Inr s2
          else if sf_hashes f = Malformed then Inl StoreMalformed
          else if sf_receipts f = Malformed then Inl StoreMalformed
          else Inr (s2\<lparr>st_Hashes := set_raw (sf_hashes f) (st_Hashes s2),
                      st_Receipts := gm_values (gm_values (receipt_via json_decode)) (set_raw (sf_receipts f) (st_Receipts s2))\<rparr>))"

definition LoadStore :: "string \<Rightarrow> store_file disk_file \<Rightarrow> string \<Rightarrow> store_error + store" where
  "LoadStore now f path =
     (case f of
        Absent \<Rightarrow> Inr (emptyStore path)
      | Unreadable \<Rightarrow> Inl StoreReadFailed
      | Bytes raw \<Rightarrow> decodeStore now raw path)"

definition DecodeStore :: "string \<Rightarrow> store_file option \<Rightarrow> store_error + store" where
  "DecodeStore now raw =
     (case raw of
        None \<Rightarrow> Inl StoreMalformed
      | Some f \<Rightarrow>
          (case sf_version f of
             None \<Rightarrow> Inl StoreNoVersion
           | Some v \<Rightarrow>
               if v > briefsSchemaVersion then Inl (StoreTooNew v)
               else if sf_unknown f then Inl StoreUnknownKey
               else if v \<noteq> nestedHashSchemaVersion \<and> v \<noteq> storeSchemaVersion \<and> v \<noteq> briefsSchemaVersion
                 then Inl (StoreWrongVersion v)
               else if sf_briefs f \<noteq> None \<and> v < briefsSchemaVersion then Inl (StoreBriefsVersion v)
               else decodeStore now raw []))"

definition omit_empty :: "'a gomap \<Rightarrow> 'a gomap raw" where
  "omit_empty m = (if m = [] then NoKey else Good m)"

text \<open>\<^verbatim>\<open>json.MarshalIndent\<close> of the store: \<open>omitempty\<close> drops the key of an empty map.\<close>

definition marshal :: "store \<Rightarrow> store_file" where
  "marshal s =
     \<lparr>sf_unknown = False, sf_version = Some (st_Version s), sf_policy = st_PolicyVersion s,
      sf_policyMigratedAt = st_PolicyMigratedAt s, sf_policyMigrationReason = st_PolicyMigrationReason s,
      sf_hashes = Good (st_Hashes s), sf_receipts = omit_empty (gm_values (gm_values (receipt_via json_encode)) (st_Receipts s)),
      sf_lockedAt = Some (st_LockedAt s), sf_ledger = omit_empty (gm_values (record_via json_encode) (st_Ledger s)),
      sf_constitution = st_Constitution s, sf_briefs = some_map (gm_values (brief_via json_encode) (st_Briefs s))\<rparr>"

definition digestStorePresentBeside :: "string \<Rightarrow> disk \<Rightarrow> bool" where
  "digestStorePresentBeside path dk \<longleftrightarrow> path \<noteq> [] \<and> dk_digests dk \<noteq> Absent"

definition createCommentDigestStore :: "string \<Rightarrow> disk \<Rightarrow> bool \<times> disk" where
  "createCommentDigestStore path dk =
     (if path = [] then (True, dk)
      else if \<not> dk_lockable dk then (False, dk)
      else
        (case ds_LoadStore (dk_digests dk) of
           Inl _ \<Rightarrow> (False, dk)
         | Inr d \<Rightarrow>
             if ds_fileExists d then (True, dk)
             else if dk_writable dk then (True, dk\<lparr>dk_digests := Bytes (Some (ds_Save d))\<rparr>)
             else (False, dk)))"

definition Save :: "store \<Rightarrow> disk \<Rightarrow> bool \<times> disk" where
  "Save s dk =
     (if \<not> dk_storeWritable dk then (False, dk)
      else
        let dk1 = dk\<lparr>dk_store := Bytes (Some (marshal s))\<rparr> in
        if st_fileExists s then (True, dk1)
        else (True, snd (createCommentDigestStore (st_path s) dk1)))"

lemma Save_stored:
  assumes "Save s dk = (True, dk')"
  shows "dk_store dk' = Bytes (Some (marshal s))"
  using assms by (auto simp: Save_def Let_def createCommentDigestStore_def split: if_splits sum.splits)

text \<open>The stores this engine writes, and what one is when it is read back.\<close>

definition writable_store :: "store \<Rightarrow> bool" where
  "writable_store s \<longleftrightarrow> nestedHashSchemaVersion \<le> st_Version s \<and> st_Version s \<le> briefsSchemaVersion \<and>
     PolicyLocalApprovalV1 \<le> st_PolicyVersion s \<and> (st_Briefs s \<noteq> [] \<longrightarrow> st_Version s = briefsSchemaVersion)"

definition store_via :: "(claim \<Rightarrow> claim) \<Rightarrow> store \<Rightarrow> store" where
  "store_via f s =
     s\<lparr>st_Receipts := gm_values (gm_values (receipt_via f)) (st_Receipts s),
       st_Ledger := gm_values (record_via f) (st_Ledger s), st_Briefs := gm_values (brief_via f) (st_Briefs s)\<rparr>"

definition reloaded :: "store \<Rightarrow> store" where
  "reloaded s = (store_via json_claim s)\<lparr>st_diskVersion := st_Version s, st_fileExists := True,
     st_ledgerKeyOnDisk := (st_Ledger s \<noteq> []), st_rebaselined := [], st_commentDigestsAdopted := []\<rparr>"

lemma gm_values_Nil [simp]: "gm_values f [] = []" "gm_values f m = [] \<longleftrightarrow> m = []"
  by (simp_all add: gm_values_def)

lemma gm_get_values [simp]: "gm_get (gm_values f m) k = map_option f (gm_get m k)"
  by (induction m) (auto simp: gm_values_def)

lemma gm_values_keys [simp]: "map fst (gm_values f m) = map fst m"
  by (simp add: gm_values_def comp_def split_def)

lemma gm_values_comp: "gm_values f (gm_values g m) = gm_values (\<lambda>x. f (g x)) m"
  by (simp add: gm_values_def comp_def split_def)

lemma via_comp:
  "receipt_via f (receipt_via g r) = receipt_via (\<lambda>x. f (g x)) r"
  "record_via f (record_via g l) = record_via (\<lambda>x. f (g x)) l"
  "brief_via f (brief_via g b) = brief_via (\<lambda>x. f (g x)) b"
  by (simp_all add: receipt_via_def record_via_def brief_via_def gm_values_comp option.map_comp comp_def)

lemma record_via_simps [simp]:
  "lr_Subject (record_via f r) = lr_Subject r" "lr_Hash (record_via f r) = lr_Hash r" "lr_At (record_via f r) = lr_At r"
  "lr_Actor (record_via f r) = lr_Actor r" "lr_Reason (record_via f r) = lr_Reason r"
  "lr_Grandfathered (record_via f r) = lr_Grandfathered r" "lr_ReleasedAt (record_via f r) = lr_ReleasedAt r"
  "lr_ReleasedBy (record_via f r) = lr_ReleasedBy r" "lr_ReleasedReason (record_via f r) = lr_ReleasedReason r"
  "lr_Content (record_via f r) = map_option f (lr_Content r)"
  by (simp_all add: record_via_def)

lemma brief_via_simps [simp]:
  "br_Path (brief_via f b) = br_Path b" "br_Hash (brief_via f b) = br_Hash b" "br_At (brief_via f b) = br_At b"
  "br_Actor (brief_via f b) = br_Actor b" "br_Reason (brief_via f b) = br_Reason b"
  "br_Summary (brief_via f b) = br_Summary b" "br_RestsOn (brief_via f b) = br_RestsOn b"
  "br_Markdown (brief_via f b) = br_Markdown b" "br_Images (brief_via f b) = br_Images b"
  "br_Baselines (brief_via f b) = br_Baselines b" "br_Receipts (brief_via f b) = gm_values f (br_Receipts b)"
  "br_Reaudits (brief_via f b) = br_Reaudits b" "br_ReleasedAt (brief_via f b) = br_ReleasedAt b"
  "br_ReleasedBy (brief_via f b) = br_ReleasedBy b" "br_ReleasedReason (brief_via f b) = br_ReleasedReason b"
  by (simp_all add: brief_via_def)

lemma marshal_contents:
  "gm_values (gm_values (receipt_via json_decode)) (set_raw (sf_receipts (marshal s)) []) = st_Receipts (store_via json_claim s)"
  "gm_values (record_via json_decode) (set_raw (sf_ledger (marshal s)) []) = st_Ledger (store_via json_claim s)"
  "gm_values (brief_via json_decode) (opt_map (sf_briefs (marshal s))) = st_Briefs (store_via json_claim s)"
  "sf_receipts (marshal s) \<noteq> Malformed" "sf_ledger (marshal s) \<noteq> Malformed"
  "sf_ledger (marshal s) = NoKey \<longleftrightarrow> st_Ledger s = []" "sf_briefs (marshal s) = None \<longleftrightarrow> st_Briefs s = []"
  by (simp_all add: marshal_def omit_empty_def set_raw_def some_map_def opt_map_def store_via_def gm_values_comp via_comp
      json_claim_def [abs_def])

lemma decode_marshal:
  assumes "writable_store s"
  shows "decodeStore now (Some (marshal s)) (st_path s) = Inr (reloaded s)"
proof -
  have plain: "sf_version (marshal s) = Some (st_Version s)" "sf_policy (marshal s) = st_PolicyVersion s"
    "sf_policyMigratedAt (marshal s) = st_PolicyMigratedAt s" "sf_hashes (marshal s) = Good (st_Hashes s)"
    "sf_policyMigrationReason (marshal s) = st_PolicyMigrationReason s" "sf_lockedAt (marshal s) = Some (st_LockedAt s)"
    "sf_constitution (marshal s) = st_Constitution s"
    by (simp_all add: marshal_def)
  have "\<not> (sf_briefs (marshal s) \<noteq> None \<and> st_Version s < briefsSchemaVersion)" "\<not> st_Version s > briefsSchemaVersion"
    "\<not> st_Version s < nestedHashSchemaVersion" "\<not> st_PolicyVersion s < PolicyLocalApprovalV1"
    using assms by (auto simp: writable_store_def marshal_contents)
  then show ?thesis
    by (simp add: decodeStore_def plain emptyStore_def marshal_contents Let_def set_raw_def [of "Good x" for x])
      (rule store.equality; simp add: reloaded_def store_via_def)
qed

lemma reloaded_eq:
  "reloaded s = s\<lparr>st_Receipts := gm_values (gm_values (\<lambda>r. r\<lparr>rc_Content := json_claim (rc_Content r)\<rparr>)) (st_Receipts s),
     st_Ledger := gm_values (\<lambda>r. r\<lparr>lr_Content := map_option json_claim (lr_Content r)\<rparr>) (st_Ledger s),
     st_Briefs := gm_values (\<lambda>r. r\<lparr>br_Receipts := gm_values json_claim (br_Receipts r)\<rparr>) (st_Briefs s),
     st_diskVersion := st_Version s, st_fileExists := True, st_ledgerKeyOnDisk := (st_Ledger s \<noteq> []),
     st_rebaselined := [], st_commentDigestsAdopted := []\<rparr>"
  unfolding reloaded_def store_via_def receipt_via_def [abs_def] record_via_def [abs_def] brief_via_def [abs_def] ..

lemma reloaded_again: "reloaded (reloaded s) = reloaded s"
  by (simp add: reloaded_def store_via_def gm_values_comp via_comp)

text \<open>
  C36. What is saved is what is loaded, as far as JSON carries it: when the store's version is one this
  engine writes and the write succeeds, loading the file gives the store back with the file's version and
  presence noted and every claim kept in it as \<open>json_claim\<close> leaves it: times and captured column orders
  as text and lists, integer cells as \<^verbatim>\<open>float64\<close>, the members of a set as a \<^verbatim>\<open>[]any\<close>, the presence flags
  gone, every other field exact. What was loaded once is saved and loaded without any further change. A
  claim kept without integer and time cells keeps the hash the ledger signs, and, without a typed set as
  well, the staleness hash. The strict decoder behind \<^verbatim>\<open>check --staged\<close> reads the same, for the versions it
  knows.
\<close>

theorem Save_LoadStore:
  assumes "Save s dk = (True, dk')" "nestedHashSchemaVersion \<le> st_Version s"
    "st_Version s \<le> briefsSchemaVersion" "PolicyLocalApprovalV1 \<le> st_PolicyVersion s"
    "st_Briefs s \<noteq> [] \<longrightarrow> st_Version s = briefsSchemaVersion"
  shows "\<exists>t. LoadStore now (dk_store dk') (st_path s) = Inr t \<and>
    t = s\<lparr>st_Receipts := gm_values (gm_values (\<lambda>r. r\<lparr>rc_Content := json_claim (rc_Content r)\<rparr>)) (st_Receipts s),
          st_Ledger := gm_values (\<lambda>r. r\<lparr>lr_Content := map_option json_claim (lr_Content r)\<rparr>) (st_Ledger s),
          st_Briefs := gm_values (\<lambda>r. r\<lparr>br_Receipts := gm_values json_claim (br_Receipts r)\<rparr>) (st_Briefs s),
          st_diskVersion := st_Version s, st_fileExists := True, st_ledgerKeyOnDisk := (st_Ledger s \<noteq> []),
          st_rebaselined := [], st_commentDigestsAdopted := []\<rparr> \<and>
    LoadStore now' (Bytes (Some (marshal t))) (st_path s) = Inr t \<and>
    (typed_rows c \<longrightarrow> LockedClaimHash sha (json_claim c) = LockedClaimHash sha c \<and>
       (no_typed_set c \<longrightarrow> ContentHash sha (json_claim c) = ContentHash sha c)) \<and>
    (st_Version s \<noteq> ledgerSchemaVersion \<longrightarrow>
      DecodeStore now (Some (marshal s)) = LoadStore now (Bytes (Some (marshal s))) [])"
proof -
  have on_disk: "dk_store dk' = Bytes (Some (marshal s))"
    using assms(1) by (rule Save_stored)
  have w: "writable_store s" using assms(2-5) by (simp add: writable_store_def)
  then have "writable_store (reloaded s)" by (simp add: writable_store_def reloaded_def store_via_def)
  from decode_marshal [OF this] have again: "decodeStore now' (Some (marshal (reloaded s))) (st_path s) = Inr (reloaded s)"
    by (simp add: reloaded_again) (simp add: reloaded_def store_via_def)
  have "DecodeStore now (Some (marshal s)) = LoadStore now (Bytes (Some (marshal s))) []"
    if "st_Version s \<noteq> ledgerSchemaVersion"
  proof -
    from that assms(2,3) have "st_Version s \<in> {nestedHashSchemaVersion, storeSchemaVersion, briefsSchemaVersion}"
      by (auto simp: schema_defs)
    with assms(3,5) show ?thesis
      by (auto simp: DecodeStore_def LoadStore_def marshal_def some_map_def)
  qed
  moreover have "LoadStore now (dk_store dk') (st_path s) = Inr (reloaded s)"
    using decode_marshal [OF w] by (simp add: LoadStore_def on_disk)
  moreover have "LoadStore now' (Bytes (Some (marshal (reloaded s)))) (st_path s) = Inr (reloaded s)"
    using again by (simp add: LoadStore_def)
  moreover have "typed_rows c \<longrightarrow> LockedClaimHash sha (json_claim c) = LockedClaimHash sha c \<and>
       (no_typed_set c \<longrightarrow> ContentHash sha (json_claim c) = ContentHash sha c)"
    using LockedClaimHash_json ContentHash_json by blast
  ultimately show ?thesis using reloaded_eq by blast
qed

definition good_disk :: disk where
  "good_disk = \<lparr>dk_store = Absent, dk_digests = Absent, dk_lockable = True, dk_writable = True,
     dk_storeWritable = True\<rparr>"

definition dated :: claim where
  "dated = zero_claim\<lparr>cl_ID := ''a'', cl_Rows := [[(''n'', VInt 3), (''d'', VTime ''2024-01-02 00:00:00 +0000 UTC''),
     (rowOrderKey, VStrings [''n'', ''d''])]]\<rparr>"

theorem Save_LoadStore_witness:
  "\<exists>t. LoadStore ''t'' (dk_store (snd (Save (recordReceipt (\<lambda>_. ''A'') ''b'' dated (emptyStore ''p'')) good_disk))) ''p'' = Inr t \<and>
    map_option (\<lambda>r. cl_Rows (rc_Content r)) (Receipt t ''b'' ''a'') =
      Some [[(''n'', VFloat ''3''), (''d'', VStr ''2024-01-02T00:00:00Z''), (rowOrderKey, VSeq [VStr ''n'', VStr ''d''])]]"
proof -
  let ?s = "recordReceipt (\<lambda>_. ''A'') ''b'' dated (emptyStore ''p'')"
  obtain dk' where dk': "Save ?s good_disk = (True, dk')"
    by (simp add: Save_def good_disk_def Let_def recordReceipt_def put_receipt_def emptyStore_def)
  have s: "?s = (emptyStore ''p'')\<lparr>st_Receipts := [(''b'', [(''a'', \<lparr>rc_Hash = ContentHash (\<lambda>_. ''A'') dated, rc_Content = dated\<rparr>)])]\<rparr>"
    by (simp add: recordReceipt_def put_receipt_def emptyStore_def dated_def)
  have ver: "st_Version ?s = 3" "st_PolicyVersion ?s = PolicyLocalApprovalV1" "st_Briefs ?s = []" "st_path ?s = ''p''"
    by (simp_all only: s) (simp_all add: emptyStore_def schema_defs)
  have "nestedHashSchemaVersion \<le> st_Version ?s" "st_Version ?s \<le> briefsSchemaVersion"
    "PolicyLocalApprovalV1 \<le> st_PolicyVersion ?s" "st_Briefs ?s \<noteq> [] \<longrightarrow> st_Version ?s = briefsSchemaVersion"
    by (simp_all only: ver) (simp_all add: schema_defs)
  from Save_LoadStore [OF dk' this] have "LoadStore ''t'' (dk_store dk') ''p'' = Inr (reloaded ?s)"
    unfolding reloaded_eq ver by blast
  moreover have "cl_Rows (json_claim dated) =
      [[(''n'', VFloat ''3''), (''d'', VStr ''2024-01-02T00:00:00Z''), (rowOrderKey, VSeq [VStr ''n'', VStr ''d''])]]"
    by code_simp
  moreover have "Receipt (reloaded ?s) ''b'' ''a'' = Some (receipt_via json_claim \<lparr>rc_Hash = ContentHash (\<lambda>_. ''A'') dated, rc_Content = dated\<rparr>)"
    unfolding s by (simp add: Receipt_def reloaded_def store_via_def gm_values_def)
  ultimately show ?thesis by (simp add: dk' receipt_via_def)
qed

end
