(* ===== verification/Ledger.thy ===== *)
theory Ledger
  imports Lock_Store
begin

text \<open>
  The lock ledger (\<^verbatim>\<open>internal/lock/ledger.go\<close>, with \<^verbatim>\<open>MigrateLegacyStore\<close> and \<^verbatim>\<open>Unlock\<close> of
  \<^verbatim>\<open>lock.go\<close> and the brief records of \<^verbatim>\<open>briefs.go\<close>): approvals and releases, the questions that tell an
  old store from a doctored one, the two migrations, and the sweep that keeps comment digests. An
  operation takes the store and, where it touches a file, the disk, and returns both.
\<close>

section \<open>Records\<close>

definition SubjectClaim :: string where
  "SubjectClaim = ''claim''"

definition Released :: "ledger_record \<Rightarrow> bool" where
  "Released r \<longleftrightarrow> lr_ReleasedAt r \<noteq> []"

record approval =
  ap_Actor :: string
  ap_Reason :: string

text \<open>The environment of \<^verbatim>\<open>DefaultActor\<close> is a lookup function.\<close>

definition DefaultActor :: "(string \<Rightarrow> string) \<Rightarrow> string" where
  "DefaultActor env =
     (case filter (\<lambda>v. v \<noteq> []) (map (\<lambda>key. trim_space (env key)) [''DOSSIERX_ACTOR'', ''USER'', ''USERNAME'']) of
        [] \<Rightarrow> ''unknown''
      | v # _ \<Rightarrow> v)"

definition ledgerRecordFor :: "store \<Rightarrow> string \<Rightarrow> ledger_record option" where
  "ledgerRecordFor s i =
     (case st_Record s i of
        None \<Rightarrow> None
      | Some r \<Rightarrow> if lr_Subject r \<noteq> SubjectClaim then None else Some r)"

definition ApprovedContent :: "store \<Rightarrow> string \<Rightarrow> claim option" where
  "ApprovedContent s i =
     (case st_Record s i of
        None \<Rightarrow> None
      | Some r \<Rightarrow> if lr_Subject r \<noteq> SubjectClaim then None else lr_Content r)"

definition engineLocked :: "store \<Rightarrow> string \<Rightarrow> bool" where
  "engineLocked s i \<longleftrightarrow>
     (if gm_get (st_LockedAt s) i \<noteq> None then True
      else (case gm_get (st_Hashes s) i of None \<Rightarrow> False | Some m \<Rightarrow> length m > 0))"

definition countLocked :: "claim list \<Rightarrow> nat" where
  "countLocked claims = length (filter (\<lambda>c. cl_Status c = StatusLocked) claims)"

section \<open>Is this store what it says it is?\<close>

definition PreLedger :: "store \<Rightarrow> bool" where
  "PreLedger s \<longleftrightarrow> st_fileExists s \<and> st_diskVersion s < ledgerSchemaVersion"

definition LedgerDowngraded :: "store \<Rightarrow> bool \<Rightarrow> bool" where
  "LedgerDowngraded s digestStorePresent \<longleftrightarrow>
     (if \<not> PreLedger s then False
      else digestStorePresent \<or> st_ledgerKeyOnDisk s \<or> length (st_Ledger s) > 0)"

definition PreLedgerUnadopted :: "store \<Rightarrow> bool \<Rightarrow> bool" where
  "PreLedgerUnadopted s digestStorePresent \<longleftrightarrow> PreLedger s \<and> \<not> LedgerDowngraded s digestStorePresent"

definition preLedgerUnadoptedOnDisk :: "store \<Rightarrow> disk \<Rightarrow> bool" where
  "preLedgerUnadoptedOnDisk s dk = PreLedgerUnadopted s (digestStorePresentBeside (st_path s) dk)"

definition LedgerCovered :: "store \<Rightarrow> bool" where
  "LedgerCovered s \<longleftrightarrow> st_fileExists s \<and> st_diskVersion s \<ge> ledgerSchemaVersion"

definition LedgerEstablished :: "store \<Rightarrow> bool \<Rightarrow> bool" where
  "LedgerEstablished s digestStorePresent \<longleftrightarrow> LedgerCovered s \<or> LedgerDowngraded s digestStorePresent"

definition LedgerRecordDeleted :: "store \<Rightarrow> disk \<Rightarrow> claim \<Rightarrow> bool" where
  "LedgerRecordDeleted s dk c \<longleftrightarrow>
     (if preLedgerUnadoptedOnDisk s dk then False
      else ledgerRecordFor s (cl_ID c) = None \<and> engineLocked s (cl_ID c))"

definition commentDigestUnrecorded :: "store \<Rightarrow> disk \<Rightarrow> claim \<Rightarrow> bool" where
  "commentDigestUnrecorded s dk c \<longleftrightarrow>
     (if st_path s = [] \<or> length (cl_Comments c) = 0 then False
      else
        (case ds_LoadStore (dk_digests dk) of
           Inl _ \<Rightarrow> False
         | Inr d \<Rightarrow>
             if \<not> ds_fileExists d then False
             else if \<not> LedgerEstablished s (ds_fileExists d) then False
             else ds_Digest d (cl_ID c) = None))"

lemma store_states:
  "st_fileExists s \<Longrightarrow>
   (LedgerCovered s \<and> \<not> PreLedger s) \<or>
   (PreLedgerUnadopted s p \<and> \<not> LedgerEstablished s p) \<or>
   (LedgerDowngraded s p \<and> \<not> LedgerCovered s \<and> \<not> PreLedgerUnadopted s p)"
  by (auto simp: LedgerCovered_def PreLedger_def PreLedgerUnadopted_def LedgerDowngraded_def
      LedgerEstablished_def)

section \<open>Approving and releasing\<close>

definition recordCommentDigestBeside :: "(string \<Rightarrow> string) \<Rightarrow> store \<Rightarrow> claim list \<Rightarrow> disk \<Rightarrow> disk" where
  "recordCommentDigestBeside sha s claims dk =
     (if st_path s = [] \<or> length claims = 0 then dk
      else if \<not> dk_lockable dk then dk
      else
        (case ds_LoadStore (dk_digests dk) of
           Inl _ \<Rightarrow> dk
         | Inr d \<Rightarrow>
             if dk_writable dk then
               dk\<lparr>dk_digests := Bytes (Some (ds_Save (fold (ds_Record sha) claims d)))\<rparr>
             else dk))"

definition approval_record :: "(string \<Rightarrow> string) \<Rightarrow> string \<Rightarrow> claim \<Rightarrow> approval \<Rightarrow> ledger_record" where
  "approval_record sha now c ap =
     \<lparr>lr_Subject = SubjectClaim, lr_Hash = LockedClaimHash sha c, lr_At = now, lr_Actor = ap_Actor ap,
      lr_Reason = ap_Reason ap, lr_Grandfathered = False, lr_ReleasedAt = [], lr_ReleasedBy = [],
      lr_ReleasedReason = [], lr_Content = Some c\<rparr>"

definition RecordApproval ::
  "(string \<Rightarrow> string) \<Rightarrow> string \<Rightarrow> claim \<Rightarrow> approval \<Rightarrow> store \<times> disk \<Rightarrow> store \<times> disk" where
  "RecordApproval sha now c ap sd =
     (let s = putRecord (cl_ID c) (approval_record sha now c ap) (fst sd)
      in (s, recordCommentDigestBeside sha s [c] (snd sd)))"

definition release_record :: "string \<Rightarrow> approval \<Rightarrow> ledger_record \<Rightarrow> ledger_record" where
  "release_record now ap r =
     r\<lparr>lr_ReleasedAt := now, lr_ReleasedBy := ap_Actor ap, lr_ReleasedReason := ap_Reason ap\<rparr>"

definition ReleaseApproval :: "string \<Rightarrow> string \<Rightarrow> approval \<Rightarrow> store \<Rightarrow> bool \<times> store" where
  "ReleaseApproval now i ap s =
     (case st_Record s i of
        None \<Rightarrow> (False, s)
      | Some r \<Rightarrow> (True, putRecord i (release_record now ap r) s))"

definition Unlock :: "string \<Rightarrow> claim \<Rightarrow> approval \<Rightarrow> store \<Rightarrow> claim \<times> store" where
  "Unlock now c ap s =
     (c\<lparr>cl_Status := StatusDraft, cl_ReviewPending := False\<rparr>, snd (ReleaseApproval now (cl_ID c) ap s))"

definition LockConstitution :: "string \<Rightarrow> string \<Rightarrow> string \<Rightarrow> store \<Rightarrow> roof_record \<times> store" where
  "LockConstitution now hash reason s =
     (let rec = \<lparr>rr_Hash = hash, rr_Reason = reason, rr_LockedAt = now\<rparr>
      in (rec, s\<lparr>st_Constitution := Some rec\<rparr>))"

definition EditedSinceApproval :: "(string \<Rightarrow> string) \<Rightarrow> claim \<Rightarrow> store \<Rightarrow> ledger_record option" where
  "EditedSinceApproval sha c s =
     (if cl_Status c \<noteq> StatusDraft then None
      else
        (case st_Record s (cl_ID c) of
           None \<Rightarrow> None
         | Some r \<Rightarrow>
             if lr_Subject r \<noteq> SubjectClaim \<or> \<not> Released r then None
             else if lr_Hash r = [] \<or> lr_Hash r = LockedClaimHash sha c then None
             else Some r))"

datatype retain_error = NoClaimRecord | ContentMismatch

definition RetainApprovedContent ::
  "(string \<Rightarrow> string) \<Rightarrow> string \<Rightarrow> claim \<Rightarrow> store \<Rightarrow> (retain_error + bool) \<times> store" where
  "RetainApprovedContent sha i approved s =
     (case st_Record s i of
        None \<Rightarrow> (Inl NoClaimRecord, s)
      | Some r \<Rightarrow>
          if lr_Subject r \<noteq> SubjectClaim then (Inl NoClaimRecord, s)
          else if lr_Content r \<noteq> None then (Inr False, s)
          else if lr_Hash r = [] \<or> lr_Hash r \<noteq> LockedClaimHash sha approved then (Inl ContentMismatch, s)
          else (Inr True, putRecord i (r\<lparr>lr_Content := Some (approved\<lparr>cl_SourcePath := []\<rparr>)\<rparr>) s))"

section \<open>Migrations\<close>

fun migrate_deps ::
  "(string \<Rightarrow> string) \<Rightarrow> claim list \<Rightarrow> string \<Rightarrow> string list \<Rightarrow> store \<times> string list \<Rightarrow> store \<times> string list" where
  "migrate_deps sha claims i [] sr = sr"
| "migrate_deps sha claims i (dep # deps) (s, reb) =
     (case findByID claims dep of
        None \<Rightarrow> migrate_deps sha claims i deps (s, reb)
      | Some d \<Rightarrow>
          migrate_deps sha claims i deps
            (recordBaseline i dep (ContentHash sha d) s, if i \<in> set reb then reb else reb @ [i]))"

fun migrate_claims ::
  "(string \<Rightarrow> string) \<Rightarrow> claim list \<Rightarrow> claim list \<Rightarrow> store \<times> string list \<Rightarrow> store \<times> string list" where
  "migrate_claims sha claims [] sr = sr"
| "migrate_claims sha claims (c # cs) sr =
     (if cl_Status c \<noteq> StatusLocked then migrate_claims sha claims cs sr
      else migrate_claims sha claims cs
             (migrate_deps sha claims (cl_ID c) (BaselineDependencyIDs c) sr))"

text \<open>\<open>changed\<close> is set by the same assignment that adds to \<open>rebaselined\<close>, so it is its nonemptiness.\<close>

definition MigrateLegacyStore ::
  "(string \<Rightarrow> string) \<Rightarrow> store \<Rightarrow> disk \<Rightarrow> claim list \<Rightarrow> bool \<times> store" where
  "MigrateLegacyStore sha s dk claims =
     (if length (st_Hashes s) > 0 then (False, s)
      else if st_diskVersion s \<ge> nestedHashSchemaVersion then (False, s)
      else if LedgerDowngraded s (digestStorePresentBeside (st_path s) dk) then (False, s)
      else
        let (s1, rebaselined) = migrate_claims sha claims claims (s, []);
            changed = (rebaselined \<noteq> [])
        in (changed,
            if changed then s1\<lparr>st_Version := nestedHashSchemaVersion, st_rebaselined := sorted_set rebaselined\<rparr>
            else s1))"

datatype cross_error = ErrPreLedgerUnadopted nat | DigestStoreFailed | SaveFailed

definition CrossPreLedger :: "store \<Rightarrow> disk \<Rightarrow> claim list \<Rightarrow> cross_error option \<times> store \<times> disk" where
  "CrossPreLedger s dk claims =
     (if \<not> PreLedger s then (None, s, dk)
      else if \<not> preLedgerUnadoptedOnDisk s dk then (None, s, dk)
      else if countLocked claims > 0 then (Some (ErrPreLedgerUnadopted (countLocked claims)), s, dk)
      else
        (case createCommentDigestStore (st_path s) dk of
           (False, dk1) \<Rightarrow> (Some DigestStoreFailed, s, dk1)
         | (True, dk1) \<Rightarrow>
             let s1 = s\<lparr>st_diskVersion := ledgerSchemaVersion, st_Version := storeSchemaVersion,
                        st_LockedAt := [], st_Hashes := []\<rparr> in
             (case Save s1 dk1 of
                (True, dk2) \<Rightarrow> (None, s1, dk2)
              | (False, dk2) \<Rightarrow>
                  (Some SaveFailed, s,
                   if digestStorePresentBeside (st_path s) dk then dk2
                   else dk2\<lparr>dk_digests := Absent\<rparr>))))"

section \<open>The comment digest sweep\<close>

definition adoptableClaims :: "store \<Rightarrow> claim list \<Rightarrow> claim list" where
  "adoptableClaims s claims =
     filter (\<lambda>c. \<not> (case ledgerRecordFor s (cl_ID c) of None \<Rightarrow> False | Some r \<Rightarrow> \<not> Released r) \<and>
                 \<not> length (cl_Comments c) > 0) claims"

definition commentDigestReleased :: "(string \<Rightarrow> string) \<Rightarrow> string \<Rightarrow> string \<Rightarrow> store \<Rightarrow> bool" where
  "commentDigestReleased sha i recorded s \<longleftrightarrow>
     (if recorded = EmptyCommentsDigest sha i then True
      else (case st_Record s i of None \<Rightarrow> False | Some r \<Rightarrow> lr_Subject r = SubjectClaim \<and> Released r))"

definition AbandonedCommentDigests ::
  "(string \<Rightarrow> string) \<Rightarrow> claim list \<Rightarrow> store \<Rightarrow> dstore \<Rightarrow> string list" where
  "AbandonedCommentDigests sha claims s d =
     (if \<not> st_fileExists s \<or> \<not> ds_fileExists d then []
      else sort (map fst (filter (\<lambda>(i, recorded).
             \<not> (i \<in> cl_ID ` set claims \<or> commentDigestReleased sha i recorded s)) (ds_Digests d))))"

definition releasableCommentDigests ::
  "(string \<Rightarrow> string) \<Rightarrow> claim list \<Rightarrow> store \<Rightarrow> dstore \<Rightarrow> string list" where
  "releasableCommentDigests sha claims s d =
     sort (map fst (filter (\<lambda>(i, recorded).
       \<not> (i \<in> cl_ID ` set claims \<or> \<not> commentDigestReleased sha i recorded s)) (ds_Digests d)))"

definition SweepCommentDigests ::
  "(string \<Rightarrow> string) \<Rightarrow> store \<Rightarrow> disk \<Rightarrow> claim list \<Rightarrow> bool \<Rightarrow> string list \<times> string list \<times> disk" where
  "SweepCommentDigests sha s dk claims ledgerCovered =
     (if st_path s = [] then ([], [], dk)
      else if \<not> dk_lockable dk then ([], [], dk)
      else
        (case ds_LoadStore (dk_digests dk) of
           Inl _ \<Rightarrow> ([], [], dk)
         | Inr d \<Rightarrow>
             let crossing = (\<not> ds_fileExists d \<and> \<not> ledgerCovered \<and> \<not> PreLedger s);
                 (d1, adopted) =
                   (if ds_fileExists d then Adopt sha d (adoptableClaims s claims)
                    else if crossing then Adopt sha d claims
                    else (d, []));
                 forgotten = releasableCommentDigests sha claims s d1;
                 d2 = fold ds_Forget forgotten d1
             in (adopted, forgotten,
                 if crossing \<or> length adopted > 0 \<or> length forgotten > 0 then
                   (if dk_writable dk then dk\<lparr>dk_digests := Bytes (Some (ds_Save d2))\<rparr> else dk)
                 else dk)))"

definition PrepareStore ::
  "(string \<Rightarrow> string) \<Rightarrow> store \<Rightarrow> disk \<Rightarrow> claim list \<Rightarrow> bool \<times> store \<times> disk" where
  "PrepareStore sha s dk claims =
     (let (changed, s1) = MigrateLegacyStore sha s dk claims;
          covered = LedgerEstablished s1 (digestStorePresentBeside (st_path s1) dk);
          (adopted, forgotten, dk1) = SweepCommentDigests sha s1 dk claims covered
      in (changed, s1\<lparr>st_commentDigestsAdopted := adopted\<rparr>, dk1))"

section \<open>What the records certify\<close>

text \<open>The invariant of the ledger: content kept on a record is content the record's hash certifies.\<close>

definition certified :: "(string \<Rightarrow> string) \<Rightarrow> store \<Rightarrow> bool" where
  "certified sha s \<longleftrightarrow>
     (\<forall>k r c. st_Record s k = Some r \<longrightarrow> lr_Content r = Some c \<longrightarrow> lr_Hash r = LockedClaimHash sha c)"

lemma certified_putRecord:
  "certified sha s \<Longrightarrow> (\<And>c. lr_Content r = Some c \<Longrightarrow> lr_Hash r = LockedClaimHash sha c) \<Longrightarrow>
   certified sha (putRecord k r s)"
  by (auto simp: certified_def)

lemma LockedClaimHash_SourcePath [simp]: "LockedClaimHash sha (c\<lparr>cl_SourcePath := p\<rparr>) = LockedClaimHash sha c"
proof -
  have "locked_preimage (c\<lparr>cl_SourcePath := p\<rparr>) = locked_preimage c"
    by (rule locked_preimage_of_codes) (simp add: claim_codes_eq del: canon.simps)
  then show ?thesis by (simp add: LockedClaimHash_def)
qed

lemma LockedClaimHash_status [simp]:
  "LockedClaimHash sha (c\<lparr>cl_Status := x\<rparr>) = LockedClaimHash sha c"
  "LockedClaimHash sha (c\<lparr>cl_ReviewPending := b\<rparr>) = LockedClaimHash sha c"
  "LockedClaimHash sha (c\<lparr>cl_Comments := ms\<rparr>) = LockedClaimHash sha c"
proof -
  have "locked_preimage (c\<lparr>cl_Status := x\<rparr>) = locked_preimage c"
    "locked_preimage (c\<lparr>cl_ReviewPending := b\<rparr>) = locked_preimage c"
    "locked_preimage (c\<lparr>cl_Comments := ms\<rparr>) = locked_preimage c"
    by (rule locked_preimage_of_codes, simp add: claim_codes_eq del: canon.simps)+
  then show "LockedClaimHash sha (c\<lparr>cl_Status := x\<rparr>) = LockedClaimHash sha c"
    "LockedClaimHash sha (c\<lparr>cl_ReviewPending := b\<rparr>) = LockedClaimHash sha c"
    "LockedClaimHash sha (c\<lparr>cl_Comments := ms\<rparr>) = LockedClaimHash sha c"
    by (simp_all add: LockedClaimHash_def)
qed

lemma certified_cong: "st_Record s = st_Record s' \<Longrightarrow> certified sha s = certified sha s'"
  by (simp add: certified_def)

lemma certified_emptyStore [simp]: "certified sha (emptyStore p)"
  by (simp add: certified_def st_Record_def emptyStore_def)

text \<open>
  What an operation may do to the records: each record of the result keeps the hash and the content it
  had, or its content is what its hash certifies.
\<close>

definition certified_from :: "(string \<Rightarrow> string) \<Rightarrow> store \<Rightarrow> store \<Rightarrow> bool" where
  "certified_from sha s s' \<longleftrightarrow>
     (\<forall>k r' c. st_Record s' k = Some r' \<longrightarrow> lr_Content r' = Some c \<longrightarrow>
        lr_Hash r' = LockedClaimHash sha c \<or>
        (\<exists>r. st_Record s k = Some r \<and> lr_Hash r = lr_Hash r' \<and> lr_Content r = Some c))"

lemma certified_from_same: "st_Ledger s' = st_Ledger s \<Longrightarrow> certified_from sha s s'"
  by (auto simp: certified_from_def st_Record_def)

lemma certified_from_records: "st_Record s' = st_Record s \<Longrightarrow> certified_from sha s s'"
  by (auto simp: certified_from_def)

lemma certified_from_put:
  "(\<And>c. lr_Content r' = Some c \<Longrightarrow> lr_Hash r' = LockedClaimHash sha c \<or>
      (\<exists>r. st_Record s k = Some r \<and> lr_Hash r = lr_Hash r' \<and> lr_Content r = Some c)) \<Longrightarrow>
   certified_from sha s (putRecord k r' s)"
  by (auto simp: certified_from_def)

lemma certified_from_keeps: "certified_from sha s s' \<Longrightarrow> certified sha s \<Longrightarrow> certified sha s'"
  by (fastforce simp: certified_from_def certified_def)

text \<open>
  Unlocking is on the record, and an edit made after it is seen. After an approval and an unlock
  with a clock that does not read empty, the claim is a draft without a pending flag, its record
  stands, released, with the approved hash and content, and the untouched draft counts as unedited; a
  draft of the same id that differs in a signed field is reported with that record, unless it is a
  collision of the hash function.
\<close>

theorem unlock_then_edit:
  assumes now: "now' \<noteq> []" and rows: "rows_ok c" "rows_ok d"
    and d: "cl_ID d = cl_ID c" "cl_Status d = StatusDraft" "signed_view d \<noteq> signed_view c"
    and hash: "LockedClaimHash sha c \<noteq> []"
    and s1: "(s1, dk1) = RecordApproval sha now c ap (s, dk)"
    and u: "(c', s2) = Unlock now' (c\<lparr>cl_Status := StatusLocked\<rparr>) ap' s1"
  shows "cl_Status c' = StatusDraft \<and> \<not> cl_ReviewPending c' \<and>
    (\<exists>r. st_Record s2 (cl_ID c) = Some r \<and> Released r \<and> lr_Hash r = LockedClaimHash sha c \<and>
       lr_Content r = Some c \<and> lr_ReleasedReason r = ap_Reason ap' \<and>
       EditedSinceApproval sha c' s2 = None \<and>
       (EditedSinceApproval sha d s2 = Some r \<or>
        (locked_preimage d \<noteq> locked_preimage c \<and> sha (locked_preimage d) = sha (locked_preimage c))))"
proof -
  define r where "r = release_record now' ap' (approval_record sha now c ap)"
  have c': "c' = c\<lparr>cl_Status := StatusDraft, cl_ReviewPending := False\<rparr>"
    and rec: "st_Record s2 (cl_ID c) = Some r"
    using s1 u by (auto simp: Unlock_def ReleaseApproval_def RecordApproval_def Let_def r_def)
  have r: "lr_Subject r = SubjectClaim" "Released r" "lr_Hash r = LockedClaimHash sha c"
    "lr_Content r = Some c" "lr_ReleasedReason r = ap_Reason ap'"
    using now by (simp_all add: r_def release_record_def approval_record_def Released_def)
  have "EditedSinceApproval sha c' s2 = None"
    using rec r by (simp add: EditedSinceApproval_def c')
  moreover have "EditedSinceApproval sha d s2 = Some r \<or>
      (locked_preimage d \<noteq> locked_preimage c \<and> sha (locked_preimage d) = sha (locked_preimage c))"
    using LockedClaimHash_collision [OF rows(2,1) d(3), of sha] rec r d hash
    by (auto simp: EditedSinceApproval_def)
  ultimately show ?thesis using rec r by (simp add: c')
qed

theorem unlock_then_edit_witness:
  "EditedSinceApproval (\<lambda>x. x) ((demo ''a'' [] StatusDraft)\<lparr>cl_Body := ''new''\<rparr>)
     (snd (Unlock ''t2'' (demo ''a'' [] StatusLocked) \<lparr>ap_Actor = ''me'', ap_Reason = ''fix''\<rparr>
       (fst (RecordApproval (\<lambda>x. x) ''t1'' (demo ''a'' [] StatusLocked)
         \<lparr>ap_Actor = ''me'', ap_Reason = ''ok''\<rparr> (emptyStore ''p'', good_disk))))) \<noteq> None"
proof -
  let ?c = "demo ''a'' [] StatusLocked" and ?d = "(demo ''a'' [] StatusDraft)\<lparr>cl_Body := ''new''\<rparr>"
  let ?ap = "\<lparr>ap_Actor = ''me'', ap_Reason = ''ok''\<rparr>" and ?ap' = "\<lparr>ap_Actor = ''me'', ap_Reason = ''fix''\<rparr>"
  have rows: "rows_ok ?c" "rows_ok ?d" by (simp_all add: rows_ok_def demo_def zero_claim_def)
  have d: "cl_ID ?d = cl_ID ?c" "cl_Status ?d = StatusDraft" "signed_view ?d \<noteq> signed_view ?c"
    by (simp_all add: signed_view_def demo_def zero_claim_def)
  have hash: "LockedClaimHash (\<lambda>x. x) ?c \<noteq> []"
    by (simp add: LockedClaimHash_def locked_preimage_def hex_encode_def hex_byte_def)
  have locked: "?c\<lparr>cl_Status := StatusLocked\<rparr> = ?c" by (simp add: demo_def)
  from unlock_then_edit [where now = "''t1''" and now' = "''t2''" and sha = "\<lambda>x. x" and ap = ?ap and ap' = ?ap',
      OF _ rows d hash prod.collapse prod.collapse, of "emptyStore ''p''" good_disk]
  show ?thesis by (auto simp: locked)
qed

section \<open>What the migrations do\<close>

lemma Baseline_migrate_deps:
  "Baseline (fst (migrate_deps sha claims i deps sr)) j d =
     (if j = i \<and> d \<in> set deps \<and> findByID claims d \<noteq> None
      then Some (ContentHash sha (the (findByID claims d))) else Baseline (fst sr) j d)"
  by (induction deps arbitrary: sr) (auto split: option.splits)

lemma reb_migrate_deps:
  "set (snd (migrate_deps sha claims i deps sr)) =
     set (snd sr) \<union> (if \<exists>d \<in> set deps. findByID claims d \<noteq> None then {i} else {})"
  by (induction deps arbitrary: sr) (auto split: option.splits if_splits)

lemma Baseline_migrate_claims:
  "Baseline (fst (migrate_claims sha claims cs sr)) j d =
     (if findByID claims d \<noteq> None \<and>
         (\<exists>c \<in> set cs. cl_Status c = StatusLocked \<and> cl_ID c = j \<and> d \<in> set (ro_IDs (cl_RestsOn c)))
      then Some (ContentHash sha (the (findByID claims d))) else Baseline (fst sr) j d)"
  by (induction cs arbitrary: sr) (auto simp: Baseline_migrate_deps)

lemma reb_migrate_claims:
  "set (snd (migrate_claims sha claims cs sr)) = set (snd sr) \<union>
     {cl_ID c |c. c \<in> set cs \<and> cl_Status c = StatusLocked \<and>
        (\<exists>d \<in> set (ro_IDs (cl_RestsOn c)). findByID claims d \<noteq> None)}"
  by (induction cs arbitrary: sr) (auto simp: reb_migrate_deps)

lemma frame_migrate_deps:
  "st_Ledger (fst (migrate_deps sha claims i deps sr)) = st_Ledger (fst sr) \<and>
   st_LockedAt (fst (migrate_deps sha claims i deps sr)) = st_LockedAt (fst sr) \<and>
   st_diskVersion (fst (migrate_deps sha claims i deps sr)) = st_diskVersion (fst sr) \<and>
   st_fileExists (fst (migrate_deps sha claims i deps sr)) = st_fileExists (fst sr) \<and>
   st_path (fst (migrate_deps sha claims i deps sr)) = st_path (fst sr) \<and>
   st_ledgerKeyOnDisk (fst (migrate_deps sha claims i deps sr)) = st_ledgerKeyOnDisk (fst sr)"
  by (induction deps arbitrary: sr) (auto simp: recordBaseline_def Let_def split: option.splits)

lemma frame_migrate_claims:
  "st_Ledger (fst (migrate_claims sha claims cs sr)) = st_Ledger (fst sr) \<and>
   st_LockedAt (fst (migrate_claims sha claims cs sr)) = st_LockedAt (fst sr) \<and>
   st_diskVersion (fst (migrate_claims sha claims cs sr)) = st_diskVersion (fst sr) \<and>
   st_fileExists (fst (migrate_claims sha claims cs sr)) = st_fileExists (fst sr) \<and>
   st_path (fst (migrate_claims sha claims cs sr)) = st_path (fst sr) \<and>
   st_ledgerKeyOnDisk (fst (migrate_claims sha claims cs sr)) = st_ledgerKeyOnDisk (fst sr)"
  by (induction cs arbitrary: sr) (auto simp: frame_migrate_deps)

lemma Baseline_empty: "st_Hashes s = [] \<Longrightarrow> Baseline s i d = None"
  by (simp add: Baseline_def)

lemma Baseline_nonempty: "Baseline s i d = Some h \<Longrightarrow> st_Hashes s \<noteq> []"
  by (auto simp: Baseline_def)

lemma drifted_cong: "Baseline s = Baseline s' \<Longrightarrow> drifted sha s claims c = drifted sha s' claims c"
  by (simp add: drifted_def)

text \<open>
  The re-arming of a legacy store is safe. When it changes the store, the store carried no
  baseline, was written before the per-dependent schema and is not contradicted by the project around
  it; afterwards no claim reads as drifted, every locked claim has the current hash of each
  dependency that exists as its baseline, the store records exactly those claims and the schema it
  earned, ledger and lock stamps are untouched, and running it again does nothing.
\<close>

theorem MigrateLegacyStore_safe:
  assumes "MigrateLegacyStore sha s dk claims = (True, s')"
  shows "st_Hashes s = [] \<and> st_diskVersion s < nestedHashSchemaVersion \<and>
    \<not> LedgerDowngraded s (digestStorePresentBeside (st_path s) dk) \<and>
    (\<forall>c. \<not> drifted sha s' claims c) \<and> DetectStale sha claims s' = claims \<and>
    (\<forall>c \<in> set claims. cl_Status c = StatusLocked \<longrightarrow>
       (\<forall>d \<in> set (ro_IDs (cl_RestsOn c)). \<forall>dc. findByID claims d = Some dc \<longrightarrow>
          Baseline s' (cl_ID c) d = Some (ContentHash sha dc))) \<and>
    sorted_wrt (<) (st_rebaselined s') \<and>
    set (st_rebaselined s') = {cl_ID c |c. c \<in> set claims \<and> cl_Status c = StatusLocked \<and>
        (\<exists>d \<in> set (ro_IDs (cl_RestsOn c)). findByID claims d \<noteq> None)} \<and>
    st_Version s' = nestedHashSchemaVersion \<and> st_Ledger s' = st_Ledger s \<and>
    st_LockedAt s' = st_LockedAt s \<and>
    MigrateLegacyStore sha s' dk claims = (False, s')"
proof -
  define m where "m = migrate_claims sha claims claims (s, [])"
  from assms have guards: "st_Hashes s = []" "st_diskVersion s < nestedHashSchemaVersion"
      "\<not> LedgerDowngraded s (digestStorePresentBeside (st_path s) dk)"
    and ch: "snd m \<noteq> []"
    and s': "s' = (fst m)\<lparr>st_Version := nestedHashSchemaVersion, st_rebaselined := sorted_set (snd m)\<rparr>"
    by (auto simp: MigrateLegacyStore_def Let_def m_def split: if_splits prod.splits)
  have bl: "Baseline s' j d = (if findByID claims d \<noteq> None \<and>
         (\<exists>c \<in> set claims. cl_Status c = StatusLocked \<and> cl_ID c = j \<and> d \<in> set (ro_IDs (cl_RestsOn c)))
      then Some (ContentHash sha (the (findByID claims d))) else None)" for j d
  proof -
    have "Baseline s' j d = Baseline (fst m) j d" by (simp add: s' Baseline_def)
    then show ?thesis
      by (simp only: m_def Baseline_migrate_claims fst_conv Baseline_empty [OF guards(1)])
  qed
  have nd: "\<not> drifted sha s' claims c" for c
    by (auto simp: drifted_def bl split: if_splits)
  have reb: "set (st_rebaselined s') = {cl_ID c |c. c \<in> set claims \<and> cl_Status c = StatusLocked \<and>
        (\<exists>d \<in> set (ro_IDs (cl_RestsOn c)). findByID claims d \<noteq> None)}"
    by (simp add: s' m_def reb_migrate_claims)
  from ch obtain i where "i \<in> set (st_rebaselined s')"
    using s' by (cases "snd m") auto
  with reb obtain c d where "c \<in> set claims" "cl_Status c = StatusLocked"
    "d \<in> set (ro_IDs (cl_RestsOn c))" "findByID claims d \<noteq> None" by auto
  then have "Baseline s' (cl_ID c) d = Some (ContentHash sha (the (findByID claims d)))"
    unfolding bl by auto
  then have "st_Hashes s' \<noteq> []" by (rule Baseline_nonempty)
  then have again: "MigrateLegacyStore sha s' dk claims = (False, s')"
    by (simp add: MigrateLegacyStore_def)
  have stale: "DetectStale sha claims s' = claims"
    unfolding DetectStale_def by (rule map_idI) (simp add: drift_iff nd)
  have frame: "st_Ledger s' = st_Ledger s" "st_LockedAt s' = st_LockedAt s"
    using frame_migrate_claims [of sha claims claims "(s, [])"] by (simp_all add: s' m_def)
  have srt: "sorted_wrt (<) (st_rebaselined s')"
    by (simp add: s' sorted_set_def strict_sorted_iff)
  have cur: "Baseline s' (cl_ID c) d = Some (ContentHash sha dc)"
    if "c \<in> set claims" "cl_Status c = StatusLocked" "d \<in> set (ro_IDs (cl_RestsOn c))"
      "findByID claims d = Some dc" for c d dc
    using that by (auto simp: bl)
  have ver: "st_Version s' = nestedHashSchemaVersion" by (simp add: s')
  show ?thesis
    using guards nd stale reb again frame srt cur ver by blast
qed

theorem MigrateLegacyStore_safe_witness:
  "DetectStale first32 [demo ''a'' [] StatusLocked, demo ''b'' [''a''] StatusLocked]
     (snd (MigrateLegacyStore first32 ((emptyStore ''p'')\<lparr>st_fileExists := True\<rparr>) good_disk
       [demo ''a'' [] StatusLocked, demo ''b'' [''a''] StatusLocked])) =
   [demo ''a'' [] StatusLocked, demo ''b'' [''a''] StatusLocked]"
proof -
  let ?cs = "[demo ''a'' [] StatusLocked, demo ''b'' [''a''] StatusLocked]"
  let ?s = "(emptyStore ''p'')\<lparr>st_fileExists := True\<rparr>"
  have "fst (MigrateLegacyStore first32 ?s good_disk ?cs)"
    by (simp add: MigrateLegacyStore_def emptyStore_def good_disk_def LedgerDowngraded_def schema_defs
        digestStorePresentBeside_def BaselineDependencyIDs_def dedupeStable_def)
  then obtain s' where s': "MigrateLegacyStore first32 ?s good_disk ?cs = (True, s')"
    by (metis (full_types) prod.collapse)
  from MigrateLegacyStore_safe [OF s'] s' show ?thesis by simp
qed

text \<open>
  Crossing onto the ledger blesses nothing and is all or nothing. With anything locked it is
  refused and nothing is written; whenever it fails the store is what it was and so are both files,
  as far as there was no digest file to begin with; when a store that predates the ledger crosses,
  nothing in the project is locked, the saved store is covered and loads as such, an empty digest
  store is beside it, and no stale lock stamp or baseline is left to be read as a deleted record.
\<close>

theorem CrossPreLedger_spec:
  assumes "CrossPreLedger s dk claims = (e, s', dk')" and "st_path s \<noteq> []"
  shows "(e \<noteq> None \<longrightarrow> s' = s \<and> dk_store dk' = dk_store dk \<and> dk_digests dk' = dk_digests dk) \<and>
    (\<not> preLedgerUnadoptedOnDisk s dk \<longrightarrow> e = None \<and> s' = s \<and> dk' = dk) \<and>
    (preLedgerUnadoptedOnDisk s dk \<and> countLocked claims > 0 \<longrightarrow>
       e = Some (ErrPreLedgerUnadopted (countLocked claims))) \<and>
    (preLedgerUnadoptedOnDisk s dk \<and> e = None \<longrightarrow>
       countLocked claims = 0 \<and> LedgerCovered s' \<and> dk_store dk' = Bytes (Some (marshal s')) \<and>
       dk_digests dk' = Bytes (Some (ds_Save empty_dstore)) \<and>
       (\<forall>i. \<not> engineLocked s' i) \<and> st_Ledger s' = st_Ledger s)"
proof (cases "preLedgerUnadoptedOnDisk s dk \<and> countLocked claims = 0")
  case False
  with assms(1) show ?thesis
    by (auto simp: CrossPreLedger_def preLedgerUnadoptedOnDisk_def PreLedgerUnadopted_def split: if_splits)
next
  case True
  then have pre: "PreLedger s" and absent: "dk_digests dk = Absent"
    using assms(2) by (auto simp: preLedgerUnadoptedOnDisk_def PreLedgerUnadopted_def LedgerDowngraded_def
        digestStorePresentBeside_def)
  then have exists: "st_fileExists s" by (simp add: PreLedger_def)
  let ?s1 = "s\<lparr>st_diskVersion := ledgerSchemaVersion, st_Version := storeSchemaVersion, st_LockedAt := [],
      st_Hashes := []\<rparr>"
  show ?thesis
  proof (cases "dk_lockable dk \<and> dk_writable dk")
    case False
    then have "createCommentDigestStore (st_path s) dk = (False, dk)"
      using assms(2) absent
      by (auto simp: createCommentDigestStore_def ds_LoadStore_def empty_dstore_def)
    with True pre assms(1) show ?thesis
      by (auto simp: CrossPreLedger_def)
  next
    case ok: True
    then have created: "createCommentDigestStore (st_path s) dk =
        (True, dk\<lparr>dk_digests := Bytes (Some (ds_Save empty_dstore))\<rparr>)"
      using assms(2) absent by (simp add: createCommentDigestStore_def ds_LoadStore_def empty_dstore_def)
    with True pre exists absent assms show ?thesis
      by (cases "dk_storeWritable dk")
        (auto simp: CrossPreLedger_def Save_def Let_def LedgerCovered_def engineLocked_def
          digestStorePresentBeside_def)
  qed
qed

theorem CrossPreLedger_spec_witness:
  "CrossPreLedger ((emptyStore ''p'')\<lparr>st_fileExists := True, st_diskVersion := 1\<rparr>) good_disk
     [demo ''a'' [] StatusLocked] =
   (Some (ErrPreLedgerUnadopted 1), (emptyStore ''p'')\<lparr>st_fileExists := True, st_diskVersion := 1\<rparr>,
    snd (snd (CrossPreLedger ((emptyStore ''p'')\<lparr>st_fileExists := True, st_diskVersion := 1\<rparr>) good_disk
     [demo ''a'' [] StatusLocked])))"
proof -
  let ?s = "(emptyStore ''p'')\<lparr>st_fileExists := True, st_diskVersion := 1\<rparr>"
  let ?r = "CrossPreLedger ?s good_disk [demo ''a'' [] StatusLocked]"
  have "?r = (fst ?r, fst (snd ?r), snd (snd ?r))" by simp
  moreover have "preLedgerUnadoptedOnDisk ?s good_disk" "countLocked [demo ''a'' [] StatusLocked] = 1"
    "st_path ?s \<noteq> []"
    by (simp_all add: preLedgerUnadoptedOnDisk_def PreLedgerUnadopted_def LedgerDowngraded_def
        PreLedger_def emptyStore_def schema_defs good_disk_def digestStorePresentBeside_def countLocked_def)
  ultimately have "fst ?r = Some (ErrPreLedgerUnadopted 1)" "fst (snd ?r) = ?s"
    using CrossPreLedger_spec [of ?s good_disk "[demo ''a'' [] StatusLocked]" "fst ?r" "fst (snd ?r)"
        "snd (snd ?r)"] by simp_all
  then show ?thesis by (simp add: prod_eq_iff)
qed

section \<open>What the sweep may adopt\<close>

lemma Adopt_ids: "set (snd (Adopt sha d cs)) = {i \<in> cl_ID ` set cs. ds_Digest d i = None}"
  by (simp add: Adopt_eq adopt_ids)

lemma Adopt_keeps: "ds_Digest d i = Some x \<Longrightarrow> ds_Digest (fst (Adopt sha d cs)) i = Some x"
  by (simp add: Adopt_eq adopt_keeps)

lemma Adopt_other:
  "i \<notin> cl_ID ` set cs \<Longrightarrow> ds_Digest (fst (Adopt sha d cs)) i = ds_Digest d i"
proof (cases "ds_Digest d i")
  case None
  assume "i \<notin> cl_ID ` set cs"
  then have "find (\<lambda>c. cl_ID c = i) cs = None" by (auto simp: find_None_iff)
  with None show ?thesis by (simp add: Adopt_eq adopt_adds)
qed (simp add: Adopt_keeps)

lemma Adopt_new:
  "distinct (map cl_ID cs) \<Longrightarrow> c \<in> set cs \<Longrightarrow> ds_Digest d (cl_ID c) = None \<Longrightarrow>
   ds_Digest (fst (Adopt sha d cs)) (cl_ID c) = Some (CommentsDigest sha c)"
  by (simp add: Adopt_eq adopt_adds find_distinct)

lemma Adopt_wf: "gm_wf (ds_Digests d) \<Longrightarrow> gm_wf (ds_Digests (fst (Adopt sha d cs)))"
proof -
  have "gm_wf (ds_Digests d) \<Longrightarrow> gm_wf (ds_Digests (fst (adopt_loop sha cs (d, ad))))" for ad
    by (induction cs arbitrary: d ad) (auto simp: ds_Record_def)
  then show "gm_wf (ds_Digests d) \<Longrightarrow> ?thesis" by (simp add: Adopt_eq)
qed

lemma Adopt_frame:
  "ds_fileExists (fst (Adopt sha d cs)) = ds_fileExists d" "ds_Version (fst (Adopt sha d cs)) = ds_Version d"
  by (simp_all add: Adopt_eq adopt_other)

lemma Forget_fold:
  "ds_Digest (fold ds_Forget is d) i = (if i \<in> set is then None else ds_Digest d i)"
  by (induction "is" arbitrary: d) auto

lemma Forget_fold_frame:
  "ds_Version (fold ds_Forget is d) = ds_Version d" "ds_fileExists (fold ds_Forget is d) = ds_fileExists d"
  by (induction "is" arbitrary: d) (auto simp: ds_Forget_def)

lemma releasable_absent:
  "i \<in> cl_ID ` set claims \<Longrightarrow> i \<notin> set (releasableCommentDigests sha claims s d)"
  by (auto simp: releasableCommentDigests_def)

definition disk_digest :: "disk \<Rightarrow> string \<Rightarrow> string option" where
  "disk_digest dk i = (case ds_LoadStore (dk_digests dk) of Inl _ \<Rightarrow> None | Inr d \<Rightarrow> ds_Digest d i)"

lemma LoadStore_version: "ds_LoadStore f = Inr d \<Longrightarrow> ds_Version d = StoreSchemaVersion"
  by (auto simp: ds_LoadStore_def decodeInto_def empty_dstore_def Let_def split: disk_file.splits option.splits
      if_splits)

lemma LoadStore_exists: "ds_LoadStore f = Inr d \<Longrightarrow> ds_fileExists d \<longleftrightarrow> f \<noteq> Absent"
  by (auto simp: ds_LoadStore_def decodeInto_def empty_dstore_def Let_def split: disk_file.splits option.splits
      if_splits)

lemma disk_digest_saved:
  "ds_Version d = StoreSchemaVersion \<Longrightarrow> disk_digest (dk\<lparr>dk_digests := Bytes (Some (ds_Save d))\<rparr>) i = ds_Digest d i"
  by (simp add: disk_digest_def ds_load_save ds_Digest_def)

text \<open>
  C34. The sweep never launders a comment block. Whatever it does, a digest on disk for a claim of the
  project stays as it was; with the digest file there, it adopts only claims without threads and
  without a standing approval; with the file gone from a project that has been through a
  ledger-aware build, or from one that predates the ledger, it adopts nothing and leaves the file
  absent, so that the gate keeps reporting it. It drops a digest, and reports one as forgotten, only for an
  id no claim of the project has and whose departure is accounted for: the digest is that of an empty
  block, or the id's record on the ledger is that of a claim and is released; every other digest that was
  there stays as it was. (A digest file that decodes is a Go map: it has each key once.)
\<close>

theorem SweepCommentDigests_safe:
  assumes "SweepCommentDigests sha s dk claims covered = (adopted, forgotten, dk')"
    and "\<forall>d. ds_LoadStore (dk_digests dk) = Inr d \<longrightarrow> gm_wf (ds_Digests d)"
  shows "(\<forall>c \<in> set claims. \<forall>x. disk_digest dk (cl_ID c) = Some x \<longrightarrow> disk_digest dk' (cl_ID c) = Some x) \<and>
    (dk_digests dk \<noteq> Absent \<longrightarrow> (\<forall>i \<in> set adopted. disk_digest dk i = None \<and>
       (\<exists>c \<in> set claims. cl_ID c = i \<and> cl_Comments c = [] \<and>
          (\<forall>r. ledgerRecordFor s i = Some r \<longrightarrow> Released r)))) \<and>
    (dk_digests dk = Absent \<and> (covered \<or> PreLedger s) \<longrightarrow> adopted = [] \<and> dk_digests dk' = Absent) \<and>
    (\<forall>i x. disk_digest dk i = Some x \<longrightarrow> disk_digest dk' i = Some x \<or> disk_digest dk' i = None \<and> i \<in> set forgotten) \<and>
    (\<forall>i \<in> set forgotten. i \<notin> cl_ID ` set claims \<and>
       (\<exists>x. disk_digest dk i = Some x \<and>
          (x = EmptyCommentsDigest sha i \<or>
           (\<exists>r. st_Record s i = Some r \<and> lr_Subject r = SubjectClaim \<and> lr_ReleasedAt r \<noteq> [])))) \<and>
    dk_store dk' = dk_store dk"
proof (cases "st_path s = [] \<or> \<not> dk_lockable dk \<or> (\<exists>e. ds_LoadStore (dk_digests dk) = Inl e)")
  case True
  then have "SweepCommentDigests sha s dk claims covered = ([], [], dk)"
    by (elim disjE exE) (simp_all add: SweepCommentDigests_def)
  with assms have "adopted = []" "forgotten = []" "dk' = dk" by simp_all
  then show ?thesis by simp
next
  case False
  then obtain d where load: "ds_LoadStore (dk_digests dk) = Inr d" by (cases "ds_LoadStore (dk_digests dk)") auto
  define cr where "cr \<longleftrightarrow> \<not> ds_fileExists d \<and> \<not> covered \<and> \<not> PreLedger s"
  define a where "a = (if ds_fileExists d then Adopt sha d (adoptableClaims s claims)
     else if cr then Adopt sha d claims else (d, []))"
  define f where "f = releasableCommentDigests sha claims s (fst a)"
  have res: "adopted = snd a" "forgotten = f"
    "dk' = (if (cr \<or> length (snd a) > 0 \<or> length f > 0) \<and> dk_writable dk
            then dk\<lparr>dk_digests := Bytes (Some (ds_Save (fold ds_Forget f (fst a))))\<rparr> else dk)"
    using assms False load
    by (auto simp: SweepCommentDigests_def cr_def a_def f_def Let_def split: prod.splits if_splits)
  have ver: "ds_Version (fst a) = StoreSchemaVersion"
    using LoadStore_version [OF load] by (simp add: a_def Adopt_eq adopt_other)
  have ex: "ds_fileExists d \<longleftrightarrow> dk_digests dk \<noteq> Absent" by (rule LoadStore_exists [OF load])
  have dd: "disk_digest dk i = ds_Digest d i" for i by (simp add: disk_digest_def load)
  have keep: "ds_Digest (fst a) i = Some x" if "ds_Digest d i = Some x" for i x
    using that by (simp add: a_def Adopt_keeps)
  have "disk_digest dk' (cl_ID c) = Some x"
    if "c \<in> set claims" "disk_digest dk (cl_ID c) = Some x" for c x
  proof -
    have "cl_ID c \<notin> set f" unfolding f_def by (rule releasable_absent) (use that(1) in simp)
    with that keep have "ds_Digest (fold ds_Forget f (fst a)) (cl_ID c) = Some x"
      by (simp add: Forget_fold dd)
    with that(2) ver show ?thesis by (simp add: res(3) disk_digest_saved Forget_fold_frame)
  qed
  moreover have "disk_digest dk i = None \<and> (\<exists>c \<in> set claims. cl_ID c = i \<and> cl_Comments c = [] \<and>
          (\<forall>r. ledgerRecordFor s i = Some r \<longrightarrow> Released r))"
    if "dk_digests dk \<noteq> Absent" "i \<in> set adopted" for i
    using that ex by (auto simp: res(1) a_def Adopt_ids dd adoptableClaims_def split: option.splits)
  moreover have "adopted = [] \<and> dk_digests dk' = Absent"
    if "dk_digests dk = Absent" "covered \<or> PreLedger s"
  proof -
    from that ex have "a = (d, [])" "\<not> cr" by (auto simp: a_def cr_def)
    moreover have "ds_Digests d = []"
      using load that(1) by (auto simp: ds_LoadStore_def empty_dstore_def)
    ultimately show ?thesis using that(1) by (simp add: res f_def releasableCommentDigests_def)
  qed
  moreover have "disk_digest dk' i = Some x \<or> disk_digest dk' i = None \<and> i \<in> set forgotten"
    if "disk_digest dk i = Some x" for i x
    using that keep ver by (auto simp: res(2,3) disk_digest_saved Forget_fold_frame Forget_fold dd)
  moreover have "i \<notin> cl_ID ` set claims \<and> (\<exists>x. disk_digest dk i = Some x \<and> (x = EmptyCommentsDigest sha i \<or>
      (\<exists>r. st_Record s i = Some r \<and> lr_Subject r = SubjectClaim \<and> lr_ReleasedAt r \<noteq> [])))" if "i \<in> set forgotten" for i
  proof -
    have wf: "gm_wf (ds_Digests (fst a))" using assms(2) load by (simp add: a_def Adopt_wf)
    from that wf obtain x where x: "ds_Digest (fst a) i = Some x" "i \<notin> cl_ID ` set claims" "commentDigestReleased sha i x s"
      by (auto simp: res(2) f_def releasableCommentDigests_def ds_Digest_def)
    have "i \<notin> cl_ID ` set (adoptableClaims s claims)" using x(2) by (auto simp: adoptableClaims_def)
    with x have "ds_Digest d i = Some x" by (auto simp: a_def Adopt_other split: if_splits)
    with x(2,3) show ?thesis by (auto simp: dd commentDigestReleased_def Released_def split: if_splits option.splits)
  qed
  moreover have "dk_store dk' = dk_store dk" by (simp add: res(3))
  ultimately show ?thesis by blast
qed

definition forged_thread :: claim where
  "forged_thread = (demo ''a'' [] StatusDraft)\<lparr>cl_Comments := cl_Comments (one_thread ''c-1'' CommentStatusResolved ''ok'')\<rparr>"

theorem SweepCommentDigests_safe_witness:
  "fst (SweepCommentDigests first32 (emptyStore ''p'') (good_disk\<lparr>dk_digests := Bytes (Some (ds_Save empty_dstore))\<rparr>)
     [forged_thread] True) = []"
proof -
  let ?dk = "good_disk\<lparr>dk_digests := Bytes (Some (ds_Save empty_dstore))\<rparr>"
  let ?r = "SweepCommentDigests first32 (emptyStore ''p'') ?dk [forged_thread] True"
  have "?r = (fst ?r, fst (snd ?r), snd (snd ?r))" by simp
  moreover have "\<forall>d. ds_LoadStore (dk_digests ?dk) = Inr d \<longrightarrow> gm_wf (ds_Digests d)"
    by (simp add: ds_load_save empty_dstore_def)
  ultimately have "\<forall>i \<in> set (fst ?r). \<exists>c \<in> set [forged_thread]. cl_ID c = i \<and> cl_Comments c = []"
    using SweepCommentDigests_safe [of first32 "emptyStore ''p''" ?dk "[forged_thread]" True "fst ?r" "fst (snd ?r)" "snd (snd ?r)"] by auto
  then have "set (fst ?r) = {}" by (auto simp: forged_thread_def one_thread_def)
  then show ?thesis by simp
qed

text \<open>
  Gate and sweep never disagree about a departed claim: for a project with both stores on file
  the digest entries of claims that are gone are split into the abandoned ones, which the gate
  reports, and the releasable ones, which the sweep forgets; an entry is abandoned exactly when it
  records threads and no released approval accounts for its departure.
\<close>

theorem departed_digests_partition:
  assumes "st_fileExists s" "ds_fileExists d" "gm_wf (ds_Digests d)"
  shows "set (AbandonedCommentDigests sha claims s d) \<inter> set (releasableCommentDigests sha claims s d) = {} \<and>
    set (AbandonedCommentDigests sha claims s d) \<union> set (releasableCommentDigests sha claims s d) =
      {i. ds_Digest d i \<noteq> None \<and> i \<notin> cl_ID ` set claims} \<and>
    (i \<in> set (AbandonedCommentDigests sha claims s d) \<longleftrightarrow>
       i \<notin> cl_ID ` set claims \<and> ds_Digest d i \<noteq> None \<and> ds_Digest d i \<noteq> Some (EmptyCommentsDigest sha i) \<and>
       (\<forall>r. st_Record s i = Some r \<longrightarrow> lr_Subject r = SubjectClaim \<longrightarrow> \<not> Released r))"
proof -
  have mem: "(i, x) \<in> set (ds_Digests d) \<longleftrightarrow> ds_Digest d i = Some x" for i x
    using assms(3) by (simp add: ds_Digest_def)
  have ab: "i \<in> set (AbandonedCommentDigests sha claims s d) \<longleftrightarrow>
      (\<exists>x. ds_Digest d i = Some x \<and> i \<notin> cl_ID ` set claims \<and> \<not> commentDigestReleased sha i x s)" for i
    using assms(1,2) by (force simp: AbandonedCommentDigests_def mem)
  have re: "i \<in> set (releasableCommentDigests sha claims s d) \<longleftrightarrow>
      (\<exists>x. ds_Digest d i = Some x \<and> i \<notin> cl_ID ` set claims \<and> commentDigestReleased sha i x s)" for i
    by (force simp: releasableCommentDigests_def mem)
  show ?thesis
    by (auto simp: ab re) (auto simp: commentDigestReleased_def split: option.splits if_splits)
qed

theorem departed_digests_partition_witness:
  "''x'' \<in> set (AbandonedCommentDigests first32 [] ((emptyStore ''p'')\<lparr>st_fileExists := True\<rparr>)
      (empty_dstore\<lparr>ds_fileExists := True, ds_Digests := [(''x'', ''d'')]\<rparr>))"
proof -
  let ?s = "(emptyStore ''p'')\<lparr>st_fileExists := True\<rparr>"
  let ?d = "empty_dstore\<lparr>ds_fileExists := True, ds_Digests := [(''x'', ''d'')]\<rparr>"
  have "EmptyCommentsDigest first32 ''x'' \<noteq> ''d''"
    by (simp add: EmptyCommentsDigest_def CommentsDigest_def comments_preimage_def hex_encode_def
        hex_byte_def first32_def)
  with departed_digests_partition [of ?s ?d first32 "[]" "''x''"] show ?thesis
    by (simp add: ds_Digest_def st_Record_def emptyStore_def)
qed

section \<open>Briefs\<close>

text \<open>
  \<^verbatim>\<open>briefs.go\<close>: a brief's records are a map of their own, which nothing about claims reads.
\<close>

definition br_Released :: "brief_record \<Rightarrow> bool" where
  "br_Released r \<longleftrightarrow> br_ReleasedAt r \<noteq> []"

definition BriefRecordFor :: "store \<Rightarrow> string \<Rightarrow> brief_record option" where
  "BriefRecordFor s i = gm_get (st_Briefs s) i"

definition put_brief :: "string \<Rightarrow> brief_record \<Rightarrow> store \<Rightarrow> store" where
  "put_brief i r s = s\<lparr>st_Briefs := gm_put i r (st_Briefs s)\<rparr>"

definition earnBriefsSchema :: "store \<Rightarrow> store" where
  "earnBriefsSchema s =
     (if st_Version s < briefsSchemaVersion then s\<lparr>st_Version := briefsSchemaVersion\<rparr> else s)"

definition RecordBriefApproval :: "string \<Rightarrow> brief_record \<Rightarrow> store \<Rightarrow> store" where
  "RecordBriefApproval i r s =
     earnBriefsSchema
       (put_brief i (r\<lparr>br_ReleasedAt := [], br_ReleasedBy := [], br_ReleasedReason := []\<rparr>) s)"

definition RecordBriefReaudit ::
  "string \<Rightarrow> string \<Rightarrow> string gomap \<Rightarrow> claim gomap \<Rightarrow> string gomap \<Rightarrow> approval \<Rightarrow> string list \<Rightarrow> store \<Rightarrow>
   bool \<times> store" where
  "RecordBriefReaudit now i baselines rcpts images ap claimIDs s =
     (case BriefRecordFor s i of
        None \<Rightarrow> (False, s)
      | Some r \<Rightarrow>
          if br_Released r then (False, s)
          else
            (True, earnBriefsSchema (put_brief i
               (r\<lparr>br_Baselines := baselines, br_Receipts := rcpts, br_Images := images,
                  br_Reaudits := br_Reaudits r @
                    [\<lparr>bra_At = now, bra_Actor = ap_Actor ap, bra_Reason = ap_Reason ap,
                      bra_Claims = claimIDs\<rparr>]\<rparr>) s)))"

definition ReleaseBriefApproval :: "string \<Rightarrow> string \<Rightarrow> approval \<Rightarrow> store \<Rightarrow> bool \<times> store" where
  "ReleaseBriefApproval now i ap s =
     (case BriefRecordFor s i of
        None \<Rightarrow> (False, s)
      | Some r \<Rightarrow>
          if br_Released r then (False, s)
          else
            (True, earnBriefsSchema (put_brief i
               (r\<lparr>br_ReleasedAt := now, br_ReleasedBy := ap_Actor ap, br_ReleasedReason := ap_Reason ap\<rparr>) s)))"

interpretation briefs: keyed_store BriefRecordFor put_brief
  by unfold_locales (simp add: BriefRecordFor_def put_brief_def)

text \<open>
  \<^verbatim>\<open>RetainedClaimContent\<close> walks three maps and returns the first snapshot with the wanted hash; the
  candidates in the order of the walk.
\<close>

definition snapshots :: "store \<Rightarrow> string \<Rightarrow> claim list" where
  "snapshots s i =
     concat (map (\<lambda>(b, r). case gm_get (br_Receipts r) i of None \<Rightarrow> [] | Some c \<Rightarrow> [c]) (st_Briefs s)) @
     concat (map (\<lambda>(dependent, deps). case gm_get deps i of None \<Rightarrow> [] | Some r \<Rightarrow> [rc_Content r]) (st_Receipts s)) @
     (case ApprovedContent s i of None \<Rightarrow> [] | Some c \<Rightarrow> [c])"

definition RetainedClaimContent :: "(string \<Rightarrow> string) \<Rightarrow> store \<Rightarrow> string \<Rightarrow> string \<Rightarrow> claim option" where
  "RetainedClaimContent sha s i h =
     (if h = [] then None else find (\<lambda>c. cl_ID c = i \<and> ContentHash sha c = h) (snapshots s i))"

text \<open>
  A brief can neither approve nor block a claim: every operation on brief records leaves the
  claim side of the store (baselines, receipts, lock stamps, ledger) as it was, other briefs included,
  raises the version to the briefs schema or leaves it above, never below, and a released or missing
  record is never reaudited or released again.
\<close>

theorem brief_operations_frame:
  assumes "s' = RecordBriefApproval i r s \<or>
      s' = snd (RecordBriefReaudit now i bl rc im ap ids s) \<or> s' = snd (ReleaseBriefApproval now i ap s)"
  shows "st_Hashes s' = st_Hashes s \<and> st_Receipts s' = st_Receipts s \<and> st_LockedAt s' = st_LockedAt s \<and>
    st_Ledger s' = st_Ledger s \<and> st_Constitution s' = st_Constitution s \<and>
    st_Version s \<le> st_Version s' \<and> (s' \<noteq> s \<longrightarrow> briefsSchemaVersion \<le> st_Version s') \<and>
    (j \<noteq> i \<longrightarrow> BriefRecordFor s' j = BriefRecordFor s j) \<and>
    ((\<forall>q. BriefRecordFor s i = Some q \<longrightarrow> br_Released q) \<longrightarrow>
       \<not> fst (RecordBriefReaudit now i bl rc im ap ids s) \<and> \<not> fst (ReleaseBriefApproval now i ap s))"
proof -
  have earn: "st_Hashes (earnBriefsSchema t) = st_Hashes t" "st_Receipts (earnBriefsSchema t) = st_Receipts t"
    "st_LockedAt (earnBriefsSchema t) = st_LockedAt t" "st_Ledger (earnBriefsSchema t) = st_Ledger t"
    "st_Constitution (earnBriefsSchema t) = st_Constitution t"
    "briefsSchemaVersion \<le> st_Version (earnBriefsSchema t)" "st_Version t \<le> st_Version (earnBriefsSchema t)"
    "BriefRecordFor (earnBriefsSchema t) = BriefRecordFor t" for t
    by (auto simp: earnBriefsSchema_def BriefRecordFor_def fun_eq_iff)
  have put: "st_Hashes (put_brief k q t) = st_Hashes t" "st_Receipts (put_brief k q t) = st_Receipts t"
    "st_LockedAt (put_brief k q t) = st_LockedAt t" "st_Ledger (put_brief k q t) = st_Ledger t"
    "st_Constitution (put_brief k q t) = st_Constitution t" "st_Version (put_brief k q t) = st_Version t"
    for k q t by (simp_all add: put_brief_def)
  have cases: "s' = s \<or> (\<exists>q. s' = earnBriefsSchema (put_brief i q s))"
    using assms by (auto simp: RecordBriefApproval_def RecordBriefReaudit_def ReleaseBriefApproval_def
        split: option.splits if_splits)
  have no: "(\<forall>q. BriefRecordFor s i = Some q \<longrightarrow> br_Released q) \<longrightarrow>
       \<not> fst (RecordBriefReaudit now i bl rc im ap ids s) \<and> \<not> fst (ReleaseBriefApproval now i ap s)"
    by (auto simp: RecordBriefReaudit_def ReleaseBriefApproval_def split: option.split)
  from cases show ?thesis
  proof
    assume "\<exists>q. s' = earnBriefsSchema (put_brief i q s)"
    then obtain q where s': "s' = earnBriefsSchema (put_brief i q s)" ..
    have "st_Version s \<le> st_Version s'" using earn(7) [of "put_brief i q s"] by (simp add: s' put)
    with no show ?thesis by (simp add: s' earn put briefs.get_put)
  qed (use no in simp)
qed

theorem brief_operations_frame_witness:
  "\<forall>r l. st_Ledger (RecordBriefApproval ''f.b'' r ((emptyStore ''p'')\<lparr>st_Ledger := [(''a'', l)]\<rparr>)) = [(''a'', l)]"
proof (intro allI)
  fix r l
  let ?s = "(emptyStore ''p'')\<lparr>st_Ledger := [(''a'', l)]\<rparr>"
  show "st_Ledger (RecordBriefApproval ''f.b'' r ?s) = [(''a'', l)]"
    using brief_operations_frame [OF disjI1 [OF refl [of "RecordBriefApproval ''f.b'' r ?s"]]] by simp
qed

lemma earn_Ledger [simp]: "st_Ledger (earnBriefsSchema s) = st_Ledger s" "st_Ledger (put_brief i r s) = st_Ledger s"
  by (simp_all add: earnBriefsSchema_def put_brief_def)

lemma MigrateLegacyStore_Ledger: "MigrateLegacyStore sha s dk claims = (b, s') \<Longrightarrow> st_Ledger s' = st_Ledger s"
  using frame_migrate_claims [of sha claims claims "(s, [])"]
  by (auto simp: MigrateLegacyStore_def Let_def split: if_splits prod.splits)

lemma CrossPreLedger_Ledger: "CrossPreLedger s dk claims = (e, s', dk') \<Longrightarrow> st_Ledger s' = st_Ledger s"
  by (auto simp: CrossPreLedger_def Let_def split: if_splits prod.splits bool.splits)

lemma PrepareStore_Ledger: "PrepareStore sha s dk claims = (b, s', dk') \<Longrightarrow> st_Ledger s' = st_Ledger s"
  by (auto simp: PrepareStore_def Let_def split: prod.splits dest: MigrateLegacyStore_Ledger)


end
