(* ===== verification/Lock_Audit.thy ===== *)
theory Lock_Audit
  imports Ledger
begin

text \<open>
  The ledger gate (\<^verbatim>\<open>internal/lock/audit.go\<close>). A finding is its rule and the claim it is about, empty
  for the whole project; the sentence the code attaches for a reader is left out. Iteration over the
  ledger map is the order of its list, which the last section shows to be immaterial.
\<close>

section \<open>Findings\<close>

datatype audit_finding = Finding (fd_Rule: string) (fd_ClaimID: string)

definition RuleLockLedgerAbsent :: string where
  "RuleLockLedgerAbsent = ''lock-ledger-absent''"

definition RuleLockLedgerDowngraded :: string where
  "RuleLockLedgerDowngraded = ''lock-ledger-downgraded''"

definition RuleLockLedgerPreLedger :: string where
  "RuleLockLedgerPreLedger = ''lock-ledger-pre-ledger''"

definition RuleLockLedgerMissing :: string where
  "RuleLockLedgerMissing = ''lock-ledger-missing''"

definition RuleLockLedgerDeleted :: string where
  "RuleLockLedgerDeleted = ''lock-ledger-deleted''"

definition RuleLockLedgerReleased :: string where
  "RuleLockLedgerReleased = ''lock-ledger-released''"

definition RuleLockContentDrift :: string where
  "RuleLockContentDrift = ''lock-content-drift''"

definition RuleLockLedgerOrphan :: string where
  "RuleLockLedgerOrphan = ''lock-ledger-orphan''"

definition RuleLockLedgerAbandoned :: string where
  "RuleLockLedgerAbandoned = ''lock-ledger-abandoned''"

definition RuleCommentLedgerDrift :: string where
  "RuleCommentLedgerDrift = ''comment-ledger-drift''"

definition RuleCommentDigestUnrecorded :: string where
  "RuleCommentDigestUnrecorded = ''comment-digest-unrecorded''"

section \<open>One claim\<close>

text \<open>The first switch, on the ledger; the second component tells whether \<open>unrecordedLocks\<close> grows.\<close>

definition audit_ledger :: "(string \<Rightarrow> string) \<Rightarrow> store \<Rightarrow> bool \<Rightarrow> bool \<Rightarrow> claim \<Rightarrow> audit_finding list \<times> nat" where
  "audit_ledger sha s preLedgerUnadopted covered c =
     (case ledgerRecordFor s (cl_ID c) of
        None \<Rightarrow>
          if preLedgerUnadopted then ([], 0)
          else if covered \<and> engineLocked s (cl_ID c) then ([Finding RuleLockLedgerDeleted (cl_ID c)], 0)
          else if cl_Status c = StatusLocked then ([Finding RuleLockLedgerMissing (cl_ID c)], 1)
          else ([], 0)
      | Some r \<Rightarrow>
          if cl_Status c = StatusLocked \<and> Released r then ([Finding RuleLockLedgerReleased (cl_ID c)], 0)
          else if cl_Status c = StatusLocked \<and> lr_Hash r \<noteq> LockedClaimHash sha c then
            ([Finding RuleLockContentDrift (cl_ID c)], 0)
          else if cl_Status c \<noteq> StatusLocked \<and> \<not> Released r then
            ([Finding RuleLockLedgerOrphan (cl_ID c)], 0)
          else ([], 0))"

text \<open>The second switch, on the comment digests.\<close>

definition standing :: "store \<Rightarrow> string \<Rightarrow> bool" where
  "standing s i \<longleftrightarrow> (case ledgerRecordFor s i of None \<Rightarrow> False | Some r \<Rightarrow> \<not> Released r)"

definition audit_comments ::
  "(string \<Rightarrow> string) \<Rightarrow> store \<Rightarrow> bool \<Rightarrow> dstore option \<Rightarrow> claim \<Rightarrow> audit_finding list" where
  "audit_comments sha s covered digests c =
     (case digests of
        None \<Rightarrow> []
      | Some d \<Rightarrow>
          (case ds_Digest d (cl_ID c) of
             Some recorded \<Rightarrow>
               if recorded \<noteq> CommentsDigest sha c then [Finding RuleCommentLedgerDrift (cl_ID c)] else []
           | None \<Rightarrow>
               if covered \<and> ds_fileExists d \<and> length (cl_Comments c) > 0 \<and> \<not> standing s (cl_ID c)
               then [Finding RuleCommentDigestUnrecorded (cl_ID c)] else []))"

fun audit_claims ::
  "(string \<Rightarrow> string) \<Rightarrow> store \<Rightarrow> bool \<Rightarrow> bool \<Rightarrow> dstore option \<Rightarrow> claim list \<Rightarrow> audit_finding list \<times> nat" where
  "audit_claims sha s pre covered digests [] = ([], 0)"
| "audit_claims sha s pre covered digests (c # cs) =
     (let (fs, n) = audit_ledger sha s pre covered c;
          gs = audit_comments sha s covered digests c;
          (rest, m) = audit_claims sha s pre covered digests cs
      in (fs @ gs @ rest, n + m))"

section \<open>The whole project\<close>

definition audit_abandoned :: "store \<Rightarrow> claim list \<Rightarrow> audit_finding list" where
  "audit_abandoned s claims =
     (if st_fileExists s then
        map (\<lambda>(key, r). Finding RuleLockLedgerAbandoned key)
          (filter (\<lambda>(key, r). \<not> (lr_Subject r \<noteq> SubjectClaim \<or> Released r \<or> key \<in> cl_ID ` set claims))
            (st_Ledger s))
      else [])"

definition finding_key :: "audit_finding \<Rightarrow> string \<times> string" where
  "finding_key f = (fd_ClaimID f, fd_Rule f)"

definition finding_less :: "audit_finding \<Rightarrow> audit_finding \<Rightarrow> bool" where
  "finding_less a b \<longleftrightarrow>
     (if fd_ClaimID a \<noteq> fd_ClaimID b then fd_ClaimID a < fd_ClaimID b else fd_Rule a < fd_Rule b)"

definition audit_findings :: "(string \<Rightarrow> string) \<Rightarrow> claim list \<Rightarrow> store \<Rightarrow> dstore option \<Rightarrow> audit_finding list" where
  "audit_findings sha claims s digests =
     (let digestsPresent = (case digests of None \<Rightarrow> False | Some d \<Rightarrow> ds_fileExists d);
          preLedgerUnadopted = PreLedgerUnadopted s digestsPresent;
          covered = LedgerCovered s;
          (fs, unrecordedLocks) = audit_claims sha s preLedgerUnadopted covered digests claims
      in fs @ audit_abandoned s claims @
         (if \<not> st_fileExists s \<and> unrecordedLocks > 0 then [Finding RuleLockLedgerAbsent []] else []) @
         (if preLedgerUnadopted \<and> countLocked claims > 0 then [Finding RuleLockLedgerPreLedger []] else []) @
         (if LedgerDowngraded s digestsPresent then [Finding RuleLockLedgerDowngraded []] else []))"

definition Audit :: "(string \<Rightarrow> string) \<Rightarrow> claim list \<Rightarrow> store \<Rightarrow> dstore option \<Rightarrow> audit_finding list" where
  "Audit sha claims s digests = stable_sort finding_less (audit_findings sha claims s digests)"

interpretation fnd: sort_order finding_less finding_key
  by unfold_locales (auto simp: finding_less_def finding_key_def less_prod_def)

section \<open>What silence means\<close>

lemma Audit_Nil: "Audit sha claims s d = [] \<longleftrightarrow> audit_findings sha claims s d = []"
  by (metis Audit_def length_0_conv length_stable_sort)

lemma audit_claims_Nil:
  "fst (audit_claims sha s pre covered d cs) = [] \<longleftrightarrow>
   (\<forall>c \<in> set cs. fst (audit_ledger sha s pre covered c) = [] \<and> audit_comments sha s covered d c = [])"
  by (induction cs) (auto split: prod.split)

lemma audit_ledger_count:
  "fst (audit_ledger sha s pre covered c) = [] \<Longrightarrow> snd (audit_ledger sha s pre covered c) = 0"
  by (auto simp: audit_ledger_def split: option.splits if_splits)

lemma audit_claims_count:
  "fst (audit_claims sha s p v d cs) = [] \<Longrightarrow> snd (audit_claims sha s p v d cs) = 0"
  by (induction cs) (auto simp: audit_ledger_count Let_def case_prod_beta)

lemma countLocked_pos: "countLocked claims > 0 \<longleftrightarrow> (\<exists>c \<in> set claims. cl_Status c = StatusLocked)"
  by (auto simp: countLocked_def filter_empty_conv)

definition present :: "dstore option \<Rightarrow> bool" where
  "present d \<longleftrightarrow> (case d of None \<Rightarrow> False | Some x \<Rightarrow> ds_fileExists x)"

lemma audit_findings_Nil:
  "audit_findings sha claims s d = [] \<longleftrightarrow>
   (\<forall>c \<in> set claims. fst (audit_ledger sha s (PreLedgerUnadopted s (present d)) (LedgerCovered s) c) = [] \<and>
      audit_comments sha s (LedgerCovered s) d c = []) \<and>
   audit_abandoned s claims = [] \<and>
   \<not> (PreLedgerUnadopted s (present d) \<and> countLocked claims > 0) \<and> \<not> LedgerDowngraded s (present d)"
proof -
  let ?r = "audit_claims sha s (PreLedgerUnadopted s (present d)) (LedgerCovered s) d claims"
  have "audit_findings sha claims s d = [] \<longleftrightarrow> fst ?r = [] \<and> audit_abandoned s claims = [] \<and>
      \<not> (\<not> st_fileExists s \<and> snd ?r > 0) \<and> \<not> (PreLedgerUnadopted s (present d) \<and> countLocked claims > 0) \<and>
      \<not> LedgerDowngraded s (present d)"
    by (simp add: audit_findings_def Let_def present_def split: prod.split)
  with audit_claims_count [of sha s _ _ d claims] show ?thesis by (auto simp: audit_claims_Nil)
qed


definition approved_once :: "store \<times> disk" where
  "approved_once = RecordApproval first32 ''t'' (demo ''a'' [] StatusLocked)
     \<lparr>ap_Actor = ''me'', ap_Reason = ''ok''\<rparr>
     ((emptyStore ''p'')\<lparr>st_fileExists := True, st_diskVersion := 3\<rparr>, good_disk)"

lemma approved_once_record:
  "st_Ledger (fst approved_once) = [(''a'', approval_record first32 ''t'' (demo ''a'' [] StatusLocked)
     \<lparr>ap_Actor = ''me'', ap_Reason = ''ok''\<rparr>)]"
  "st_fileExists (fst approved_once)" "st_diskVersion (fst approved_once) = 3"
  "st_ledgerKeyOnDisk (fst approved_once) = False"
  by (simp_all add: approved_once_def RecordApproval_def putRecord_def emptyStore_def Let_def)


text \<open>
  The exact meaning of a silent gate in a project that is covered by the ledger.
\<close>

definition claim_in_order :: "(string \<Rightarrow> string) \<Rightarrow> store \<Rightarrow> claim \<Rightarrow> bool" where
  "claim_in_order sha s c \<longleftrightarrow>
     (case ledgerRecordFor s (cl_ID c) of
        None \<Rightarrow> cl_Status c \<noteq> StatusLocked \<and> \<not> engineLocked s (cl_ID c)
      | Some r \<Rightarrow>
          if cl_Status c = StatusLocked then \<not> Released r \<and> lr_Hash r = LockedClaimHash sha c
          else Released r)"

definition comments_in_order :: "(string \<Rightarrow> string) \<Rightarrow> store \<Rightarrow> dstore \<Rightarrow> claim \<Rightarrow> bool" where
  "comments_in_order sha s d c \<longleftrightarrow>
     (case ds_Digest d (cl_ID c) of
        Some x \<Rightarrow> x = CommentsDigest sha c
      | None \<Rightarrow> \<not> ds_fileExists d \<or> cl_Comments c = [] \<or> standing s (cl_ID c))"

lemma Audit_silent_covered:
  assumes "LedgerCovered s"
  shows "Audit sha claims s (Some d) = [] \<longleftrightarrow>
    (\<forall>c \<in> set claims. claim_in_order sha s c \<and> comments_in_order sha s d c) \<and>
    (\<forall>(k, r) \<in> set (st_Ledger s). lr_Subject r = SubjectClaim \<longrightarrow> \<not> Released r \<longrightarrow> k \<in> cl_ID ` set claims)"
proof -
  have pre: "\<not> PreLedgerUnadopted s p" "\<not> LedgerDowngraded s p" for p
    using assms by (auto simp: LedgerCovered_def PreLedgerUnadopted_def LedgerDowngraded_def PreLedger_def)
  have ex: "st_fileExists s" using assms by (simp add: LedgerCovered_def)
  have led: "fst (audit_ledger sha s False True c) = [] \<longleftrightarrow> claim_in_order sha s c" for c
    by (auto simp: audit_ledger_def claim_in_order_def split: option.split)
  have com: "audit_comments sha s True (Some d) c = [] \<longleftrightarrow> comments_in_order sha s d c" for c
    by (auto simp: audit_comments_def comments_in_order_def split: option.split)
  have ab: "audit_abandoned s claims = [] \<longleftrightarrow>
      (\<forall>(k, r) \<in> set (st_Ledger s). lr_Subject r = SubjectClaim \<longrightarrow> \<not> Released r \<longrightarrow> k \<in> cl_ID ` set claims)"
    using ex by (auto simp: audit_abandoned_def filter_empty_conv)
  show ?thesis using assms by (simp add: Audit_Nil audit_findings_Nil pre led com ab)
qed

text \<open>What the gate is about, in the fields of the store: approvals that stand, and traces of a lock.\<close>

definition approves :: "store \<Rightarrow> string \<Rightarrow> ledger_record \<Rightarrow> bool" where
  "approves s i r \<longleftrightarrow> gm_get (st_Ledger s) i = Some r \<and> lr_Subject r = ''claim'' \<and> lr_ReleasedAt r = []"

definition lock_trace :: "store \<Rightarrow> string \<Rightarrow> bool" where
  "lock_trace s i \<longleftrightarrow> gm_get (st_LockedAt s) i \<noteq> None \<or> (\<exists>m. gm_get (st_Hashes s) i = Some m \<and> m \<noteq> [])"

definition claim_record :: "store \<Rightarrow> string \<Rightarrow> bool" where
  "claim_record s i \<longleftrightarrow> (\<exists>r. gm_get (st_Ledger s) i = Some r \<and> lr_Subject r = ''claim'')"

lemma engineLocked_trace: "engineLocked s i \<longleftrightarrow> lock_trace s i"
  by (auto simp: engineLocked_def lock_trace_def split: option.split)

lemma record_None: "ledgerRecordFor s i = None \<longleftrightarrow> \<not> claim_record s i"
  by (auto simp: ledgerRecordFor_def claim_record_def st_Record_def SubjectClaim_def split: option.splits if_splits)

lemma record_stands: "ledgerRecordFor s i = Some r \<Longrightarrow> approves s i q \<longleftrightarrow> q = r \<and> \<not> Released r"
  by (auto simp: ledgerRecordFor_def approves_def st_Record_def SubjectClaim_def Released_def split: option.splits if_splits)

lemma approves_record: "approves s i r \<Longrightarrow> ledgerRecordFor s i = Some r \<and> \<not> Released r"
  by (auto simp: ledgerRecordFor_def approves_def st_Record_def SubjectClaim_def Released_def)

lemma standing_approves: "standing s i \<longleftrightarrow> (\<exists>r. approves s i r)"
proof (cases "ledgerRecordFor s i")
  case None
  then show ?thesis using approves_record [of s i] by (auto simp: standing_def)
qed (simp add: standing_def record_stands)

lemma audit_ledger_silent:
  assumes "p \<longrightarrow> \<not> v \<and> cl_Status c \<noteq> StatusLocked"
  shows "fst (audit_ledger sha s p v c) = [] \<longleftrightarrow>
    (if cl_Status c = StatusLocked then \<exists>r. approves s (cl_ID c) r \<and> lr_Hash r = LockedClaimHash sha c
     else \<not> (\<exists>r. approves s (cl_ID c) r) \<and> (v \<and> \<not> claim_record s (cl_ID c) \<longrightarrow> \<not> lock_trace s (cl_ID c)))"
proof (cases "ledgerRecordFor s (cl_ID c)")
  case None
  then have "\<not> approves s (cl_ID c) r" for r using approves_record [of s "cl_ID c" r] by auto
  moreover have "\<not> claim_record s (cl_ID c)" using None record_None by simp
  ultimately show ?thesis using None assms by (simp add: audit_ledger_def engineLocked_trace)
next
  case (Some r)
  then have "claim_record s (cl_ID c)" using record_None by force
  with Some show ?thesis by (auto simp: audit_ledger_def record_stands)
qed

text \<open>
  C9. The gate is silent exactly when the project is in order, whatever the store and the digests: the
  store is not one that was lowered below the ledger's version beside the ledger's traces; every locked
  claim has a standing record of its present content and no other claim has a standing record; in a store
  covered by the ledger a claim without a record bears no trace of ever having been locked by the engine;
  every comment digest on record is that of the present block, and in a covered project with a digest
  file no block with threads lacks one unless a standing approval vouches for it; and when the store is
  on file every standing claim record is about a claim that exists.
\<close>

theorem Audit_silent_iff:
  "Audit sha claims s d = [] \<longleftrightarrow>
    \<not> (st_fileExists s \<and> st_diskVersion s < ledgerSchemaVersion \<and>
       ((\<exists>x. d = Some x \<and> ds_fileExists x) \<or> st_ledgerKeyOnDisk s \<or> st_Ledger s \<noteq> [])) \<and>
    (\<forall>c \<in> set claims.
       (if cl_Status c = StatusLocked then \<exists>r. approves s (cl_ID c) r \<and> lr_Hash r = LockedClaimHash sha c
        else \<not> (\<exists>r. approves s (cl_ID c) r) \<and>
          (st_fileExists s \<and> ledgerSchemaVersion \<le> st_diskVersion s \<and> \<not> claim_record s (cl_ID c) \<longrightarrow>
             \<not> lock_trace s (cl_ID c))) \<and>
       (\<forall>x. d = Some x \<longrightarrow>
          (case ds_Digest x (cl_ID c) of
             Some h \<Rightarrow> h = CommentsDigest sha c
           | None \<Rightarrow> \<not> (st_fileExists s \<and> ledgerSchemaVersion \<le> st_diskVersion s) \<or> \<not> ds_fileExists x \<or>
               cl_Comments c = [] \<or> (\<exists>r. approves s (cl_ID c) r)))) \<and>
    (st_fileExists s \<longrightarrow> (\<forall>(k, r) \<in> set (st_Ledger s).
       lr_Subject r = ''claim'' \<and> lr_ReleasedAt r = [] \<longrightarrow> k \<in> cl_ID ` set claims))"
proof -
  let ?p = "PreLedgerUnadopted s (present d)" and ?v = "LedgerCovered s"
  let ?led = "\<lambda>c. if cl_Status c = StatusLocked then \<exists>r. approves s (cl_ID c) r \<and> lr_Hash r = LockedClaimHash sha c
     else \<not> (\<exists>r. approves s (cl_ID c) r) \<and> (?v \<and> \<not> claim_record s (cl_ID c) \<longrightarrow> \<not> lock_trace s (cl_ID c))"
  have down: "LedgerDowngraded s (present d) \<longleftrightarrow> st_fileExists s \<and> st_diskVersion s < ledgerSchemaVersion \<and>
      ((\<exists>x. d = Some x \<and> ds_fileExists x) \<or> st_ledgerKeyOnDisk s \<or> st_Ledger s \<noteq> [])"
    by (auto simp: LedgerDowngraded_def PreLedger_def present_def split: option.splits)
  have com: "audit_comments sha s ?v d c = [] \<longleftrightarrow> (\<forall>x. d = Some x \<longrightarrow>
      (case ds_Digest x (cl_ID c) of Some h \<Rightarrow> h = CommentsDigest sha c
       | None \<Rightarrow> \<not> ?v \<or> \<not> ds_fileExists x \<or> cl_Comments c = [] \<or> (\<exists>r. approves s (cl_ID c) r)))" for c
    by (auto simp: audit_comments_def standing_approves split: option.splits)
  have ab: "audit_abandoned s claims = [] \<longleftrightarrow> (st_fileExists s \<longrightarrow> (\<forall>(k, r) \<in> set (st_Ledger s).
      lr_Subject r = ''claim'' \<and> lr_ReleasedAt r = [] \<longrightarrow> k \<in> cl_ID ` set claims))"
    by (auto simp: audit_abandoned_def filter_empty_conv SubjectClaim_def Released_def)
  have pre: "?p \<Longrightarrow> \<not> ?v" "?p \<Longrightarrow> st_Ledger s = []"
    by (auto simp: PreLedgerUnadopted_def LedgerCovered_def PreLedger_def LedgerDowngraded_def split: if_splits)
  have led: "\<not> (?p \<and> countLocked claims > 0) \<and> (\<forall>c \<in> set claims. fst (audit_ledger sha s ?p ?v c) = []) \<longleftrightarrow>
      (\<forall>c \<in> set claims. ?led c)"
  proof (cases "?p \<and> countLocked claims > 0")
    case True
    then obtain c where c: "c \<in> set claims" "cl_Status c = StatusLocked" by (auto simp: countLocked_pos)
    have "\<not> approves s (cl_ID c) r" for r using True pre(2) by (auto simp: approves_def)
    with c True show ?thesis by auto
  next
    case False
    have "fst (audit_ledger sha s ?p ?v c) = [] \<longleftrightarrow> ?led c" if "c \<in> set claims" for c
      by (rule audit_ledger_silent) (use False pre(1) that in \<open>auto simp: countLocked_pos\<close>)
    with False show ?thesis by blast
  qed
  have "Audit sha claims s d = [] \<longleftrightarrow> \<not> LedgerDowngraded s (present d) \<and>
      (\<forall>c \<in> set claims. ?led c \<and> audit_comments sha s ?v d c = []) \<and> audit_abandoned s claims = []"
    using led by (auto simp: Audit_Nil audit_findings_Nil)
  then show ?thesis unfolding down com ab unfolding LedgerCovered_def conj_assoc .
qed

theorem Audit_silent_iff_witness:
  "Audit first32 [demo ''a'' [] StatusDraft] (fst approved_once) (Some empty_dstore) \<noteq> [] \<and>
   Audit first32 [] ((emptyStore ''p'')\<lparr>st_fileExists := True, st_diskVersion := 1, st_ledgerKeyOnDisk := True\<rparr>) None \<noteq> []"
proof -
  have "approves (fst approved_once) ''a'' (approval_record first32 ''t'' (demo ''a'' [] StatusLocked)
      \<lparr>ap_Actor = ''me'', ap_Reason = ''ok''\<rparr>)"
    by (simp add: approves_def approved_once_record approval_record_def SubjectClaim_def)
  moreover have "\<not> (\<exists>r. approves (fst approved_once) ''a'' r)"
    if "Audit first32 [demo ''a'' [] StatusDraft] (fst approved_once) (Some empty_dstore) = []"
    using that [unfolded Audit_silent_iff, THEN conjunct2, THEN conjunct1, rule_format, of "demo ''a'' [] StatusDraft"] by simp
  moreover have "\<not> (1 < ledgerSchemaVersion)"
    if "Audit first32 [] ((emptyStore ''p'')\<lparr>st_fileExists := True, st_diskVersion := 1, st_ledgerKeyOnDisk := True\<rparr>) None = []"
    using that [unfolded Audit_silent_iff] by simp
  ultimately show ?thesis by (auto simp: schema_defs)
qed

section \<open>Order\<close>

text \<open>
  The report is deterministic: it is ordered by claim id and then rule, and it does not depend
  on the order in which the ledger map is walked; two stores that differ only in that order give the
  same report, line for line.
\<close>

theorem Audit_deterministic:
  assumes "mset (st_Ledger s) = mset l" "gm_wf (st_Ledger s)"
  shows "Audit sha claims (s\<lparr>st_Ledger := l\<rparr>) d = Audit sha claims s d \<and>
    sorted_wrt (\<lambda>a b. (fd_ClaimID a, fd_Rule a) \<le> (fd_ClaimID b, fd_Rule b)) (Audit sha claims s d)"
proof -
  let ?s = "s\<lparr>st_Ledger := l\<rparr>"
  have "set (st_Ledger s) = set l" using assms(1) by (metis set_mset_mset)
  moreover have "gm_wf l"
    using assms by (metis mset_eq_imp_distinct_iff mset_map)
  ultimately have m: "map_of l = map_of (st_Ledger s)"
    using assms(2) by (simp add: map_of_inject_set)
  have rec: "ledgerRecordFor ?s = ledgerRecordFor s" "engineLocked ?s = engineLocked s"
    "standing ?s = standing s" "PreLedger ?s = PreLedger s" "LedgerCovered ?s = LedgerCovered s"
    by (auto simp: ledgerRecordFor_def st_Record_def m engineLocked_def standing_def PreLedger_def
        LedgerCovered_def fun_eq_iff split: option.split)
  have len: "length l = length (st_Ledger s)" using assms(1) by (metis size_mset)
  have down: "LedgerDowngraded ?s p = LedgerDowngraded s p" "PreLedgerUnadopted ?s p = PreLedgerUnadopted s p" for p
    by (simp_all add: LedgerDowngraded_def PreLedgerUnadopted_def rec len)
  have claims_eq: "audit_claims sha ?s p v d cs = audit_claims sha s p v d cs" for p v cs
  proof (induction cs)
    case (Cons c cs)
    moreover have "audit_ledger sha ?s p v c = audit_ledger sha s p v c"
      by (simp only: audit_ledger_def rec)
    moreover have "audit_comments sha ?s v d c = audit_comments sha s v d c"
      by (simp only: audit_comments_def rec)
    ultimately show ?case by simp
  qed simp
  have "mset (audit_abandoned ?s claims) = mset (audit_abandoned s claims)"
    by (simp add: audit_abandoned_def assms(1))
  then have "mset (audit_findings sha claims ?s d) = mset (audit_findings sha claims s d)"
    by (simp add: audit_findings_def Let_def claims_eq rec down split: prod.split)
  then have ms: "mset (Audit sha claims ?s d) = mset (Audit sha claims s d)"
    by (simp add: Audit_def)
  have srt: "sorted (map finding_key (Audit sha claims t d))" for t
    using fnd.sorted_stable_sort [of "audit_findings sha claims t d"]
    by (simp add: Audit_def sorted_wrt_map fnd.lt_key not_less sorted_map)
  have inj: "inj finding_key"
    by (rule injI) (auto simp: finding_key_def intro: audit_finding.expand)
  from ms have "mset (map finding_key (Audit sha claims ?s d)) = mset (map finding_key (Audit sha claims s d))"
    by simp
  with srt have "map finding_key (Audit sha claims ?s d) = map finding_key (Audit sha claims s d)"
    by (metis properties_for_sort)
  with inj have "Audit sha claims ?s d = Audit sha claims s d" by (simp add: inj_map_eq_map)
  moreover have "sorted_wrt (\<lambda>a b. (fd_ClaimID a, fd_Rule a) \<le> (fd_ClaimID b, fd_Rule b)) (Audit sha claims s d)"
    using srt [of s] by (simp add: sorted_map finding_key_def)
  ultimately show ?thesis by blast
qed

theorem Audit_deterministic_witness:
  "\<forall>r q. Audit first32 [] ((emptyStore ''p'')\<lparr>st_Ledger := [(''b'', q), (''a'', r)]\<rparr>) None =
     Audit first32 [] ((emptyStore ''p'')\<lparr>st_Ledger := [(''a'', r), (''b'', q)]\<rparr>) None"
proof (intro allI)
  fix r q
  let ?s = "(emptyStore ''p'')\<lparr>st_Ledger := [(''a'', r), (''b'', q)]\<rparr>"
  have "mset (st_Ledger ?s) = mset [(''b'', q), (''a'', r)]" "gm_wf (st_Ledger ?s)" by simp_all
  from Audit_deterministic [OF this, of first32 "[]" None]
  show "Audit first32 [] ((emptyStore ''p'')\<lparr>st_Ledger := [(''b'', q), (''a'', r)]\<rparr>) None = Audit first32 [] ?s None"
    by simp
qed

end
