(* ===== verification/Lint_Rules.thy ===== *)
theory Lint_Rules
  imports Claim_Decode
begin

text \<open>
  The lint contract and the structural rules (\<^verbatim>\<open>internal/lint\<close>): a rule is a function of the
  configuration and the claims that returns its findings, and \<^verbatim>\<open>RunAll\<close> runs a registry of rules in
  order. Messages are modelled to the byte because the lock policy searches them. The Markdown, layout,
  source and file-reading rules are not here.
\<close>

section \<open>Findings and the registry\<close>

definition SeverityError :: string where
  "SeverityError = ''error''"

definition SeverityWarning :: string where
  "SeverityWarning = ''warning''"

record lint_finding =
  lf_LintName :: string
  lf_ClaimID :: string
  lf_Message :: string
  lf_Severity :: string

text \<open>What the rules read of \<^verbatim>\<open>config.Config\<close>; the limits are pointers there, absent for their default.\<close>

record lint_config =
  cf_Modules :: "string list"
  cf_MaxClaimBodyChars :: "int option"
  cf_MaxClaimSummaryChars :: "int option"
  cf_MaxClaimsPerModule :: "int option"

type_synonym lint_rule = "claim list \<Rightarrow> lint_config option \<Rightarrow> lint_finding list"

definition RunAll :: "lint_rule list \<Rightarrow> claim list \<Rightarrow> lint_config option \<Rightarrow> lint_finding list" where
  "RunAll registry claims cfg =
     map (\<lambda>f. if lf_Severity f = [] then f\<lparr>lf_Severity := SeverityError\<rparr> else f)
       (concat (map (\<lambda>check. check claims cfg) registry))"

definition finding_of :: "string \<Rightarrow> string \<Rightarrow> string \<Rightarrow> string \<Rightarrow> lint_finding" where
  "finding_of name i msg sev = \<lparr>lf_LintName = name, lf_ClaimID = i, lf_Message = msg, lf_Severity = sev\<rparr>"

text \<open>
  \<^verbatim>\<open>map[string]model.Claim\<close> filled in list order: a repeated id keeps its last claim.
\<close>

definition byID :: "claim list \<Rightarrow> string \<Rightarrow> claim option" where
  "byID claims = map_of (rev (map (\<lambda>c. (cl_ID c, c)) claims))"

definition known_ids :: "claim list \<Rightarrow> string list" where
  "known_ids claims = map cl_ID claims"

lemma byID_None: "byID claims i = None \<longleftrightarrow> i \<notin> set (known_ids claims)"
  by (force simp: byID_def known_ids_def map_of_eq_None_iff)

lemma byID_SomeD: "byID claims i = Some c \<Longrightarrow> c \<in> set claims \<and> cl_ID c = i"
  unfolding byID_def by (auto dest: map_of_SomeD)

lemma byID_distinct:
  "distinct (known_ids claims) \<Longrightarrow> byID claims i = Some c \<longleftrightarrow> c \<in> set claims \<and> cl_ID c = i"
  unfolding byID_def known_ids_def
  by (subst map_of_eq_Some_iff) (auto simp: rev_map [symmetric] comp_def)

section \<open>Quoting\<close>

text \<open>
  The \<^verbatim>\<open>%q\<close> verb of \<^verbatim>\<open>fmt\<close> on text whose bytes beyond ASCII are printable UTF-8.
\<close>

definition quote_byte :: "char \<Rightarrow> string" where
  "quote_byte c =
     (let n = (of_char c :: nat) in
      if c = CHR 0x22 then [CHR 0x5C, CHR 0x22]
      else if c = CHR 0x5C then [CHR 0x5C, CHR 0x5C]
      else if n = 7 then CHR 0x5C # ''a'' else if n = 8 then CHR 0x5C # ''b''
      else if n = 12 then CHR 0x5C # ''f'' else if n = 10 then CHR 0x5C # ''n''
      else if n = 13 then CHR 0x5C # ''r'' else if n = 9 then CHR 0x5C # ''t''
      else if n = 11 then CHR 0x5C # ''v''
      else if n < 32 \<or> n = 127 then CHR 0x5C # CHR ''x'' # hex_byte c
      else [c])"

definition go_quote :: "string \<Rightarrow> string" where
  "go_quote s = [CHR 0x22] @ concat (map quote_byte s) @ [CHR 0x22]"

text \<open>\<^verbatim>\<open>strings.EqualFold(s, t)\<close> for a lower-case ASCII \<open>t\<close>: the long s and the Kelvin sign fold too.\<close>

fun fold_ascii :: "string \<Rightarrow> string" where
  "fold_ascii (a # b # c # s) =
     (if (a, b, c) = (CHR 0xE2, CHR 0x84, CHR 0xAA) then CHR ''k'' # fold_ascii s
      else if (a, b) = (CHR 0xC5, CHR 0xBF) then CHR ''s'' # fold_ascii (c # s)
      else lower_byte a # fold_ascii (b # c # s))"
| "fold_ascii (a # b # s) =
     (if (a, b) = (CHR 0xC5, CHR 0xBF) then CHR ''s'' # fold_ascii s
      else lower_byte a # fold_ascii (b # s))"
| "fold_ascii (a # s) = lower_byte a # fold_ascii s"
| "fold_ascii [] = []"

definition equal_fold :: "string \<Rightarrow> string \<Rightarrow> bool" where
  "equal_fold s t \<longleftrightarrow> fold_ascii s = t"

text \<open>\<^verbatim>\<open>strings.Split\<close> on one byte.\<close>

fun split_on :: "char \<Rightarrow> string \<Rightarrow> string list" where
  "split_on d [] = [[]]"
| "split_on d (c # s) =
     (if c = d then [] # split_on d s
      else (case split_on d s of [] \<Rightarrow> [[c]] | p # ps \<Rightarrow> (c # p) # ps))"

lemma split_on_nonempty [simp]: "split_on d s \<noteq> []"
  by (induction s) (auto split: list.splits)

lemma join_split_on: "join_str [d] (split_on d s) = s"
proof (induction s)
  case (Cons c s)
  show ?case
  proof (cases "split_on d s")
    case (Cons p ps)
    with Cons.IH show ?thesis by (cases ps) auto
  qed simp
qed simp

lemma split_on_parts: "p \<in> set (split_on d s) \<Longrightarrow> d \<notin> set p"
proof (induction s arbitrary: p)
  case (Cons c s)
  show ?case
  proof (cases "split_on d s")
    case (Cons q qs)
    with Cons.IH Cons.prems show ?thesis by (auto split: if_splits)
  qed simp
qed simp

section \<open>Rules about identity\<close>

definition AmbiguousLint :: lint_rule where
  "AmbiguousLint claims cfg =
     concat (map (\<lambda>c. if count_list (known_ids claims) (cl_ID c) > 1
                      then [finding_of ''ambiguous'' (cl_ID c)
                              ''id is used by more than one claim, making references to it ambiguous'' []]
                      else []) claims)"

text \<open>The pattern of a slug, \<^verbatim>\<open>^[a-z0-9]+(-[a-z0-9]+)*$\<close>: hyphen-separated non-empty runs.\<close>

definition slug_char :: "char \<Rightarrow> bool" where
  "slug_char c \<longleftrightarrow> (let n = (of_char c :: nat) in (97 \<le> n \<and> n \<le> 122) \<or> (48 \<le> n \<and> n \<le> 57))"

definition slugPattern :: "string \<Rightarrow> bool" where
  "slugPattern s \<longleftrightarrow> list_all (\<lambda>p. p \<noteq> [] \<and> list_all slug_char p) (split_on CHR ''-'' s)"

definition IsEngineFacet :: "string \<Rightarrow> bool" where
  "IsEngineFacet name \<longleftrightarrow> name = ''contract'' \<or> name = ''internals''"

definition bad_slug :: "claim \<Rightarrow> string \<Rightarrow> lint_finding list" where
  "bad_slug c slug =
     (if \<not> slugPattern slug
      then [finding_of ''id-shape'' (cl_ID c)
              (''id slug segment '' @ slug @
               '' must be kebab-case (lowercase alphanumerics separated by single hyphens)'') []]
      else [])"

definition projectIDFindings :: "claim \<Rightarrow> lint_finding list" where
  "projectIDFindings c =
     (if cl_Module c \<noteq> [] \<or> cl_Facet c \<noteq> []
      then [finding_of ''id-shape'' (cl_ID c) ''project claims must omit module and facet'' []] else []) @
     (if cl_Scope c \<noteq> [] \<and> cl_Scope c \<noteq> ScopeProject
      then [finding_of ''id-shape'' (cl_ID c) ''project claims must set scope: project'' []] else []) @
     (if \<not> IsProjectClaimID (cl_ID c)
      then [finding_of ''id-shape'' (cl_ID c) ''project claim id must be project.<slug> (exactly two segments)'' []]
      else bad_slug c (case cut_dot (cl_ID c) of None \<Rightarrow> [] | Some (_, slug) \<Rightarrow> slug))"

definition moduleIDFindings :: "lint_config option \<Rightarrow> claim \<Rightarrow> lint_finding list" where
  "moduleIDFindings cfg c =
     (case split_on CHR ''.'' (cl_ID c) of
        [module, facet, slug] \<Rightarrow>
          if module = [] \<or> facet = [] \<or> slug = []
          then [finding_of ''id-shape'' (cl_ID c) ''id segments must all be non-empty'' []]
          else
            (if (case cfg of None \<Rightarrow> False | Some g \<Rightarrow> module \<notin> set (cf_Modules g))
             then [finding_of ''id-shape'' (cl_ID c)
                     (''id module segment '' @ module @ '' is not in the project's configured modules'') []]
             else []) @
            (if \<not> IsEngineFacet facet
             then [finding_of ''id-shape'' (cl_ID c)
                     (''id facet segment '' @ facet @
                      '' is not an engine-fixed facet (contract or internals)'') []]
             else []) @
            (if cl_Module c \<noteq> [] \<and> cl_Module c \<noteq> module
             then [finding_of ''id-shape'' (cl_ID c)
                     (''id module segment '' @ module @ '' does not match claim's module field '' @ cl_Module c) []]
             else []) @
            (if cl_Facet c \<noteq> [] \<and> cl_Facet c \<noteq> facet
             then [finding_of ''id-shape'' (cl_ID c)
                     (''id facet segment '' @ facet @ '' does not match claim's facet field '' @ cl_Facet c) []]
             else []) @
            bad_slug c slug
      | _ \<Rightarrow> [finding_of ''id-shape'' (cl_ID c)
                ''id must have exactly three dot-separated segments (module.facet.slug)'' []])"

definition IDShapeLint :: lint_rule where
  "IDShapeLint claims cfg =
     concat (map (\<lambda>c.
       if IsProjectClaim c then projectIDFindings c
       else (if cl_Scope c \<noteq> [] \<and> cl_Scope c \<noteq> ScopeProject
             then [finding_of ''id-shape'' (cl_ID c) (''scope must be omitted or '' @ [CHR 0x22] @ ''project'' @ [CHR 0x22]) []]
             else []) @ moduleIDFindings cfg c) claims)"

definition KindShapeLint :: lint_rule where
  "KindShapeLint claims cfg =
     concat (map (\<lambda>c. if cl_Kind c = [] \<or> cl_Kind c = KindFact then []
                      else [finding_of ''kind-shape'' (cl_ID c)
                              (''invalid kind '' @ cl_Kind c @
                               ''; the only legal value is fact (or omit the field)'') []]) claims)"

definition statusShapeLint :: lint_rule where
  "statusShapeLint claims cfg =
     concat (map (\<lambda>c. if cl_Status c = []
                      then [finding_of ''status-shape'' (cl_ID c)
                              ''status is required and must be one of: draft, locked'' SeverityError]
                      else if \<not> (cl_Status c = StatusDraft \<or> cl_Status c = StatusLocked)
                      then [finding_of ''status-shape'' (cl_ID c)
                              (''invalid status '' @ go_quote (cl_Status c) @ ''; must be one of: draft, locked'')
                              SeverityError]
                      else []) claims)"

section \<open>Rules about dependencies\<close>

definition DanglingLint :: lint_rule where
  "DanglingLint claims cfg =
     concat (map (\<lambda>c. concat (map (\<lambda>target.
       if target \<notin> set (known_ids claims)
       then [finding_of ''dangling'' (cl_ID c) (''rests_on references unknown claim id '' @ target) []]
       else []) (ro_IDs (cl_RestsOn c)))) claims)"

definition SelfEdgeLint :: lint_rule where
  "SelfEdgeLint claims cfg =
     concat (map (\<lambda>c. if cl_ID c = [] then []
                      else if cl_ID c \<in> set (ro_IDs (cl_RestsOn c))
                      then [finding_of ''self-edge'' (cl_ID c)
                              ''rests_on names this claim's own id: a claim cannot rest on itself''
                              SeverityError]
                      else []) claims)"

definition RestsOnRequiredLint :: lint_rule where
  "RestsOnRequiredLint claims cfg =
     concat (map (\<lambda>c. if RestsOn_Empty (cl_RestsOn c)
                      then [finding_of ''rests-on-required'' (cl_ID c)
                              ''rests_on is required: a list of claim ids, or {none: true, reason: ...}'' []]
                      else if ro_None (cl_RestsOn c) \<and> blank (ro_Reason (cl_RestsOn c))
                      then [finding_of ''rests-on-required'' (cl_ID c)
                              ''rests_on.reason is required when rests_on.none is true'' []]
                      else []) claims)"

definition internalsTarget :: "claim \<Rightarrow> bool" where
  "internalsTarget c \<longleftrightarrow> equal_fold (cl_Facet c) ''internals''"

definition sameModule :: "claim \<Rightarrow> claim \<Rightarrow> bool" where
  "sameModule a b \<longleftrightarrow>
     (if IsProjectClaim a \<or> IsProjectClaim b then False
      else cl_Module a \<noteq> [] \<and> cl_Module a = cl_Module b)"

definition RestsOnTargetLint :: lint_rule where
  "RestsOnTargetLint claims cfg =
     concat (map (\<lambda>c. concat (map (\<lambda>target.
       (case byID claims target of
          None \<Rightarrow> []
        | Some dep \<Rightarrow>
            if \<not> internalsTarget dep \<or> sameModule c dep then []
            else [finding_of ''rests-on-target'' (cl_ID c)
                    (if IsProjectClaim c
                     then ''a project claim's rests_on may name project.* ids and any module's *.contract.* claims, never *.internals.* ('' @ target @ '')''
                     else ''rests_on must not name a foreign module's internals ('' @ target @ '')'') []]))
       (ro_IDs (cl_RestsOn c)))) claims)"

definition orphanLint :: lint_rule where
  "orphanLint claims cfg =
     concat (map (\<lambda>c. if length (ro_IDs (cl_RestsOn c)) > 0 \<or>
                        cl_ID c \<in> set (concat (map (\<lambda>d. ro_IDs (cl_RestsOn d)) claims))
                      then []
                      else [finding_of ''orphan'' (cl_ID c)
                              ''claim has no rests_on edges in either direction'' SeverityWarning]) claims)"

section \<open>Rules about threads and roll-ups\<close>

definition commentsUnresolvedLint :: lint_rule where
  "commentsUnresolvedLint claims cfg =
     concat (map (\<lambda>c. if cl_Layout c = LayoutBanner then []
                      else if length (OpenThreadIDs c) = 0 then []
                      else [finding_of ''comments-unresolved'' (cl_ID c)
                              (itoa (length (OpenThreadIDs c)) @ '' unresolved comment thread(s)'')
                              SeverityWarning]) claims)"

definition roll_up_message :: "claim \<Rightarrow> claim \<Rightarrow> string" where
  "roll_up_message banner sibling =
     ''banner claim '' @ go_quote (cl_ID banner) @ '' is locked but module '' @ go_quote (cl_Module banner) @
     '' still has a draft claim ('' @ go_quote (cl_ID sibling) @
     ''); a roll-up must stay unlocked until every claim in the module is locked '' @
     [CHR 0xE2, CHR 0x80, CHR 0x94] @ '' lock '' @ go_quote (cl_ID sibling) @
     '' (or unlock the banner) to clear this''"

definition rollUpLint :: lint_rule where
  "rollUpLint claims cfg =
     concat (map (\<lambda>banner.
       if cl_Layout banner \<noteq> LayoutBanner \<or> cl_Status banner \<noteq> StatusLocked then []
       else (case find (\<lambda>sibling. \<not> (cl_ID sibling = cl_ID banner \<or> cl_Module sibling \<noteq> cl_Module banner) \<and>
                                   cl_Status sibling \<noteq> StatusLocked) claims of
               None \<Rightarrow> []
             | Some sibling \<Rightarrow> [finding_of ''roll-up'' (cl_ID banner) (roll_up_message banner sibling)
                                SeverityWarning])) claims)"

section \<open>Rules about size and summaries\<close>

definition ClaimBodyCharLimit :: "lint_config option \<Rightarrow> int" where
  "ClaimBodyCharLimit cfg =
     (case cfg of None \<Rightarrow> 2000
      | Some g \<Rightarrow> (case cf_MaxClaimBodyChars g of None \<Rightarrow> 2000 | Some n \<Rightarrow> n))"

definition ClaimSummaryCharLimit :: "lint_config option \<Rightarrow> int" where
  "ClaimSummaryCharLimit cfg =
     (case cfg of None \<Rightarrow> 200
      | Some g \<Rightarrow> (case cf_MaxClaimSummaryChars g of None \<Rightarrow> 200 | Some n \<Rightarrow> n))"

definition ClaimsPerModuleLimit :: "lint_config option \<Rightarrow> int" where
  "ClaimsPerModuleLimit cfg =
     (case cfg of None \<Rightarrow> 10
      | Some g \<Rightarrow> (case cf_MaxClaimsPerModule g of None \<Rightarrow> 10 | Some n \<Rightarrow> n))"

definition bodyOversizeLint :: lint_rule where
  "bodyOversizeLint claims cfg =
     (let limit = ClaimBodyCharLimit cfg in
      concat (map (\<lambda>c. let n = ClaimProseChars c in
        if int n \<le> limit then []
        else [finding_of ''body-oversize'' (cl_ID c)
                (''body+steps+rows is '' @ itoa n @ '' characters, over the project cap of '' @ itoa_int limit @
                 ''; shorten the prose or split the claim; raising max_claim_body_chars in project.config.yaml is the human's call, only on their explicit approval'')
                SeverityError]) claims))"

definition summaryOversizeLint :: lint_rule where
  "summaryOversizeLint claims cfg =
     (let limit = ClaimSummaryCharLimit cfg in
      concat (map (\<lambda>c.
        if SummaryIsMissing (cl_Summary c) then []
        else let n = rune_count (cl_Summary c) in
          if int n \<le> limit then []
          else [finding_of ''summary-oversize'' (cl_ID c)
                  (''summary is '' @ itoa n @ '' characters, over the project cap of '' @ itoa_int limit @
                   ''; shorten it or split the claim; raising max_claim_summary_chars in project.config.yaml is the human's call, only on their explicit approval'')
                  SeverityError]) claims))"

definition summaryLooksLikeMarkdown :: "string \<Rightarrow> bool" where
  "summaryLooksLikeMarkdown summary =
     (let trimmed = trim_space summary in
      if trimmed = [] then False
      else if contains_str trimmed [CHR 0x60] \<or> contains_str trimmed ''**'' \<or> contains_str trimmed ''__'' then True
      else if contains_str trimmed ''](''  \<or> contains_str trimmed ''!['' then True
      else if contains_str trimmed ''<'' \<and> contains_str trimmed ''>'' then True
      else if hd trimmed = CHR ''#'' \<or> hd trimmed = CHR ''>'' then True
      else hd trimmed \<in> {CHR ''-'', CHR ''*'', CHR ''+''} \<and> find (has_prefix (tl trimmed)) space_runes \<noteq> None)"

definition summaryRequiredMessage :: "string \<Rightarrow> string" where
  "summaryRequiredMessage summary =
     (if SummaryIsMissing summary then
        ''summary is required: a short single-line plain-text description so claim list can name the card''
      else if CHR 0x0A \<in> set summary \<or> CHR 0x0D \<in> set summary then
        ''summary must be a single line of plain text, with no newline''
      else if summaryLooksLikeMarkdown summary then
        ''summary must be plain text with no markdown (no emphasis, links, headings, lists, or code spans)''
      else [])"

definition summaryRequiredLint :: lint_rule where
  "summaryRequiredLint claims cfg =
     concat (map (\<lambda>c. let msg = summaryRequiredMessage (cl_Summary c) in
       if msg \<noteq> [] then [finding_of ''summary-required'' (cl_ID c) msg SeverityError] else []) claims)"

definition capped :: "claim \<Rightarrow> bool" where
  "capped c \<longleftrightarrow> \<not> (cl_Module c = [] \<or> IsProjectClaim c)"

definition moduleClaimCapLint :: lint_rule where
  "moduleClaimCapLint claims cfg =
     (let limit = ClaimsPerModuleLimit cfg in
      concat (map (\<lambda>md.
        let ids = map cl_ID (filter (\<lambda>c. capped c \<and> cl_Module c = md) claims);
            n = length ids in
        if int n \<le> limit then []
        else map (\<lambda>i. finding_of ''module-claim-cap'' i
               (''module '' @ go_quote md @ '' has '' @ itoa n @ '' claims, over the project cap of '' @
                itoa_int limit @
                ''; split the module or retire claims; raising max_claims_per_module in project.config.yaml is the human's call, only on their explicit approval'')
               SeverityError) (sort ids))
        (sorted_set (map cl_Module (filter capped claims)))))"

end
