(* ===== verification/Cycle_Lint.thy ===== *)
theory Cycle_Lint
  imports Lint_Rules
begin

text \<open>
  The cycle rule (\<^verbatim>\<open>internal/lint/cycle.go\<close>): a depth-first search over an explicit stack of
  frames. A frame is the claim it stands for and the out-edges its cursor has not passed yet. The
  lemmas show that every reported claim is on a cycle and that a project without findings has none.
\<close>

section \<open>The search\<close>

datatype mark = Unvisited | Visiting | Visited

text \<open>The cycle a back edge to \<open>n\<close> closes: the stack from its lowest frame for \<open>n\<close> up.\<close>

definition stack_cycle :: "(string \<times> string list) list \<Rightarrow> string \<Rightarrow> string list" where
  "stack_cycle stack n = dropWhile (\<lambda>i. i \<noteq> n) (rev (map fst stack))"

fun report_members ::
  "string \<Rightarrow> string \<Rightarrow> string \<Rightarrow> string list \<Rightarrow> string list \<times> lint_finding list \<Rightarrow> string list \<times> lint_finding list" where
  "report_members name msg sev [] (reported, fs) = (reported, fs)"
| "report_members name msg sev (m # ms) (reported, fs) =
     (if m \<in> set reported then report_members name msg sev ms (reported, fs)
      else report_members name msg sev ms (m # reported, fs @ [finding_of name m msg sev]))"

function cycle_walk ::
  "string list \<Rightarrow> (string \<Rightarrow> string list) \<Rightarrow> string \<Rightarrow> string \<Rightarrow> string \<Rightarrow>
   (string \<Rightarrow> mark) \<Rightarrow> (string \<times> string list) list \<Rightarrow> string list \<times> lint_finding list \<Rightarrow>
   (string \<Rightarrow> mark) \<times> string list \<times> lint_finding list" where
  "cycle_walk known edges name prefix sev st [] out = (st, out)"
| "cycle_walk known edges name prefix sev st ((i, []) # stack) out =
     cycle_walk known edges name prefix sev (st(i := Visited)) stack out"
| "cycle_walk known edges name prefix sev st ((i, n # ns) # stack) out =
     (if n \<notin> set known then cycle_walk known edges name prefix sev st ((i, ns) # stack) out
      else (case st n of
          Unvisited \<Rightarrow>
            cycle_walk known edges name prefix sev (st(n := Visiting)) ((n, edges n) # (i, ns) # stack) out
        | Visiting \<Rightarrow>
            (let cyc = stack_cycle ((i, ns) # stack) n in
             cycle_walk known edges name prefix sev st ((i, ns) # stack)
               (if cyc = [] then out
                else report_members name (prefix @ join_str '' -> '' (cyc @ [n])) sev cyc out))
        | Visited \<Rightarrow> cycle_walk known edges name prefix sev st ((i, ns) # stack) out))"
  by pat_completeness auto

definition fresh :: "string list \<Rightarrow> (string \<Rightarrow> mark) \<Rightarrow> nat" where
  "fresh known st = card {i \<in> set known. st i = Unvisited}"

definition frames_left :: "(string \<times> string list) list \<Rightarrow> nat" where
  "frames_left stack = sum_list (map (\<lambda>(i, ns). Suc (length ns)) stack)"

lemma fresh_mono: "v \<noteq> Unvisited \<Longrightarrow> fresh known (st(i := v)) \<le> fresh known st"
  unfolding fresh_def by (rule card_mono) auto

lemma fresh_less: "n \<in> set known \<Longrightarrow> st n = Unvisited \<Longrightarrow> v \<noteq> Unvisited \<Longrightarrow> fresh known (st(n := v)) < fresh known st"
  unfolding fresh_def by (rule psubset_card_mono) auto

termination cycle_walk
proof (relation "measures [\<lambda>(known, edges, name, prefix, sev, st, stack, out). fresh known st,
                           \<lambda>(known, edges, name, prefix, sev, st, stack, out). frames_left stack]")
  fix known :: "string list" and st :: "string \<Rightarrow> mark" and i
  show "\<And>edges name prefix sev stack out.
    ((known, edges, name, prefix, sev, st(i := Visited), stack, out),
     (known, edges, name, prefix, sev, st, (i, []) # stack, out)) \<in>
    measures [\<lambda>(known, edges, name, prefix, sev, st, stack, out). fresh known st,
              \<lambda>(known, edges, name, prefix, sev, st, stack, out). frames_left stack]"
    using fresh_mono [of Visited known st i] by (auto simp: frames_left_def)
qed (auto simp: frames_left_def intro: fresh_less)

fun cycle_roots ::
  "string list \<Rightarrow> (string \<Rightarrow> string list) \<Rightarrow> string \<Rightarrow> string \<Rightarrow> string \<Rightarrow> string list \<Rightarrow>
   (string \<Rightarrow> mark) \<times> string list \<times> lint_finding list \<Rightarrow> (string \<Rightarrow> mark) \<times> string list \<times> lint_finding list" where
  "cycle_roots known edges name prefix sev [] s = s"
| "cycle_roots known edges name prefix sev (r # rs) (st, out) =
     (if st r \<noteq> Unvisited then cycle_roots known edges name prefix sev rs (st, out)
      else cycle_roots known edges name prefix sev rs
             (cycle_walk known edges name prefix sev (st(r := Visiting)) [(r, edges r)] out))"

definition findEdgeCycles ::
  "claim list \<Rightarrow> string \<Rightarrow> string \<Rightarrow> string \<Rightarrow> (claim \<Rightarrow> string list) \<Rightarrow> lint_finding list" where
  "findEdgeCycles claims name prefix sev edgesOf =
     (let edges = (\<lambda>i. case byID claims i of None \<Rightarrow> [] | Some c \<Rightarrow> edgesOf c)
      in snd (snd (cycle_roots (known_ids claims) edges name prefix sev (known_ids claims)
                     (\<lambda>_. Unvisited, [], []))))"

definition CycleLint :: lint_rule where
  "CycleLint claims cfg =
     findEdgeCycles claims ''cycle'' ''rests_on cycle detected: '' [] (\<lambda>c. ro_IDs (cl_RestsOn c))"

section \<open>What is reported is on a cycle\<close>

definition edge :: "string list \<Rightarrow> (string \<Rightarrow> string list) \<Rightarrow> (string \<times> string) set" where
  "edge known edges = {(a, b). a \<in> set known \<and> b \<in> set known \<and> b \<in> set (edges a)}"

lemma report_ids:
  "lf_ClaimID ` set (snd (report_members name msg sev ms out)) \<subseteq> lf_ClaimID ` set (snd out) \<union> set ms"
  by (induction name msg sev ms out rule: report_members.induct) (auto simp: finding_of_def)

lemma path_within:
  "successively (\<lambda>a b. (a, b) \<in> R) (x # xs) \<Longrightarrow> y \<in> set (x # xs) \<Longrightarrow>
   (x, y) \<in> R\<^sup>* \<and> (y, last (x # xs)) \<in> R\<^sup>*"
proof (induction xs arbitrary: x y)
  case (Cons z zs)
  then have xz: "(x, z) \<in> R" and zs: "successively (\<lambda>a b. (a, b) \<in> R) (z # zs)" by auto
  have "(x, last (z # zs)) \<in> R\<^sup>*"
    using Cons.IH [OF zs, of z] xz by (auto intro: converse_rtrancl_into_rtrancl)
  moreover have "y \<in> set (z # zs) \<Longrightarrow> (x, y) \<in> R\<^sup>*"
    using Cons.IH [OF zs, of y] xz by (auto intro: converse_rtrancl_into_rtrancl)
  ultimately show ?case using Cons.IH [OF zs, of y] Cons.prems(2) by auto
qed simp

lemma stack_cycle_on_cycle:
  assumes chain: "successively (\<lambda>a b. (b, a) \<in> R) (map fst stack)"
    and bk: "stack \<noteq> []" "(fst (hd stack), n) \<in> R"
    and m: "m \<in> set (stack_cycle stack n)"
  shows "(m, m) \<in> R\<^sup>+"
proof -
  let ?xs = "rev (map fst stack)"
  have ne: "dropWhile (\<lambda>i. i \<noteq> n) ?xs \<noteq> []" using m by (metis empty_iff empty_set stack_cycle_def)
  then obtain post where post: "dropWhile (\<lambda>i. i \<noteq> n) ?xs = n # post"
    using hd_dropWhile [OF ne] by (cases "dropWhile (\<lambda>i. i \<noteq> n) ?xs") auto
  have split: "?xs = takeWhile (\<lambda>i. i \<noteq> n) ?xs @ n # post"
    using takeWhile_dropWhile_id [of "\<lambda>i. i \<noteq> n" ?xs] post by simp
  have last: "last (n # post) = fst (hd stack)"
    using arg_cong [OF split, of last] bk(1) by (simp add: last_rev hd_map)
  have "successively (\<lambda>a b. (a, b) \<in> R) ?xs" using chain by (simp add: successively_rev)
  then have succ: "successively (\<lambda>a b. (a, b) \<in> R) (n # post)"
    by (subst (asm) split) (simp add: successively_append_iff)
  have "m \<in> set (n # post)" using m post by (simp add: stack_cycle_def)
  from path_within [OF succ this] bk(2) last have "(n, m) \<in> R\<^sup>*" "(m, n) \<in> R\<^sup>+"
    by (auto intro: rtrancl_into_trancl1)
  then show ?thesis by (rule trancl_rtrancl_trancl [rotated])
qed

definition frames_sound :: "string list \<Rightarrow> (string \<Rightarrow> string list) \<Rightarrow> (string \<times> string list) list \<Rightarrow> bool" where
  "frames_sound known edges stack \<longleftrightarrow>
     (\<forall>(i, ns) \<in> set stack. i \<in> set known \<and> set ns \<subseteq> set (edges i)) \<and>
     successively (\<lambda>a b. (b, a) \<in> edge known edges) (map fst stack)"

lemma frames_sound_Nil [simp]: "frames_sound known edges []"
  by (simp add: frames_sound_def)

lemma frames_sound_pop: "frames_sound known edges (f # stack) \<Longrightarrow> frames_sound known edges stack"
  by (auto simp: frames_sound_def successively_Cons)

lemma frames_sound_step:
  "frames_sound known edges ((i, n # ns) # stack) \<Longrightarrow> frames_sound known edges ((i, ns) # stack)"
  by (auto simp: frames_sound_def)

lemma frames_sound_push:
  "frames_sound known edges ((i, n # ns) # stack) \<Longrightarrow> n \<in> set known \<Longrightarrow>
   frames_sound known edges ((n, edges n) # (i, ns) # stack)"
  by (auto simp: frames_sound_def edge_def successively_Cons)

definition on_cycle :: "string list \<Rightarrow> (string \<Rightarrow> string list) \<Rightarrow> lint_finding list \<Rightarrow> bool" where
  "on_cycle known edges fs \<longleftrightarrow> (\<forall>f \<in> set fs. (lf_ClaimID f, lf_ClaimID f) \<in> (edge known edges)\<^sup>+)"

lemma on_cycle_report:
  assumes "frames_sound known edges ((i, n # ns) # stack)" "n \<in> set known" "on_cycle known edges (snd out)"
  shows "on_cycle known edges
           (snd (report_members name msg sev (stack_cycle ((i, ns) # stack) n) out))"
proof -
  have chain: "successively (\<lambda>a b. (b, a) \<in> edge known edges) (map fst ((i, ns) # stack))"
    using assms(1) by (simp add: frames_sound_def)
  have bk: "(fst (hd ((i, ns) # stack)), n) \<in> edge known edges"
    using assms(1,2) by (simp add: frames_sound_def edge_def)
  show ?thesis
    unfolding on_cycle_def
  proof
    fix f
    assume "f \<in> set (snd (report_members name msg sev (stack_cycle ((i, ns) # stack) n) out))"
    with report_ids [of name msg sev "stack_cycle ((i, ns) # stack) n" out]
    consider "lf_ClaimID f \<in> lf_ClaimID ` set (snd out)" | "lf_ClaimID f \<in> set (stack_cycle ((i, ns) # stack) n)"
      by blast
    then show "(lf_ClaimID f, lf_ClaimID f) \<in> (edge known edges)\<^sup>+"
      by cases (use assms(3) on_cycle_def stack_cycle_on_cycle [OF chain _ bk] in force)+
  qed
qed

lemma cycle_walk_sound:
  "frames_sound known edges stack \<Longrightarrow> on_cycle known edges (snd out) \<Longrightarrow>
   on_cycle known edges (snd (snd (cycle_walk known edges name prefix sev st stack out)))"
proof (induction known edges name prefix sev st stack out rule: cycle_walk.induct)
  case (2 known edges name prefix sev st i stack out)
  then show ?case by (simp add: frames_sound_pop fun_upd_def)
next
  case (3 known edges name prefix sev st i n ns stack out)
  show ?case
  proof (cases "n \<in> set known")
    case False
    then show ?thesis using 3 frames_sound_step by simp
  next
    case True
    show ?thesis
    proof (cases "st n")
      case Unvisited
      with True 3 frames_sound_push show ?thesis by (simp add: fun_upd_def)
    next
      case Visiting
      show ?thesis
        using "3.IH"(3) [OF _ Visiting refl frames_sound_step [OF "3.prems"(1)]] True Visiting
          on_cycle_report [OF "3.prems"(1) True "3.prems"(2)] "3.prems"(2)
        by (simp add: Let_def)
    next
      case Visited
      with True 3 frames_sound_step show ?thesis by simp
    qed
  qed
qed simp

section \<open>A silent search leaves an acyclic graph\<close>

definition finished :: "string list \<Rightarrow> (string \<Rightarrow> string list) \<Rightarrow> (string \<Rightarrow> mark) \<Rightarrow> (string \<times> string) set" where
  "finished known edges st = {(a, b) \<in> edge known edges. st a = Visited}"

fun frames_done :: "string list \<Rightarrow> (string \<Rightarrow> string list) \<Rightarrow> (string \<Rightarrow> mark) \<Rightarrow> string option \<Rightarrow> (string \<times> string list) list \<Rightarrow> bool" where
  "frames_done known edges st child [] = True"
| "frames_done known edges st child ((i, ns) # stack) =
     ((\<exists>ps. edges i = ps @ ns \<and> (\<forall>n \<in> set ps \<inter> set known. st n = Visited \<or> Some n = child)) \<and>
      frames_done known edges st (Some i) stack)"

definition walk_inv :: "string list \<Rightarrow> (string \<Rightarrow> string list) \<Rightarrow> (string \<Rightarrow> mark) \<Rightarrow> (string \<times> string list) list \<Rightarrow> bool" where
  "walk_inv known edges st stack \<longleftrightarrow>
     frames_done known edges st None stack \<and> distinct (map fst stack) \<and>
     (\<forall>i. st i = Visiting \<longleftrightarrow> i \<in> fst ` set stack) \<and>
     (\<forall>(a, b) \<in> edge known edges. st a = Visited \<longrightarrow> st b = Visited) \<and>
     acyclic (finished known edges st)"

definition out_inv :: "string list \<times> lint_finding list \<Rightarrow> bool" where
  "out_inv out \<longleftrightarrow> set (fst out) = lf_ClaimID ` set (snd out)"

lemma out_inv_report:
  "out_inv out \<Longrightarrow> out_inv (report_members name msg sev ms out)"
  by (induction name msg sev ms out rule: report_members.induct) (auto simp: out_inv_def finding_of_def)

lemma report_silent:
  "snd (report_members name msg sev ms out) = [] \<Longrightarrow> out_inv out \<Longrightarrow> ms = [] \<and> snd out = []"
  by (induction name msg sev ms out rule: report_members.induct)
     (auto simp: out_inv_def finding_of_def split: if_splits)

lemma acyclic_extend:
  assumes "acyclic R" "R `` V \<subseteq> V" "Domain R \<subseteq> V" "i \<notin> V" "B \<subseteq> V"
  shows "acyclic (R \<union> {i} \<times> B)"
proof -
  have "(x, y) \<in> (R \<union> {i} \<times> B)\<^sup>+ \<Longrightarrow> y \<in> V \<and> (x \<in> V \<longrightarrow> (x, y) \<in> R\<^sup>+)" for x y
    by (induction rule: trancl_induct) (use assms(2-5) in \<open>auto intro: trancl_into_trancl\<close>)
  with assms(1) show ?thesis unfolding acyclic_def by blast
qed

lemma frames_done_mono:
  "frames_done known edges st child stack \<Longrightarrow>
   (\<And>n. st n = Visited \<Longrightarrow> st' n = Visited) \<Longrightarrow>
   (\<And>n. Some n = child \<Longrightarrow> st' n = Visited \<or> Some n = child') \<Longrightarrow>
   frames_done known edges st' child' stack"
  by (induction stack arbitrary: child child') fastforce+

lemma walk_inv_pop:
  assumes inv: "walk_inv known edges st ((i, []) # stack)"
  shows "walk_inv known edges (st(i := Visited)) stack"
proof -
  let ?V = "{a. st a = Visited}"
  have vi: "st i = Visiting" and i: "i \<notin> fst ` set stack" and vis: "\<And>j. st j = Visiting \<longleftrightarrow> j = i \<or> j \<in> fst ` set stack"
    and succ: "\<And>n. n \<in> set (edges i) \<Longrightarrow> n \<in> set known \<Longrightarrow> st n = Visited"
    and rest: "frames_done known edges st (Some i) stack" "distinct (map fst stack)"
    and closed: "\<forall>(a, b) \<in> edge known edges. st a = Visited \<longrightarrow> st b = Visited"
    and ac: "acyclic (finished known edges st)"
    using inv by (auto simp: walk_inv_def)
  have "finished known edges (st(i := Visited)) \<subseteq>
        finished known edges st \<union> {i} \<times> {n \<in> set known. n \<in> set (edges i)}"
    by (auto simp: finished_def edge_def split: if_splits)
  moreover have "acyclic (finished known edges st \<union> {i} \<times> {n \<in> set known. n \<in> set (edges i)})"
    by (rule acyclic_extend [OF ac, of ?V]) (use closed vi succ in \<open>auto simp: finished_def\<close>)
  ultimately have "acyclic (finished known edges (st(i := Visited)))" by (rule acyclic_subset [rotated])
  moreover have "\<forall>(a, b) \<in> edge known edges. (st(i := Visited)) a = Visited \<longrightarrow> (st(i := Visited)) b = Visited"
    using closed succ by (auto simp: edge_def)
  moreover have "frames_done known edges (st(i := Visited)) None stack"
    by (rule frames_done_mono [OF rest(1)]) auto
  ultimately show ?thesis using rest(2) vis i by (auto simp: walk_inv_def)
qed

lemma frames_done_skip:
  "frames_done known edges st None ((i, n # ns) # stack) \<Longrightarrow> n \<notin> set known \<or> st n = Visited \<Longrightarrow>
   frames_done known edges st None ((i, ns) # stack)"
proof -
  assume "frames_done known edges st None ((i, n # ns) # stack)" "n \<notin> set known \<or> st n = Visited"
  then obtain ps where "edges i = (ps @ [n]) @ ns"
    "\<forall>m \<in> set (ps @ [n]) \<inter> set known. st m = Visited \<or> Some m = None"
    "frames_done known edges st (Some i) stack" by auto
  then show ?thesis by (metis frames_done.simps(2))
qed

lemma walk_inv_skip:
  "walk_inv known edges st ((i, n # ns) # stack) \<Longrightarrow> n \<notin> set known \<or> st n = Visited \<Longrightarrow>
   walk_inv known edges st ((i, ns) # stack)"
  unfolding walk_inv_def using frames_done_skip [of known edges st i n ns stack] by simp

lemma walk_inv_push:
  assumes inv: "walk_inv known edges st ((i, n # ns) # stack)" and n: "st n = Unvisited"
  shows "walk_inv known edges (st(n := Visiting)) ((n, edges n) # (i, ns) # stack)"
proof -
  obtain ps where ps: "edges i = (ps @ [n]) @ ns" "\<forall>m \<in> set ps \<inter> set known. st m = Visited"
    and rest: "frames_done known edges st (Some i) stack" using inv by (auto simp: walk_inv_def)
  have keep: "\<And>m. st m = Visited \<Longrightarrow> (st(n := Visiting)) m = Visited" using n by auto
  have below: "frames_done known edges (st(n := Visiting)) (Some i) stack"
    by (rule frames_done_mono [OF rest]) (use keep in auto)
  have this_frame: "\<exists>qs. edges i = qs @ ns \<and>
      (\<forall>m \<in> set qs \<inter> set known. (st(n := Visiting)) m = Visited \<or> Some m = Some n)"
    by (rule exI [of _ "ps @ [n]"]) (use ps keep in auto)
  have fin: "finished known edges (st(n := Visiting)) = finished known edges st"
    using n by (auto simp: finished_def split: if_splits)
  have vis: "\<And>j. st j = Visiting \<longleftrightarrow> j \<in> fst ` set ((i, n # ns) # stack)"
    using inv unfolding walk_inv_def by blast
  have "n \<notin> fst ` set ((i, n # ns) # stack)" using vis [of n] n by simp
  moreover have "(st(n := Visiting)) j = Visiting \<longleftrightarrow> j \<in> fst ` set ((n, edges n) # (i, ns) # stack)" for j
    using vis [of j] by auto
  moreover have "\<forall>(a, b) \<in> edge known edges. (st(n := Visiting)) a = Visited \<longrightarrow> (st(n := Visiting)) b = Visited"
  proof (intro ballI, clarify)
    fix a b
    assume ab: "(a, b) \<in> edge known edges" and "(st(n := Visiting)) a = Visited"
    then have "st a = Visited" by (simp split: if_splits)
    with inv ab have "st b = Visited" unfolding walk_inv_def by blast
    then show "(st(n := Visiting)) b = Visited" by (rule keep)
  qed
  ultimately show ?thesis
    using inv below this_frame fin unfolding walk_inv_def by simp
qed

lemma cycle_walk_out_inv:
  "out_inv out \<Longrightarrow> out_inv (snd (cycle_walk known edges name prefix sev st stack out))"
  by (induction known edges name prefix sev st stack out rule: cycle_walk.induct)
     (auto simp: Let_def fun_upd_def out_inv_report split: mark.splits)

lemma cycle_walk_grows:
  "snd (snd (cycle_walk known edges name prefix sev st stack out)) = [] \<Longrightarrow> out_inv out \<Longrightarrow> snd out = []"
proof (induction known edges name prefix sev st stack out rule: cycle_walk.induct)
  case (3 known edges name prefix sev st i n ns stack out)
  then show ?case
    by (auto simp: Let_def fun_upd_def out_inv_report split: mark.splits if_splits dest: report_silent)
qed (auto simp: fun_upd_def)

lemma cycle_walk_touched:
  "st j \<noteq> Unvisited \<Longrightarrow> fst (cycle_walk known edges name prefix sev st stack out) j \<noteq> Unvisited"
  by (induction known edges name prefix sev st stack out rule: cycle_walk.induct)
     (auto simp: Let_def fun_upd_def split: mark.splits)

lemma walk_silent:
  "walk_inv known edges st stack \<Longrightarrow> out_inv out \<Longrightarrow>
   snd (snd (cycle_walk known edges name prefix sev st stack out)) = [] \<Longrightarrow>
   walk_inv known edges (fst (cycle_walk known edges name prefix sev st stack out)) []"
proof (induction known edges name prefix sev st stack out rule: cycle_walk.induct)
  case (2 known edges name prefix sev st i stack out)
  then show ?case using walk_inv_pop by (simp add: fun_upd_def)
next
  case (3 known edges name prefix sev st i n ns stack out)
  consider (skip) "n \<notin> set known \<or> st n = Visited" | (fresh) "n \<in> set known" "st n = Unvisited"
    | (cyc) "n \<in> set known" "st n = Visiting" by (cases "st n") auto
  then show ?case
  proof cases
    case skip
    have step: "cycle_walk known edges name prefix sev st ((i, n # ns) # stack) out =
        cycle_walk known edges name prefix sev st ((i, ns) # stack) out" using skip by auto
    show ?thesis
      using skip "3.IH"(1) "3.IH"(4) walk_inv_skip [OF "3.prems"(1) skip] "3.prems"(2,3)
      unfolding step by blast
  next
    case fresh
    have step: "cycle_walk known edges name prefix sev st ((i, n # ns) # stack) out =
        cycle_walk known edges name prefix sev (st(n := Visiting)) ((n, edges n) # (i, ns) # stack) out"
      using fresh by simp
    show ?thesis
      using "3.IH"(2) [OF _ fresh(2)] fresh walk_inv_push [OF "3.prems"(1) fresh(2)] "3.prems"(2,3)
      unfolding step fun_upd_def by blast
  next
    case cyc
    let ?cyc = "stack_cycle ((i, ns) # stack) n"
    have "n \<in> fst ` set ((i, n # ns) # stack)"
      using "3.prems"(1) cyc(2) unfolding walk_inv_def by blast
    then have "?cyc \<noteq> []" by (auto simp: stack_cycle_def)
    let ?out = "report_members name (prefix @ join_str '' -> '' (?cyc @ [n])) sev ?cyc out"
    have step: "cycle_walk known edges name prefix sev st ((i, n # ns) # stack) out =
        cycle_walk known edges name prefix sev st ((i, ns) # stack) ?out"
      using cyc \<open>?cyc \<noteq> []\<close> by (simp add: Let_def)
    have "snd ?out = []"
      using cycle_walk_grows [OF "3.prems"(3) [unfolded step] out_inv_report [OF "3.prems"(2)]] .
    with report_silent [OF this "3.prems"(2)] \<open>?cyc \<noteq> []\<close> show ?thesis by simp
  qed
qed simp

lemma walk_inv_root:
  "walk_inv known edges st [] \<Longrightarrow> st r = Unvisited \<Longrightarrow> walk_inv known edges (st(r := Visiting)) [(r, edges r)]"
  by (auto simp: walk_inv_def finished_def split: if_splits elim!: acyclic_subset)

lemma cycle_roots_grows:
  "snd (snd (cycle_roots known edges name prefix sev rs s)) = [] \<Longrightarrow> out_inv (snd s) \<Longrightarrow> snd (snd s) = []"
  by (induction known edges name prefix sev rs s rule: cycle_roots.induct)
     (auto split: if_splits dest: cycle_walk_grows simp: cycle_walk_out_inv)

lemma cycle_roots_silent:
  "walk_inv known edges st [] \<Longrightarrow> out_inv out \<Longrightarrow>
   snd (snd (cycle_roots known edges name prefix sev rs (st, out))) = [] \<Longrightarrow>
   snd out = [] \<and>
   (let st' = fst (cycle_roots known edges name prefix sev rs (st, out)) in
    walk_inv known edges st' [] \<and> (\<forall>r. r \<in> set rs \<or> st r \<noteq> Unvisited \<longrightarrow> st' r = Visited))"
proof (induction known edges name prefix sev rs "(st, out)" arbitrary: st out rule: cycle_roots.induct)
  case (1 known edges name prefix sev st out)
  have "st r = Visited" if "st r \<noteq> Unvisited" for r
    using that 1 by (cases "st r") (auto simp: walk_inv_def)
  with 1 show ?case by (simp add: Let_def)
next
  case (2 known edges name prefix sev r rs st out)
  show ?case
  proof (cases "st r = Unvisited")
    case False
    with 2 show ?thesis by (auto simp: Let_def)
  next
    case True
    let ?w = "cycle_walk known edges name prefix sev (st(r := Visiting)) [(r, edges r)] out"
    obtain st1 out1 where w: "?w = (st1, out1)" by (cases ?w)
    have o1: "out_inv out1" using cycle_walk_out_inv [OF "2.prems"(2), where st = "st(r := Visiting)"] w
      by (metis snd_conv)
    have silent1: "snd (snd (cycle_roots known edges name prefix sev rs (st1, out1))) = []"
      using "2.prems"(3) True w by simp
    show ?thesis
    proof -
      have emp: "snd out1 = []"
        using cycle_roots_grows [OF silent1] o1 by simp
      have i1: "walk_inv known edges st1 []"
        using walk_silent [OF walk_inv_root [OF "2.prems"(1) True] "2.prems"(2), of name prefix sev] w emp by simp
      have touched: "st1 j \<noteq> Unvisited" if "j = r \<or> st j \<noteq> Unvisited" for j
      proof -
        have "(st(r := Visiting)) j \<noteq> Unvisited" using that by auto
        then show ?thesis
          using cycle_walk_touched [of "st(r := Visiting)" j known edges name prefix sev "[(r, edges r)]" out] w
          by simp
      qed
      have "snd out = []" using cycle_walk_grows [of known edges name prefix sev "st(r := Visiting)" "[(r, edges r)]" out] w emp "2.prems"(2) by simp
      with "2.hyps"(2) [OF _ w i1 o1 silent1] True touched w show ?thesis
        by (auto simp: Let_def)
    qed
  qed
qed

section \<open>The rule\<close>

text \<open>The dependency graph: an edge from a claim to every id its declaration lists.\<close>

definition rests_edge :: "claim list \<Rightarrow> (string \<times> string) set" where
  "rests_edge claims = {(a, b). \<exists>c. byID claims a = Some c \<and> b \<in> set (ro_IDs (cl_RestsOn c))}"

abbreviation rests_out :: "claim list \<Rightarrow> string \<Rightarrow> string list" where
  "rests_out claims \<equiv> \<lambda>i. case byID claims i of None \<Rightarrow> [] | Some c \<Rightarrow> ro_IDs (cl_RestsOn c)"

lemma byID_known: "byID claims a = Some c \<Longrightarrow> a \<in> set (known_ids claims)"
  using byID_None [of claims a] by auto

lemma edge_rests:
  "edge (known_ids claims) (rests_out claims) =
     {(a, b) \<in> rests_edge claims. b \<in> set (known_ids claims)}"
proof (intro set_eqI, clarify)
  fix a b
  show "(a, b) \<in> edge (known_ids claims) (rests_out claims) \<longleftrightarrow>
        (a, b) \<in> {(a, b) \<in> rests_edge claims. b \<in> set (known_ids claims)}"
    by (cases "byID claims a") (auto simp: edge_def rests_edge_def dest: byID_known)
qed

lemma rests_cycle_edge:
  "(a, b) \<in> (rests_edge claims)\<^sup>+ \<Longrightarrow> b \<in> set (known_ids claims) \<Longrightarrow>
   (a, b) \<in> (edge (known_ids claims) (rests_out claims))\<^sup>+"
proof (induction rule: trancl_induct)
  case (base b)
  then show ?case by (auto simp: edge_rests)
next
  case (step b c)
  have "b \<in> set (known_ids claims)"
    using step.hyps(2) byID_None [of claims b] by (auto simp: rests_edge_def)
  with step.IH have "(a, b) \<in> (edge (known_ids claims) (rests_out claims))\<^sup>+" by simp
  moreover have "(b, c) \<in> edge (known_ids claims) (rests_out claims)"
    using step.hyps(2) step.prems by (auto simp: edge_rests)
  ultimately show ?case by (rule trancl_into_trancl)
qed

lemma rests_cycle_known: "(a, b) \<in> (rests_edge claims)\<^sup>+ \<Longrightarrow> a \<in> set (known_ids claims)"
  by (induction rule: converse_trancl_induct) (auto simp: rests_edge_def dest: byID_known)

lemma cycle_iff:
  "(a, a) \<in> (rests_edge claims)\<^sup>+ \<longleftrightarrow> (a, a) \<in> (edge (known_ids claims) (rests_out claims))\<^sup>+"
proof
  assume "(a, a) \<in> (rests_edge claims)\<^sup>+"
  then show "(a, a) \<in> (edge (known_ids claims) (rests_out claims))\<^sup>+"
    using rests_cycle_edge rests_cycle_known by blast
next
  assume "(a, a) \<in> (edge (known_ids claims) (rests_out claims))\<^sup>+"
  then show "(a, a) \<in> (rests_edge claims)\<^sup>+"
    by (rule trancl_mono) (auto simp: edge_rests)
qed

lemma CycleLint_eq:
  "CycleLint claims cfg =
     snd (snd (cycle_roots (known_ids claims) (rests_out claims) ''cycle'' ''rests_on cycle detected: '' []
                (known_ids claims) (\<lambda>_. Unvisited, [], [])))"
  by (simp add: CycleLint_def findEdgeCycles_def Let_def)

lemma cycle_roots_sound:
  "set rs \<subseteq> set known \<Longrightarrow> on_cycle known edges (snd (snd s)) \<Longrightarrow>
   on_cycle known edges (snd (snd (cycle_roots known edges name prefix sev rs s)))"
proof (induction known edges name prefix sev rs s rule: cycle_roots.induct)
  case (2 known edges name prefix sev r rs st out)
  have "frames_sound known edges [(r, edges r)]" using "2.prems"(1) by (simp add: frames_sound_def)
  with 2 show ?case by (auto intro!: cycle_walk_sound)
qed simp

lemma walk_inv_start: "walk_inv known edges (\<lambda>_. Unvisited) []"
  by (simp add: walk_inv_def finished_def acyclic_def)

lemma CycleLint_silent:
  assumes "CycleLint claims cfg = []"
  shows "acyclic (rests_edge claims)"
proof -
  let ?K = "known_ids claims" and ?E = "rests_out claims"
  let ?s = "cycle_roots ?K ?E ''cycle'' ''rests_on cycle detected: '' [] ?K (\<lambda>_. Unvisited, [], [])"
  have "walk_inv ?K ?E (fst ?s) [] \<and> (\<forall>r \<in> set ?K. fst ?s r = Visited)"
    using cycle_roots_silent [OF walk_inv_start, of "([], [])" ?K ?E "''cycle''" "''rests_on cycle detected: ''" "[]" ?K]
      assms by (simp add: CycleLint_eq out_inv_def Let_def)
  then have "acyclic (edge ?K ?E)"
    by (auto simp: walk_inv_def finished_def edge_def elim!: acyclic_subset)
  then show ?thesis by (simp add: acyclic_def cycle_iff)
qed

lemma CycleLint_sound:
  "f \<in> set (CycleLint claims cfg) \<Longrightarrow> (lf_ClaimID f, lf_ClaimID f) \<in> (rests_edge claims)\<^sup>+"
  using cycle_roots_sound [of "known_ids claims" "known_ids claims" "rests_out claims" "(\<lambda>_. Unvisited, [], [])"]
  by (simp add: CycleLint_eq cycle_iff on_cycle_def)

lemma CycleLint_silent_iff: "CycleLint claims cfg = [] \<longleftrightarrow> acyclic (rests_edge claims)"
  using CycleLint_sound [of _ claims cfg] CycleLint_silent [of claims cfg]
  by (cases "CycleLint claims cfg") (auto simp: acyclic_def)

text \<open>
  C37: The cycle rule reports only claims that rest on themselves through some chain of dependencies,
  and it reports nothing exactly when no claim does.
\<close>

theorem CycleLint_spec:
  "(\<forall>f \<in> set (CycleLint claims cfg). (lf_ClaimID f, lf_ClaimID f) \<in> (rests_edge claims)\<^sup>+) \<and>
   (CycleLint claims cfg = [] \<longleftrightarrow> acyclic (rests_edge claims))"
  by (simp add: CycleLint_sound CycleLint_silent_iff)

definition linked :: "string \<Rightarrow> string list \<Rightarrow> claim" where
  "linked i deps = zero_claim\<lparr>cl_ID := i, cl_RestsOn := zero_rests_on\<lparr>ro_IDs := deps\<rparr>\<rparr>"

theorem CycleLint_spec_witness:
  "CycleLint [linked ''a'' [''b''], linked ''b'' []] None = [] \<and>
   acyclic (rests_edge [linked ''a'' [''b''], linked ''b'' []])"
proof -
  have "CycleLint [linked ''a'' [''b''], linked ''b'' []] None = []" by code_simp
  with CycleLint_spec [of "[linked ''a'' [''b''], linked ''b'' []]" None] show ?thesis by simp
qed

text \<open>
  The rule does not report every claim on a cycle, as its comment says it does: in the project
  where a rests on b and c, b on a and c on b, the claim c is on a cycle and no finding names it.
\<close>

theorem CycleLint_misses_member:
  "(let claims = [linked ''a'' [''b'', ''c''], linked ''b'' [''a''], linked ''c'' [''b'']] in
    map lf_ClaimID (CycleLint claims None) = [''a'', ''b''] \<and> (''c'', ''c'') \<in> (rests_edge claims)\<^sup>+)"
proof -
  let ?claims = "[linked ''a'' [''b'', ''c''], linked ''b'' [''a''], linked ''c'' [''b'']]"
  have "(''c'', ''b'') \<in> rests_edge ?claims" "(''b'', ''a'') \<in> rests_edge ?claims" "(''a'', ''c'') \<in> rests_edge ?claims"
    by (auto simp: rests_edge_def byID_def linked_def)
  then have "(''c'', ''c'') \<in> (rests_edge ?claims)\<^sup>+" by (meson r_into_trancl' trancl_into_trancl)
  moreover have "map lf_ClaimID (CycleLint ?claims None) = [''a'', ''b'']" by code_simp
  ultimately show ?thesis by (simp add: Let_def)
qed

section \<open>The structural rules together\<close>

definition structure_rules :: "lint_rule list" where
  "structure_rules =
     [AmbiguousLint, CycleLint, DanglingLint, KindShapeLint, RestsOnRequiredLint, RestsOnTargetLint,
      SelfEdgeLint, statusShapeLint]"

definition declares :: "claim \<Rightarrow> bool" where
  "declares c \<longleftrightarrow>
     (if ro_None (cl_RestsOn c) then \<not> blank (ro_Reason (cl_RestsOn c)) else ro_IDs (cl_RestsOn c) \<noteq> [])"

definition may_rest_on :: "claim \<Rightarrow> claim \<Rightarrow> bool" where
  "may_rest_on c dep \<longleftrightarrow> \<not> internalsTarget dep \<or> sameModule c dep"

lemma RunAll_silent: "RunAll registry claims cfg = [] \<longleftrightarrow> (\<forall>check \<in> set registry. check claims cfg = [])"
  by (simp add: RunAll_def)

lemma RunAll_severity: "f \<in> set (RunAll registry claims cfg) \<Longrightarrow> lf_Severity f \<noteq> []"
  by (auto simp: RunAll_def SeverityError_def)

lemma count_list_distinct: "distinct xs \<longleftrightarrow> (\<forall>x \<in> set xs. \<not> count_list xs x > 1)"
proof (induction xs)
  case (Cons a xs)
  show ?case
  proof (cases "a \<in> set xs")
    case True
    then have "count_list xs a > 0" using count_list_0_iff [of xs a] by auto
    then have "count_list (a # xs) a > 1" by simp
    with True show ?thesis by (metis distinct.simps(2) list.set_intros(1))
  next
    case False
    then have "count_list xs a = 0" by (simp add: count_list_0_iff)
    moreover have "count_list (a # xs) x = count_list xs x" if "x \<in> set xs" for x
      using that False by auto
    ultimately show ?thesis using Cons.IH False by (metis (no_types, lifting) count_list.simps(2)
        distinct.simps(2) less_numeral_extra(4) plus_1_eq_Suc set_ConsD list.set_intros(2) add.commute One_nat_def)
  qed
qed simp

lemma concat_map_Nil: "concat (map f xs) = [] \<longleftrightarrow> (\<forall>x \<in> set xs. f x = [])"
  by simp

lemma AmbiguousLint_silent: "AmbiguousLint claims cfg = [] \<longleftrightarrow> distinct (known_ids claims)"
proof -
  have "AmbiguousLint claims cfg = [] \<longleftrightarrow> (\<forall>c \<in> set claims. \<not> count_list (known_ids claims) (cl_ID c) > 1)"
    unfolding AmbiguousLint_def concat_map_Nil by simp
  also have "\<dots> \<longleftrightarrow> (\<forall>i \<in> set (known_ids claims). \<not> count_list (known_ids claims) i > 1)"
    by (simp only: known_ids_def list.set_map ball_simps)
  finally show ?thesis by (simp only: count_list_distinct)
qed

lemma DanglingLint_silent:
  "DanglingLint claims cfg = [] \<longleftrightarrow>
   (\<forall>c \<in> set claims. \<forall>t \<in> set (ro_IDs (cl_RestsOn c)). t \<in> set (known_ids claims))"
  by (auto simp: DanglingLint_def)

lemma RestsOnRequired_silent: "RestsOnRequiredLint claims cfg = [] \<longleftrightarrow> (\<forall>c \<in> set claims. declares c)"
  by (auto simp: RestsOnRequiredLint_def declares_def RestsOn_Empty_def)

lemma RestsOnTarget_silent:
  "RestsOnTargetLint claims cfg = [] \<longleftrightarrow>
   (\<forall>c \<in> set claims. \<forall>t \<in> set (ro_IDs (cl_RestsOn c)). \<forall>dep. byID claims t = Some dep \<longrightarrow> may_rest_on c dep)"
  by (auto simp: RestsOnTargetLint_def may_rest_on_def split: option.splits if_splits)

lemma SelfEdge_silent:
  "distinct (known_ids claims) \<Longrightarrow> acyclic (rests_edge claims) \<Longrightarrow> SelfEdgeLint claims cfg = []"
  by (auto simp: SelfEdgeLint_def acyclic_def rests_edge_def byID_distinct intro!: r_into_trancl' split: if_splits)

text \<open>
  C38: The structural rules report nothing exactly when the ids are distinct, every dependency names a
  claim of the project, no claim rests on itself through a chain, every claim declares its
  dependencies or why it has none, none rests on a foreign module's internals, and kinds and
  statuses are legal. The rule against self edges adds nothing to the others.
\<close>

theorem structure_silent_iff:
  "RunAll structure_rules claims cfg = [] \<longleftrightarrow>
     distinct (known_ids claims) \<and> acyclic (rests_edge claims) \<and>
     (\<forall>c \<in> set claims.
        declares c \<and> (cl_Kind c = [] \<or> cl_Kind c = KindFact) \<and>
        (cl_Status c = StatusDraft \<or> cl_Status c = StatusLocked) \<and>
        (\<forall>t \<in> set (ro_IDs (cl_RestsOn c)). \<exists>dep \<in> set claims. cl_ID dep = t \<and> may_rest_on c dep))"
proof -
  have kind: "KindShapeLint claims cfg = [] \<longleftrightarrow> (\<forall>c \<in> set claims. cl_Kind c = [] \<or> cl_Kind c = KindFact)"
    unfolding KindShapeLint_def concat_map_Nil by simp
  have status: "statusShapeLint claims cfg = [] \<longleftrightarrow>
      (\<forall>c \<in> set claims. cl_Status c = StatusDraft \<or> cl_Status c = StatusLocked)"
  proof -
    have "[] \<noteq> StatusDraft" "[] \<noteq> StatusLocked" by (simp_all add: StatusDraft_def StatusLocked_def)
    then show ?thesis unfolding statusShapeLint_def concat_map_Nil by (intro ball_cong refl) simp
  qed
  have one: "t \<in> set (known_ids claims) \<and> (\<forall>dep. byID claims t = Some dep \<longrightarrow> P dep) \<longleftrightarrow>
      (\<exists>dep \<in> set claims. cl_ID dep = t \<and> P dep)" if "distinct (known_ids claims)" for t P
  proof (cases "byID claims t")
    case None
    then have "t \<notin> set (known_ids claims)" by (simp add: byID_None)
    then show ?thesis by (auto simp: known_ids_def)
  next
    case (Some a)
    then have "t \<in> set (known_ids claims)" by (rule byID_known)
    moreover have "dep = a" if "dep \<in> set claims" "cl_ID dep = t" for dep
      using that Some byID_distinct [OF \<open>distinct (known_ids claims)\<close>, of t dep] by simp
    ultimately show ?thesis using Some byID_SomeD [OF Some] by auto
  qed
  have deps: "DanglingLint claims cfg = [] \<and> RestsOnTargetLint claims cfg = [] \<longleftrightarrow>
      (\<forall>c \<in> set claims. \<forall>t \<in> set (ro_IDs (cl_RestsOn c)). \<exists>dep \<in> set claims. cl_ID dep = t \<and> may_rest_on c dep)"
    if "distinct (known_ids claims)"
    unfolding DanglingLint_silent RestsOnTarget_silent one [OF that, symmetric] by blast
  have "RunAll structure_rules claims cfg = [] \<longleftrightarrow>
      distinct (known_ids claims) \<and> acyclic (rests_edge claims) \<and>
      (DanglingLint claims cfg = [] \<and> RestsOnTargetLint claims cfg = []) \<and>
      (\<forall>c \<in> set claims. declares c) \<and> (\<forall>c \<in> set claims. cl_Kind c = [] \<or> cl_Kind c = KindFact) \<and>
      (\<forall>c \<in> set claims. cl_Status c = StatusDraft \<or> cl_Status c = StatusLocked)"
  proof -
    have "RunAll structure_rules claims cfg = [] \<longleftrightarrow>
        AmbiguousLint claims cfg = [] \<and> CycleLint claims cfg = [] \<and> DanglingLint claims cfg = [] \<and>
        KindShapeLint claims cfg = [] \<and> RestsOnRequiredLint claims cfg = [] \<and>
        RestsOnTargetLint claims cfg = [] \<and> SelfEdgeLint claims cfg = [] \<and> statusShapeLint claims cfg = []"
      by (simp add: RunAll_silent structure_rules_def)
    then show ?thesis
      unfolding AmbiguousLint_silent CycleLint_silent_iff RestsOnRequired_silent kind status
      using SelfEdge_silent [of claims cfg] by blast
  qed
  then show ?thesis using deps by blast
qed

theorem structure_silent_iff_witness:
  "RunAll structure_rules [linked ''a'' [''b'']] None \<noteq> [] \<and>
   (let root = (linked ''b'' [])\<lparr>cl_Status := StatusLocked,
                 cl_RestsOn := \<lparr>ro_None = True, ro_Reason = ''axiom'', ro_IDs = []\<rparr>\<rparr>;
        leaf = (linked ''a'' [''b''])\<lparr>cl_Status := StatusDraft\<rparr>
    in RunAll structure_rules [leaf, root] None = [] \<and> acyclic (rests_edge [leaf, root]))"
proof -
  let ?root = "(linked ''b'' [])\<lparr>cl_Status := StatusLocked,
                 cl_RestsOn := \<lparr>ro_None = True, ro_Reason = ''axiom'', ro_IDs = []\<rparr>\<rparr>"
  let ?leaf = "(linked ''a'' [''b''])\<lparr>cl_Status := StatusDraft\<rparr>"
  have "RunAll structure_rules [?leaf, ?root] None = []" by code_simp
  then have "RunAll structure_rules [?leaf, ?root] None = [] \<and> acyclic (rests_edge [?leaf, ?root])"
    using structure_silent_iff [of "[?leaf, ?root]" None] by blast
  moreover have "RunAll structure_rules [linked ''a'' [''b'']] None \<noteq> []" by code_simp
  ultimately show ?thesis by (simp add: Let_def)
qed

end
