(* ===== verification/Policy.thy ===== *)
theory Policy
  imports Ledger Cycle_Lint
begin

text \<open>
  The approval policy (\<^verbatim>\<open>internal/lock/policy.go\<close>): one evaluator for a single claim and for a group,
  over the candidate state in which every requested claim is already locked. The lint registry is an
  argument, as it is a variable of the code; a nil store is None, a store comes with the directory it
  reads the digest store from.
\<close>

section \<open>Verdicts\<close>

record dependency_condition =
  dc_DependencyID :: string
  dc_Kind :: string
  dc_Path :: "string list"
  dc_Detail :: string

record candidate_verdict =
  cv_ClaimID :: string
  cv_LocalAdmissible :: bool
  cv_Refusals :: "string list"
  cv_Conditions :: "dependency_condition list"
  cv_OpenThreads :: "string list"
  cv_LintFindings :: "lint_finding list"

record set_evaluation =
  se_RequestedIDs :: "string list"
  se_PolicyVersion :: int
  se_Verdicts :: "candidate_verdict list"
  se_UnrelatedFindings :: "lint_finding list"

record semantic_conflict =
  sc_ClaimID :: string
  sc_DependencyID :: string
  sc_Detail :: string

definition Allowed :: "set_evaluation \<Rightarrow> bool" where
  "Allowed e \<longleftrightarrow> list_all cv_LocalAdmissible (se_Verdicts e)"

fun uniqueStrings_loop :: "string list \<Rightarrow> string list \<Rightarrow> string list" where
  "uniqueStrings_loop seen [] = []"
| "uniqueStrings_loop seen (v # vs) =
     (if v = [] \<or> v \<in> set seen then uniqueStrings_loop seen vs
      else v # uniqueStrings_loop (v # seen) vs)"

definition uniqueStrings :: "string list \<Rightarrow> string list" where
  "uniqueStrings = uniqueStrings_loop []"

definition uniqueIDs :: "string list \<Rightarrow> string list" where
  "uniqueIDs ids = sort (uniqueStrings ids)"

lemma uniqueStrings_loop_set: "set (uniqueStrings_loop seen vs) = set vs - set seen - {[]}"
  by (induction seen vs rule: uniqueStrings_loop.induct) auto

lemma uniqueStrings_loop_distinct: "distinct (uniqueStrings_loop seen vs)"
  by (induction seen vs rule: uniqueStrings_loop.induct) (auto simp: uniqueStrings_loop_set)

lemma set_uniqueStrings [simp]: "set (uniqueStrings vs) = set vs - {[]}"
  by (simp add: uniqueStrings_def uniqueStrings_loop_set)

lemma distinct_uniqueStrings [simp]: "distinct (uniqueStrings vs)"
  by (simp add: uniqueStrings_def uniqueStrings_loop_distinct)

lemma set_uniqueIDs [simp]: "set (uniqueIDs ids) = set ids - {[]}"
  by (simp add: uniqueIDs_def)

lemma distinct_uniqueIDs [simp]: "distinct (uniqueIDs ids)"
  by (simp add: uniqueIDs_def)

lemma uniqueIDs_cong: "set ids - {[]} = set ids' - {[]} \<Longrightarrow> uniqueIDs ids = uniqueIDs ids'"
  by (rule sorted_distinct_set_unique) (simp_all add: uniqueIDs_def)

definition ModuleManifestLintName :: string where
  "ModuleManifestLintName = ''module-manifest''"

definition findingAffects :: "lint_finding \<Rightarrow> string \<Rightarrow> string \<Rightarrow> bool" where
  "findingAffects f i module \<longleftrightarrow>
     (if lf_LintName f = ModuleManifestLintName then lf_ClaimID f = [] \<or> lf_ClaimID f = module
      else lf_ClaimID f = i \<or> contains_str (lf_Message f) i)"

definition candidateLocked :: "string \<Rightarrow> claim list \<Rightarrow> bool" where
  "candidateLocked i claims =
     (case findByID claims i of None \<Rightarrow> False | Some c \<Rightarrow> cl_Status c = StatusLocked)"

section \<open>The search for a cycle through the candidate\<close>

text \<open>
  The recursive closure of the code as a list of the visits still to make: a visit that returns
  false continues with the next one, a visit that returns true ends the search.
\<close>

function rest_visit :: "claim list \<Rightarrow> string \<Rightarrow> string list \<Rightarrow> string list \<Rightarrow> bool" where
  "rest_visit claims root seen [] = False"
| "rest_visit claims root seen (i # todo) =
     (if i = root then True
      else if i \<in> set seen then rest_visit claims root seen todo
      else (case byID claims i of
              None \<Rightarrow> rest_visit claims root (i # seen) todo
            | Some c \<Rightarrow> rest_visit claims root (i # seen) (ro_IDs (cl_RestsOn c) @ todo)))"
  by pat_completeness auto

lemma unseen_less:
  "byID claims i = Some c \<Longrightarrow> i \<notin> set seen \<Longrightarrow>
   card (set (known_ids claims) - set (i # seen)) < card (set (known_ids claims) - set seen)"
  by (rule psubset_card_mono) (auto dest: byID_known)

lemma unseen_mono: "card (set (known_ids claims) - set (i # seen)) \<le> card (set (known_ids claims) - set seen)"
  by (rule card_mono) auto

termination rest_visit
proof (relation "measures [\<lambda>(claims, root, seen, todo). card (set (known_ids claims) - set seen),
                           \<lambda>(claims, root, seen, todo). length todo]")
  fix claims :: "claim list" and root i :: string and seen todo
  show "((claims, root, i # seen, todo), (claims, root, seen, i # todo)) \<in>
    measures [\<lambda>(claims, root, seen, todo). card (set (known_ids claims) - set seen),
              \<lambda>(claims, root, seen, todo). length todo]"
    using unseen_mono [of claims i seen] by auto
next
  fix claims :: "claim list" and root i :: string and seen todo c
  assume "i \<notin> set seen" "byID claims i = Some c"
  then show "((claims, root, i # seen, ro_IDs (cl_RestsOn c) @ todo), (claims, root, seen, i # todo)) \<in>
    measures [\<lambda>(claims, root, seen, todo). card (set (known_ids claims) - set seen),
              \<lambda>(claims, root, seen, todo). length todo]"
    using unseen_less by auto
qed auto

definition restCycleFrom :: "string \<Rightarrow> string \<Rightarrow> claim list \<Rightarrow> bool" where
  "restCycleFrom root nxt claims = rest_visit claims root [] [nxt]"

lemma rtrancl_last_visit:
  "(t, r) \<in> R\<^sup>* \<Longrightarrow> i \<noteq> r \<Longrightarrow>
   (t, r) \<in> (R - {i} \<times> UNIV)\<^sup>* \<or> (\<exists>d. (i, d) \<in> R \<and> (d, r) \<in> (R - {i} \<times> UNIV)\<^sup>*)"
proof (induction rule: converse_rtrancl_induct)
  case (step t t')
  then show ?case
    by (cases "t = i") (auto intro: converse_rtrancl_into_rtrancl)
qed simp

lemma rest_visit_iff:
  "root \<notin> set seen \<Longrightarrow>
   rest_visit claims root seen todo \<longleftrightarrow>
   (\<exists>t \<in> set todo. (t, root) \<in> (rests_edge claims - set seen \<times> UNIV)\<^sup>*)"
proof (induction claims root seen todo rule: rest_visit.induct)
  case (2 claims root seen i todo)
  let ?R = "rests_edge claims - set seen \<times> UNIV"
  let ?R' = "rests_edge claims - set (i # seen) \<times> UNIV"
  have R': "?R' = ?R - {i} \<times> UNIV" by auto
  have sub: "?R'\<^sup>* \<subseteq> ?R\<^sup>*" by (rule rtrancl_mono) auto
  consider (hit) "i = root" | (seen) "i \<noteq> root" "i \<in> set seen"
    | (none) "i \<noteq> root" "i \<notin> set seen" "byID claims i = None"
    | (some) c where "i \<noteq> root" "i \<notin> set seen" "byID claims i = Some c" by (cases "byID claims i") auto
  then show ?case
  proof cases
    case hit
    then show ?thesis by auto
  next
    case seen
    have "(i, y) \<notin> ?R" for y using seen by simp
    then have "(i, root) \<notin> ?R\<^sup>*" using seen(1) by (metis converse_rtranclE)
    with seen 2 show ?thesis by simp
  next
    case none
    have "(i, y) \<notin> ?R" for y using none by (simp add: rests_edge_def)
    then have "(i, root) \<notin> ?R\<^sup>*" using none(1) by (metis converse_rtranclE)
    moreover have "?R' = ?R" using none by (auto simp: rests_edge_def)
    ultimately show ?thesis using none "2.IH"(2) "2.prems" by simp
  next
    case some
    let ?S = "ro_IDs (cl_RestsOn c)"
    have succ: "(i, d) \<in> ?R \<longleftrightarrow> d \<in> set ?S" for d using some by (auto simp: rests_edge_def)
    have "(\<exists>t \<in> set (?S @ todo). (t, root) \<in> ?R'\<^sup>*) \<longleftrightarrow> (\<exists>t \<in> set (i # todo). (t, root) \<in> ?R\<^sup>*)"
    proof
      assume "\<exists>t \<in> set (?S @ todo). (t, root) \<in> ?R'\<^sup>*"
      then obtain t where t: "t \<in> set ?S \<or> t \<in> set todo" "(t, root) \<in> ?R\<^sup>*" using sub by auto
      then show "\<exists>t \<in> set (i # todo). (t, root) \<in> ?R\<^sup>*"
        using succ [of t] by (auto intro: converse_rtrancl_into_rtrancl)
    next
      assume "\<exists>t \<in> set (i # todo). (t, root) \<in> ?R\<^sup>*"
      then obtain t where t: "t = i \<or> t \<in> set todo" "(t, root) \<in> ?R\<^sup>*" by auto
      have "(i, y) \<notin> ?R'" for y by simp
      then have "(i, root) \<notin> ?R'\<^sup>*" using some(1) by (metis converse_rtranclE)
      with rtrancl_last_visit [OF t(2) some(1)] t(1) succ
      show "\<exists>t \<in> set (?S @ todo). (t, root) \<in> ?R'\<^sup>*" unfolding R' by auto
    qed
    with some 2 show ?thesis by simp
  qed
qed simp

lemma restCycleFrom_iff: "restCycleFrom root nxt claims \<longleftrightarrow> (nxt, root) \<in> (rests_edge claims)\<^sup>*"
  by (simp add: restCycleFrom_def rest_visit_iff del: rest_visit.simps)

section \<open>The evaluation of one candidate\<close>

definition refuse :: "string \<Rightarrow> candidate_verdict \<Rightarrow> candidate_verdict" where
  "refuse r v = v\<lparr>cv_LocalAdmissible := False, cv_Refusals := cv_Refusals v @ [r]\<rparr>"

definition candidate_claims :: "string list \<Rightarrow> claim list \<Rightarrow> claim list" where
  "candidate_claims ids claims =
     map (\<lambda>c. if cl_ID c \<in> set ids then c\<lparr>cl_Status := StatusLocked, cl_ReviewPending := False\<rparr> else c) claims"

definition store_refusals :: "(store \<times> disk) option \<Rightarrow> claim \<Rightarrow> string \<Rightarrow> candidate_verdict \<Rightarrow> candidate_verdict" where
  "store_refusals st c i v =
     (case st of None \<Rightarrow> v
      | Some (s, dk) \<Rightarrow>
          (let v1 = (case st_Record s i of None \<Rightarrow> v
                     | Some rec \<Rightarrow> if \<not> Released rec then refuse ''standing_ledger_record'' v else v);
               v2 = (if LedgerRecordDeleted s dk c then refuse ''ledger_record_deleted'' v1 else v1)
           in if commentDigestUnrecorded s dk c then refuse ''comment_digest_unrecorded'' v2 else v2))"

definition conflict_refusal :: "semantic_conflict \<Rightarrow> string" where
  "conflict_refusal k =
     ''semantic_contradiction_requires_human_review'' @
     (if sc_DependencyID k \<noteq> [] then CHR '':'' # sc_DependencyID k else []) @
     (if sc_Detail k \<noteq> [] then CHR '':'' # sc_Detail k else [])"

definition conflict_step :: "string \<Rightarrow> semantic_conflict \<Rightarrow> candidate_verdict \<Rightarrow> candidate_verdict" where
  "conflict_step i k v = (if sc_ClaimID k \<noteq> i then v else refuse (conflict_refusal k) v)"

definition blocks :: "string \<Rightarrow> string \<Rightarrow> lint_finding \<Rightarrow> bool" where
  "blocks i module f \<longleftrightarrow>
     \<not> (lf_Severity f = SeverityWarning \<and> \<not> (lf_LintName f = ''roll-up'' \<and> lf_ClaimID f = i)) \<and>
     findingAffects f i module"

definition finding_step :: "string \<Rightarrow> string \<Rightarrow> lint_finding \<Rightarrow> candidate_verdict \<Rightarrow> candidate_verdict" where
  "finding_step i module f v =
     (if blocks i module f
      then (refuse (''lint:'' @ lf_LintName f) v)\<lparr>cv_LintFindings := cv_LintFindings v @ [f]\<rparr>
      else v)"

definition normal_status :: "string \<Rightarrow> string" where
  "normal_status st = to_lower (trim_space st)"

definition dep_step :: "claim list \<Rightarrow> claim list \<Rightarrow> string \<Rightarrow> string \<Rightarrow> candidate_verdict \<Rightarrow> candidate_verdict" where
  "dep_step claims candidate i d v =
     (case byID claims d of
        None \<Rightarrow> refuse (''missing_dependency:'' @ d) v
      | Some dep \<Rightarrow>
          if restCycleFrom i d claims then refuse (''dependency_cycle:'' @ d) v
          else if normal_status (cl_Status dep) = ''retired'' then refuse (''retired_dependency:'' @ d) v
          else if \<not> (normal_status (cl_Status dep) = [] \<or> normal_status (cl_Status dep) = StatusDraft \<or>
                     normal_status (cl_Status dep) = StatusLocked)
          then refuse (''unreadable_dependency:'' @ d) v
          else if \<not> candidateLocked d candidate
          then v\<lparr>cv_Conditions := cv_Conditions v @
                 [\<lparr>dc_DependencyID = d, dc_Kind = ''dependency_unapproved'', dc_Path = [i, d],
                   dc_Detail = ''approved locally against a readable dependency that is not approved''\<rparr>]\<rparr>
          else v)"

definition new_verdict :: "string \<Rightarrow> candidate_verdict" where
  "new_verdict i =
     \<lparr>cv_ClaimID = i, cv_LocalAdmissible = True, cv_Refusals = [], cv_Conditions = [],
      cv_OpenThreads = [], cv_LintFindings = []\<rparr>"

definition evaluate_candidate ::
  "claim list \<Rightarrow> claim list \<Rightarrow> lint_finding list \<Rightarrow> (store \<times> disk) option \<Rightarrow> semantic_conflict list \<Rightarrow> string \<Rightarrow> candidate_verdict" where
  "evaluate_candidate claims candidate allFindings st conflicts i =
     (case byID claims i of
        None \<Rightarrow> refuse ''claim_not_found'' (new_verdict i)
      | Some c \<Rightarrow>
          (let v1 = (if cl_Status c = StatusLocked then refuse ''already_locked'' (new_verdict i) else new_verdict i);
               v2 = store_refusals st c i v1;
               v3 = (if length (OpenThreadIDs c) > 0
                     then (refuse ''unresolved_comments'' v2)\<lparr>cv_OpenThreads := OpenThreadIDs c\<rparr> else v2);
               v4 = fold (conflict_step i) conflicts v3;
               v5 = fold (finding_step i (cl_Module c)) allFindings v4;
               v6 = fold (dep_step claims candidate i) (ro_IDs (cl_RestsOn c)) v5
           in v6\<lparr>cv_Refusals := uniqueStrings (cv_Refusals v6)\<rparr>))"

definition module_of :: "claim list \<Rightarrow> string \<Rightarrow> string" where
  "module_of claims i = (case byID claims i of None \<Rightarrow> [] | Some c \<Rightarrow> cl_Module c)"

definition EvaluateSetWithSemanticConflicts ::
  "lint_rule list \<Rightarrow> claim list \<Rightarrow> string list \<Rightarrow> lint_config option \<Rightarrow> (store \<times> disk) option \<Rightarrow> semantic_conflict list \<Rightarrow> set_evaluation" where
  "EvaluateSetWithSemanticConflicts registry claims requestedIDs cfg st conflicts =
     (let ids = uniqueIDs requestedIDs;
          candidate = candidate_claims ids claims;
          allFindings = RunAll registry candidate cfg
      in \<lparr>se_RequestedIDs = ids, se_PolicyVersion = PolicyLocalApprovalV1,
          se_Verdicts = map (evaluate_candidate claims candidate allFindings st conflicts) ids,
          se_UnrelatedFindings =
            filter (\<lambda>f. lf_Severity f \<noteq> SeverityWarning \<and>
                        \<not> list_ex (\<lambda>i. findingAffects f i (module_of claims i)) ids) allFindings\<rparr>)"

definition EvaluateSet ::
  "lint_rule list \<Rightarrow> claim list \<Rightarrow> string list \<Rightarrow> lint_config option \<Rightarrow> (store \<times> disk) option \<Rightarrow> set_evaluation" where
  "EvaluateSet registry claims requestedIDs cfg st =
     EvaluateSetWithSemanticConflicts registry claims requestedIDs cfg st []"

text \<open>\<^verbatim>\<open>CandidateVerdict.Error\<close>: nothing, or the message.\<close>

definition verdict_Error :: "candidate_verdict \<Rightarrow> string option" where
  "verdict_Error v =
     (if cv_LocalAdmissible v then None
      else Some (''lock: candidate '' @ go_quote (cv_ClaimID v) @ '' refused: '' @ join_str '', '' (cv_Refusals v)))"

section \<open>What a verdict means\<close>

text \<open>A verdict is coherent when it is admissible exactly if it carries no refusal.\<close>

definition coherent :: "candidate_verdict \<Rightarrow> bool" where
  "coherent v \<longleftrightarrow> cv_LocalAdmissible v = (cv_Refusals v = []) \<and> [] \<notin> set (cv_Refusals v)"

lemma coherent_new [simp]: "coherent (new_verdict i)"
  by (simp add: coherent_def new_verdict_def)

lemma coherent_refuse [simp]: "r \<noteq> [] \<Longrightarrow> coherent v \<Longrightarrow> coherent (refuse r v)"
  by (auto simp: coherent_def refuse_def)

lemma coherent_update [simp]:
  "coherent (v\<lparr>cv_OpenThreads := ts\<rparr>) = coherent v" "coherent (v\<lparr>cv_LintFindings := fs\<rparr>) = coherent v"
  "coherent (v\<lparr>cv_Conditions := ks\<rparr>) = coherent v"
  by (simp_all add: coherent_def)

lemma refuse_admissible [simp]: "\<not> cv_LocalAdmissible (refuse r v)"
  by (simp add: refuse_def)

lemma coherent_store_refusals [simp]: "coherent v \<Longrightarrow> coherent (store_refusals st c i v)"
  by (auto simp: store_refusals_def Let_def split: option.splits)

lemma coherent_fold: "coherent v \<Longrightarrow> (\<And>x w. coherent w \<Longrightarrow> coherent (f x w)) \<Longrightarrow> coherent (fold f xs v)"
  by (induction xs arbitrary: v) auto

lemma coherent_conflict_step [simp]: "coherent v \<Longrightarrow> coherent (conflict_step i k v)"
  by (simp add: conflict_step_def conflict_refusal_def)

lemma coherent_finding_step [simp]: "coherent v \<Longrightarrow> coherent (finding_step i m f v)"
  by (simp add: finding_step_def)

lemma coherent_dep_step [simp]: "coherent v \<Longrightarrow> coherent (dep_step claims candidate i d v)"
  by (auto simp: dep_step_def split: option.splits)

lemma uniqueStrings_Nil: "[] \<notin> set xs \<Longrightarrow> uniqueStrings xs = [] \<longleftrightarrow> xs = []"
  by (metis Diff_empty Diff_insert0 list.set(1) set_empty set_uniqueStrings)

lemma coherent_evaluate: "coherent (evaluate_candidate claims candidate fs st ks i)"
proof (cases "byID claims i")
  case None
  then show ?thesis by (simp add: evaluate_candidate_def)
next
  case (Some c)
  have unique: "coherent v \<Longrightarrow> coherent (v\<lparr>cv_Refusals := uniqueStrings (cv_Refusals v)\<rparr>)" for v
    by (auto simp: coherent_def uniqueStrings_Nil)
  show ?thesis
    by (auto simp: evaluate_candidate_def Some Let_def intro!: unique coherent_fold)
qed

definition store_clear :: "(store \<times> disk) option \<Rightarrow> claim \<Rightarrow> string \<Rightarrow> bool" where
  "store_clear st c i \<longleftrightarrow>
     (case st of None \<Rightarrow> True
      | Some (s, dk) \<Rightarrow>
          (case st_Record s i of None \<Rightarrow> True | Some rec \<Rightarrow> Released rec) \<and>
          \<not> LedgerRecordDeleted s dk c \<and> \<not> commentDigestUnrecorded s dk c)"

definition readable :: "claim \<Rightarrow> bool" where
  "readable dep \<longleftrightarrow> normal_status (cl_Status dep) \<in> {[], StatusDraft, StatusLocked}"

lemma store_refusals_admissible:
  "cv_LocalAdmissible (store_refusals st c i v) \<longleftrightarrow> cv_LocalAdmissible v \<and> store_clear st c i"
  by (auto simp: store_refusals_def store_clear_def Let_def split: option.splits)

lemma fold_admissible:
  "(\<And>x w. cv_LocalAdmissible (f x w) \<longleftrightarrow> cv_LocalAdmissible w \<and> ok x) \<Longrightarrow>
   cv_LocalAdmissible (fold f xs v) \<longleftrightarrow> cv_LocalAdmissible v \<and> (\<forall>x \<in> set xs. ok x)"
  by (induction xs arbitrary: v) auto

lemma conflict_step_admissible:
  "cv_LocalAdmissible (conflict_step i k v) \<longleftrightarrow> cv_LocalAdmissible v \<and> sc_ClaimID k \<noteq> i"
  by (simp add: conflict_step_def)

lemma finding_step_admissible:
  "cv_LocalAdmissible (finding_step i m f v) \<longleftrightarrow> cv_LocalAdmissible v \<and> \<not> blocks i m f"
  by (simp add: finding_step_def)

definition dep_ok :: "claim list \<Rightarrow> string \<Rightarrow> string \<Rightarrow> bool" where
  "dep_ok claims i d \<longleftrightarrow>
     (\<exists>dep. byID claims d = Some dep \<and> (d, i) \<notin> (rests_edge claims)\<^sup>* \<and> readable dep)"

lemma dep_step_admissible:
  "cv_LocalAdmissible (dep_step claims candidate i d v) \<longleftrightarrow> cv_LocalAdmissible v \<and> dep_ok claims i d"
  by (auto simp: dep_step_def dep_ok_def readable_def restCycleFrom_iff StatusDraft_def StatusLocked_def
      split: option.splits)

definition admissible_claim ::
  "lint_finding list \<Rightarrow> claim list \<Rightarrow> (store \<times> disk) option \<Rightarrow> semantic_conflict list \<Rightarrow> string \<Rightarrow> claim \<Rightarrow> bool" where
  "admissible_claim findings claims st conflicts i c \<longleftrightarrow>
     cl_Status c \<noteq> StatusLocked \<and> store_clear st c i \<and> \<not> HasOpenThreads c \<and>
     (\<forall>k \<in> set conflicts. sc_ClaimID k \<noteq> i) \<and>
     (\<forall>f \<in> set findings. \<not> blocks i (cl_Module c) f) \<and>
     (\<forall>d \<in> set (ro_IDs (cl_RestsOn c)). dep_ok claims i d)"

lemma evaluate_admissible:
  "cv_LocalAdmissible (evaluate_candidate claims candidate fs st ks i) \<longleftrightarrow>
   (\<exists>c. byID claims i = Some c \<and> admissible_claim fs claims st ks i c)"
proof (cases "byID claims i")
  case None
  then show ?thesis by (simp add: evaluate_candidate_def)
next
  case (Some c)
  show ?thesis
    by (auto simp: evaluate_candidate_def Some Let_def admissible_claim_def HasOpenThreads_ids
        fold_admissible [where ok = "dep_ok claims i", OF dep_step_admissible]
        fold_admissible [where ok = "\<lambda>f. \<not> blocks i (cl_Module c) f", OF finding_step_admissible]
        fold_admissible [where ok = "\<lambda>k. sc_ClaimID k \<noteq> i", OF conflict_step_admissible]
        store_refusals_admissible new_verdict_def split: if_splits)
qed

lemma evaluate_ClaimID [simp]: "cv_ClaimID (evaluate_candidate claims candidate fs st ks i) = i"
proof -
  have keep: "(\<And>x w. cv_ClaimID (f x w) = cv_ClaimID w) \<Longrightarrow> cv_ClaimID (fold f xs v) = cv_ClaimID v" for f xs v
    by (induction xs arbitrary: v) auto
  have "cv_ClaimID (store_refusals st c i v) = cv_ClaimID v" for c v
    by (auto simp: store_refusals_def Let_def refuse_def split: option.splits)
  then show ?thesis
    by (auto simp: evaluate_candidate_def Let_def new_verdict_def refuse_def keep dep_step_def conflict_step_def
        finding_step_def split: option.splits)
qed

text \<open>
  C6: A set is allowed exactly when every requested claim exists, is not locked yet, has no standing or
  deleted ledger record and no unrecorded comments, no open thread, no semantic conflict and no lint
  finding that blocks it in the final state, and each of its dependencies exists, is readable and does
  not lead back to it.
\<close>

theorem Allowed_iff:
  "Allowed (EvaluateSetWithSemanticConflicts registry claims ids cfg st conflicts) \<longleftrightarrow>
   (\<forall>i \<in> set ids. i \<noteq> [] \<longrightarrow>
      (\<exists>c. byID claims i = Some c \<and> cl_Status c \<noteq> StatusLocked \<and> store_clear st c i \<and> \<not> HasOpenThreads c \<and>
         (\<forall>k \<in> set conflicts. sc_ClaimID k \<noteq> i) \<and>
         (\<forall>f \<in> set (RunAll registry (candidate_claims (uniqueIDs ids) claims) cfg). \<not> blocks i (cl_Module c) f) \<and>
         (\<forall>d \<in> set (ro_IDs (cl_RestsOn c)).
            \<exists>dep. byID claims d = Some dep \<and> readable dep \<and> (d, i) \<notin> (rests_edge claims)\<^sup>*)))"
proof -
  have "Allowed (EvaluateSetWithSemanticConflicts registry claims ids cfg st conflicts) \<longleftrightarrow>
     (\<forall>i \<in> set (uniqueIDs ids). \<exists>c. byID claims i = Some c \<and>
        admissible_claim (RunAll registry (candidate_claims (uniqueIDs ids) claims) cfg) claims st conflicts i c)"
    unfolding Allowed_def EvaluateSetWithSemanticConflicts_def Let_def
    by (simp add: list_all_iff evaluate_admissible del: set_uniqueIDs)
  also have "\<dots> \<longleftrightarrow> (\<forall>i \<in> set ids. i \<noteq> [] \<longrightarrow> (\<exists>c. byID claims i = Some c \<and>
        admissible_claim (RunAll registry (candidate_claims (uniqueIDs ids) claims) cfg) claims st conflicts i c))"
    by simp blast
  finally show ?thesis
    unfolding admissible_claim_def dep_ok_def by (simp add: conj_ac)
qed

definition premise :: claim where
  "premise = zero_claim\<lparr>cl_ID := ''m.contract.p'', cl_Module := ''m'', cl_Status := StatusDraft\<rparr>"

definition conclusion :: claim where
  "conclusion = zero_claim\<lparr>cl_ID := ''m.contract.q'', cl_Module := ''m'', cl_Status := StatusDraft,
     cl_RestsOn := zero_rests_on\<lparr>ro_IDs := [''m.contract.p'']\<rparr>\<rparr>"

theorem Allowed_iff_witness:
  "Allowed (EvaluateSetWithSemanticConflicts [DanglingLint, CycleLint] [premise, conclusion] [''m.contract.q''] None None []) \<and>
   (\<exists>c. byID [premise, conclusion] ''m.contract.q'' = Some c \<and> \<not> HasOpenThreads c) \<and>
   \<not> Allowed (EvaluateSetWithSemanticConflicts [DanglingLint, CycleLint] [conclusion] [''m.contract.q''] None None [])"
proof -
  have yes: "Allowed (EvaluateSetWithSemanticConflicts [DanglingLint, CycleLint] [premise, conclusion] [''m.contract.q''] None None [])"
    by code_simp
  have no: "\<not> Allowed (EvaluateSetWithSemanticConflicts [DanglingLint, CycleLint] [conclusion] [''m.contract.q''] None None [])"
    by code_simp
  from yes [unfolded Allowed_iff] no show ?thesis using yes by auto
qed

section \<open>What an admissible verdict discloses\<close>

lemma dep_fold_conditions:
  "cv_LocalAdmissible (fold (dep_step claims candidate i) ds v) \<Longrightarrow>
   map dc_DependencyID (cv_Conditions (fold (dep_step claims candidate i) ds v)) =
   map dc_DependencyID (cv_Conditions v) @ filter (\<lambda>d. \<not> candidateLocked d candidate) ds"
proof (induction ds arbitrary: v)
  case (Cons d ds)
  have ok: "dep_ok claims i d"
    using Cons.prems fold_admissible [of "dep_step claims candidate i", OF dep_step_admissible, of "d # ds" v]
    by simp
  have "map dc_DependencyID (cv_Conditions (dep_step claims candidate i d v)) =
      map dc_DependencyID (cv_Conditions v) @ (if candidateLocked d candidate then [] else [d])"
    using ok by (auto simp: dep_ok_def dep_step_def readable_def restCycleFrom_iff StatusDraft_def StatusLocked_def)
  with Cons.IH [of "dep_step claims candidate i d v"] Cons.prems show ?case by simp
qed simp

lemma fold_keeps_conditions:
  "(\<And>x w. cv_Conditions (f x w) = cv_Conditions w) \<Longrightarrow> cv_Conditions (fold f xs v) = cv_Conditions v"
  by (induction xs arbitrary: v) auto

lemma early_conditions:
  "cv_Conditions (refuse r v) = cv_Conditions v"
  "cv_Conditions (store_refusals st c i v) = cv_Conditions v"
  "cv_Conditions (conflict_step i k v) = cv_Conditions v"
  "cv_Conditions (finding_step i m f v) = cv_Conditions v"
  by (auto simp: refuse_def store_refusals_def Let_def conflict_step_def finding_step_def split: option.splits)

lemma evaluate_conditions:
  assumes "cv_LocalAdmissible (evaluate_candidate claims candidate fs st ks i)" "byID claims i = Some c"
  shows "map dc_DependencyID (cv_Conditions (evaluate_candidate claims candidate fs st ks i)) =
    filter (\<lambda>d. \<not> candidateLocked d candidate) (ro_IDs (cl_RestsOn c))"
  using assms
  by (auto simp: evaluate_candidate_def Let_def dep_fold_conditions fold_keeps_conditions early_conditions
      new_verdict_def)

lemma findByID_candidate:
  "findByID (candidate_claims ids claims) i =
   map_option (\<lambda>c. if cl_ID c \<in> set ids then c\<lparr>cl_Status := StatusLocked, cl_ReviewPending := False\<rparr> else c)
     (findByID claims i)"
  by (induction claims) (auto simp: candidate_claims_def)

text \<open>
  The verdicts are those of the distinct requested ids in order, one each; a verdict is admissible
  exactly when it carries no refusal, and an admissible verdict lists as conditions exactly the
  dependencies that are neither locked nor part of the same request.
\<close>

theorem verdicts_disclose:
  assumes "e = EvaluateSetWithSemanticConflicts registry claims ids cfg st conflicts"
  shows "map cv_ClaimID (se_Verdicts e) = se_RequestedIDs e \<and>
    sorted (se_RequestedIDs e) \<and> distinct (se_RequestedIDs e) \<and> set (se_RequestedIDs e) = set ids - {[]} \<and>
    (\<forall>v \<in> set (se_Verdicts e).
       cv_LocalAdmissible v = (cv_Refusals v = []) \<and>
       (cv_LocalAdmissible v \<longrightarrow>
          (\<exists>c. byID claims (cv_ClaimID v) = Some c \<and>
             map dc_DependencyID (cv_Conditions v) =
             filter (\<lambda>d. case findByID claims d of None \<Rightarrow> True
                          | Some dep \<Rightarrow> cl_Status dep \<noteq> StatusLocked \<and> d \<notin> set ids - {[]})
               (ro_IDs (cl_RestsOn c)))))"
proof -
  let ?ids = "uniqueIDs ids"
  let ?fs = "RunAll registry (candidate_claims ?ids claims) cfg"
  let ?eval = "evaluate_candidate claims (candidate_claims ?ids claims) ?fs st conflicts"
  have verdicts: "se_Verdicts e = map ?eval ?ids" and req: "se_RequestedIDs e = ?ids"
    using assms by (simp_all add: EvaluateSetWithSemanticConflicts_def Let_def)
  have locked: "\<not> candidateLocked d (candidate_claims ?ids claims) \<longleftrightarrow>
      (case findByID claims d of None \<Rightarrow> True | Some dep \<Rightarrow> cl_Status dep \<noteq> StatusLocked \<and> d \<notin> set ids - {[]})" for d
    using findByID_ID [of claims d]
    by (cases "findByID claims d") (auto simp: candidateLocked_def findByID_candidate)
  have "\<exists>c. byID claims i = Some c \<and> map dc_DependencyID (cv_Conditions (?eval i)) =
      filter (\<lambda>d. \<not> candidateLocked d (candidate_claims ?ids claims)) (ro_IDs (cl_RestsOn c))"
    if "cv_LocalAdmissible (?eval i)" for i
    using that evaluate_conditions [OF that] by (auto simp: evaluate_admissible)
  moreover have "cv_LocalAdmissible (?eval i) = (cv_Refusals (?eval i) = [])" for i
    using coherent_evaluate [of claims "candidate_claims ?ids claims" ?fs st conflicts i] by (simp add: coherent_def)
  ultimately show ?thesis
    unfolding verdicts req locked [symmetric] by (auto simp: comp_def uniqueIDs_def [of ids])
qed

theorem verdicts_disclose_witness:
  "let e = EvaluateSetWithSemanticConflicts [DanglingLint] [premise, conclusion]
             [''m.contract.q'', [], ''m.contract.q''] None None []
   in se_RequestedIDs e = [''m.contract.q''] \<and>
      map (\<lambda>v. map dc_DependencyID (cv_Conditions v)) (se_Verdicts e) = [[''m.contract.p'']] \<and>
      (\<forall>v \<in> set (se_Verdicts e). cv_Refusals v = [])"
proof -
  let ?e = "EvaluateSetWithSemanticConflicts [DanglingLint] [premise, conclusion]
             [''m.contract.q'', [], ''m.contract.q''] None None []"
  have eval: "se_RequestedIDs ?e = [''m.contract.q''] \<and>
      map (\<lambda>v. map dc_DependencyID (cv_Conditions v)) (se_Verdicts ?e) = [[''m.contract.p'']]" by code_simp
  have "list_all cv_LocalAdmissible (se_Verdicts ?e)" by code_simp
  then have "\<forall>v \<in> set (se_Verdicts ?e). cv_LocalAdmissible v" by (simp add: list_all_iff)
  then have "\<forall>v \<in> set (se_Verdicts ?e). cv_Refusals v = []" using verdicts_disclose [OF refl, of "[DanglingLint]" "[premise, conclusion]"
     "[''m.contract.q'', [], ''m.contract.q'']" None None "[]"] by blast
  with eval show ?thesis by (simp add: Let_def)
qed

lemma evaluation_of_set:
  "set ids - {[]} = set ids' - {[]} \<Longrightarrow>
   EvaluateSetWithSemanticConflicts registry claims ids cfg st conflicts =
   EvaluateSetWithSemanticConflicts registry claims ids' cfg st conflicts"
  unfolding EvaluateSetWithSemanticConflicts_def by (drule uniqueIDs_cong) simp

section \<open>A finding about another claim\<close>

text \<open>A claim of another module that rests on an id nobody has, of which the candidate's id is a prefix.\<close>

definition bystander :: claim where
  "bystander = zero_claim\<lparr>cl_ID := ''n.contract.z'', cl_Module := ''n'', cl_Status := StatusDraft,
     cl_RestsOn := zero_rests_on\<lparr>ro_IDs := [''m.contract.p2'']\<rparr>\<rparr>"

text \<open>
  The scoping rule looks for the candidate's id anywhere in a message, so a finding about another
  claim of another module, which names neither the candidate nor its module, refuses the candidate.
\<close>

theorem bystander_blocks:
  "Allowed (EvaluateSet [DanglingLint] [premise] [''m.contract.p''] None None) \<and>
   (let e = EvaluateSet [DanglingLint] [premise, bystander] [''m.contract.p''] None None in
    \<not> Allowed e \<and> map cv_Refusals (se_Verdicts e) = [[''lint:dangling'']] \<and>
    map (\<lambda>v. map lf_ClaimID (cv_LintFindings v)) (se_Verdicts e) = [[''n.contract.z'']])"
  by code_simp

end
