(* ===== verification/Proposal.thy ===== *)
theory Proposal
  imports Policy
begin

text \<open>
  The proposal token that binds an approval to what was reviewed
  (\<^verbatim>\<open>policySnapshot\<close> and \<^verbatim>\<open>proposalMismatch\<close> of \<^verbatim>\<open>cmd/dossierx/lock_policy.go\<close>): the requested ids
  and a hash over the content hash of every claim the request reaches.
\<close>

section \<open>Query escaping\<close>

definition unreserved :: "char \<Rightarrow> bool" where
  "unreserved c \<longleftrightarrow>
     (let n = (of_char c :: nat) in
      (97 \<le> n \<and> n \<le> 122) \<or> (65 \<le> n \<and> n \<le> 90) \<or> (48 \<le> n \<and> n \<le> 57) \<or>
      c \<in> {CHR ''-'', CHR ''_'', CHR ''.'', CHR ''~''})"

definition upper_hex :: "nat \<Rightarrow> char" where
  "upper_hex n = (if n < 10 then char_of (48 + n) else char_of (55 + n))"

definition unhex :: "char \<Rightarrow> nat option" where
  "unhex c =
     (let n = (of_char c :: nat) in
      if 48 \<le> n \<and> n \<le> 57 then Some (n - 48)
      else if 97 \<le> n \<and> n \<le> 102 then Some (n - 87)
      else if 65 \<le> n \<and> n \<le> 70 then Some (n - 55) else None)"

definition escape_byte :: "char \<Rightarrow> string" where
  "escape_byte c =
     (if unreserved c then [c] else if c = CHR '' '' then ''+''
      else [CHR ''%'', upper_hex (of_char c div 16), upper_hex (of_char c mod 16)])"

definition QueryEscape :: "string \<Rightarrow> string" where
  "QueryEscape s = concat (map escape_byte s)"

fun QueryUnescape :: "string \<Rightarrow> string option" where
  "QueryUnescape [] = Some []"
| "QueryUnescape (c # s) =
     (if c = CHR ''%'' then
        (case s of
           a # b # s' \<Rightarrow>
             (case (unhex a, unhex b) of
                (Some m, Some n) \<Rightarrow> map_option ((#) (char_of (16 * m + n))) (QueryUnescape s')
              | _ \<Rightarrow> None)
         | _ \<Rightarrow> None)
      else map_option ((#) (if c = CHR ''+'' then CHR '' '' else c)) (QueryUnescape s))"

lemma unhex_upper: "n < 16 \<Longrightarrow> unhex (upper_hex n) = Some n"
  by (simp add: unhex_def upper_hex_def Let_def of_char_of)

lemma nibbles: "(of_char c :: nat) div 16 < 16" "(of_char c :: nat) mod 16 < 16"
  using of_char_lt [of c] less_mult_imp_div_less [of "of_char c" 16 16] by simp_all

lemma unescape_byte: "QueryUnescape (escape_byte c @ s) = map_option ((#) c) (QueryUnescape s)"
proof -
  note nib = nibbles [of c]
  show ?thesis
  proof (cases "unreserved c")
    case True
    then have "c \<noteq> CHR ''%''" "c \<noteq> CHR ''+''" by (auto simp: unreserved_def Let_def)
    with True show ?thesis by (simp add: escape_byte_def)
  next
    case False
    then show ?thesis
      by (simp add: escape_byte_def unhex_upper [OF nib(1)] unhex_upper [OF nib(2)])
  qed
qed

lemma unescape_escape: "QueryUnescape (QueryEscape s) = Some s"
proof (induction s)
  case (Cons c s)
  then show ?case
    using unescape_byte [of c "QueryEscape s"] by (simp add: QueryEscape_def)
qed (simp add: QueryEscape_def)

lemma escape_no_colon: "CHR '':'' \<notin> set (QueryEscape s)"
proof -
  have "upper_hex n \<noteq> CHR '':''" if "n < 16" for n
  proof
    assume "upper_hex n = CHR '':''"
    with unhex_upper [OF that] show False by (simp add: unhex_def)
  qed
  then have "upper_hex (of_char c div 16) \<noteq> CHR '':''" "upper_hex (of_char c mod 16) \<noteq> CHR '':''" for c
    using nibbles by blast+
  then have "CHR '':'' \<notin> set (escape_byte c)" for c
    by (auto simp: escape_byte_def unreserved_def Let_def dest: sym)
  then show ?thesis by (auto simp: QueryEscape_def)
qed

section \<open>The reviewed closure\<close>

text \<open>The visits still to make, as in the cycle search; every visit goes on after the one before.\<close>

function closure_visit :: "claim list \<Rightarrow> string list \<Rightarrow> string list \<Rightarrow> string list" where
  "closure_visit claims seen [] = seen"
| "closure_visit claims seen (i # todo) =
     (if i \<in> set seen then closure_visit claims seen todo
      else (case byID claims i of
              None \<Rightarrow> closure_visit claims (i # seen) todo
            | Some c \<Rightarrow> closure_visit claims (i # seen) (ro_IDs (cl_RestsOn c) @ todo)))"
  by pat_completeness auto

termination closure_visit
proof (relation "measures [\<lambda>(claims, seen, todo). card (set (known_ids claims) - set seen),
                           \<lambda>(claims, seen, todo). length todo]")
  fix claims :: "claim list" and i :: string and seen todo
  show "((claims, i # seen, todo), (claims, seen, i # todo)) \<in>
    measures [\<lambda>(claims, seen, todo). card (set (known_ids claims) - set seen),
              \<lambda>(claims, seen, todo). length todo]"
    using unseen_mono [of claims i seen] by auto
next
  fix claims :: "claim list" and i :: string and seen todo c
  assume "i \<notin> set seen" "byID claims i = Some c"
  then show "((claims, i # seen, ro_IDs (cl_RestsOn c) @ todo), (claims, seen, i # todo)) \<in>
    measures [\<lambda>(claims, seen, todo). card (set (known_ids claims) - set seen),
              \<lambda>(claims, seen, todo). length todo]"
    using unseen_less by auto
qed auto

definition reviewed_ids :: "claim list \<Rightarrow> string list \<Rightarrow> string list" where
  "reviewed_ids claims ids = sorted_set (closure_visit claims [] ids)"

definition claim_or_zero :: "claim list \<Rightarrow> string \<Rightarrow> claim" where
  "claim_or_zero claims i = (case byID claims i of None \<Rightarrow> zero_claim | Some c \<Rightarrow> c)"

definition snapshot_preimage :: "(string \<Rightarrow> string) \<Rightarrow> claim list \<Rightarrow> string list \<Rightarrow> string" where
  "snapshot_preimage sha claims ids =
     ''requested='' @ join_str '','' (sort ids) @ [nl] @
     concat (map (\<lambda>i. i @ CHR ''='' # ContentHash sha (claim_or_zero claims i) @ [nl]) (reviewed_ids claims ids))"

definition policySnapshot :: "(string \<Rightarrow> string) \<Rightarrow> claim list \<Rightarrow> string list \<Rightarrow> string" where
  "policySnapshot sha claims ids =
     ''v2:'' @ QueryEscape (join_str '','' (sort ids)) @ '':'' @ hex_encode (sha (snapshot_preimage sha claims ids))"

definition proposalMismatch :: "string \<Rightarrow> string list \<Rightarrow> string" where
  "proposalMismatch proposal requested =
     (case split_n CHR '':'' 3 proposal of
        [version, asked, hash] \<Rightarrow>
          if version \<noteq> ''v2'' \<or> hash = [] then ''invalid''
          else (case QueryUnescape asked of
                  None \<Rightarrow> ''invalid''
                | Some ids \<Rightarrow> if ids \<noteq> join_str '','' (sort requested) then ''wrong_request'' else ''stale'')
      | _ \<Rightarrow> ''invalid'')"

lemma closure_visit_iff:
  "d \<in> set (closure_visit claims seen todo) \<longleftrightarrow>
   d \<in> set seen \<or> (\<exists>t \<in> set todo. (t, d) \<in> (rests_edge claims - set seen \<times> UNIV)\<^sup>*)"
proof (induction claims seen todo rule: closure_visit.induct)
  case (2 claims seen i todo)
  let ?R = "rests_edge claims - set seen \<times> UNIV"
  let ?R' = "rests_edge claims - set (i # seen) \<times> UNIV"
  have R': "?R' = ?R - {i} \<times> UNIV" by auto
  have sub: "?R'\<^sup>* \<subseteq> ?R\<^sup>*" by (rule rtrancl_mono) auto
  consider (seen) "i \<in> set seen" | (none) "i \<notin> set seen" "byID claims i = None"
    | (some) c where "i \<notin> set seen" "byID claims i = Some c" by (cases "byID claims i") auto
  then show ?case
  proof cases
    case seen
    have "(i, y) \<notin> ?R" for y using seen by simp
    then have "(i, d) \<in> ?R\<^sup>* \<Longrightarrow> d = i" by (metis converse_rtranclE)
    with seen 2 show ?thesis by auto
  next
    case none
    have "(i, y) \<notin> ?R" for y using none by (simp add: rests_edge_def)
    then have "(i, d) \<in> ?R\<^sup>* \<longleftrightarrow> d = i" by (metis converse_rtranclE rtrancl.rtrancl_refl)
    moreover have "?R' = ?R" using none by (auto simp: rests_edge_def)
    ultimately show ?thesis using none "2.IH"(2) by auto
  next
    case some
    let ?S = "ro_IDs (cl_RestsOn c)"
    have succ: "(i, x) \<in> ?R \<longleftrightarrow> x \<in> set ?S" for x using some by (auto simp: rests_edge_def)
    have "d = i \<or> (\<exists>t \<in> set (?S @ todo). (t, d) \<in> ?R'\<^sup>*) \<longleftrightarrow> (\<exists>t \<in> set (i # todo). (t, d) \<in> ?R\<^sup>*)"
    proof
      assume "d = i \<or> (\<exists>t \<in> set (?S @ todo). (t, d) \<in> ?R'\<^sup>*)"
      then show "\<exists>t \<in> set (i # todo). (t, d) \<in> ?R\<^sup>*"
      proof
        assume "\<exists>t \<in> set (?S @ todo). (t, d) \<in> ?R'\<^sup>*"
        then obtain t where "t \<in> set ?S \<or> t \<in> set todo" "(t, d) \<in> ?R\<^sup>*" using sub by auto
        then show ?thesis using succ [of t] by (auto intro: converse_rtrancl_into_rtrancl)
      qed simp
    next
      assume "\<exists>t \<in> set (i # todo). (t, d) \<in> ?R\<^sup>*"
      then obtain t where t: "t = i \<or> t \<in> set todo" "(t, d) \<in> ?R\<^sup>*" by auto
      show "d = i \<or> (\<exists>t \<in> set (?S @ todo). (t, d) \<in> ?R'\<^sup>*)"
      proof (cases "i = d")
        case False
        have "(i, y) \<notin> ?R'" for y by simp
        then have "(i, d) \<notin> ?R'\<^sup>*" using False by (metis converse_rtranclE)
        with rtrancl_last_visit [OF t(2) False] t(1) succ show ?thesis unfolding R' by auto
      qed simp
    qed
    with some 2 show ?thesis by simp blast
  qed
qed simp

lemma reviewed_ids_iff: "d \<in> set (reviewed_ids claims ids) \<longleftrightarrow> (\<exists>i \<in> set ids. (i, d) \<in> (rests_edge claims)\<^sup>*)"
  by (simp add: reviewed_ids_def closure_visit_iff del: closure_visit.simps)

section \<open>What the token binds\<close>

lemma hex_encode_no_nl: "nl \<notin> set (hex_encode s)"
proof -
  have "hex_digit n \<noteq> nl" if "n < 16" for n
    using of_char_hex_digit [OF that] by (auto split: if_splits)
  then have "hex_digit (of_char c div 16) \<noteq> nl" "hex_digit (of_char c mod 16) \<noteq> nl" for c
    using nibbles by blast+
  then have "nl \<notin> set (hex_byte c)" for c
    unfolding hex_byte_def by (auto dest: sym)
  then show ?thesis by (auto simp: hex_encode_def)
qed

lemma ContentHash_no_nl: "nl \<notin> set (ContentHash sha c)"
  by (auto simp: ContentHash_def hex_encode_no_nl split: option.split)

lemma keyed_lines_inj:
  "(\<forall>i \<in> set xs \<union> set ys. CHR ''='' \<notin> set i) \<Longrightarrow> (\<And>i. nl \<notin> set (h i) \<and> nl \<notin> set (h' i)) \<Longrightarrow>
   concat (map (\<lambda>i. i @ CHR ''='' # h i @ [nl]) xs) = concat (map (\<lambda>i. i @ CHR ''='' # h' i @ [nl]) ys) \<Longrightarrow>
   xs = ys \<and> (\<forall>i \<in> set xs. h i = h' i)"
proof (induction xs arbitrary: ys)
  case Nil
  then show ?case by (cases ys) auto
next
  case (Cons x xs)
  then obtain y zs where ys: "ys = y # zs" by (cases ys) auto
  let ?rest = "concat (map (\<lambda>i. i @ CHR ''='' # h i @ [nl]) xs)"
  let ?rest' = "concat (map (\<lambda>i. i @ CHR ''='' # h' i @ [nl]) zs)"
  have eq: "x @ CHR ''='' # (h x @ nl # ?rest) = y @ CHR ''='' # (h' y @ nl # ?rest')"
    using Cons.prems(3) ys by simp
  have "CHR ''='' \<notin> set x" "CHR ''='' \<notin> set y" using Cons.prems(1) ys by auto
  from cut_unique [OF this eq] have xy: "x = y" and tail: "h x @ nl # ?rest = h' y @ nl # ?rest'" by blast+
  have "h x = h' y \<and> ?rest = ?rest'"
    using cut_unique [OF _ _ tail] Cons.prems(2) by blast
  with Cons.IH [of zs] Cons.prems(1,2) ys xy show ?case by simp
qed

lemma join_comma_inj:
  "(\<forall>i \<in> set xs \<union> set ys. i \<noteq> [] \<and> CHR '','' \<notin> set i) \<Longrightarrow> join_str '','' xs = join_str '','' ys \<Longrightarrow> xs = ys"
proof (induction xs arbitrary: ys)
  case Nil
  then show ?case by (cases ys rule: remdups_adj.cases) auto
next
  case (Cons x xs)
  have cut: "cut_at CHR '','' (join_str '','' (z # zs)) = (if zs = [] then None else Some (z, join_str '','' zs))"
    if "CHR '','' \<notin> set z" for z zs
    using that by (cases zs) (auto simp: cut_at_append cut_at_None)
  have x: "x \<noteq> []" "CHR '','' \<notin> set x" using Cons.prems(1) by auto
  then have "join_str '','' (x # xs) \<noteq> []" by (cases xs) auto
  with Cons.prems(2) obtain y zs where ys: "ys = y # zs" by (cases ys) auto
  then have y: "CHR '','' \<notin> set y" using Cons.prems(1) by auto
  have "cut_at CHR '','' (join_str '','' (x # xs)) = cut_at CHR '','' (join_str '','' (y # zs))"
    using Cons.prems(2) ys by simp
  then have "(xs = [] \<and> zs = []) \<or> (xs \<noteq> [] \<and> zs \<noteq> [] \<and> x = y \<and> join_str '','' xs = join_str '','' zs)"
    using cut [OF x(2), of xs] cut [OF y, of zs] by (auto split: if_splits)
  then show ?case
  proof
    assume "xs = [] \<and> zs = []"
    with Cons.prems(2) ys show ?thesis by simp
  next
    assume "xs \<noteq> [] \<and> zs \<noteq> [] \<and> x = y \<and> join_str '','' xs = join_str '','' zs"
    with Cons.IH [of zs] Cons.prems(1) ys show ?thesis by simp
  qed
qed

definition plain_id :: "string \<Rightarrow> bool" where
  "plain_id i \<longleftrightarrow> i \<noteq> [] \<and> nl \<notin> set i \<and> CHR ''='' \<notin> set i \<and> CHR '','' \<notin> set i"

lemma snapshot_parts:
  assumes "policySnapshot sha claims ids = policySnapshot sha' claims' ids'"
  shows "join_str '','' (sort ids) = join_str '','' (sort ids') \<and>
    sha (snapshot_preimage sha claims ids) = sha' (snapshot_preimage sha' claims' ids')"
proof -
  have "QueryEscape (join_str '','' (sort ids)) @ CHR '':'' # hex_encode (sha (snapshot_preimage sha claims ids)) =
      QueryEscape (join_str '','' (sort ids')) @ CHR '':'' # hex_encode (sha' (snapshot_preimage sha' claims' ids'))"
    using assms by (simp add: policySnapshot_def)
  from cut_unique [OF escape_no_colon escape_no_colon this]
  have esc: "QueryEscape (join_str '','' (sort ids)) = QueryEscape (join_str '','' (sort ids'))"
    and hex: "hex_encode (sha (snapshot_preimage sha claims ids)) = hex_encode (sha' (snapshot_preimage sha' claims' ids'))"
    by blast+
  from hex have "sha (snapshot_preimage sha claims ids) = sha' (snapshot_preimage sha' claims' ids')"
    by (rule hex_encode_inj)
  moreover have "Some (join_str '','' (sort ids)) = Some (join_str '','' (sort ids'))"
    using arg_cong [OF esc, of QueryUnescape] unfolding unescape_escape .
  ultimately show ?thesis by simp
qed

text \<open>
  C7: The proposal token binds an approval to what was reviewed. Two projects that give the same token,
  for ids free of the separators, agree on the requested set, on the ids it reaches through
  dependencies and on the content hash of each of these claims, unless the two inputs are a collision
  of the hash function.
\<close>

theorem snapshot_binds:
  assumes same: "policySnapshot sha claims ids = policySnapshot sha claims' ids'"
    and plain: "\<forall>i \<in> set (reviewed_ids claims ids) \<union> set (reviewed_ids claims' ids'). plain_id i"
  shows "(sort ids = sort ids' \<and> reviewed_ids claims ids = reviewed_ids claims' ids' \<and>
      (\<forall>i. (\<exists>r \<in> set ids. (r, i) \<in> (rests_edge claims)\<^sup>*) \<longrightarrow>
         ContentHash sha (claim_or_zero claims i) = ContentHash sha (claim_or_zero claims' i))) \<or>
    (snapshot_preimage sha claims ids \<noteq> snapshot_preimage sha claims' ids' \<and>
     sha (snapshot_preimage sha claims ids) = sha (snapshot_preimage sha claims' ids'))"
proof (cases "snapshot_preimage sha claims ids = snapshot_preimage sha claims' ids'")
  case False
  then show ?thesis using snapshot_parts [OF same] by simp
next
  case True
  have requested: "set ids \<subseteq> set (reviewed_ids claims ids)" "set ids' \<subseteq> set (reviewed_ids claims' ids')"
    by (auto simp: reviewed_ids_iff)
  have "sort ids = sort ids'"
    by (rule join_comma_inj) (use plain requested snapshot_parts [OF same] in \<open>auto simp: plain_id_def\<close>)
  moreover have "concat (map (\<lambda>i. i @ CHR ''='' # ContentHash sha (claim_or_zero claims i) @ [nl]) (reviewed_ids claims ids)) =
      concat (map (\<lambda>i. i @ CHR ''='' # ContentHash sha (claim_or_zero claims' i) @ [nl]) (reviewed_ids claims' ids'))"
    using True snapshot_parts [OF same] by (simp add: snapshot_preimage_def)
  then have "reviewed_ids claims ids = reviewed_ids claims' ids' \<and>
      (\<forall>i \<in> set (reviewed_ids claims ids). ContentHash sha (claim_or_zero claims i) = ContentHash sha (claim_or_zero claims' i))"
    by (rule keyed_lines_inj [rotated -1]) (use plain in \<open>auto simp: plain_id_def ContentHash_no_nl\<close>)
  ultimately show ?thesis using reviewed_ids_iff [of _ claims ids] by blast
qed

lemma reviewed_pq: "reviewed_ids [premise\<lparr>cl_Body := b\<rparr>, conclusion] [''m.contract.q''] = [''m.contract.p'', ''m.contract.q'']"
proof -
  have "closure_visit [premise\<lparr>cl_Body := b\<rparr>, conclusion] [] [''m.contract.q''] = [''m.contract.p'', ''m.contract.q'']"
    by (simp add: byID_def premise_def conclusion_def zero_claim_def zero_rests_on_def)
  then show ?thesis by (simp add: reviewed_ids_def sorted_set_def)
qed

theorem snapshot_binds_witness:
  "policySnapshot (\<lambda>x. x) [premise\<lparr>cl_Body := ''one''\<rparr>, conclusion] [''m.contract.q''] \<noteq>
   policySnapshot (\<lambda>x. x) [premise\<lparr>cl_Body := ''two''\<rparr>, conclusion] [''m.contract.q'']"
proof
  let ?P = "\<lambda>b. [premise\<lparr>cl_Body := b\<rparr>, conclusion]"
  assume same: "policySnapshot (\<lambda>x. x) (?P ''one'') [''m.contract.q''] = policySnapshot (\<lambda>x. x) (?P ''two'') [''m.contract.q'']"
  have plain: "\<forall>i \<in> set (reviewed_ids (?P ''one'') [''m.contract.q'']) \<union> set (reviewed_ids (?P ''two'') [''m.contract.q'']). plain_id i"
    by (simp add: reviewed_pq plain_id_def)
  have reach: "\<exists>r \<in> set [''m.contract.q'']. (r, ''m.contract.p'') \<in> (rests_edge (?P ''one''))\<^sup>*"
    using reviewed_ids_iff [of "''m.contract.p''" "?P ''one''" "[''m.contract.q'']"] by (simp add: reviewed_pq)
  have "ContentHash (\<lambda>x. x) (claim_or_zero (?P ''one'') ''m.contract.p'') =
        ContentHash (\<lambda>x. x) (claim_or_zero (?P ''two'') ''m.contract.p'')"
    using snapshot_binds [OF same plain] reach by blast
  moreover have "claim_or_zero (?P b) ''m.contract.p'' = premise\<lparr>cl_Body := b\<rparr>" for b
    by (simp add: claim_or_zero_def byID_def premise_def conclusion_def zero_claim_def)
  ultimately have "legacy_preimage (premise\<lparr>cl_Body := ''one''\<rparr>) = legacy_preimage (premise\<lparr>cl_Body := ''two''\<rparr>)"
    by (simp add: ContentHash_def premise_def zero_claim_def hex_encode_inj)
  then show False
    by (simp add: legacy_preimage_def hash_line_def premise_def zero_claim_def)
qed

text \<open>
  A token is recognised for what it is. The token of a request is stale when it is offered for the
  same request again and a wrong request when the sorted request differs.
\<close>

theorem own_token_stale:
  assumes "sha (snapshot_preimage sha claims ids) \<noteq> []"
    and "\<forall>i \<in> set ids \<union> set ids'. plain_id i"
  shows "proposalMismatch (policySnapshot sha claims ids) ids' =
    (if sort ids = sort ids' then ''stale'' else ''wrong_request'')"
proof -
  let ?E = "QueryEscape (join_str '','' (sort ids))" and ?H = "hex_encode (sha (snapshot_preimage sha claims ids))"
  have H: "?H \<noteq> []" using assms(1) by (cases "sha (snapshot_preimage sha claims ids)") (simp_all add: hex_encode_def hex_byte_def)
  have "split_n CHR '':'' 3 (policySnapshot sha claims ids) = [''v2'', ?E, ?H]"
    unfolding policySnapshot_def numeral_3_eq_3
    using cut_at_append [of "CHR '':''" "''v2''" "?E @ CHR '':'' # ?H"] cut_at_append [OF escape_no_colon, of "join_str '','' (sort ids)" ?H]
    by simp
  moreover have "join_str '','' (sort ids) = join_str '','' (sort ids') \<longleftrightarrow> sort ids = sort ids'"
    using join_comma_inj [of "sort ids" "sort ids'"] assms(2) by (auto simp: plain_id_def)
  ultimately show ?thesis using H by (simp add: proposalMismatch_def unescape_escape)
qed

theorem own_token_stale_witness:
  "proposalMismatch (policySnapshot (\<lambda>x. x) [premise] [''m.contract.p'']) [''m.contract.p''] = ''stale'' \<and>
   proposalMismatch (policySnapshot (\<lambda>x. x) [premise] [''m.contract.p'']) [''m.contract.q''] = ''wrong_request''"
proof -
  have "snapshot_preimage (\<lambda>x. x) [premise] [''m.contract.p''] \<noteq> []" by (simp add: snapshot_preimage_def)
  moreover have "\<forall>i \<in> set [''m.contract.p''] \<union> set [''m.contract.p'']. plain_id i"
    "\<forall>i \<in> set [''m.contract.p''] \<union> set [''m.contract.q'']. plain_id i" by (simp_all add: plain_id_def)
  ultimately show ?thesis using own_token_stale [of "\<lambda>x. x" "[premise]" "[''m.contract.p'']"] by simp
qed

section \<open>What the token does not bind\<close>

lemma byID_map: "(\<And>c. cl_ID (f c) = cl_ID c) \<Longrightarrow> byID (map f claims) i = map_option f (byID claims i)"
proof -
  assume f: "\<And>c. cl_ID (f c) = cl_ID c"
  have "map_of (map (\<lambda>c. (cl_ID c, f c)) cs) i = map_option f (map_of (map (\<lambda>c. (cl_ID c, c)) cs) i)" for cs
    by (induction cs) auto
  from this [of "rev claims"] show ?thesis by (simp add: byID_def rev_map comp_def f)
qed

lemma snapshot_map:
  assumes f: "\<And>c. cl_ID (f c) = cl_ID c" "\<And>c. cl_RestsOn (f c) = cl_RestsOn c" "\<And>c. ContentHash sha (f c) = ContentHash sha c"
  shows "policySnapshot sha (map f claims) ids = policySnapshot sha claims ids"
proof -
  have "closure_visit (map f claims) seen todo = closure_visit claims seen todo" for seen todo
  proof (induction claims seen todo rule: closure_visit.induct)
    case (2 claims seen i todo)
    then show ?case using byID_map [OF f(1), of claims i] f(2) by (cases "byID claims i") auto
  qed simp
  then have reviewed: "reviewed_ids (map f claims) ids = reviewed_ids claims ids" by (simp add: reviewed_ids_def)
  have "ContentHash sha (claim_or_zero (map f claims) i) = ContentHash sha (claim_or_zero claims i)" for i
    using byID_map [OF f(1), of claims i] f(3) by (cases "byID claims i") (simp_all add: claim_or_zero_def)
  then show ?thesis by (simp add: policySnapshot_def snapshot_preimage_def reviewed)
qed

definition cite :: "string \<Rightarrow> claim \<Rightarrow> claim" where
  "cite supports c =
     (if cl_ID c = ''m.contract.p''
      then c\<lparr>cl_Sources := [\<lparr>sr_Ref = 1, sr_Kind = ''web'', sr_Title = ''report'', sr_URL = ''https://x.example'',
               sr_AccessedOn = [], sr_Path = [], sr_RecordID = [], sr_SHA256 = [], sr_Supports = supports,
               sr_DoesNotSupport = []\<rparr>]\<rparr>
      else c)"

text \<open>
  The token does not bind what the approval signs. Rewriting what a source is cited as supporting
  leaves the token of every request in every project as it was, so a token obtained before the edit
  still passes for the claim after it; the bytes that the approval signs are different ones.
\<close>

theorem snapshot_misses_sources:
  "policySnapshot sha (map (cite supports) claims) ids = policySnapshot sha (map (cite supports') claims) ids \<and>
   (locked_preimage (cite ''yes'' premise) \<noteq> locked_preimage (cite ''no'' premise))"
proof -
  have hash: "ContentHash sha (c\<lparr>cl_Sources := ss\<rparr>) = ContentHash sha c" for c ss
    by (cases "cl_Embodiment c") (simp_all add: ContentHash_def embodiment_preimage_def legacy_preimage_def Let_def)
  have f: "cl_ID (cite t c) = cl_ID c" "cl_RestsOn (cite t c) = cl_RestsOn c" "ContentHash sha (cite t c) = ContentHash sha c" for t c
    by (simp_all add: cite_def hash)
  have "policySnapshot sha (map (cite t) claims) ids = policySnapshot sha claims ids" for t
    by (rule snapshot_map) (rule f)+
  moreover have "rows_ok (cite t premise)" for t by (simp add: rows_ok_def cite_def premise_def zero_claim_def)
  moreover have "signed_view (cite ''yes'' premise) \<noteq> signed_view (cite ''no'' premise)"
    by (simp add: signed_view_def cite_def premise_def zero_claim_def)
  ultimately show ?thesis
    using LockedClaimHash_collision [of "cite ''yes'' premise" "cite ''no'' premise" "\<lambda>_. []"]
    by (simp add: LockedClaimHash_def)
qed

end
