(* ===== verification/Reaudit.thy ===== *)
theory Reaudit
  imports Lint_Rules Lock_Store "HOL-Library.Word"
begin

text \<open>
  Re-auditing (\<^verbatim>\<open>internal/reaudit\<close>): the flag store and its two decoders, the proposals with their
  inline markup, and the application of a confirmed proposal. Go's \<^verbatim>\<open>html\<close> package is modelled as far
  as the markup uses it; its table of named character references is the argument \<open>entity\<close>.
\<close>

section \<open>The flag store\<close>

record pending_flag =
  pf_ClaimSays :: string
  pf_NowDoes :: string
  pf_Reason :: string
  pf_FlaggedAt :: string

record flag_store =
  fs_Version :: int
  fs_Flags :: "pending_flag gomap"

definition FlagStoreSchemaVersion :: int where
  "FlagStoreSchemaVersion = 1"

text \<open>The file after \<^verbatim>\<open>encoding/json\<close>: unknown keys, the version and the flags, where present.\<close>

record flag_file =
  ff_unknown :: bool
  ff_version :: "int option"
  ff_flags :: "pending_flag gomap option"

datatype flag_error = FlagReadFailed | FlagMalformed | FlagUnknownKey | FlagNoVersion | FlagWrongVersion int | FlagNoFlags

definition decodeFlagStore :: "flag_store \<Rightarrow> flag_file option \<Rightarrow> bool \<Rightarrow> flag_error + flag_store" where
  "decodeFlagStore s raw strict =
     (case raw of
        None \<Rightarrow> Inl FlagMalformed
      | Some f \<Rightarrow>
          if strict \<and> ff_unknown f then Inl FlagUnknownKey
          else if strict \<and> ff_version f = None then Inl FlagNoVersion
          else if strict \<and> ff_version f \<noteq> Some FlagStoreSchemaVersion
            then Inl (FlagWrongVersion (the (ff_version f)))
          else if strict \<and> ff_flags f = None then Inl FlagNoFlags
          else Inr (s\<lparr>fs_Version := (case ff_version f of None \<Rightarrow> fs_Version s | Some v \<Rightarrow> v),
                      fs_Flags := (case ff_flags f of None \<Rightarrow> fs_Flags s | Some m \<Rightarrow> m)\<rparr>))"

definition LoadFlagStore :: "flag_file disk_file \<Rightarrow> flag_error + flag_store" where
  "LoadFlagStore f =
     (let s = \<lparr>fs_Version = FlagStoreSchemaVersion, fs_Flags = []\<rparr> in
      case f of
        Absent \<Rightarrow> Inr s
      | Unreadable \<Rightarrow> Inl FlagReadFailed
      | Bytes raw \<Rightarrow>
          (case decodeFlagStore s raw False of
             Inl e \<Rightarrow> Inl e
           | Inr s1 \<Rightarrow> Inr (s1\<lparr>fs_Version := FlagStoreSchemaVersion\<rparr>)))"

definition DecodeFlagStore :: "flag_file option \<Rightarrow> flag_error + flag_store" where
  "DecodeFlagStore raw = decodeFlagStore \<lparr>fs_Version = 0, fs_Flags = []\<rparr> raw True"

definition SaveFlagStore :: "flag_store \<Rightarrow> flag_file" where
  "SaveFlagStore s = \<lparr>ff_unknown = False, ff_version = Some FlagStoreSchemaVersion, ff_flags = Some (fs_Flags s)\<rparr>"

lemma LoadFlagStore_save [simp]:
  "LoadFlagStore (Bytes (Some (SaveFlagStore s))) = Inr (s\<lparr>fs_Version := FlagStoreSchemaVersion\<rparr>)"
  by (simp add: LoadFlagStore_def decodeFlagStore_def SaveFlagStore_def)

lemma DecodeFlagStore_save [simp]:
  "DecodeFlagStore (Some (SaveFlagStore s)) = Inr (s\<lparr>fs_Version := FlagStoreSchemaVersion\<rparr>)"
  by (simp add: DecodeFlagStore_def decodeFlagStore_def SaveFlagStore_def)

section \<open>HTML text\<close>

definition escape_char :: "char \<Rightarrow> string" where
  "escape_char c =
     (if c = CHR ''&'' then ''&amp;''
      else if c = CHR 0x27 then ''&#39;''
      else if c = CHR ''<'' then ''&lt;''
      else if c = CHR ''>'' then ''&gt;''
      else if c = CHR 0x22 then ''&#34;''
      else [c])"

definition EscapeString :: "string \<Rightarrow> string" where
  "EscapeString s = concat (map escape_char s)"

definition alnum :: "char \<Rightarrow> bool" where
  "alnum c \<longleftrightarrow> in_range 48 57 c \<or> in_range 65 90 c \<or> in_range 97 122 c"

definition hex_val :: "char \<Rightarrow> nat option" where
  "hex_val c =
     (let n = (of_char c :: nat) in
      if in_range 48 57 c then Some (n - 48)
      else if in_range 97 102 c then Some (n - 87)
      else if in_range 65 70 c then Some (n - 55)
      else None)"

definition EncodeRune :: "int \<Rightarrow> string" where
  "EncodeRune r =
     (let n = nat r; b = (\<lambda>k :: nat. char_of k :: char) in
      if r < 0 \<or> r > 0x10FFFF \<or> (0xD800 \<le> r \<and> r \<le> 0xDFFF) then [b 0xEF, b 0xBF, b 0xBD]
      else if n \<le> 0x7F then [b n]
      else if n \<le> 0x7FF then [b (0xC0 + n div 64), b (0x80 + n mod 64)]
      else if n \<le> 0xFFFF then [b (0xE0 + n div 4096), b (0x80 + n div 64 mod 64), b (0x80 + n mod 64)]
      else [b (0xF0 + n div 262144), b (0x80 + n div 4096 mod 64), b (0x80 + n div 64 mod 64), b (0x80 + n mod 64)])"

text \<open>The code points that the numbers 128 to 159 stand for.\<close>

definition replacementTable :: "int list" where
  "replacementTable =
     [0x20AC, 0x0081, 0x201A, 0x0192, 0x201E, 0x2026, 0x2020, 0x2021, 0x02C6, 0x2030, 0x0160, 0x2039, 0x0152,
      0x008D, 0x017D, 0x008F, 0x0090, 0x2018, 0x2019, 0x201C, 0x201D, 0x2022, 0x2013, 0x2014, 0x02DC, 0x2122,
      0x0161, 0x203A, 0x0153, 0x009D, 0x017E, 0x0178]"

text \<open>A rune is a 32-bit signed integer: a long number wraps around.\<close>

definition numeric_rune :: "bool \<Rightarrow> string \<Rightarrow> int" where
  "numeric_rune hex ds =
     sint (fold (\<lambda>c x. of_nat (if hex then 16 else 10) * x + of_nat (case hex_val c of None \<Rightarrow> 0 | Some v \<Rightarrow> v)) ds
       (0 :: 32 word))"

definition numeric_text :: "int \<Rightarrow> string" where
  "numeric_text x =
     EncodeRune (if 0x80 \<le> x \<and> x \<le> 0x9F then replacementTable ! nat (x - 0x80)
                 else if x = 0 \<or> (0xD800 \<le> x \<and> x \<le> 0xDFFF) \<or> x > 0x10FFFF then 0xFFFD else x)"

text \<open>\<^verbatim>\<open>unescapeEntity\<close> after an ampersand: what it writes and the text it leaves.\<close>

fun prefix_entity :: "(string \<Rightarrow> string option) \<Rightarrow> string \<Rightarrow> nat \<Rightarrow> (string \<times> nat) option" where
  "prefix_entity entity name (Suc (Suc j)) =
     (case entity (take (Suc (Suc j)) name) of
        Some out \<Rightarrow> Some (out, Suc (Suc j))
      | None \<Rightarrow> prefix_entity entity name (Suc j))"
| "prefix_entity entity name j = None"

definition numeric_entity :: "string \<Rightarrow> string \<times> string" where
  "numeric_entity s =
     (let t = tl s;
          hex = (t \<noteq> [] \<and> (hd t = CHR ''x'' \<or> hd t = CHR ''X''));
          u = (if hex then tl t else t);
          digit = (\<lambda>c. if hex then hex_val c \<noteq> None else in_range 48 57 c);
          ds = takeWhile digit u;
          rest = dropWhile digit u;
          semi = (rest \<noteq> [] \<and> hd rest = CHR '';'');
          i = (if hex then 3 else 2) + length ds + (if semi then 1 else 0)
      in if length s \<le> 2 \<or> i \<le> 3 then (''&'', s)
         else (numeric_text (numeric_rune hex ds), if semi then tl rest else rest))"

definition named_entity :: "(string \<Rightarrow> string option) \<Rightarrow> string \<Rightarrow> string \<times> string" where
  "named_entity entity s =
     (let word = takeWhile alnum s;
          rest = dropWhile alnum s;
          semi = (rest \<noteq> [] \<and> hd rest = CHR '';'');
          name = word @ (if semi then '';'' else []);
          rest' = (if semi then tl rest else rest)
      in if name = [] then (''&'', s)
         else (case entity name of
                 Some out \<Rightarrow> (out, rest')
               | None \<Rightarrow>
                   (case prefix_entity entity name (min (length name - 1) 6) of
                      Some (out, j) \<Rightarrow> (out, drop j s)
                    | None \<Rightarrow> (CHR ''&'' # name, rest'))))"

definition unescapeEntity :: "(string \<Rightarrow> string option) \<Rightarrow> string \<Rightarrow> string \<times> string" where
  "unescapeEntity entity s =
     (if s = [] then (''&'', s)
      else if hd s = CHR ''#'' then numeric_entity s
      else named_entity entity s)"

lemma shorter:
  "length u \<le> n \<Longrightarrow> length (dropWhile P u) \<le> n" "length u \<le> n \<Longrightarrow> length (tl u) \<le> n"
  "length u \<le> n \<Longrightarrow> length (drop k u) \<le> n"
  using length_dropWhile_le [of P u] by auto

lemma numeric_entity_shrinks: "length (snd (numeric_entity s)) \<le> length s"
  unfolding numeric_entity_def Let_def
  by (simp del: length_tl length_drop split del: if_split) (auto intro!: shorter simp del: length_tl length_drop)

lemma named_entity_shrinks: "length (snd (named_entity entity s)) \<le> length s"
  unfolding named_entity_def Let_def
  by (auto intro!: shorter simp del: length_tl length_drop split: option.split)

lemma unescapeEntity_shrinks: "length (snd (unescapeEntity entity s)) \<le> length s"
  by (simp add: unescapeEntity_def numeric_entity_shrinks named_entity_shrinks)

function UnescapeString :: "(string \<Rightarrow> string option) \<Rightarrow> string \<Rightarrow> string" where
  "UnescapeString entity [] = []"
| "UnescapeString entity (c # s) =
     (if c = CHR ''&'' then fst (unescapeEntity entity s) @ UnescapeString entity (snd (unescapeEntity entity s))
      else c # UnescapeString entity s)"
  by pat_completeness auto

termination
  by (relation "measure (\<lambda>(entity, s). length s)") (auto simp: le_imp_less_Suc unescapeEntity_shrinks)

section \<open>The markup\<close>

definition red_open :: string where
  "red_open = ''<mark style='' @ [CHR 0x22] @ ''background:#f7c2c2;text-decoration:line-through'' @ [CHR 0x22] @ ''>''"

definition green_open :: string where
  "green_open = ''<mark style='' @ [CHR 0x22] @ ''background:#b7ebb0'' @ [CHR 0x22] @ ''>''"

definition mark_close :: string where
  "mark_close = ''</mark>''"

text \<open>The text before and after the first occurrence of a string.\<close>

fun cut_str :: "string \<Rightarrow> string \<Rightarrow> (string \<times> string) option" where
  "cut_str p [] = (if p = [] then Some ([], []) else None)"
| "cut_str p (c # s) =
     (if has_prefix (c # s) p then Some ([], drop (length p) (c # s))
      else map_option (\<lambda>(a, b). (c # a, b)) (cut_str p s))"

lemma cut_str_shrinks: "cut_str p s = Some (a, b) \<Longrightarrow> length b \<le> length s"
  by (induction s arbitrary: a) (auto split: if_splits)

text \<open>
  \<^verbatim>\<open>ReplaceAllString\<close> and \<^verbatim>\<open>ReplaceAllStringFunc\<close> of a span pattern, \<open>(?s)open.*?</mark>\<close>: the
  leftmost match with the first closing tag after it; an opening tag without one is no match.
\<close>

function replace_spans :: "string \<Rightarrow> (string \<Rightarrow> string) \<Rightarrow> string \<Rightarrow> string" where
  "replace_spans tag f [] = []"
| "replace_spans tag f (c # s) =
     (if has_prefix (c # s) tag \<and> tag \<noteq> [] then
        (case cut_str mark_close (drop (length tag) (c # s)) of
           Some (inner, rest) \<Rightarrow> f inner @ replace_spans tag f rest
         | None \<Rightarrow> c # replace_spans tag f s)
      else c # replace_spans tag f s)"
  by pat_completeness auto

termination
proof (relation "measure (\<lambda>(tag, f, s). length s)")
  fix tag and f :: "string \<Rightarrow> string" and c s x inner rest
  assume "has_prefix (c # s) tag \<and> tag \<noteq> []"
    "cut_str mark_close (drop (length tag) (c # s)) = Some x" "(inner, rest) = x"
  then have "length rest \<le> Suc (length s) - length tag" "0 < length tag"
    by (auto dest: cut_str_shrinks)
  then show "((tag, f, rest), tag, f, c # s) \<in> measure (\<lambda>(tag, f, s). length s)"
    by (cases "length tag") auto
qed auto

text \<open>\<^verbatim>\<open>anyMarkTag\<close>: the pattern \<open></?mark[^>]*>\<close>, up to the first closing bracket.\<close>

definition mark_head :: "string \<Rightarrow> string option" where
  "mark_head s =
     (if has_prefix s ''<mark'' then Some (drop 5 s)
      else if has_prefix s ''</mark'' then Some (drop 6 s) else None)"

lemma cut_at_shrinks: "cut_at d s = Some (a, b) \<Longrightarrow> length b < length s"
  by (auto simp: cut_at_Some)

function strip_tags :: "string \<Rightarrow> string" where
  "strip_tags [] = []"
| "strip_tags (c # s) =
     (case mark_head (c # s) of
        None \<Rightarrow> c # strip_tags s
      | Some t \<Rightarrow> (case cut_at CHR ''>'' t of None \<Rightarrow> c # strip_tags s | Some (_, rest) \<Rightarrow> strip_tags rest))"
  by pat_completeness auto

termination
  by (relation "measure length") (auto simp: mark_head_def dest!: cut_at_shrinks split: if_splits)

definition stripMarkup :: "(string \<Rightarrow> string option) \<Rightarrow> string \<Rightarrow> string" where
  "stripMarkup entity s =
     strip_tags (replace_spans green_open (UnescapeString entity) (replace_spans red_open (\<lambda>_. []) s))"

section \<open>Proposals\<close>

record diff =
  di_ClaimID :: string
  di_NoChange :: bool
  di_Body :: string
  di_Note :: string
  di_ResultingBody :: string
  di_SideEffects :: "string list"

datatype reaudit_error = ReauditNoID | ReauditNotPending | ReauditWrongClaim

definition reaudit_guard :: "claim \<Rightarrow> reaudit_error option" where
  "reaudit_guard c =
     (if cl_ID c = [] then Some ReauditNoID
      else if cl_Status c \<noteq> StatusLocked \<or> \<not> cl_ReviewPending c then Some ReauditNotPending
      else None)"

definition ProposeDiff :: "(string \<Rightarrow> string option) \<Rightarrow> claim \<Rightarrow> claim \<Rightarrow> reaudit_error + diff" where
  "ProposeDiff entity c changedDep =
     (case reaudit_guard c of
        Some e \<Rightarrow> Inl e
      | None \<Rightarrow>
          Inr \<lparr>di_ClaimID = cl_ID c, di_NoChange = True, di_Body = cl_Body c,
               di_Note = ''stub: ProposeDiff has no real LLM backend yet; dependency '' @ go_quote (cl_ID changedDep) @
                 '' changed but no proposal was generated'',
               di_ResultingBody = stripMarkup entity (cl_Body c), di_SideEffects = []\<rparr>)"

text \<open>\<^verbatim>\<open>strings.Replace(s, old, "", 1)\<close> for a non-empty \<open>old\<close>.\<close>

definition remove_first :: "string \<Rightarrow> string \<Rightarrow> string" where
  "remove_first s old = (case cut_str old s of None \<Rightarrow> s | Some (a, b) \<Rightarrow> a @ b)"

definition flagDiffSideEffects :: "string \<Rightarrow> string \<Rightarrow> string list" where
  "flagDiffSideEffects currentBody claimSays =
     (let remainder = (if claimSays \<noteq> [] then remove_first currentBody claimSays else currentBody);
          lost = length (filter (\<lambda>l. \<not> blank l) (split_on nl remainder))
      in if lost = 0 then []
         else [''replaces the claim'' @ [CHR 0x27] @ ''s entire body with --now-does ('' @ itoa lost @
               '' other line(s) of the current body will be removed)''])"

definition ProposeFlagDiff :: "(string \<Rightarrow> string option) \<Rightarrow> claim \<Rightarrow> pending_flag \<Rightarrow> reaudit_error + diff" where
  "ProposeFlagDiff entity c flag =
     (case reaudit_guard c of
        Some e \<Rightarrow> Inl e
      | None \<Rightarrow>
          let body = red_open @ EscapeString (pf_ClaimSays flag) @ mark_close @
                     green_open @ EscapeString (pf_NowDoes flag) @ mark_close
          in Inr \<lparr>di_ClaimID = cl_ID c, di_NoChange = False, di_Body = body,
                  di_Note = ''flagged: '' @ pf_Reason flag,
                  di_ResultingBody = stripMarkup entity body,
                  di_SideEffects = flagDiffSideEffects (cl_Body c) (pf_ClaimSays flag)\<rparr>)"

definition Apply :: "(string \<Rightarrow> string option) \<Rightarrow> claim \<Rightarrow> diff \<Rightarrow> reaudit_error + claim" where
  "Apply entity c d =
     (if di_ClaimID d \<noteq> cl_ID c then Inl ReauditWrongClaim
      else
        let note = trim_space (di_Note d);
            c1 = c\<lparr>cl_Body := stripMarkup entity (di_Body d)\<rparr>
        in Inr (if note \<noteq> [] then c1\<lparr>cl_AuditNotes := cl_AuditNotes c @ [note]\<rparr> else c1))"

section \<open>What a confirmed re-audit writes\<close>

text \<open>The references that \<open>EscapeString\<close> writes by name, in the table.\<close>

definition names_html :: "(string \<Rightarrow> string option) \<Rightarrow> bool" where
  "names_html entity \<longleftrightarrow> entity ''amp;'' = Some ''&'' \<and> entity ''lt;'' = Some ''<'' \<and> entity ''gt;'' = Some ''>''"

lemma numeric_39: "numeric_text (numeric_rune False ''39'') = [CHR 0x27]"
  by code_simp

lemma numeric_34: "numeric_text (numeric_rune False ''34'') = [CHR 0x22]"
  by code_simp

lemma unescape_escape_char:
  assumes "names_html entity"
  shows "UnescapeString entity (escape_char c @ s) = c # UnescapeString entity s"
proof -
  have "in_range 48 57 CHR ''3''" "in_range 48 57 CHR ''4''" "in_range 48 57 CHR ''9''" "\<not> in_range 48 57 CHR '';''"
    by code_simp+
  moreover have "alnum CHR ''a''" "alnum CHR ''m''" "alnum CHR ''p''" "alnum CHR ''l''" "alnum CHR ''t''" "alnum CHR ''g''"
      "\<not> alnum CHR '';''"
    by code_simp+
  ultimately show ?thesis using assms numeric_39 numeric_34
    by (auto simp: escape_char_def unescapeEntity_def numeric_entity_def named_entity_def names_html_def)
qed

lemma html_roundtrip: "names_html entity \<Longrightarrow> UnescapeString entity (EscapeString s) = s"
  by (induction s) (auto simp: EscapeString_def unescape_escape_char)

lemma EscapeString_no_tag: "CHR ''<'' \<notin> set (EscapeString s)"
  by (auto simp: EscapeString_def escape_char_def split: if_splits)

lemma has_prefix_no_tag: "CHR ''<'' \<notin> set u \<Longrightarrow> has_prefix (u @ s) (CHR ''<'' # p) \<longleftrightarrow> u = [] \<and> has_prefix s (CHR ''<'' # p)"
  by (cases u) auto

lemma cut_str_no_tag:
  "CHR ''<'' \<notin> set u \<Longrightarrow> p = CHR ''<'' # q \<Longrightarrow> cut_str p (u @ p @ s) = Some (u, s)"
proof (induction u)
  case Nil
  then show ?case by (cases "p @ s") (auto simp: has_prefix_iff)
next
  case (Cons c u)
  then show ?case by auto
qed

lemma replace_no_tag:
  "CHR ''<'' \<notin> set u \<Longrightarrow> replace_spans (CHR ''<'' # p) f (u @ s) = u @ replace_spans (CHR ''<'' # p) f s"
  by (induction u) auto

lemma strip_no_tag: "CHR ''<'' \<notin> set u \<Longrightarrow> strip_tags (u @ s) = u @ strip_tags s"
  by (induction u) (auto simp: mark_head_def)

lemma strip_tags_id: "CHR ''<'' \<notin> set u \<Longrightarrow> strip_tags u = u"
  using strip_no_tag [of u "[]"] by simp

lemma replace_id: "CHR ''<'' \<notin> set u \<Longrightarrow> replace_spans (CHR ''<'' # p) f u = u"
  using replace_no_tag [of u p f "[]"] by simp

lemma open_heads:
  "red_open = CHR ''<'' # tl red_open" "green_open = CHR ''<'' # tl green_open" "mark_close = CHR ''<'' # tl mark_close"
  by (simp_all add: red_open_def green_open_def mark_close_def)

lemma replace_span:
  assumes "tag = CHR ''<'' # p" "CHR ''<'' \<notin> set u"
  shows "replace_spans tag f (tag @ u @ mark_close @ s) = f u @ replace_spans tag f s"
proof -
  have "cut_str mark_close (u @ mark_close @ s) = Some (u, s)"
    using assms(2) open_heads(3) by (rule cut_str_no_tag)
  moreover have "has_prefix (tag @ v) tag" for v by (auto simp: has_prefix_iff)
  ultimately show ?thesis using assms(1) by (auto simp: assms(1))
qed

lemma replace_other:
  assumes "tag = CHR ''<'' # p" "t = CHR ''<'' # q" "CHR ''<'' \<notin> set q" "\<not> has_prefix (t @ s) tag"
  shows "replace_spans tag f (t @ s) = t @ replace_spans tag f s"
proof -
  have "replace_spans tag f (t @ s) = CHR ''<'' # replace_spans tag f (q @ s)"
    using assms(2,4) by simp
  then show ?thesis using replace_no_tag [OF assms(3)] assms(1,2) by simp
qed

lemma stripMarkup_flag:
  assumes "names_html entity"
  shows "stripMarkup entity (red_open @ EscapeString says @ mark_close @ green_open @ EscapeString does @ mark_close) =
    strip_tags does"
proof -
  have green: "\<not> has_prefix (green_open @ s) red_open" for s
    by (simp add: green_open_def red_open_def)
  have close: "\<not> has_prefix (mark_close @ s) red_open" for s
    by (simp add: mark_close_def red_open_def)
  have "replace_spans red_open (\<lambda>_. []) (green_open @ EscapeString does @ mark_close) =
      green_open @ EscapeString does @ replace_spans red_open (\<lambda>_. []) (mark_close @ [])"
    using replace_other [OF open_heads(1,2) _ green [of "EscapeString does @ mark_close"], of "\<lambda>_. []"]
      replace_no_tag [OF EscapeString_no_tag, of "tl red_open"] open_heads(1)
    by (simp add: green_open_def)
  also have "replace_spans red_open (\<lambda>_. []) (mark_close @ []) = mark_close @ []"
    using replace_other [OF open_heads(1,3) _ close [of "[]"], of "\<lambda>_. []"] by (simp add: mark_close_def)
  finally have "replace_spans red_open (\<lambda>_. []) (green_open @ EscapeString does @ mark_close) =
      green_open @ EscapeString does @ mark_close @ []" .
  then have "replace_spans red_open (\<lambda>_. []) (red_open @ EscapeString says @ mark_close @ green_open @ EscapeString does @ mark_close) =
      green_open @ EscapeString does @ mark_close @ []"
    using replace_span [OF open_heads(1) EscapeString_no_tag, of "\<lambda>_. []" says "green_open @ EscapeString does @ mark_close"]
    by simp
  then show ?thesis unfolding stripMarkup_def
    using replace_span [OF open_heads(2) EscapeString_no_tag, of "UnescapeString entity" does "[]"]
      html_roundtrip [OF assms] by simp
qed

lemma strip_tags_unmarked:
  "\<not> contains_str s ''<mark'' \<Longrightarrow> \<not> contains_str s ''</mark'' \<Longrightarrow> strip_tags s = s"
proof (induction s)
  case (Cons c s)
  then have "mark_head (c # s) = None" by (simp add: mark_head_def)
  with Cons show ?case by simp
qed simp

lemma flagged_note: "trim_space (''flagged: '' @ r) \<noteq> []"
  using not_blank_head [of "CHR ''f''" "''lagged: '' @ r"] by (simp add: blank_def space_heads_def)

text \<open>
  C14: A confirmed re-audit of a flagged claim writes what the proposal announced as the resulting body:
  the flag's new text, less anything in it that looks like a \<^verbatim>\<open>mark\<close> tag. It appends the reason to the
  audit notes and changes nothing else.
\<close>

theorem flag_reaudit_body:
  assumes "names_html entity" "ProposeFlagDiff entity c flag = Inr d"
  shows "cl_Status c = StatusLocked \<and> cl_ReviewPending c \<and>
    di_ResultingBody d = strip_tags (pf_NowDoes flag) \<and>
    Apply entity c d = Inr (c\<lparr>cl_Body := di_ResultingBody d,
      cl_AuditNotes := cl_AuditNotes c @ [trim_space (''flagged: '' @ pf_Reason flag)]\<rparr>) \<and>
    (\<not> contains_str (pf_NowDoes flag) ''<mark'' \<and> \<not> contains_str (pf_NowDoes flag) ''</mark'' \<longrightarrow>
       di_ResultingBody d = pf_NowDoes flag)"
proof -
  from assms(2) have guard: "cl_Status c = StatusLocked" "cl_ReviewPending c"
    and d: "di_ClaimID d = cl_ID c" "di_Note d = ''flagged: '' @ pf_Reason flag"
      "di_Body d = red_open @ EscapeString (pf_ClaimSays flag) @ mark_close @ green_open @ EscapeString (pf_NowDoes flag) @ mark_close"
      "di_ResultingBody d = stripMarkup entity (di_Body d)"
    by (auto simp: ProposeFlagDiff_def reaudit_guard_def Let_def split: option.splits if_splits)
  have body: "di_ResultingBody d = strip_tags (pf_NowDoes flag)"
    unfolding d(4) d(3) by (rule stripMarkup_flag [OF assms(1)])
  moreover have "Apply entity c d = Inr (c\<lparr>cl_Body := di_ResultingBody d,
      cl_AuditNotes := cl_AuditNotes c @ [trim_space (''flagged: '' @ pf_Reason flag)]\<rparr>)"
    using flagged_note [of "pf_Reason flag"] by (simp add: Apply_def d(1,2) d(4) [symmetric] Let_def)
  ultimately show ?thesis using guard strip_tags_unmarked by auto
qed

definition html_table :: "string \<Rightarrow> string option" where
  "html_table = [''amp;'' \<mapsto> ''&'', ''lt;'' \<mapsto> ''<'', ''gt;'' \<mapsto> ''>'']"

definition pending_claim :: claim where
  "pending_claim = zero_claim\<lparr>cl_ID := ''m.contract.a'', cl_Status := StatusLocked, cl_ReviewPending := True,
     cl_Body := ''see <markdown>''\<rparr>"

definition one_flag :: pending_flag where
  "one_flag = \<lparr>pf_ClaimSays = ''old'', pf_NowDoes = ''a < b & c'', pf_Reason = ''r'', pf_FlaggedAt = []\<rparr>"

theorem flag_reaudit_body_witness:
  "\<exists>d c'. ProposeFlagDiff html_table pending_claim one_flag = Inr d \<and>
     Apply html_table pending_claim d = Inr c' \<and> cl_Body c' = ''a < b & c'' \<and> cl_AuditNotes c' = [''flagged: r'']"
proof -
  have table: "names_html html_table" by (simp add: names_html_def html_table_def)
  obtain d where d: "ProposeFlagDiff html_table pending_claim one_flag = Inr d"
    by (simp add: ProposeFlagDiff_def reaudit_guard_def pending_claim_def Let_def)
  have "trim_space (''flagged: '' @ pf_Reason one_flag) = ''flagged: r''" by code_simp
  moreover have "strip_tags (pf_NowDoes one_flag) = ''a < b & c''" by code_simp
  ultimately show ?thesis using flag_reaudit_body [OF table d] d by (auto simp: pending_claim_def zero_claim_def)
qed

text \<open>
  The tag pattern also matches words that merely begin like the tag. A re-audit that proposes no
  change deletes such a word from the body, and so does one that writes a flag's text.
\<close>

theorem reaudit_drops_words:
  "(\<exists>d c'. ProposeDiff entity pending_claim dep = Inr d \<and> di_NoChange d \<and> Apply entity pending_claim d = Inr c' \<and>
      cl_Body pending_claim = ''see <markdown>'' \<and> cl_Body c' = ''see '') \<and>
   stripMarkup entity (cl_Body pending_claim) \<noteq> cl_Body pending_claim \<and>
   strip_tags ''use <markup> here'' = ''use  here''"
proof -
  have body: "stripMarkup entity ''see <markdown>'' = ''see ''"
    by (simp add: stripMarkup_def red_open_def green_open_def mark_head_def)
  have tags: "strip_tags ''use <markup> here'' = ''use  here''" by (simp add: mark_head_def)
  show ?thesis using body tags
    by (auto simp: ProposeDiff_def reaudit_guard_def pending_claim_def Apply_def Let_def)
qed

end
