(* ===== verification/Set_Lock.thy ===== *)
theory Set_Lock
  imports Proposal Reaudit
begin

text \<open>
  The approval write path (\<^verbatim>\<open>runPolicySetLock\<close> of \<^verbatim>\<open>cmd/dossierx/lock_policy.go\<close>) over an explicit
  file system: the claim files in walk order, the two store files, the flag store, and a counter of the claim writes
  attempted so far, by which \<open>os\<close> says whether the operating system lets one through. A file's
  content is the claim it decodes to and its token is that content. Parsing and emitting YAML are not
  under \<^verbatim>\<open>src/\<close>: \<open>storable\<close> says which claims the emitter can read back. The repository guard and the
  constitution gate are arguments, and so is the test seam \<open>fault\<close>.
\<close>

section \<open>Claim files\<close>

record world =
  wd_files :: "claim gomap"
  wd_disk :: disk
  wd_flags :: "flag_file disk_file"
  wd_flagWritable :: bool
  wd_tick :: nat

definition loadClaims :: "world \<Rightarrow> claim list" where
  "loadClaims w = map snd (wd_files w)"

definition world_ok :: "world \<Rightarrow> bool" where
  "world_ok w \<longleftrightarrow>
     gm_wf (wd_files w) \<and> (\<forall>(p, c) \<in> set (wd_files w). cl_SourcePath c = p) \<and>
     distinct (known_ids (loadClaims w))"

datatype save_error = NoSourcePath | RereadFailed | ClaimFileChanged | NotRoundTrippable | FileWriteFailed

definition CaptureClaimFileToken :: "string \<Rightarrow> world \<Rightarrow> claim option" where
  "CaptureClaimFileToken path w = gm_get (wd_files w) path"

definition SaveClaimIfUnchanged ::
  "(nat \<Rightarrow> bool) \<Rightarrow> (claim \<Rightarrow> bool) \<Rightarrow> claim \<Rightarrow> claim \<Rightarrow> world \<Rightarrow> save_error option \<times> world" where
  "SaveClaimIfUnchanged os storable c want w =
     (if blank (cl_SourcePath c) then (Some NoSourcePath, w)
      else
        (case gm_get (wd_files w) (cl_SourcePath c) of
           None \<Rightarrow> (Some RereadFailed, w)
         | Some current \<Rightarrow>
             if current \<noteq> want then (Some ClaimFileChanged, w)
             else if \<not> storable c then (Some NotRoundTrippable, w)
             else if \<not> os (wd_tick w) then (Some FileWriteFailed, w\<lparr>wd_tick := Suc (wd_tick w)\<rparr>)
             else (None, w\<lparr>wd_files := gm_put (cl_SourcePath c) c (wd_files w), wd_tick := Suc (wd_tick w)\<rparr>)))"

section \<open>The recovery of a failed write\<close>

text \<open>\<^verbatim>\<open>readOptional\<close>: the content of a file, or nothing, whatever the reason it cannot be read.\<close>

definition readOptional :: "'f disk_file \<Rightarrow> 'f option option" where
  "readOptional f = (case f of Bytes raw \<Rightarrow> Some raw | _ \<Rightarrow> None)"

text \<open>\<^verbatim>\<open>restoreOptional\<close>: remove the file, where there was none, or write back what it held.\<close>

definition restoreOptional :: "bool \<Rightarrow> 'f option option \<Rightarrow> 'f disk_file \<Rightarrow> bool \<times> 'f disk_file" where
  "restoreOptional writable raw f =
     (case raw of
        None \<Rightarrow> if f = Absent then (True, f) else if writable then (True, Absent) else (False, f)
      | Some b \<Rightarrow> if writable then (True, Bytes b) else (False, f))"

fun rollback_claims ::
  "(nat \<Rightarrow> bool) \<Rightarrow> (claim \<Rightarrow> bool) \<Rightarrow> claim gomap \<Rightarrow> string list \<Rightarrow> world \<Rightarrow> string list \<times> world" where
  "rollback_claims os storable originals [] w = ([], w)"
| "rollback_claims os storable originals (i # is) w =
     (let orig = (case gm_get originals i of None \<Rightarrow> zero_claim | Some c \<Rightarrow> c);
          (bad, w1) =
            (case CaptureClaimFileToken (cl_SourcePath orig) w of
               None \<Rightarrow> (True, w)
             | Some current \<Rightarrow>
                 (case SaveClaimIfUnchanged os storable orig current w of
                    (None, w1) \<Rightarrow> (False, w1)
                  | (Some _, w1) \<Rightarrow> (True, w1)));
          (failures, w2) = rollback_claims os storable originals is w1
      in ((if bad then [i] else []) @ failures, w2))"

definition StoreFileName :: string where
  "StoreFileName = ''lock-store.json''"

definition DigestFileName :: string where
  "DigestFileName = ''comment-digest.json''"

definition rollback ::
  "(nat \<Rightarrow> bool) \<Rightarrow> (claim \<Rightarrow> bool) \<Rightarrow> claim gomap \<Rightarrow> store_file option option \<Rightarrow> digest_file option option \<Rightarrow>
   string list \<Rightarrow> world \<Rightarrow> string list \<times> world" where
  "rollback os storable originals storeRaw digestRaw written w =
     (let (failures, w1) = rollback_claims os storable originals written w;
          (ok1, store_f) = restoreOptional (dk_storeWritable (wd_disk w1)) storeRaw (dk_store (wd_disk w1));
          (ok2, digest_f) = restoreOptional (dk_writable (wd_disk w1)) digestRaw (dk_digests (wd_disk w1))
      in (failures @ (if ok1 then [] else [StoreFileName]) @ (if ok2 then [] else [DigestFileName]),
          w1\<lparr>wd_disk := (wd_disk w1)\<lparr>dk_store := store_f, dk_digests := digest_f\<rparr>\<rparr>))"

section \<open>The write path\<close>

datatype lock_outcome =
    GitRefused
  | StoreLoadFailed store_error
  | RoofRefused
  | CrossRefused cross_error
  | ProposalRequired
  | ProposalRejected string
  | SetRefused set_evaluation
  | TokenFailed
  | Disappeared
  | WriteFailed "string list"
  | ApprovedSet set_evaluation string

fun capture_originals :: "string list \<Rightarrow> claim list \<Rightarrow> world \<Rightarrow> claim gomap \<times> claim gomap \<Rightarrow> (claim gomap \<times> claim gomap) option" where
  "capture_originals requested [] w ot = Some ot"
| "capture_originals requested (c # cs) w (originals, tokens) =
     (if cl_ID c \<notin> set requested then capture_originals requested cs w (originals, tokens)
      else
        (case CaptureClaimFileToken (cl_SourcePath c) w of
           None \<Rightarrow> None
         | Some token \<Rightarrow>
             capture_originals requested cs w (gm_put (cl_ID c) c originals, gm_put (cl_ID c) token tokens)))"

fun write_claims ::
  "(nat \<Rightarrow> bool) \<Rightarrow> (claim \<Rightarrow> bool) \<Rightarrow> (string \<Rightarrow> string \<Rightarrow> bool) \<Rightarrow> string list \<Rightarrow> claim gomap \<Rightarrow> claim list \<Rightarrow>
   string list \<times> world \<Rightarrow> bool \<times> string list \<times> world" where
  "write_claims os storable fault requested tokens [] (written, w) = (True, written, w)"
| "write_claims os storable fault requested tokens (c # cs) (written, w) =
     (if cl_ID c \<notin> set requested then write_claims os storable fault requested tokens cs (written, w)
      else
        (case gm_get tokens (cl_ID c) of
           None \<Rightarrow> (False, written, w)
         | Some token \<Rightarrow>
             (case SaveClaimIfUnchanged os storable c token w of
                (Some _, w1) \<Rightarrow> (False, written, w1)
              | (None, w1) \<Rightarrow>
                  if fault ''after_claim_write'' (cl_ID c) then (False, written @ [cl_ID c], w1)
                  else write_claims os storable fault requested tokens cs (written @ [cl_ID c], w1))))"

fun approve_claims ::
  "(string \<Rightarrow> string) \<Rightarrow> string \<Rightarrow> approval \<Rightarrow> string list \<Rightarrow> claim list \<Rightarrow> claim list \<Rightarrow> store \<times> disk \<Rightarrow> store \<times> disk" where
  "approve_claims sha now ap requested finals [] sd = sd"
| "approve_claims sha now ap requested finals (c # cs) (s, dk) =
     (if cl_ID c \<notin> set requested then approve_claims sha now ap requested finals cs (s, dk)
      else approve_claims sha now ap requested finals cs
             (RecordApproval sha now c ap (RefreshBaseline sha now c finals s, dk)))"

record lock_call =
  lc_Registry :: "lint_rule list"
  lc_Config :: "lint_config option"
  lc_Path :: string
  lc_Now :: string
  lc_Actor :: string
  lc_Reason :: string
  lc_IDs :: "string list"
  lc_Proposal :: string
  lc_Conflicts :: "semantic_conflict list"
  lc_CarrierOk :: bool
  lc_RoofOk :: "store \<Rightarrow> bool"

text \<open>From the capture of the originals to the end, with the set evaluated and allowed.\<close>

definition write_set ::
  "(nat \<Rightarrow> bool) \<Rightarrow> (claim \<Rightarrow> bool) \<Rightarrow> (string \<Rightarrow> string \<Rightarrow> bool) \<Rightarrow> (string \<Rightarrow> string) \<Rightarrow> lock_call \<Rightarrow>
   set_evaluation \<Rightarrow> claim list \<Rightarrow> store \<Rightarrow> world \<Rightarrow> lock_outcome \<times> world" where
  "write_set os storable fault sha call e claims s w =
     (let requested = se_RequestedIDs e in
      case capture_originals requested claims w ([], []) of
        None \<Rightarrow> (TokenFailed, w)
      | Some (originals, tokens) \<Rightarrow>
          if length originals \<noteq> length requested then (Disappeared, w)
          else
            let storeRaw = readOptional (dk_store (wd_disk w));
                digestRaw = readOptional (dk_digests (wd_disk w));
                finals = candidate_claims requested claims;
                recover = (\<lambda>written w. let (failures, w') = rollback os storable originals storeRaw digestRaw written w
                                        in (WriteFailed failures, w'));
                (ok, written, w1) = write_claims os storable fault requested tokens finals ([], w)
            in if \<not> ok then recover written w1
               else
                 let ap = \<lparr>ap_Actor = lc_Actor call, ap_Reason = lc_Reason call\<rparr>;
                     (s1, dk1) = approve_claims sha (lc_Now call) ap requested finals finals (s, wd_disk w1);
                     w2 = w1\<lparr>wd_disk := dk1\<rparr>
                 in if fault ''before_store_save'' [] then recover written w2
                    else
                      (case Save s1 dk1 of
                         (False, dk2) \<Rightarrow> recover written (w2\<lparr>wd_disk := dk2\<rparr>)
                       | (True, dk2) \<Rightarrow>
                           (ApprovedSet e
                              (case requested of
                                 [i] \<Rightarrow> (case gm_get (st_LockedAt s1) i of None \<Rightarrow> [] | Some t \<Rightarrow> t)
                               | _ \<Rightarrow> []),
                            w2\<lparr>wd_disk := dk2\<rparr>)))"

definition runPolicySetLock ::
  "(nat \<Rightarrow> bool) \<Rightarrow> (claim \<Rightarrow> bool) \<Rightarrow> (string \<Rightarrow> string \<Rightarrow> bool) \<Rightarrow> (string \<Rightarrow> string) \<Rightarrow> lock_call \<Rightarrow> world \<Rightarrow> lock_outcome \<times> world" where
  "runPolicySetLock os storable fault sha call w =
     (if \<not> lc_CarrierOk call then (GitRefused, w)
      else
        let claims = loadClaims w in
        case LoadStore (lc_Now call) (dk_store (wd_disk w)) (lc_Path call) of
          Inl err \<Rightarrow> (StoreLoadFailed err, w)
        | Inr s0 \<Rightarrow>
            if \<not> lc_RoofOk call s0 then (RoofRefused, w)
            else
              (case CrossPreLedger s0 (wd_disk w) claims of
                 (Some err, _, dk) \<Rightarrow> (CrossRefused err, w\<lparr>wd_disk := dk\<rparr>)
               | (None, s, dk) \<Rightarrow>
                   let w1 = w\<lparr>wd_disk := dk\<rparr>;
                       e = EvaluateSetWithSemanticConflicts (lc_Registry call) claims (lc_IDs call) (lc_Config call)
                             (Some (s, dk)) (lc_Conflicts call);
                       snapshot = policySnapshot sha claims (se_RequestedIDs e)
                   in if lc_Proposal call = [] then (ProposalRequired, w1)
                      else if lc_Proposal call \<noteq> snapshot then
                        (ProposalRejected (proposalMismatch (lc_Proposal call) (se_RequestedIDs e)), w1)
                      else if \<not> Allowed e then (SetRefused e, w1)
                      else write_set os storable fault sha call e claims s w1))"

section \<open>Facts about single steps\<close>

lemma world_ok_file: "world_ok w \<Longrightarrow> c \<in> set (loadClaims w) \<longleftrightarrow> gm_get (wd_files w) (cl_SourcePath c) = Some c"
  unfolding world_ok_def loadClaims_def using gm_get_mem [of "wd_files w"] by force

lemma world_ok_path: "world_ok w \<Longrightarrow> gm_get (wd_files w) p = Some c \<Longrightarrow> cl_SourcePath c = p \<and> c \<in> set (loadClaims w)"
  unfolding world_ok_def loadClaims_def by (force dest: map_of_SomeD)

lemma world_ok_ids: "world_ok w \<Longrightarrow> distinct (known_ids (loadClaims w))"
  by (simp add: world_ok_def)

lemma same_id: "world_ok w \<Longrightarrow> c \<in> set (loadClaims w) \<Longrightarrow> d \<in> set (loadClaims w) \<Longrightarrow> cl_ID c = cl_ID d \<Longrightarrow> c = d"
  using world_ok_ids [of w] by (auto simp: known_ids_def distinct_map dest: inj_onD)

lemma Save_fails: "fst (SaveClaimIfUnchanged os storable c want w) \<noteq> None \<Longrightarrow>
   wd_files (snd (SaveClaimIfUnchanged os storable c want w)) = wd_files w"
  by (auto simp: SaveClaimIfUnchanged_def split: option.split)

lemma Save_works: "fst (SaveClaimIfUnchanged os storable c want w) = None \<Longrightarrow>
   wd_files (snd (SaveClaimIfUnchanged os storable c want w)) = gm_put (cl_SourcePath c) c (wd_files w)"
  by (auto simp: SaveClaimIfUnchanged_def split: option.splits if_splits)

lemma Save_disk [simp]: "wd_disk (snd (SaveClaimIfUnchanged os storable c want w)) = wd_disk w"
  by (auto simp: SaveClaimIfUnchanged_def split: option.split)

lemma capture_spec:
  assumes w: "world_ok w"
  shows "set cs \<subseteq> set (loadClaims w) \<Longrightarrow> distinct (known_ids cs) \<Longrightarrow>
    capture_originals R cs w (m, m) = Some (originals, tokens) \<Longrightarrow>
    tokens = originals \<and>
    (\<forall>i c. gm_get originals i = Some c \<longleftrightarrow>
       (c \<in> set cs \<and> cl_ID c = i \<and> i \<in> set R) \<or> ((i \<in> set R \<longrightarrow> i \<notin> set (known_ids cs)) \<and> gm_get m i = Some c))"
proof (induction cs arbitrary: m)
  case Nil
  then show ?case by (auto simp: known_ids_def)
next
  case (Cons d cs)
  show ?case
  proof (cases "cl_ID d \<in> set R")
    case False
    with Cons.IH [of m] Cons.prems show ?thesis by (fastforce simp: known_ids_def)
  next
    case True
    have "CaptureClaimFileToken (cl_SourcePath d) w = Some d"
      using Cons.prems(1) world_ok_file [OF w, of d] by (simp add: CaptureClaimFileToken_def)
    then have cap: "capture_originals R cs w (gm_put (cl_ID d) d m, gm_put (cl_ID d) d m) = Some (originals, tokens)"
      using Cons.prems(3) True by simp
    show ?thesis
      using Cons.IH [OF _ _ cap] Cons.prems(1,2) True by (auto simp: known_ids_def)
  qed
qed

lemma capture_total:
  assumes w: "world_ok w"
  shows "set cs \<subseteq> set (loadClaims w) \<Longrightarrow> capture_originals R cs w ot \<noteq> None"
proof (induction cs arbitrary: ot)
  case (Cons d cs)
  have "CaptureClaimFileToken (cl_SourcePath d) w = Some d"
    using Cons.prems(1) world_ok_file [OF w, of d] by (simp add: CaptureClaimFileToken_def)
  with Cons show ?case by (cases ot) simp
qed simp

lemma write_claims_frame:
  assumes "write_claims os storable fault R tokens cs (written, w) = (ok, written', w')"
  shows "wd_disk w' = wd_disk w \<and> set written \<subseteq> set written' \<and>
    set written' \<subseteq> set written \<union> (set R \<inter> set (known_ids cs)) \<and>
    (\<forall>p. gm_get (wd_files w') p \<noteq> gm_get (wd_files w) p \<longrightarrow>
       (\<exists>c \<in> set cs. cl_SourcePath c = p \<and> cl_ID c \<in> set written'))"
  using assms
proof (induction cs arbitrary: written w)
  case Nil
  then show ?case by simp
next
  case (Cons c cs)
  show ?case
  proof (cases "cl_ID c \<in> set R")
    case False
    with Cons.IH [of written w] Cons.prems show ?thesis by (fastforce simp: known_ids_def)
  next
    case True
    show ?thesis
    proof (cases "gm_get tokens (cl_ID c)")
      case None
      with True Cons.prems show ?thesis by simp
    next
      case (Some token)
      let ?save = "SaveClaimIfUnchanged os storable c token w"
      show ?thesis
      proof (cases "fst ?save")
        case (Some err)
        with True \<open>gm_get tokens (cl_ID c) = Some token\<close> Cons.prems have "w' = snd ?save" "written' = written"
          by (cases ?save; simp)+
        with Some show ?thesis using Save_fails [of os storable c token w] by simp
      next
        case None
        then have files: "wd_files (snd ?save) = gm_put (cl_SourcePath c) c (wd_files w)" by (rule Save_works)
        show ?thesis
        proof (cases "fault ''after_claim_write'' (cl_ID c)")
          case fault: True
          with True None Some Cons.prems have "w' = snd ?save" "written' = written @ [cl_ID c]"
            by (cases ?save; simp)+
          with files True show ?thesis by (auto simp: known_ids_def)
        next
          case False
          with True None Some Cons.prems
          have rec: "write_claims os storable fault R tokens cs (written @ [cl_ID c], snd ?save) = (ok, written', w')"
            by (cases ?save; simp)
          note ih = Cons.IH [OF rec]
          then have mem: "cl_ID c \<in> set written'" by auto
          have "\<exists>d \<in> set (c # cs). cl_SourcePath d = p \<and> cl_ID d \<in> set written'"
            if "gm_get (wd_files w') p \<noteq> gm_get (wd_files w) p" for p
          proof (cases "p = cl_SourcePath c")
            case False
            then have "gm_get (wd_files w') p \<noteq> gm_get (wd_files (snd ?save)) p" using that files by simp
            with ih show ?thesis by auto
          qed (use mem in auto)
          moreover have "set written' \<subseteq> set written \<union> (set R \<inter> set (known_ids (c # cs)))"
            using ih True by (auto simp: known_ids_def)
          ultimately show ?thesis using ih by auto
        qed
      qed
    qed
  qed
qed

lemma write_claims_done:
  assumes "write_claims os storable fault R tokens cs (written, w) = (True, written', w')"
    and "distinct (map cl_SourcePath cs)" "c \<in> set cs"
  shows "gm_get (wd_files w') (cl_SourcePath c) =
    (if cl_ID c \<in> set R then Some c else gm_get (wd_files w) (cl_SourcePath c))"
  using assms
proof (induction cs arbitrary: written w)
  case (Cons d cs)
  show ?case
  proof (cases "cl_ID d \<in> set R")
    case False
    then have rec: "write_claims os storable fault R tokens cs (written, w) = (True, written', w')"
      using Cons.prems(1) by simp
    show ?thesis
    proof (cases "c \<in> set cs")
      case True
      with Cons.IH [OF rec] Cons.prems(2) show ?thesis by simp
    next
      case other: False
      then have c: "c = d" and free: "\<forall>e \<in> set cs. cl_SourcePath e \<noteq> cl_SourcePath c"
        using Cons.prems(2,3) by (auto simp: image_iff)
      have "gm_get (wd_files w') (cl_SourcePath c) = gm_get (wd_files w) (cl_SourcePath c)"
        using write_claims_frame [OF rec] free by metis
      with False c show ?thesis by simp
    qed
  next
    case True
    then obtain token where token: "gm_get tokens (cl_ID d) = Some token"
      using Cons.prems(1) by (auto split: option.splits)
    let ?save = "SaveClaimIfUnchanged os storable d token w"
    have ok: "fst ?save = None" and rec: "write_claims os storable fault R tokens cs (written @ [cl_ID d], snd ?save) = (True, written', w')"
      using Cons.prems(1) True token by (auto split: prod.splits option.splits if_splits)
    note files = Save_works [OF ok]
    show ?thesis
    proof (cases "c \<in> set cs")
      case in_rest: True
      moreover have "cl_SourcePath c \<noteq> cl_SourcePath d" using in_rest Cons.prems(2) by (auto simp: image_iff)
      ultimately show ?thesis using Cons.IH [OF rec] Cons.prems(2) files by simp
    next
      case other: False
      then have c: "c = d" and free: "\<forall>e \<in> set cs. cl_SourcePath e \<noteq> cl_SourcePath c"
        using Cons.prems(2,3) by (auto simp: image_iff)
      have "gm_get (wd_files w') (cl_SourcePath c) = gm_get (wd_files (snd ?save)) (cl_SourcePath c)"
        using write_claims_frame [OF rec] free by metis
      with True c files show ?thesis by simp
    qed
  qed
qed simp

lemma rollback_claims_spec:
  assumes "rollback_claims os storable originals is w = (failures, w')"
    and "\<And>i. i \<in> set is \<Longrightarrow> \<exists>c. gm_get originals i = Some c"
    and "\<And>i j c d. gm_get originals i = Some c \<Longrightarrow> gm_get originals j = Some d \<Longrightarrow>
           cl_SourcePath c = cl_SourcePath d \<Longrightarrow> i = j"
  shows "wd_disk w' = wd_disk w \<and> set failures \<subseteq> set is \<and>
    (\<forall>p. gm_get (wd_files w') p \<noteq> gm_get (wd_files w) p \<longrightarrow>
       (\<exists>i \<in> set is. \<exists>c. gm_get originals i = Some c \<and> cl_SourcePath c = p)) \<and>
    (\<forall>i \<in> set is. \<forall>c. gm_get originals i = Some c \<longrightarrow>
       i \<in> set failures \<or> gm_get (wd_files w') (cl_SourcePath c) = Some c)"
  using assms(1,2)
proof (induction "is" arbitrary: w failures)
  case Nil
  then show ?case by simp
next
  case (Cons i "is")
  obtain orig where orig: "gm_get originals i = Some orig" using Cons.prems(2) by auto
  define step where "step = (case CaptureClaimFileToken (cl_SourcePath orig) w of
       None \<Rightarrow> (True, w)
     | Some current \<Rightarrow>
         (case SaveClaimIfUnchanged os storable orig current w of
            (None, w1) \<Rightarrow> (False, w1)
          | (Some _, w1) \<Rightarrow> (True, w1)))"
  obtain bad w1 where step1: "step = (bad, w1)" by (cases step)
  obtain fs w2 where rest: "rollback_claims os storable originals is w1 = (fs, w2)"
    by (cases "rollback_claims os storable originals is w1")
  have res: "failures = (if bad then [i] else []) @ fs" "w' = w2"
    using Cons.prems(1) rest step1 orig unfolding step_def [symmetric] by (auto simp: Let_def step_def)
  have disk: "wd_disk w1 = wd_disk w"
    and changed: "\<forall>p. gm_get (wd_files w1) p \<noteq> gm_get (wd_files w) p \<longrightarrow> p = cl_SourcePath orig"
    and good: "\<not> bad \<Longrightarrow> gm_get (wd_files w1) (cl_SourcePath orig) = Some orig"
  proof -
    have "wd_disk w1 = wd_disk w \<and> (\<forall>p. gm_get (wd_files w1) p \<noteq> gm_get (wd_files w) p \<longrightarrow> p = cl_SourcePath orig) \<and>
        (\<not> bad \<longrightarrow> gm_get (wd_files w1) (cl_SourcePath orig) = Some orig)"
    proof (cases "CaptureClaimFileToken (cl_SourcePath orig) w")
      case None
      with step1 show ?thesis by (simp add: step_def)
    next
      case (Some cur)
      let ?s = "SaveClaimIfUnchanged os storable orig cur w"
      show ?thesis
      proof (cases "fst ?s")
        case None
        with Some step1 have "w1 = snd ?s" by (cases ?s) (simp add: step_def)
        with Save_works [OF None] show ?thesis by simp
      next
        case (Some err)
        with \<open>CaptureClaimFileToken _ w = Some cur\<close> step1 have "bad" "w1 = snd ?s" by (cases ?s; simp add: step_def)+
        with Some Save_fails [of os storable orig cur w] show ?thesis by simp
      qed
    qed
    then show "wd_disk w1 = wd_disk w" "\<forall>p. gm_get (wd_files w1) p \<noteq> gm_get (wd_files w) p \<longrightarrow> p = cl_SourcePath orig"
      "\<not> bad \<Longrightarrow> gm_get (wd_files w1) (cl_SourcePath orig) = Some orig" by blast+
  qed
  have rest': "rollback_claims os storable originals is w1 = (fs, w')" using rest res by simp
  have ih: "wd_disk w2 = wd_disk w1 \<and> set fs \<subseteq> set is \<and>
    (\<forall>p. gm_get (wd_files w2) p \<noteq> gm_get (wd_files w1) p \<longrightarrow>
       (\<exists>i \<in> set is. \<exists>c. gm_get originals i = Some c \<and> cl_SourcePath c = p)) \<and>
    (\<forall>i \<in> set is. \<forall>c. gm_get originals i = Some c \<longrightarrow>
       i \<in> set fs \<or> gm_get (wd_files w2) (cl_SourcePath c) = Some c)"
    using Cons.IH [OF rest'] Cons.prems(2) res(2) by simp
  have restored: "j \<in> set failures \<or> gm_get (wd_files w') (cl_SourcePath c) = Some c"
    if j: "j \<in> set (i # is)" "gm_get originals j = Some c" for j c
  proof (cases "j \<in> set is")
    case True
    with ih j res show ?thesis by auto
  next
    case False
    with j orig have ji: "j = i" "c = orig" by auto
    show ?thesis
    proof (cases bad)
      case False
      have "gm_get (wd_files w2) (cl_SourcePath orig) = gm_get (wd_files w1) (cl_SourcePath orig)"
      proof (rule ccontr)
        assume "\<not> ?thesis"
        with ih obtain k e where "k \<in> set is" "gm_get originals k = Some e" "cl_SourcePath e = cl_SourcePath orig" by auto
        with assms(3) [OF _ orig] \<open>j \<notin> set is\<close> ji show False by auto
      qed
      with good [OF False] ji res show ?thesis by simp
    qed (use ji res in auto)
  qed
  moreover have "\<exists>k \<in> set (i # is). \<exists>c. gm_get originals k = Some c \<and> cl_SourcePath c = p"
    if "gm_get (wd_files w') p \<noteq> gm_get (wd_files w) p" for p
  proof (cases "gm_get (wd_files w2) p = gm_get (wd_files w1) p")
    case True
    with that res changed have "p = cl_SourcePath orig" by auto
    with orig show ?thesis by auto
  next
    case False
    with ih show ?thesis by auto
  qed
  ultimately show ?case using ih disk res by auto
qed

lemma approve_disk:
  "approve_claims sha now ap R finals cs (s, dk) = (s', dk') \<Longrightarrow>
   dk_store dk' = dk_store dk \<and> dk_writable dk' = dk_writable dk \<and> dk_storeWritable dk' = dk_storeWritable dk \<and>
   (dk_digests dk' = dk_digests dk \<or> (dk_digests dk \<noteq> Unreadable \<and> dk_writable dk))"
proof (induction cs arbitrary: s dk)
  case (Cons c cs)
  have step: "dk_store (recordCommentDigestBeside sha t [c] dk) = dk_store dk \<and>
      dk_writable (recordCommentDigestBeside sha t [c] dk) = dk_writable dk \<and>
      dk_storeWritable (recordCommentDigestBeside sha t [c] dk) = dk_storeWritable dk \<and>
      (dk_digests (recordCommentDigestBeside sha t [c] dk) = dk_digests dk \<or> (dk_digests dk \<noteq> Unreadable \<and> dk_writable dk))" for t
    by (auto simp: recordCommentDigestBeside_def ds_LoadStore_def split: sum.split disk_file.splits)
  show ?case
  proof (cases "cl_ID c \<in> set R")
    case True
    let ?rec = "RecordApproval sha now c ap (RefreshBaseline sha now c finals s, dk)"
    have "approve_claims sha now ap R finals cs (fst ?rec, snd ?rec) = (s', dk')" using Cons.prems True by simp
    from Cons.IH [OF this] step show ?thesis by (auto simp: RecordApproval_def Let_def)
  qed (use Cons in auto)
qed simp

section \<open>A failed write recovers\<close>

text \<open>The disk as the writes of the approval may have left it before the recovery starts.\<close>

definition disk_touched :: "disk \<Rightarrow> disk \<Rightarrow> bool" where
  "disk_touched dk dk' \<longleftrightarrow>
     dk_store dk' = dk_store dk \<and> dk_writable dk' = dk_writable dk \<and> dk_storeWritable dk' = dk_storeWritable dk \<and>
     (dk_digests dk' = dk_digests dk \<or> (dk_digests dk \<noteq> Unreadable \<and> dk_writable dk))"

lemma restore_store: "f \<noteq> Unreadable \<Longrightarrow> snd (restoreOptional b (readOptional f) f) = f"
  by (cases f) (auto simp: restoreOptional_def readOptional_def)

lemma restore_digests:
  "disk_touched dk dk' \<Longrightarrow>
   snd (restoreOptional (dk_writable dk') (readOptional (dk_digests dk)) (dk_digests dk')) =
   (if dk_digests dk = Unreadable \<and> dk_writable dk then Absent else dk_digests dk)"
  by (cases "dk_digests dk") (auto simp: disk_touched_def restoreOptional_def readOptional_def)

lemma rollback_spec:
  assumes w: "world_ok w" and store: "dk_store (wd_disk w) \<noteq> Unreadable"
    and origs: "\<And>i c. gm_get originals i = Some c \<longleftrightarrow> c \<in> set (loadClaims w) \<and> cl_ID c = i \<and> i \<in> set R"
    and written: "set written \<subseteq> set R \<inter> set (known_ids (loadClaims w))"
    and files: "\<And>p. gm_get (wd_files w1) p \<noteq> gm_get (wd_files w) p \<Longrightarrow>
                  \<exists>c \<in> set (loadClaims w). cl_SourcePath c = p \<and> cl_ID c \<in> set written"
    and disk: "disk_touched (wd_disk w) (wd_disk w1)"
    and run: "rollback os storable originals (readOptional (dk_store (wd_disk w))) (readOptional (dk_digests (wd_disk w)))
                written w1 = (failures, w')"
  shows "(\<forall>p. gm_get (wd_files w') p \<noteq> gm_get (wd_files w) p \<longrightarrow>
       (\<exists>c \<in> set (loadClaims w). cl_SourcePath c = p \<and> cl_ID c \<in> set failures)) \<and>
    dk_store (wd_disk w') = dk_store (wd_disk w) \<and>
    dk_digests (wd_disk w') =
      (if dk_digests (wd_disk w) = Unreadable \<and> dk_writable (wd_disk w) then Absent else dk_digests (wd_disk w))"
proof -
  obtain fs w2 where rb: "rollback_claims os storable originals written w1 = (fs, w2)"
    by (cases "rollback_claims os storable originals written w1")
  have exists: "\<exists>c. gm_get originals i = Some c" if "i \<in> set written" for i
    using that written origs by (fastforce simp: known_ids_def)
  have inj: "i = j" if "gm_get originals i = Some c" "gm_get originals j = Some d" "cl_SourcePath c = cl_SourcePath d" for i j c d
    using that origs world_ok_file [OF w] by (metis option.inject)
  have spec: "wd_disk w2 = wd_disk w1 \<and> set fs \<subseteq> set written \<and>
    (\<forall>p. gm_get (wd_files w2) p \<noteq> gm_get (wd_files w1) p \<longrightarrow>
       (\<exists>i \<in> set written. \<exists>c. gm_get originals i = Some c \<and> cl_SourcePath c = p)) \<and>
    (\<forall>i \<in> set written. \<forall>c. gm_get originals i = Some c \<longrightarrow>
       i \<in> set fs \<or> gm_get (wd_files w2) (cl_SourcePath c) = Some c)"
    by (rule rollback_claims_spec [OF rb]) (use exists inj in blast)+
  have disk2: "wd_disk w2 = wd_disk w1" using spec by blast
  have w': "wd_files w' = wd_files w2" and fs: "set fs \<subseteq> set failures"
    and stored: "dk_store (wd_disk w') = snd (restoreOptional (dk_storeWritable (wd_disk w1)) (readOptional (dk_store (wd_disk w))) (dk_store (wd_disk w1)))"
    and digests: "dk_digests (wd_disk w') = snd (restoreOptional (dk_writable (wd_disk w1)) (readOptional (dk_digests (wd_disk w))) (dk_digests (wd_disk w1)))"
    using run rb disk2 by (auto simp: rollback_def Let_def split: prod.splits)
  have "\<exists>c \<in> set (loadClaims w). cl_SourcePath c = p \<and> cl_ID c \<in> set failures"
    if diff: "gm_get (wd_files w') p \<noteq> gm_get (wd_files w) p" for p
  proof -
    have "\<exists>i \<in> set written. \<exists>c. gm_get originals i = Some c \<and> cl_SourcePath c = p"
    proof (cases "gm_get (wd_files w2) p = gm_get (wd_files w1) p")
      case True
      with diff w' files obtain c where c: "c \<in> set (loadClaims w)" "cl_SourcePath c = p" "cl_ID c \<in> set written" by auto
      then have "gm_get originals (cl_ID c) = Some c" using origs written by blast
      with c show ?thesis by blast
    next
      case False
      with spec show ?thesis by blast
    qed
    then obtain i c where i: "i \<in> set written" "gm_get originals i = Some c" "cl_SourcePath c = p" by auto
    then have c: "c \<in> set (loadClaims w)" "cl_ID c = i" using origs by auto
    have "gm_get (wd_files w2) p \<noteq> Some c" using diff w' i(3) c(1) world_ok_file [OF w, of c] by auto
    with spec i have "i \<in> set fs" by auto
    with fs c i show ?thesis by auto
  qed
  moreover have "dk_store (wd_disk w') = dk_store (wd_disk w)"
    using stored restore_store [OF store] disk by (simp add: disk_touched_def)
  ultimately show ?thesis using digests restore_digests [OF disk] by simp
qed

lemma write_set_failed:
  assumes w: "world_ok w" and store: "dk_store (wd_disk w) \<noteq> Unreadable"
    and run: "write_set os storable fault sha call e (loadClaims w) s w = (WriteFailed failures, w')"
  shows "(\<forall>p. gm_get (wd_files w') p \<noteq> gm_get (wd_files w) p \<longrightarrow>
       (\<exists>c \<in> set (loadClaims w). cl_SourcePath c = p \<and> cl_ID c \<in> set failures)) \<and>
    dk_store (wd_disk w') = dk_store (wd_disk w) \<and>
    dk_digests (wd_disk w') =
      (if dk_digests (wd_disk w) = Unreadable \<and> dk_writable (wd_disk w) then Absent else dk_digests (wd_disk w))"
proof -
  let ?R = "se_RequestedIDs e" and ?cs = "loadClaims w"
  let ?finals = "candidate_claims ?R ?cs"
  obtain originals tokens where cap: "capture_originals ?R ?cs w ([], []) = Some (originals, tokens)"
    using capture_total [OF w, of ?cs ?R "([], [])"] by auto
  have origs: "gm_get originals i = Some c \<longleftrightarrow> c \<in> set ?cs \<and> cl_ID c = i \<and> i \<in> set ?R" for i c
    using capture_spec [OF w _ world_ok_ids [OF w] cap] by auto
  obtain ok written w1 where wr: "write_claims os storable fault ?R tokens ?finals ([], w) = (ok, written, w1)"
    by (cases "write_claims os storable fault ?R tokens ?finals ([], w)") auto
  note frame = write_claims_frame [OF wr]
  have final: "cl_ID c' \<in> set (known_ids ?cs) \<and> (\<exists>c \<in> set ?cs. cl_SourcePath c = cl_SourcePath c' \<and> cl_ID c = cl_ID c')"
    if "c' \<in> set ?finals" for c'
    using that by (force simp: candidate_claims_def known_ids_def)
  have written: "set written \<subseteq> set ?R \<inter> set (known_ids ?cs)"
    using frame final by (fastforce simp: known_ids_def)
  have files: "\<exists>c \<in> set ?cs. cl_SourcePath c = p \<and> cl_ID c \<in> set written"
    if "gm_get (wd_files w1) p \<noteq> gm_get (wd_files w) p" for p
    using that frame final by fastforce
  define recover where "recover = (\<lambda>written v. let (failures, v') = rollback os storable originals
      (readOptional (dk_store (wd_disk w))) (readOptional (dk_digests (wd_disk w))) written v in (WriteFailed failures, v'))"
  have ws: "write_set os storable fault sha call e ?cs s w =
      (if length originals \<noteq> length ?R then (Disappeared, w)
       else if \<not> ok then recover written w1
       else
         let (s1, dk1) = approve_claims sha (lc_Now call) \<lparr>ap_Actor = lc_Actor call, ap_Reason = lc_Reason call\<rparr>
               ?R ?finals ?finals (s, wd_disk w1);
             w2 = w1\<lparr>wd_disk := dk1\<rparr>
         in if fault ''before_store_save'' [] then recover written w2
            else
              (case Save s1 dk1 of
                 (False, dk2) \<Rightarrow> recover written (w2\<lparr>wd_disk := dk2\<rparr>)
               | (True, dk2) \<Rightarrow>
                   (ApprovedSet e (case ?R of [i] \<Rightarrow> (case gm_get (st_LockedAt s1) i of None \<Rightarrow> [] | Some t \<Rightarrow> t) | _ \<Rightarrow> []),
                    w2\<lparr>wd_disk := dk2\<rparr>)))"
    unfolding write_set_def recover_def cap option.case prod.case Let_def wr
    by (cases ok) (simp_all split del: if_split)
  have use: ?thesis if rec: "recover written v = (WriteFailed failures, w')" and vf: "wd_files v = wd_files w1"
    and vd: "disk_touched (wd_disk w) (wd_disk v)" for v
    by (rule rollback_spec [OF w store origs written _ vd])
      (use rec vf files in \<open>auto simp: recover_def split: prod.splits\<close>)
  obtain s1 dk1 where ap: "approve_claims sha (lc_Now call) \<lparr>ap_Actor = lc_Actor call, ap_Reason = lc_Reason call\<rparr>
      ?R ?finals ?finals (s, wd_disk w1) = (s1, dk1)"
    by (cases "approve_claims sha (lc_Now call) \<lparr>ap_Actor = lc_Actor call, ap_Reason = lc_Reason call\<rparr>
      ?R ?finals ?finals (s, wd_disk w1)") auto
  have d1: "disk_touched (wd_disk w) (wd_disk w1)" using frame by (simp add: disk_touched_def)
  have d2: "disk_touched (wd_disk w) dk1" using approve_disk [OF ap] frame by (simp add: disk_touched_def)
  have save: "fst (Save s1 dk1) = False \<Longrightarrow> snd (Save s1 dk1) = dk1" by (auto simp: Save_def Let_def split: if_splits)
  have fails: "\<exists>v. recover written v = (WriteFailed failures, w') \<and> wd_files v = wd_files w1 \<and>
      disk_touched (wd_disk w) (wd_disk v)"
  proof (cases ok)
    case False
    with run ws d1 show ?thesis by (auto split: if_splits)
  next
    case ok: True
    show ?thesis
    proof (cases "fault ''before_store_save'' []")
      case True
      with run ws ap ok d2 show ?thesis by (intro exI [of _ "w1\<lparr>wd_disk := dk1\<rparr>"]) (simp split: if_splits)
    next
      case False
      have "Save s1 dk1 = (False, dk1)"
        using run ws ap ok False save by (cases "Save s1 dk1"; cases "fst (Save s1 dk1)") (auto split: if_splits)
      with run ws ap ok False d2 show ?thesis
        by (intro exI [of _ "w1\<lparr>wd_disk := dk1\<rparr>"]) (simp split: if_splits)
    qed
  qed
  then show ?thesis using use by blast
qed

section \<open>The whole command\<close>

lemma loadClaims_disk [simp]: "loadClaims (w\<lparr>wd_disk := dk\<rparr>) = loadClaims w"
  by (simp add: loadClaims_def)

lemma world_ok_disk [simp]: "world_ok (w\<lparr>wd_disk := dk\<rparr>) = world_ok w"
  by (simp add: world_ok_def)

lemma Cross_store_readable:
  "LoadStore now (dk_store dk0) path = Inr s0 \<Longrightarrow> CrossPreLedger s0 dk0 claims = (None, s, dk) \<Longrightarrow>
   dk_store dk \<noteq> Unreadable"
  by (auto simp: LoadStore_def CrossPreLedger_def Save_def Let_def createCommentDigestStore_def
      split: disk_file.splits if_splits prod.splits bool.splits sum.splits)

lemma run_cases:
  assumes "runPolicySetLock os storable fault sha call w = (outcome, w')"
  obtains (refused) "wd_files w' = wd_files w" "wd_tick w' = wd_tick w"
      "\<And>fs. outcome \<noteq> WriteFailed fs" "\<And>e t. outcome \<noteq> ApprovedSet e t"
  | (written) s0 s dk e where
      "LoadStore (lc_Now call) (dk_store (wd_disk w)) (lc_Path call) = Inr s0"
      "CrossPreLedger s0 (wd_disk w) (loadClaims w) = (None, s, dk)"
      "e = EvaluateSetWithSemanticConflicts (lc_Registry call) (loadClaims w) (lc_IDs call) (lc_Config call)
             (Some (s, dk)) (lc_Conflicts call)"
      "lc_Proposal call = policySnapshot sha (loadClaims w) (se_RequestedIDs e)" "Allowed e"
      "write_set os storable fault sha call e (loadClaims w) s (w\<lparr>wd_disk := dk\<rparr>) = (outcome, w')"
proof (cases "lc_CarrierOk call")
  case False
  with assms show ?thesis by (auto simp: runPolicySetLock_def intro: refused)
next
  case carrier: True
  show ?thesis
  proof (cases "LoadStore (lc_Now call) (dk_store (wd_disk w)) (lc_Path call)")
    case (Inl err)
    with assms carrier show ?thesis by (auto simp: runPolicySetLock_def Let_def intro: refused)
  next
    case (Inr s0)
    show ?thesis
    proof (cases "lc_RoofOk call s0")
      case False
      with assms carrier Inr show ?thesis by (auto simp: runPolicySetLock_def Let_def intro: refused)
    next
      case roof: True
      obtain err s dk where cross: "CrossPreLedger s0 (wd_disk w) (loadClaims w) = (err, s, dk)"
        by (cases "CrossPreLedger s0 (wd_disk w) (loadClaims w)") auto
      define e where "e = EvaluateSetWithSemanticConflicts (lc_Registry call) (loadClaims w) (lc_IDs call) (lc_Config call)
             (Some (s, dk)) (lc_Conflicts call)"
      show ?thesis
      proof (cases err)
        case (Some x)
        with assms carrier Inr roof cross show ?thesis by (auto simp: runPolicySetLock_def Let_def intro: refused)
      next
        case None
        have run: "(outcome, w') = (if lc_Proposal call = [] then (ProposalRequired, w\<lparr>wd_disk := dk\<rparr>)
            else if lc_Proposal call \<noteq> policySnapshot sha (loadClaims w) (se_RequestedIDs e) then
              (ProposalRejected (proposalMismatch (lc_Proposal call) (se_RequestedIDs e)), w\<lparr>wd_disk := dk\<rparr>)
            else if \<not> Allowed e then (SetRefused e, w\<lparr>wd_disk := dk\<rparr>)
            else write_set os storable fault sha call e (loadClaims w) s (w\<lparr>wd_disk := dk\<rparr>))"
          using assms carrier Inr roof cross None unfolding e_def by (simp add: runPolicySetLock_def Let_def)
        show ?thesis
        proof (cases "lc_Proposal call \<noteq> [] \<and> lc_Proposal call = policySnapshot sha (loadClaims w) (se_RequestedIDs e) \<and> Allowed e")
          case True
          with run cross None Inr e_def show ?thesis by (intro written) auto
        next
          case False
          with run show ?thesis by (intro refused) (auto split: if_splits)
        qed
      qed
    qed
  qed
qed

lemma failed_lock_state:
  assumes "world_ok w" "runPolicySetLock os storable fault sha call w = (WriteFailed failures, w')"
  shows "(\<forall>p. gm_get (wd_files w') p \<noteq> gm_get (wd_files w) p \<longrightarrow>
       (\<exists>c \<in> set (loadClaims w). cl_SourcePath c = p \<and> cl_ID c \<in> set failures)) \<and>
    (\<exists>s0 s dk. LoadStore (lc_Now call) (dk_store (wd_disk w)) (lc_Path call) = Inr s0 \<and>
       CrossPreLedger s0 (wd_disk w) (loadClaims w) = (None, s, dk) \<and>
       dk_store (wd_disk w') = dk_store dk \<and>
       dk_digests (wd_disk w') =
         (if dk_digests dk = Unreadable \<and> dk_writable dk then Absent else dk_digests dk))"
  using assms(2)
proof (cases rule: run_cases)
  case refused
  from refused(3) [of failures] show ?thesis by simp
next
  case (written s0 s dk e)
  have "dk_store (wd_disk (w\<lparr>wd_disk := dk\<rparr>)) \<noteq> Unreadable"
    using Cross_store_readable [OF written(1,2)] by simp
  from write_set_failed [OF _ this, of os storable fault sha call e s failures w'] written assms(1)
  show ?thesis by auto
qed

lemma LoadStore_path: "LoadStore now f path = Inr s \<Longrightarrow> st_path s = path"
  by (auto simp: LoadStore_def decodeStore_def Let_def emptyStore_def split: disk_file.splits option.splits if_splits)

text \<open>The crossing seen from the start: it does nothing, or it stamps a store that predates the ledger.\<close>

lemma crossed:
  assumes "CrossPreLedger s0 dk0 claims = (None, s, dk)" "LoadStore now (dk_store dk0) path = Inr s0"
  shows "\<not> preLedgerUnadoptedOnDisk s0 dk0 \<and> dk = dk0 \<or>
    preLedgerUnadoptedOnDisk s0 dk0 \<and> countLocked claims = 0 \<and>
    dk_store dk = Bytes (Some (marshal (s0\<lparr>st_diskVersion := ledgerSchemaVersion, st_Version := storeSchemaVersion,
      st_LockedAt := [], st_Hashes := []\<rparr>))) \<and>
    (path \<noteq> [] \<longrightarrow> dk_digests dk0 = Absent \<and> dk_digests dk = Bytes (Some (ds_Save empty_dstore)))"
proof -
  let ?s1 = "s0\<lparr>st_diskVersion := ledgerSchemaVersion, st_Version := storeSchemaVersion, st_LockedAt := [], st_Hashes := []\<rparr>"
  have p: "st_path s0 = path" by (rule LoadStore_path [OF assms(2)])
  show ?thesis
  proof (cases "preLedgerUnadoptedOnDisk s0 dk0")
    case False
    with assms(1) show ?thesis by (auto simp: CrossPreLedger_def split: if_splits)
  next
    case True
    then have pre: "PreLedger s0" "st_fileExists s0"
      by (auto simp: preLedgerUnadoptedOnDisk_def PreLedgerUnadopted_def PreLedger_def)
    from True have absent: "path \<noteq> [] \<Longrightarrow> dk_digests dk0 = Absent"
      using p by (auto simp: preLedgerUnadoptedOnDisk_def PreLedgerUnadopted_def LedgerDowngraded_def digestStorePresentBeside_def)
    obtain b dk1 where created: "createCommentDigestStore path dk0 = (b, dk1)" by (metis surj_pair)
    from assms(1) True pre created p have rest: "countLocked claims = 0" "b" "Save ?s1 dk1 = (True, dk)"
      by (auto simp: CrossPreLedger_def Let_def split: if_splits bool.splits prod.splits)
    have "dk = dk1\<lparr>dk_store := Bytes (Some (marshal ?s1))\<rparr>"
      using rest(3) pre(2) by (auto simp: Save_def Let_def split: if_splits)
    moreover have "path \<noteq> [] \<longrightarrow> dk_digests dk1 = Bytes (Some (ds_Save empty_dstore))"
      using created absent rest(2)
      by (auto simp: createCommentDigestStore_def ds_LoadStore_def empty_dstore_def split: if_splits)
    ultimately show ?thesis using True rest(1) absent by auto
  qed
qed

text \<open>
  C4. A failed approval is undone. When the write path reports a write failure, every claim file that
  is not what it was at the start belongs to a claim the report names, so a report that names none means
  every file is as it was. The lock store and the digest store are what they were at the start, with two
  exceptions: a digest store that could not be read is removed; and a lock store that predated the ledger,
  in a project without a locked claim, has crossed before anything was approved and stays crossed, with its
  records and an empty digest store beside it.
\<close>

theorem failed_lock_recovers:
  assumes "world_ok w" "runPolicySetLock os storable fault sha call w = (WriteFailed failures, w')"
  shows "(\<forall>p. gm_get (wd_files w') p \<noteq> gm_get (wd_files w) p \<longrightarrow>
       (\<exists>c \<in> set (loadClaims w). cl_SourcePath c = p \<and> cl_ID c \<in> set failures)) \<and>
    (\<exists>s0. LoadStore (lc_Now call) (dk_store (wd_disk w)) (lc_Path call) = Inr s0 \<and>
       (\<not> preLedgerUnadoptedOnDisk s0 (wd_disk w) \<and>
        dk_store (wd_disk w') = dk_store (wd_disk w) \<and>
        dk_digests (wd_disk w') =
          (if dk_digests (wd_disk w) = Unreadable \<and> dk_writable (wd_disk w) then Absent else dk_digests (wd_disk w)) \<or>
        preLedgerUnadoptedOnDisk s0 (wd_disk w) \<and> (\<forall>c \<in> set (loadClaims w). cl_Status c \<noteq> StatusLocked) \<and>
        dk_store (wd_disk w') = Bytes (Some (marshal (s0\<lparr>st_diskVersion := ledgerSchemaVersion,
          st_Version := storeSchemaVersion, st_LockedAt := [], st_Hashes := []\<rparr>))) \<and>
        (lc_Path call \<noteq> [] \<longrightarrow> dk_digests (wd_disk w) = Absent \<and>
           dk_digests (wd_disk w') = Bytes (Some (ds_Save empty_dstore)))))"
proof -
  note state = failed_lock_state [OF assms]
  then obtain s0 s dk where load: "LoadStore (lc_Now call) (dk_store (wd_disk w)) (lc_Path call) = Inr s0"
    and cross: "CrossPreLedger s0 (wd_disk w) (loadClaims w) = (None, s, dk)"
    and disk: "dk_store (wd_disk w') = dk_store dk"
      "dk_digests (wd_disk w') = (if dk_digests dk = Unreadable \<and> dk_writable dk then Absent else dk_digests dk)"
    by blast
  have none: "countLocked cs = 0 \<longleftrightarrow> (\<forall>c \<in> set cs. cl_Status c \<noteq> StatusLocked)" for cs
    by (auto simp: countLocked_def filter_empty_conv)
  from crossed [OF cross load] disk none have "\<not> preLedgerUnadoptedOnDisk s0 (wd_disk w) \<and>
        dk_store (wd_disk w') = dk_store (wd_disk w) \<and>
        dk_digests (wd_disk w') =
          (if dk_digests (wd_disk w) = Unreadable \<and> dk_writable (wd_disk w) then Absent else dk_digests (wd_disk w)) \<or>
        preLedgerUnadoptedOnDisk s0 (wd_disk w) \<and> (\<forall>c \<in> set (loadClaims w). cl_Status c \<noteq> StatusLocked) \<and>
        dk_store (wd_disk w') = Bytes (Some (marshal (s0\<lparr>st_diskVersion := ledgerSchemaVersion,
          st_Version := storeSchemaVersion, st_LockedAt := [], st_Hashes := []\<rparr>))) \<and>
        (lc_Path call \<noteq> [] \<longrightarrow> dk_digests (wd_disk w) = Absent \<and>
           dk_digests (wd_disk w') = Bytes (Some (ds_Save empty_dstore)))"
    by (elim disjE) (auto split: if_splits)
  with state load show ?thesis by blast
qed

definition file_p :: claim where
  "file_p = premise\<lparr>cl_SourcePath := ''p.yaml''\<rparr>"

definition one_file :: world where
  "one_file = \<lparr>wd_files = [(''p.yaml'', file_p)], wd_disk = good_disk, wd_flags = Absent, wd_flagWritable = True, wd_tick = 0\<rparr>"

definition lock_p :: lock_call where
  "lock_p = \<lparr>lc_Registry = [DanglingLint], lc_Config = None, lc_Path = ''s'', lc_Now = ''t'', lc_Actor = ''me'',
     lc_Reason = ''ok'', lc_IDs = [''m.contract.p''],
     lc_Proposal = policySnapshot (\<lambda>_. ''h'') [file_p] [''m.contract.p''], lc_Conflicts = [],
     lc_CarrierOk = True, lc_RoofOk = (\<lambda>_. True)\<rparr>"

lemma world_ok_one: "world_ok (one_file\<lparr>wd_disk := dk\<rparr>)"
  by (simp add: world_ok_def one_file_def loadClaims_def file_p_def known_ids_def)

theorem failed_lock_recovers_witness:
  "fst (runPolicySetLock (\<lambda>_. False) (\<lambda>_. True) (\<lambda>_ _. False) (\<lambda>_. ''h'') lock_p
         (one_file\<lparr>wd_disk := good_disk\<lparr>dk_digests := Unreadable\<rparr>\<rparr>)) = WriteFailed [] \<and>
   dk_digests (wd_disk (snd (runPolicySetLock (\<lambda>_. False) (\<lambda>_. True) (\<lambda>_ _. False) (\<lambda>_. ''h'') lock_p
         (one_file\<lparr>wd_disk := good_disk\<lparr>dk_digests := Unreadable\<rparr>\<rparr>)))) = Absent"
proof -
  let ?w = "one_file\<lparr>wd_disk := good_disk\<lparr>dk_digests := Unreadable\<rparr>\<rparr>"
  let ?run = "runPolicySetLock (\<lambda>_. False) (\<lambda>_. True) (\<lambda>_ _. False) (\<lambda>_. ''h'') lock_p ?w"
  have failed: "fst ?run = WriteFailed []" by code_simp
  then obtain w' where run: "?run = (WriteFailed [], w')" by (cases ?run) auto
  have load: "LoadStore ''t'' (dk_store (wd_disk ?w)) ''s'' = Inr (emptyStore ''s'')"
    by (simp add: LoadStore_def one_file_def good_disk_def)
  have new: "\<not> preLedgerUnadoptedOnDisk (emptyStore ''s'') dk" for dk
    by (simp add: preLedgerUnadoptedOnDisk_def PreLedgerUnadopted_def PreLedger_def emptyStore_def)
  have "dk_digests (wd_disk w') = Absent"
    using failed_lock_recovers [OF world_ok_one run] load new by (auto simp: lock_p_def good_disk_def)
  with failed run show ?thesis by simp
qed

section \<open>A successful approval\<close>

lemma approve_records:
  "approve_claims sha now ap R finals cs (s, dk) = (s', dk') \<Longrightarrow> distinct (known_ids cs) \<Longrightarrow>
   (\<forall>c \<in> set cs. cl_ID c \<in> set R \<longrightarrow> st_Record s' (cl_ID c) = Some (approval_record sha now c ap)) \<and>
   (\<forall>i. i \<notin> set R \<inter> set (known_ids cs) \<longrightarrow> st_Record s' i = st_Record s i)"
proof (induction cs arbitrary: s dk)
  case Nil
  then show ?case by simp
next
  case (Cons c cs)
  have dist: "distinct (known_ids cs)" "cl_ID c \<notin> set (known_ids cs)"
    using Cons.prems(2) by (simp_all add: known_ids_def)
  show ?case
  proof (cases "cl_ID c \<in> set R")
    case False
    then have "approve_claims sha now ap R finals cs (s, dk) = (s', dk')" using Cons.prems(1) by simp
    from Cons.IH [OF this dist(1)] False show ?thesis by (auto simp: known_ids_def)
  next
    case True
    let ?rec = "RecordApproval sha now c ap (RefreshBaseline sha now c finals s, dk)"
    have "approve_claims sha now ap R finals cs (fst ?rec, snd ?rec) = (s', dk')" using Cons.prems True by simp
    note ih = Cons.IH [OF this dist(1)]
    have "st_Record (fst ?rec) i = (if i = cl_ID c then Some (approval_record sha now c ap) else st_Record s i)" for i
      by (simp add: RecordApproval_def Let_def)
    with ih dist(2) True show ?thesis by (auto simp: known_ids_def)
  qed
qed

lemma candidate_ids: "known_ids (candidate_claims R cs) = known_ids cs"
  by (induction cs) (auto simp: known_ids_def candidate_claims_def)

lemma candidate_paths: "map cl_SourcePath (candidate_claims R cs) = map cl_SourcePath cs"
  by (induction cs) (auto simp: candidate_claims_def)

abbreviation lock_state :: "claim \<Rightarrow> claim" where
  "lock_state c \<equiv> c\<lparr>cl_Status := StatusLocked, cl_ReviewPending := False\<rparr>"

lemma world_ok_paths: "world_ok w \<Longrightarrow> distinct (map cl_SourcePath (loadClaims w))"
proof -
  assume w: "world_ok w"
  have "map cl_SourcePath (loadClaims w) = map fst (wd_files w)"
    using w by (auto simp: world_ok_def loadClaims_def intro!: map_cong)
  with w show ?thesis by (simp add: world_ok_def)
qed

lemma write_set_approved:
  assumes w: "world_ok w"
    and run: "write_set os storable fault sha call e (loadClaims w) s w = (ApprovedSet e' t, w')"
  shows "e' = e \<and>
    (\<forall>c \<in> set (loadClaims w). gm_get (wd_files w') (cl_SourcePath c) =
       Some (if cl_ID c \<in> set (se_RequestedIDs e) then lock_state c else c)) \<and>
    (\<forall>p. p \<notin> cl_SourcePath ` set (loadClaims w) \<longrightarrow> gm_get (wd_files w') p = None) \<and>
    (\<exists>s1 dk1. approve_claims sha (lc_Now call) \<lparr>ap_Actor = lc_Actor call, ap_Reason = lc_Reason call\<rparr>
        (se_RequestedIDs e) (candidate_claims (se_RequestedIDs e) (loadClaims w))
        (candidate_claims (se_RequestedIDs e) (loadClaims w)) (s, wd_disk w) = (s1, dk1) \<and>
      Save s1 dk1 = (True, wd_disk w'))"
proof -
  let ?R = "se_RequestedIDs e" and ?cs = "loadClaims w"
  let ?finals = "candidate_claims ?R ?cs"
  obtain originals tokens where cap: "capture_originals ?R ?cs w ([], []) = Some (originals, tokens)"
    using capture_total [OF w, of ?cs ?R "([], [])"] by auto
  obtain ok written w1 where wr: "write_claims os storable fault ?R tokens ?finals ([], w) = (ok, written, w1)"
    by (cases "write_claims os storable fault ?R tokens ?finals ([], w)") auto
  have ok: ok and e': "e' = e"
    using run by (auto simp: write_set_def cap wr Let_def split: if_splits prod.splits bool.splits)
  obtain s1 dk1 where ap: "approve_claims sha (lc_Now call) \<lparr>ap_Actor = lc_Actor call, ap_Reason = lc_Reason call\<rparr>
      ?R ?finals ?finals (s, wd_disk w1) = (s1, dk1)"
    by (cases "approve_claims sha (lc_Now call) \<lparr>ap_Actor = lc_Actor call, ap_Reason = lc_Reason call\<rparr>
      ?R ?finals ?finals (s, wd_disk w1)") auto
  note frame = write_claims_frame [OF wr]
  have files: "wd_files w' = wd_files w1" and save: "Save s1 dk1 = (True, wd_disk w')"
    using run ok ap by (auto simp: write_set_def cap wr Let_def split: if_splits prod.splits bool.splits)
  have disk: "wd_disk w1 = wd_disk w" using frame by blast
  have "gm_get (wd_files w1) (cl_SourcePath c) = Some (if cl_ID c \<in> set ?R then lock_state c else c)"
    if c: "c \<in> set ?cs" for c
  proof -
    let ?c' = "if cl_ID c \<in> set ?R then lock_state c else c"
    have "?c' \<in> set ?finals" using c by (auto simp: candidate_claims_def)
    from write_claims_done [OF wr [unfolded ok [THEN eqTrueI]] _ this] world_ok_paths [OF w]
    show ?thesis using c world_ok_file [OF w, of c] by (auto simp: candidate_paths split: if_splits)
  qed
  moreover have "gm_get (wd_files w1) p = None" if "p \<notin> cl_SourcePath ` set ?cs" for p
  proof -
    have "gm_get (wd_files w) p = None" using that world_ok_path [OF w, of p] by (cases "gm_get (wd_files w) p") auto
    moreover have "gm_get (wd_files w1) p = gm_get (wd_files w) p"
      using frame that by (force simp: candidate_claims_def)
    ultimately show ?thesis by simp
  qed
  ultimately show ?thesis using e' files ap save unfolding disk by auto
qed

text \<open>
  C5: A successful approval approves what was reviewed and nothing else. The proposal was the token of
  the project as it is, the set was allowed; exactly the requested claims are now locked in their
  files without a pending flag, every other file is untouched, and in the saved lock store each
  requested claim has a standing record of its content with the given reason, while the records of
  all other claims are what they were.
\<close>

theorem approved_set:
  assumes w: "world_ok w" and run: "runPolicySetLock os storable fault sha call w = (ApprovedSet e t, w')"
  shows "lc_Proposal call = policySnapshot sha (loadClaims w) (uniqueIDs (lc_IDs call)) \<and> Allowed e \<and>
    (\<forall>c \<in> set (loadClaims w). gm_get (wd_files w') (cl_SourcePath c) =
       Some (if cl_ID c \<in> set (lc_IDs call) - {[]} then lock_state c else c)) \<and>
    (\<exists>s0 s dk s1. LoadStore (lc_Now call) (dk_store (wd_disk w)) (lc_Path call) = Inr s0 \<and>
       CrossPreLedger s0 (wd_disk w) (loadClaims w) = (None, s, dk) \<and>
       dk_store (wd_disk w') = Bytes (Some (marshal s1)) \<and>
       (\<forall>c \<in> set (loadClaims w). cl_ID c \<in> set (lc_IDs call) - {[]} \<longrightarrow>
          (\<exists>r. st_Record s1 (cl_ID c) = Some r \<and> \<not> Released r \<and> lr_Hash r = LockedClaimHash sha c \<and>
             lr_Content r = Some (lock_state c) \<and> lr_Reason r = lc_Reason call)) \<and>
       (\<forall>i. i \<notin> set (lc_IDs call) - {[]} \<longrightarrow> st_Record s1 i = st_Record s i))"
  using run
proof (cases rule: run_cases)
  case refused
  from refused(4) [of e t] show ?thesis by simp
next
  case (written s0 s dk e1)
  let ?cs = "loadClaims w"
  have R: "se_RequestedIDs e1 = uniqueIDs (lc_IDs call)"
    using written(3) by (simp add: EvaluateSetWithSemanticConflicts_def Let_def)
  from write_set_approved [of "w\<lparr>wd_disk := dk\<rparr>" os storable fault sha call e1 s e t w'] w written(6)
  have e: "e = e1" and files: "\<forall>c \<in> set ?cs. gm_get (wd_files w') (cl_SourcePath c) =
       Some (if cl_ID c \<in> set (uniqueIDs (lc_IDs call)) then lock_state c else c)"
    and "\<exists>s1 dk1. approve_claims sha (lc_Now call) \<lparr>ap_Actor = lc_Actor call, ap_Reason = lc_Reason call\<rparr>
        (uniqueIDs (lc_IDs call)) (candidate_claims (uniqueIDs (lc_IDs call)) ?cs)
        (candidate_claims (uniqueIDs (lc_IDs call)) ?cs) (s, dk) = (s1, dk1) \<and> Save s1 dk1 = (True, wd_disk w')"
    by (simp_all add: R del: set_uniqueIDs)
  then obtain s1 dk1 where ap: "approve_claims sha (lc_Now call) \<lparr>ap_Actor = lc_Actor call, ap_Reason = lc_Reason call\<rparr>
        (uniqueIDs (lc_IDs call)) (candidate_claims (uniqueIDs (lc_IDs call)) ?cs)
        (candidate_claims (uniqueIDs (lc_IDs call)) ?cs) (s, dk) = (s1, dk1)"
    and save: "Save s1 dk1 = (True, wd_disk w')" by auto
  have dist: "distinct (known_ids (candidate_claims (uniqueIDs (lc_IDs call)) ?cs))"
    using world_ok_ids [OF w] by (simp add: candidate_ids)
  note records = approve_records [OF ap dist]
  have "\<exists>r. st_Record s1 (cl_ID c) = Some r \<and> \<not> Released r \<and> lr_Hash r = LockedClaimHash sha c \<and>
      lr_Content r = Some (lock_state c) \<and> lr_Reason r = lc_Reason call"
    if "c \<in> set ?cs" "cl_ID c \<in> set (lc_IDs call) - {[]}" for c
  proof -
    have "lock_state c \<in> set (candidate_claims (uniqueIDs (lc_IDs call)) ?cs)"
      using that by (force simp: candidate_claims_def)
    with records that have "st_Record s1 (cl_ID c) = Some (approval_record sha (lc_Now call) (lock_state c)
        \<lparr>ap_Actor = lc_Actor call, ap_Reason = lc_Reason call\<rparr>)" by fastforce
    then show ?thesis by (simp add: approval_record_def Released_def)
  qed
  moreover have "dk_store (wd_disk w') = Bytes (Some (marshal s1))"
    using save by (rule Save_stored)
  moreover have "\<forall>i. i \<notin> set (lc_IDs call) - {[]} \<longrightarrow> st_Record s1 i = st_Record s i"
    using records by auto
  ultimately show ?thesis using written(1,2,4,5) e files R by auto
qed

theorem approved_set_witness:
  "\<exists>w'. runPolicySetLock (\<lambda>_. True) (\<lambda>_. True) (\<lambda>_ _. False) (\<lambda>_. ''h'') lock_p one_file = w' \<and>
     gm_get (wd_files (snd w')) ''p.yaml'' = Some (lock_state file_p)"
proof -
  let ?run = "runPolicySetLock (\<lambda>_. True) (\<lambda>_. True) (\<lambda>_ _. False) (\<lambda>_. ''h'') lock_p one_file"
  have "(case fst ?run of ApprovedSet _ _ \<Rightarrow> True | _ \<Rightarrow> False)" by code_simp
  then obtain e t w' where run: "?run = (ApprovedSet e t, w')"
    by (cases ?run) (auto split: lock_outcome.splits)
  have w: "world_ok one_file" using world_ok_one [of good_disk] by (simp add: one_file_def)
  from approved_set [OF w run] have "gm_get (wd_files w') (cl_SourcePath file_p) = Some (lock_state file_p)"
    by (simp add: one_file_def loadClaims_def lock_p_def file_p_def premise_def)
  then show ?thesis by (intro exI [of _ ?run]) (simp add: run file_p_def)
qed

end
