(* ===== verification/Threads.thy ===== *)
theory Threads
  imports Claim_Model
begin

text \<open>
  Comment threads (\<^verbatim>\<open>internal/comments\<close>): the minting of ids and the operations on the thread list of
  a claim, or of a brief's carrier claim. A computation reads the random source at a position and
  returns an error or a value with the next position; it is None where the code would loop for ever,
  which only the search for a free id can do. The clock is the argument \<open>now\<close>.
\<close>

section \<open>Computations over the random source\<close>

datatype thread_error =
    ErrRandom
  | ErrThreadNotFound
  | ErrReplyNotFound
  | ErrRightsDenied
  | ErrThreadResolved
  | ErrThreadOpen
  | ErrBannerClaim

type_synonym 'a run = "nat \<Rightarrow> ((thread_error + 'a) \<times> nat) option"

definition run_return :: "'a \<Rightarrow> 'a run" where
  "run_return a k = Some (Inr a, k)"

definition run_fail :: "thread_error \<Rightarrow> 'a run" where
  "run_fail e k = Some (Inl e, k)"

definition run_bind :: "'a run \<Rightarrow> ('a \<Rightarrow> 'b run) \<Rightarrow> 'b run" where
  "run_bind m f k =
     (case m k of
        None \<Rightarrow> None
      | Some (Inl e, k1) \<Rightarrow> Some (Inl e, k1)
      | Some (Inr a, k1) \<Rightarrow> f a k1)"

lemma run_return_Inr [simp]: "run_return a k = Some (r, k') \<longleftrightarrow> r = Inr a \<and> k' = k"
  by (auto simp: run_return_def)

lemma run_fail_Some [simp]: "run_fail e k = Some (r, k') \<longleftrightarrow> r = Inl e \<and> k' = k"
  by (auto simp: run_fail_def)

lemma run_returns [simp]: "run_return a k \<noteq> None" "run_fail e k \<noteq> None"
  by (simp_all add: run_return_def run_fail_def)

lemma run_bind_Inr:
  "run_bind m f k = Some (Inr b, k') \<longleftrightarrow>
   (\<exists>a k1. m k = Some (Inr a, k1) \<and> f a k1 = Some (Inr b, k'))"
  by (auto simp: run_bind_def split: option.splits prod.splits sum.splits)

lemma run_bind_Inl:
  "run_bind m f k = Some (Inl e, k') \<longleftrightarrow>
   m k = Some (Inl e, k') \<or> (\<exists>a k1. m k = Some (Inr a, k1) \<and> f a k1 = Some (Inl e, k'))"
  by (auto simp: run_bind_def split: option.splits prod.splits sum.splits)

lemma run_bind_returns:
  "m k \<noteq> None \<Longrightarrow> (\<And>a k1. m k = Some (Inr a, k1) \<Longrightarrow> f a k1 \<noteq> None) \<Longrightarrow> run_bind m f k \<noteq> None"
  by (auto simp: run_bind_def split: option.splits sum.splits)

section \<open>Ids\<close>

definition threadIDPrefix :: string where
  "threadIDPrefix = ''c-''"

definition replyIDPrefix :: string where
  "replyIDPrefix = ''r-''"

definition idRandomBytes :: nat where
  "idRandomBytes = 3"

text \<open>\<open>rnd k\<close> is what the read of three bytes at position \<open>k\<close> gives, None where it fails.\<close>

definition randomHex6 :: "(nat \<Rightarrow> string option) \<Rightarrow> string run" where
  "randomHex6 rnd k =
     (case rnd k of None \<Rightarrow> Some (Inl ErrRandom, Suc k) | Some b \<Rightarrow> Some (Inr (hex_encode b), Suc k))"

partial_function (option) mintUniqueID :: "(nat \<Rightarrow> string option) \<Rightarrow> string \<Rightarrow> string list \<Rightarrow> string run" where
  "mintUniqueID rnd prefix used k =
     (case rnd k of
        None \<Rightarrow> Some (Inl ErrRandom, Suc k)
      | Some b \<Rightarrow>
          if prefix @ hex_encode b \<in> set used then mintUniqueID rnd prefix used (Suc k)
          else Some (Inr (prefix @ hex_encode b), Suc k))"

definition thread_ids :: "comment \<Rightarrow> string list" where
  "thread_ids cm = cm_ID cm # map rp_ID (cm_Replies cm)"

definition all_ids :: "claim \<Rightarrow> string list" where
  "all_ids c = concat (map thread_ids (cl_Comments c))"

definition collectIDs :: "claim \<Rightarrow> string list" where
  "collectIDs c = filter (\<lambda>i. i \<noteq> []) (all_ids c)"

fun backfill_replies :: "(nat \<Rightarrow> string option) \<Rightarrow> reply list \<Rightarrow> string list \<Rightarrow> (reply list \<times> string list) run" where
  "backfill_replies rnd [] used = run_return ([], used)"
| "backfill_replies rnd (r # rs) used =
     (if rp_ID r = [] then
        run_bind (mintUniqueID rnd replyIDPrefix used) (\<lambda>i.
        run_bind (backfill_replies rnd rs (i # used)) (\<lambda>(rs', used').
        run_return (r\<lparr>rp_ID := i\<rparr> # rs', used')))
      else
        run_bind (backfill_replies rnd rs used) (\<lambda>(rs', used'). run_return (r # rs', used')))"

definition backfill_thread :: "(nat \<Rightarrow> string option) \<Rightarrow> comment \<Rightarrow> string list \<Rightarrow> (comment \<times> string list) run" where
  "backfill_thread rnd cm used =
     run_bind (if cm_ID cm = []
               then run_bind (mintUniqueID rnd threadIDPrefix used) (\<lambda>i. run_return (cm\<lparr>cm_ID := i\<rparr>, i # used))
               else run_return (cm, used)) (\<lambda>(cm1, used1).
     run_bind (backfill_replies rnd (cm_Replies cm1) used1) (\<lambda>(rs, used2).
     run_return (cm1\<lparr>cm_Replies := rs\<rparr>, used2)))"

fun backfill_threads :: "(nat \<Rightarrow> string option) \<Rightarrow> comment list \<Rightarrow> string list \<Rightarrow> (comment list \<times> string list) run" where
  "backfill_threads rnd [] used = run_return ([], used)"
| "backfill_threads rnd (cm # cms) used =
     run_bind (backfill_thread rnd cm used) (\<lambda>(cm1, used1).
     run_bind (backfill_threads rnd cms used1) (\<lambda>(cms1, used2).
     run_return (cm1 # cms1, used2)))"

definition backfillIDs :: "(nat \<Rightarrow> string option) \<Rightarrow> claim \<Rightarrow> (claim \<times> string list) run" where
  "backfillIDs rnd c =
     run_bind (backfill_threads rnd (cl_Comments c) (collectIDs c)) (\<lambda>(cms, used).
     run_return (c\<lparr>cl_Comments := cms\<rparr>, used))"

section \<open>The thread operations\<close>

text \<open>The advisory rights of \<^verbatim>\<open>canAct\<close>: a human acts on anything, anyone else on agent messages.\<close>

definition canAct :: "string \<Rightarrow> string \<Rightarrow> bool" where
  "canAct actor author \<longleftrightarrow> actor = CommentRoleHuman \<or> author = CommentRoleAgent"

fun index_by :: "('a \<Rightarrow> string) \<Rightarrow> string \<Rightarrow> 'a list \<Rightarrow> nat option" where
  "index_by key i [] = None"
| "index_by key i (x # xs) = (if key x = i then Some 0 else map_option Suc (index_by key i xs))"

definition threadIndex :: "claim \<Rightarrow> string \<Rightarrow> nat option" where
  "threadIndex c tid = index_by cm_ID tid (cl_Comments c)"

definition replyIndex :: "comment \<Rightarrow> string \<Rightarrow> nat option" where
  "replyIndex th rid = index_by rp_ID rid (cm_Replies th)"

definition set_thread :: "nat \<Rightarrow> comment \<Rightarrow> claim \<Rightarrow> claim" where
  "set_thread i th c = c\<lparr>cl_Comments := (cl_Comments c)[i := th]\<rparr>"

definition addThreadOp :: "(nat \<Rightarrow> string option) \<Rightarrow> string \<Rightarrow> string \<Rightarrow> string \<Rightarrow> claim \<Rightarrow> claim run" where
  "addThreadOp rnd now actor body c =
     run_bind (backfillIDs rnd c) (\<lambda>(c1, used).
     run_bind (mintUniqueID rnd threadIDPrefix used) (\<lambda>tid.
     run_return (c1\<lparr>cl_Comments := cl_Comments c1 @
       [\<lparr>cm_ID = tid, cm_Status = CommentStatusOpen, cm_Author = actor, cm_Created = now, cm_Body = body,
         cm_Edited = False, cm_Replies = [], cm_ResolvedBy = [], cm_ResolvedAt = [], cm_ReopenedBy = [],
         cm_ReopenedAt = []\<rparr>]\<rparr>)))"

definition replyOp :: "(nat \<Rightarrow> string option) \<Rightarrow> string \<Rightarrow> string \<Rightarrow> string \<Rightarrow> string \<Rightarrow> claim \<Rightarrow> claim run" where
  "replyOp rnd now tid actor body c =
     run_bind (backfillIDs rnd c) (\<lambda>(c1, used).
     case threadIndex c1 tid of
       None \<Rightarrow> run_fail ErrThreadNotFound
     | Some i \<Rightarrow>
         let th = cl_Comments c1 ! i in
         if cm_Status th \<noteq> CommentStatusOpen then run_fail ErrThreadResolved
         else
           run_bind (mintUniqueID rnd replyIDPrefix used) (\<lambda>rid.
           run_return (set_thread i (th\<lparr>cm_Replies := cm_Replies th @
             [\<lparr>rp_ID = rid, rp_Author = actor, rp_Created = now, rp_Body = body, rp_Edited = False\<rparr>]\<rparr>) c1)))"

definition resolveOp :: "(nat \<Rightarrow> string option) \<Rightarrow> string \<Rightarrow> string \<Rightarrow> string \<Rightarrow> claim \<Rightarrow> claim run" where
  "resolveOp rnd now tid actor c =
     run_bind (backfillIDs rnd c) (\<lambda>(c1, used).
     case threadIndex c1 tid of
       None \<Rightarrow> run_fail ErrThreadNotFound
     | Some i \<Rightarrow>
         let th = cl_Comments c1 ! i in
         if \<not> canAct actor (cm_Author th) then run_fail ErrRightsDenied
         else if cm_Status th \<noteq> CommentStatusOpen then run_fail ErrThreadResolved
         else run_return (set_thread i (th\<lparr>cm_Status := CommentStatusResolved, cm_ResolvedBy := actor,
                                           cm_ResolvedAt := now\<rparr>) c1))"

definition reopenOp :: "(nat \<Rightarrow> string option) \<Rightarrow> string \<Rightarrow> string \<Rightarrow> string \<Rightarrow> claim \<Rightarrow> claim run" where
  "reopenOp rnd now tid actor c =
     run_bind (backfillIDs rnd c) (\<lambda>(c1, used).
     case threadIndex c1 tid of
       None \<Rightarrow> run_fail ErrThreadNotFound
     | Some i \<Rightarrow>
         let th = cl_Comments c1 ! i in
         if \<not> canAct actor (cm_Author th) then run_fail ErrRightsDenied
         else if cm_Status th \<noteq> CommentStatusResolved then run_fail ErrThreadOpen
         else run_return (set_thread i (th\<lparr>cm_Status := CommentStatusOpen, cm_ReopenedBy := actor,
                                           cm_ReopenedAt := now\<rparr>) c1))"

definition editOp :: "(nat \<Rightarrow> string option) \<Rightarrow> string \<Rightarrow> string \<Rightarrow> string \<Rightarrow> string \<Rightarrow> claim \<Rightarrow> claim run" where
  "editOp rnd tid rid actor body c =
     run_bind (backfillIDs rnd c) (\<lambda>(c1, used).
     case threadIndex c1 tid of
       None \<Rightarrow> run_fail ErrThreadNotFound
     | Some i \<Rightarrow>
         let th = cl_Comments c1 ! i in
         if rid = [] then
           if \<not> canAct actor (cm_Author th) then run_fail ErrRightsDenied
           else run_return (set_thread i (th\<lparr>cm_Body := body, cm_Edited := True\<rparr>) c1)
         else
           (case replyIndex th rid of
              None \<Rightarrow> run_fail ErrReplyNotFound
            | Some j \<Rightarrow>
                let rp = cm_Replies th ! j in
                if \<not> canAct actor (rp_Author rp) then run_fail ErrRightsDenied
                else run_return (set_thread i (th\<lparr>cm_Replies := (cm_Replies th)[j := rp\<lparr>rp_Body := body,
                                                  rp_Edited := True\<rparr>]\<rparr>) c1)))"

definition delete_at :: "nat \<Rightarrow> 'a list \<Rightarrow> 'a list" where
  "delete_at i xs = take i xs @ drop (Suc i) xs"

definition deleteOp :: "(nat \<Rightarrow> string option) \<Rightarrow> string \<Rightarrow> string \<Rightarrow> string \<Rightarrow> claim \<Rightarrow> claim run" where
  "deleteOp rnd tid rid actor c =
     run_bind (backfillIDs rnd c) (\<lambda>(c1, used).
     case threadIndex c1 tid of
       None \<Rightarrow> run_fail ErrThreadNotFound
     | Some i \<Rightarrow>
         let th = cl_Comments c1 ! i in
         if rid = [] then
           if \<not> canAct actor (cm_Author th) then run_fail ErrRightsDenied
           else run_return (c1\<lparr>cl_Comments := delete_at i (cl_Comments c1)\<rparr>)
         else
           (case replyIndex th rid of
              None \<Rightarrow> run_fail ErrReplyNotFound
            | Some j \<Rightarrow>
                if \<not> canAct actor (rp_Author (cm_Replies th ! j)) then run_fail ErrRightsDenied
                else run_return (set_thread i (th\<lparr>cm_Replies := delete_at j (cm_Replies th)\<rparr>) c1)))"

text \<open>The operations as data; a banner claim refuses a new thread, in \<^verbatim>\<open>Add\<close>, before anything else.\<close>

datatype thread_op =
    AddThread string
  | ReplyTo string string
  | ResolveThread string
  | ReopenThread string
  | EditMessage string string string
  | DeleteMessage string string

definition run_op :: "(nat \<Rightarrow> string option) \<Rightarrow> string \<Rightarrow> string \<Rightarrow> thread_op \<Rightarrow> claim \<Rightarrow> claim run" where
  "run_op rnd now actor op c =
     (case op of
        AddThread body \<Rightarrow>
          if cl_Layout c = LayoutBanner then run_fail ErrBannerClaim else addThreadOp rnd now actor body c
      | ReplyTo tid body \<Rightarrow> replyOp rnd now tid actor body c
      | ResolveThread tid \<Rightarrow> resolveOp rnd now tid actor c
      | ReopenThread tid \<Rightarrow> reopenOp rnd now tid actor c
      | EditMessage tid rid body \<Rightarrow> editOp rnd tid rid actor body c
      | DeleteMessage tid rid \<Rightarrow> deleteOp rnd tid rid actor c)"


section \<open>Ids are fresh\<close>

lemma mint_result:
  assumes "mintUniqueID rnd prefix used k = Some y"
  shows "k < snd y \<and>
    (case fst y of Inl e \<Rightarrow> e = ErrRandom | Inr i \<Rightarrow> i \<notin> set used \<and> (\<exists>h. i = prefix @ h))"
proof (rule mintUniqueID.raw_induct [OF _ assms])
  fix mint rnd prefix used k y
  assume IH: "\<And>rnd prefix used k y. mint rnd prefix used k = Some y \<Longrightarrow> k < snd y \<and>
      (case fst y of Inl e \<Rightarrow> e = ErrRandom | Inr i \<Rightarrow> i \<notin> set used \<and> (\<exists>h. i = prefix @ h))"
    and eq: "(case rnd k of None \<Rightarrow> Some (Inl ErrRandom, Suc k)
      | Some b \<Rightarrow> if prefix @ hex_encode b \<in> set used then mint rnd prefix used (Suc k)
                  else Some (Inr (prefix @ hex_encode b), Suc k)) = Some y"
  show "k < snd y \<and>
      (case fst y of Inl e \<Rightarrow> e = ErrRandom | Inr i \<Rightarrow> i \<notin> set used \<and> (\<exists>h. i = prefix @ h))"
    using eq IH [of rnd prefix used "Suc k" y] by (auto split: option.splits if_splits)
qed

lemma mint_Inr: "mintUniqueID rnd prefix used k = Some (Inr i, k') \<Longrightarrow> i \<notin> set used \<and> (\<exists>h. i = prefix @ h)"
  by (drule mint_result) simp

lemma mint_Inl: "mintUniqueID rnd prefix used k = Some (Inl e, k') \<Longrightarrow> e = ErrRandom"
  by (drule mint_result) simp

lemma mint_returns:
  assumes "k \<le> j" "case rnd j of None \<Rightarrow> True | Some b \<Rightarrow> prefix @ hex_encode b \<notin> set used"
  shows "mintUniqueID rnd prefix used k \<noteq> None"
  using assms
proof (induction "j - k" arbitrary: k)
  case 0
  then show ?case by (subst mintUniqueID.simps) (auto split: option.splits)
next
  case (Suc n)
  then have "mintUniqueID rnd prefix used (Suc k) \<noteq> None" by (intro Suc.hyps) auto
  then show ?case by (subst mintUniqueID.simps) (auto split: option.splits)
qed

lemma mint_now:
  "rnd k = Some b \<Longrightarrow> prefix @ hex_encode b \<notin> set used \<Longrightarrow>
   mintUniqueID rnd prefix used k = Some (Inr (prefix @ hex_encode b), Suc k)"
  by (subst mintUniqueID.simps) simp

lemma mint_needs:
  assumes "mintUniqueID rnd prefix used k = Some y"
  shows "\<exists>j \<ge> k. case rnd j of None \<Rightarrow> True | Some b \<Rightarrow> prefix @ hex_encode b \<notin> set used"
proof (rule mintUniqueID.raw_induct [OF _ assms])
  fix mint rnd prefix used k and y :: "(thread_error + string) \<times> nat"
  assume IH: "\<And>rnd prefix used k y. mint rnd prefix used k = Some y \<Longrightarrow>
      \<exists>j \<ge> k. case rnd j of None \<Rightarrow> True | Some b \<Rightarrow> prefix @ hex_encode b \<notin> set used"
    and eq: "(case rnd k of None \<Rightarrow> Some (Inl ErrRandom, Suc k)
      | Some b \<Rightarrow> if prefix @ hex_encode b \<in> set used then mint rnd prefix used (Suc k)
                  else Some (Inr (prefix @ hex_encode b), Suc k)) = Some y"
  show "\<exists>j \<ge> k. case rnd j of None \<Rightarrow> True | Some b \<Rightarrow> prefix @ hex_encode b \<notin> set used"
  proof (cases "case rnd k of None \<Rightarrow> True | Some b \<Rightarrow> prefix @ hex_encode b \<notin> set used")
    case True
    then show ?thesis by (intro exI [of _ k]) simp
  next
    case False
    with eq have "mint rnd prefix used (Suc k) = Some y" by (auto split: option.splits if_splits)
    from IH [OF this] obtain j where "Suc k \<le> j"
      "case rnd j of None \<Rightarrow> True | Some b \<Rightarrow> prefix @ hex_encode b \<notin> set used" by blast
    then show ?thesis by (intro exI [of _ j]) simp
  qed
qed

text \<open>
  \<open>fills U xs ys\<close>: \<open>ys\<close> is \<open>xs\<close> with every empty id replaced by one that is not in \<open>U\<close> and was not
  used before; \<open>U\<close> holds the ids that were there.
\<close>

fun fills :: "string set \<Rightarrow> string list \<Rightarrow> string list \<Rightarrow> bool" where
  "fills U [] ys = (ys = [])"
| "fills U (x # xs) [] = False"
| "fills U (x # xs) (y # ys) =
     (if x = [] then y \<noteq> [] \<and> y \<notin> U \<and> fills (insert y U) xs ys else y = x \<and> x \<in> U \<and> fills U xs ys)"

lemma fills_append:
  "fills U xs ys \<Longrightarrow> fills (U \<union> set ys) xs' ys' \<Longrightarrow> fills U (xs @ xs') (ys @ ys')"
proof (induction U xs ys rule: fills.induct)
  case (3 U x xs y ys)
  then show ?case by (cases "x = []") (auto simp: insert_absorb)
qed auto

lemma fills_distinct:
  assumes "fills U xs ys" "distinct (filter (\<lambda>x. x \<noteq> []) xs)" "set xs \<subseteq> insert [] U"
  shows "distinct ys \<and> [] \<notin> set ys \<and> (\<forall>y \<in> set ys. y \<in> set xs \<or> y \<notin> U)"
  using assms
proof (induction U xs ys rule: fills.induct)
  case (3 U x xs y ys)
  show ?case
  proof (cases "x = []")
    case True
    with 3 have "distinct ys \<and> [] \<notin> set ys \<and> (\<forall>z \<in> set ys. z \<in> set xs \<or> z \<notin> insert y U)"
      by (intro "3.IH"(1)) auto
    with True "3.prems" show ?thesis by auto
  next
    case False
    with 3 show ?thesis by auto
  qed
qed auto

lemma fills_keep: "fills U xs ys \<Longrightarrow> [] \<notin> set xs \<Longrightarrow> ys = xs"
  by (induction U xs ys rule: fills.induct) auto

definition no_rid :: "reply \<Rightarrow> reply" where
  "no_rid r = r\<lparr>rp_ID := []\<rparr>"

definition no_ids :: "comment \<Rightarrow> comment" where
  "no_ids cm = cm\<lparr>cm_ID := [], cm_Replies := map no_rid (cm_Replies cm)\<rparr>"

lemma no_rid_upd [simp]: "no_rid (r\<lparr>rp_ID := i\<rparr>) = no_rid r"
  by (simp add: no_rid_def)

lemma backfill_replies_spec:
  "backfill_replies rnd rs used k = Some (Inr (rs', used'), k') \<Longrightarrow>
   set (map rp_ID rs) \<subseteq> insert [] (set used) \<Longrightarrow>
   fills (set used) (map rp_ID rs) (map rp_ID rs') \<and> set used' = set used \<union> set (map rp_ID rs') \<and>
   map no_rid rs' = map no_rid rs"
proof (induction rnd rs used arbitrary: rs' used' k k' rule: backfill_replies.induct)
  case (2 rnd r rs used)
  show ?case
  proof (cases "rp_ID r = []")
    case True
    with "2.prems"(1) obtain i k1 rs1 k2 where i: "mintUniqueID rnd replyIDPrefix used k = Some (Inr i, k1)"
      and rs1: "backfill_replies rnd rs (i # used) k1 = Some (Inr (rs1, used'), k2)"
      and out: "rs' = r\<lparr>rp_ID := i\<rparr> # rs1" by (auto simp: run_bind_Inr split: prod.splits)
    have "i \<notin> set used" "i \<noteq> []" using mint_Inr [OF i] by (auto simp: replyIDPrefix_def)
    moreover note "2.IH"(1) [OF True rs1]
    ultimately show ?thesis using True out "2.prems"(2) by auto
  next
    case False
    with "2.prems"(1) obtain rs1 k1 where rs1: "backfill_replies rnd rs used k = Some (Inr (rs1, used'), k1)"
      and out: "rs' = r # rs1" by (auto simp: run_bind_Inr split: prod.splits)
    from "2.IH"(2) [OF False rs1] show ?thesis using False out "2.prems"(2) by auto
  qed
qed auto

lemma backfill_thread_spec:
  assumes "backfill_thread rnd cm used k = Some (Inr (cm', used'), k')"
    "set (thread_ids cm) \<subseteq> insert [] (set used)"
  shows "fills (set used) (thread_ids cm) (thread_ids cm') \<and> set used' = set used \<union> set (thread_ids cm') \<and>
    no_ids cm' = no_ids cm"
proof (cases "cm_ID cm = []")
  case True
  with assms(1) obtain i k1 rs k2 where i: "mintUniqueID rnd threadIDPrefix used k = Some (Inr i, k1)"
    and rs: "backfill_replies rnd (cm_Replies cm) (i # used) k1 = Some (Inr (rs, used'), k2)"
    and out: "cm' = cm\<lparr>cm_ID := i, cm_Replies := rs\<rparr>"
    by (auto simp: backfill_thread_def run_bind_Inr split: prod.splits)
  have "i \<notin> set used" "i \<noteq> []" using mint_Inr [OF i] by (auto simp: threadIDPrefix_def)
  moreover have "set (map rp_ID (cm_Replies cm)) \<subseteq> insert [] (set (i # used))"
    using assms(2) by (auto simp: thread_ids_def)
  ultimately show ?thesis using backfill_replies_spec [OF rs] True out
    by (auto simp: thread_ids_def no_ids_def)
next
  case False
  with assms(1) obtain rs k1 where rs: "backfill_replies rnd (cm_Replies cm) used k = Some (Inr (rs, used'), k1)"
    and out: "cm' = cm\<lparr>cm_Replies := rs\<rparr>"
    by (auto simp: backfill_thread_def run_bind_Inr split: prod.splits)
  have "set (map rp_ID (cm_Replies cm)) \<subseteq> insert [] (set used)"
    using assms(2) by (auto simp: thread_ids_def)
  then show ?thesis using backfill_replies_spec [OF rs] assms(2) False out
    by (auto simp: thread_ids_def no_ids_def)
qed

lemma backfill_threads_spec:
  "backfill_threads rnd cms used k = Some (Inr (cms', used'), k') \<Longrightarrow>
   set (concat (map thread_ids cms)) \<subseteq> insert [] (set used) \<Longrightarrow>
   fills (set used) (concat (map thread_ids cms)) (concat (map thread_ids cms')) \<and>
   set used' = set used \<union> set (concat (map thread_ids cms')) \<and> map no_ids cms' = map no_ids cms"
proof (induction rnd cms used arbitrary: cms' used' k k' rule: backfill_threads.induct)
  case (2 rnd cm cms used)
  then obtain cm1 used1 k1 cms1 k2 where one: "backfill_thread rnd cm used k = Some (Inr (cm1, used1), k1)"
    and rest: "backfill_threads rnd cms used1 k1 = Some (Inr (cms1, used'), k2)"
    and out: "cms' = cm1 # cms1" by (auto simp: run_bind_Inr split: prod.splits)
  have a: "fills (set used) (thread_ids cm) (thread_ids cm1)" "set used1 = set used \<union> set (thread_ids cm1)"
      "no_ids cm1 = no_ids cm"
    using backfill_thread_spec [OF one] "2.prems"(2) by auto
  have "set (concat (map thread_ids cms)) \<subseteq> insert [] (set used1)" using "2.prems"(2) a(2) by auto
  from "2.IH" [OF rest this] a out show ?case
    by (auto intro: fills_append)
qed auto

lemma backfill_spec:
  assumes "backfillIDs rnd c k = Some (Inr (c1, used), k')"
  shows "fills (set (collectIDs c)) (all_ids c) (all_ids c1)" "set (all_ids c1) \<subseteq> set used"
    "map no_ids (cl_Comments c1) = map no_ids (cl_Comments c)" "c1\<lparr>cl_Comments := cl_Comments c\<rparr> = c"
proof -
  from assms obtain cms k1 where t: "backfill_threads rnd (cl_Comments c) (collectIDs c) k = Some (Inr (cms, used), k1)"
    and out: "c1 = c\<lparr>cl_Comments := cms\<rparr>"
    by (auto simp: backfillIDs_def run_bind_Inr split: prod.splits)
  have "set (concat (map thread_ids (cl_Comments c))) \<subseteq> insert [] (set (collectIDs c))"
    by (auto simp: collectIDs_def all_ids_def)
  from backfill_threads_spec [OF t this] out
  show "fills (set (collectIDs c)) (all_ids c) (all_ids c1)" "set (all_ids c1) \<subseteq> set used"
    "map no_ids (cl_Comments c1) = map no_ids (cl_Comments c)" "c1\<lparr>cl_Comments := cl_Comments c\<rparr> = c"
    by (auto simp: all_ids_def)
qed

lemma backfill_unique:
  assumes "backfillIDs rnd c k = Some (Inr (c1, used), k')" "distinct (collectIDs c)"
  shows "distinct (all_ids c1)" "[] \<notin> set (all_ids c1)"
  using fills_distinct [OF backfill_spec(1) [OF assms(1)]] assms(2) by (auto simp: collectIDs_def)

section \<open>The ids of a claim stay unique\<close>

lemma index_by_Some: "index_by key i xs = Some n \<Longrightarrow> n < length xs \<and> key (xs ! n) = i"
  by (induction xs arbitrary: n) (auto split: if_splits)

lemma all_ids_split:
  "i < length (cl_Comments c) \<Longrightarrow>
   all_ids c = concat (map thread_ids (take i (cl_Comments c))) @ thread_ids (cl_Comments c ! i) @
     concat (map thread_ids (drop (Suc i) (cl_Comments c)))"
  using arg_cong [OF id_take_nth_drop [of i "cl_Comments c"], of "\<lambda>cms. concat (map thread_ids cms)"]
  by (simp add: all_ids_def)

lemma all_ids_set_thread:
  "i < length (cl_Comments c) \<Longrightarrow>
   all_ids (set_thread i th c) = concat (map thread_ids (take i (cl_Comments c))) @ thread_ids th @
     concat (map thread_ids (drop (Suc i) (cl_Comments c)))"
  by (simp add: all_ids_def set_thread_def upd_conv_take_nth_drop)

definition unique_ids :: "claim \<Rightarrow> bool" where
  "unique_ids c \<longleftrightarrow> distinct (all_ids c) \<and> [] \<notin> set (all_ids c)"

lemma set_thread_unique:
  assumes "unique_ids c" "i < length (cl_Comments c)"
    "distinct (thread_ids th)" "set (thread_ids th) \<subseteq> set (thread_ids (cl_Comments c ! i)) \<union> new"
    "new \<inter> insert [] (set (all_ids c)) = {}"
  shows "unique_ids (set_thread i th c)"
  using assms all_ids_split [OF assms(2)] unfolding unique_ids_def all_ids_set_thread [OF assms(2)]
  by auto blast+

lemma set_thread_same_unique:
  "unique_ids c \<Longrightarrow> i < length (cl_Comments c) \<Longrightarrow> thread_ids th = thread_ids (cl_Comments c ! i) \<Longrightarrow>
   unique_ids (set_thread i th c)"
  by (simp add: unique_ids_def all_ids_set_thread all_ids_split)

lemma map_delete_at: "map f (delete_at i xs) = delete_at i (map f xs)"
  by (simp add: delete_at_def take_map drop_map)

lemma delete_at_set: "set (delete_at i xs) \<subseteq> set xs"
  by (auto simp: delete_at_def dest: in_set_takeD in_set_dropD)

lemma delete_at_distinct: "distinct xs \<Longrightarrow> distinct (delete_at i xs)"
  unfolding delete_at_def
  by (simp add: set_take_disj_set_drop_if_distinct)

lemma thread_unique: "unique_ids c \<Longrightarrow> i < length (cl_Comments c) \<Longrightarrow> distinct (thread_ids (cl_Comments c ! i))"
  using all_ids_split by (simp add: unique_ids_def)

lemma delete_thread_unique:
  "unique_ids c \<Longrightarrow> i < length (cl_Comments c) \<Longrightarrow> unique_ids (c\<lparr>cl_Comments := delete_at i (cl_Comments c)\<rparr>)"
  using all_ids_split [of i c] unfolding unique_ids_def all_ids_def delete_at_def by auto

lemma run_op_cases:
  assumes "run_op rnd now actor op c k = Some (Inr c', k')"
  obtains (add) c1 used k1 tid k2 body where "op = AddThread body"
      "backfillIDs rnd c k = Some (Inr (c1, used), k1)" "mintUniqueID rnd threadIDPrefix used k1 = Some (Inr tid, k2)"
      "c' = c1\<lparr>cl_Comments := cl_Comments c1 @
       [\<lparr>cm_ID = tid, cm_Status = CommentStatusOpen, cm_Author = actor, cm_Created = now, cm_Body = body,
         cm_Edited = False, cm_Replies = [], cm_ResolvedBy = [], cm_ResolvedAt = [], cm_ReopenedBy = [],
         cm_ReopenedAt = []\<rparr>]\<rparr>"
    | (reply) c1 used k1 i rid k2 tid body where "op = ReplyTo tid body"
      "backfillIDs rnd c k = Some (Inr (c1, used), k1)" "i < length (cl_Comments c1)"
      "mintUniqueID rnd replyIDPrefix used k1 = Some (Inr rid, k2)"
      "c' = set_thread i ((cl_Comments c1 ! i)\<lparr>cm_Replies := cm_Replies (cl_Comments c1 ! i) @
             [\<lparr>rp_ID = rid, rp_Author = actor, rp_Created = now, rp_Body = body, rp_Edited = False\<rparr>]\<rparr>) c1"
    | (root) c1 used k1 i th where "backfillIDs rnd c k = Some (Inr (c1, used), k1)" "i < length (cl_Comments c1)"
      "canAct actor (cm_Author (cl_Comments c1 ! i))" "cm_ID th = cm_ID (cl_Comments c1 ! i)"
      "cm_Author th = cm_Author (cl_Comments c1 ! i)" "cm_Replies th = cm_Replies (cl_Comments c1 ! i)"
      "c' = set_thread i th c1"
    | (edit_reply) c1 used k1 i j r where "backfillIDs rnd c k = Some (Inr (c1, used), k1)"
      "i < length (cl_Comments c1)" "j < length (cm_Replies (cl_Comments c1 ! i))"
      "canAct actor (rp_Author (cm_Replies (cl_Comments c1 ! i) ! j))"
      "rp_ID r = rp_ID (cm_Replies (cl_Comments c1 ! i) ! j)" "rp_Author r = rp_Author (cm_Replies (cl_Comments c1 ! i) ! j)"
      "c' = set_thread i ((cl_Comments c1 ! i)\<lparr>cm_Replies := (cm_Replies (cl_Comments c1 ! i))[j := r]\<rparr>) c1"
    | (delete_thread) c1 used k1 i tid where "op = DeleteMessage tid []"
      "backfillIDs rnd c k = Some (Inr (c1, used), k1)" "i < length (cl_Comments c1)"
      "canAct actor (cm_Author (cl_Comments c1 ! i))" "c' = c1\<lparr>cl_Comments := delete_at i (cl_Comments c1)\<rparr>"
    | (delete_reply) c1 used k1 i j where "backfillIDs rnd c k = Some (Inr (c1, used), k1)"
      "i < length (cl_Comments c1)" "j < length (cm_Replies (cl_Comments c1 ! i))"
      "canAct actor (rp_Author (cm_Replies (cl_Comments c1 ! i) ! j))"
      "c' = set_thread i ((cl_Comments c1 ! i)\<lparr>cm_Replies := delete_at j (cm_Replies (cl_Comments c1 ! i))\<rparr>) c1"
proof (cases op)
  case (AddThread body)
  with assms show ?thesis
    by (auto simp: run_op_def addThreadOp_def run_bind_Inr split: if_splits prod.splits intro: add)
next
  case (ReplyTo tid body)
  with assms show ?thesis
    by (auto simp: run_op_def replyOp_def run_bind_Inr Let_def threadIndex_def split: if_splits prod.splits option.splits
        dest!: index_by_Some intro: reply)
next
  case (ResolveThread tid)
  with assms obtain c1 used k1 where bf: "backfillIDs rnd c k = Some (Inr (c1, used), k1)"
    and rest: "(case threadIndex c1 tid of None \<Rightarrow> run_fail ErrThreadNotFound
        | Some i \<Rightarrow> (let th = cl_Comments c1 ! i in
          if \<not> canAct actor (cm_Author th) then run_fail ErrRightsDenied
          else if cm_Status th \<noteq> CommentStatusOpen then run_fail ErrThreadResolved
          else run_return (set_thread i (th\<lparr>cm_Status := CommentStatusResolved, cm_ResolvedBy := actor,
                                            cm_ResolvedAt := now\<rparr>) c1))) k1 = Some (Inr c', k')"
    by (auto simp: run_op_def resolveOp_def run_bind_Inr)
  then obtain i where i: "threadIndex c1 tid = Some i" by (cases "threadIndex c1 tid") auto
  then have "i < length (cl_Comments c1)" unfolding threadIndex_def by (auto dest: index_by_Some)
  moreover from rest i have can: "canAct actor (cm_Author (cl_Comments c1 ! i))"
    and out: "c' = set_thread i ((cl_Comments c1 ! i)\<lparr>cm_Status := CommentStatusResolved, cm_ResolvedBy := actor, cm_ResolvedAt := now\<rparr>) c1"
    by (auto simp: Let_def split: if_splits)
  ultimately show ?thesis by (intro root [OF bf _ can _ _ _ out]) simp_all
next
  case (ReopenThread tid)
  with assms obtain c1 used k1 where bf: "backfillIDs rnd c k = Some (Inr (c1, used), k1)"
    and rest: "(case threadIndex c1 tid of None \<Rightarrow> run_fail ErrThreadNotFound
        | Some i \<Rightarrow> (let th = cl_Comments c1 ! i in
          if \<not> canAct actor (cm_Author th) then run_fail ErrRightsDenied
          else if cm_Status th \<noteq> CommentStatusResolved then run_fail ErrThreadOpen
          else run_return (set_thread i (th\<lparr>cm_Status := CommentStatusOpen, cm_ReopenedBy := actor,
                                            cm_ReopenedAt := now\<rparr>) c1))) k1 = Some (Inr c', k')"
    by (auto simp: run_op_def reopenOp_def run_bind_Inr)
  then obtain i where i: "threadIndex c1 tid = Some i" by (cases "threadIndex c1 tid") auto
  then have "i < length (cl_Comments c1)" unfolding threadIndex_def by (auto dest: index_by_Some)
  moreover from rest i have can: "canAct actor (cm_Author (cl_Comments c1 ! i))"
    and out: "c' = set_thread i ((cl_Comments c1 ! i)\<lparr>cm_Status := CommentStatusOpen, cm_ReopenedBy := actor, cm_ReopenedAt := now\<rparr>) c1"
    by (auto simp: Let_def split: if_splits)
  ultimately show ?thesis by (intro root [OF bf _ can _ _ _ out]) simp_all
next
  case (EditMessage tid rid body)
  with assms obtain c1 used k1 where bf: "backfillIDs rnd c k = Some (Inr (c1, used), k1)"
    and rest: "(case threadIndex c1 tid of None \<Rightarrow> run_fail ErrThreadNotFound
        | Some i \<Rightarrow> (let th = cl_Comments c1 ! i in
         if rid = [] then
           if \<not> canAct actor (cm_Author th) then run_fail ErrRightsDenied
           else run_return (set_thread i (th\<lparr>cm_Body := body, cm_Edited := True\<rparr>) c1)
         else
           (case replyIndex th rid of
              None \<Rightarrow> run_fail ErrReplyNotFound
            | Some j \<Rightarrow>
                let rp = cm_Replies th ! j in
                if \<not> canAct actor (rp_Author rp) then run_fail ErrRightsDenied
                else run_return (set_thread i (th\<lparr>cm_Replies := (cm_Replies th)[j := rp\<lparr>rp_Body := body,
                                                  rp_Edited := True\<rparr>]\<rparr>) c1)))) k1 = Some (Inr c', k')"
    by (auto simp: run_op_def editOp_def run_bind_Inr)
  then obtain i where i: "threadIndex c1 tid = Some i" by (cases "threadIndex c1 tid") auto
  then have "i < length (cl_Comments c1)" unfolding threadIndex_def by (auto dest: index_by_Some)
  show ?thesis
  proof (cases "rid = []")
    case True
    with rest i have can: "canAct actor (cm_Author (cl_Comments c1 ! i))"
      and out: "c' = set_thread i ((cl_Comments c1 ! i)\<lparr>cm_Body := body, cm_Edited := True\<rparr>) c1"
      by (auto simp: Let_def split: if_splits)
    from \<open>i < length (cl_Comments c1)\<close> show ?thesis by (intro root [OF bf _ can _ _ _ out]) simp_all
  next
    case False
    with rest i obtain j where j: "replyIndex (cl_Comments c1 ! i) rid = Some j"
      by (cases "replyIndex (cl_Comments c1 ! i) rid") (auto simp: Let_def)
    then have "j < length (cm_Replies (cl_Comments c1 ! i))" unfolding replyIndex_def by (auto dest: index_by_Some)
    moreover from rest i j False have can: "canAct actor (rp_Author (cm_Replies (cl_Comments c1 ! i) ! j))"
      and out: "c' = set_thread i ((cl_Comments c1 ! i)\<lparr>cm_Replies := (cm_Replies (cl_Comments c1 ! i))
         [j := (cm_Replies (cl_Comments c1 ! i) ! j)\<lparr>rp_Body := body, rp_Edited := True\<rparr>]\<rparr>) c1"
      by (auto simp: Let_def split: if_splits)
    ultimately show ?thesis using \<open>i < length (cl_Comments c1)\<close>
      by (intro edit_reply [OF bf _ _ can _ _ out]) simp_all
  qed
next
  case (DeleteMessage tid rid)
  with assms obtain c1 used k1 where bf: "backfillIDs rnd c k = Some (Inr (c1, used), k1)"
    and rest: "(case threadIndex c1 tid of None \<Rightarrow> run_fail ErrThreadNotFound
        | Some i \<Rightarrow> (let th = cl_Comments c1 ! i in
         if rid = [] then
           if \<not> canAct actor (cm_Author th) then run_fail ErrRightsDenied
           else run_return (c1\<lparr>cl_Comments := delete_at i (cl_Comments c1)\<rparr>)
         else
           (case replyIndex th rid of
              None \<Rightarrow> run_fail ErrReplyNotFound
            | Some j \<Rightarrow>
                if \<not> canAct actor (rp_Author (cm_Replies th ! j)) then run_fail ErrRightsDenied
                else run_return (set_thread i (th\<lparr>cm_Replies := delete_at j (cm_Replies th)\<rparr>) c1)))) k1 = Some (Inr c', k')"
    by (auto simp: run_op_def deleteOp_def run_bind_Inr)
  then obtain i where i: "threadIndex c1 tid = Some i" by (cases "threadIndex c1 tid") auto
  then have "i < length (cl_Comments c1)" unfolding threadIndex_def by (auto dest: index_by_Some)
  show ?thesis
  proof (cases "rid = []")
    case True
    with \<open>i < length (cl_Comments c1)\<close> rest i DeleteMessage delete_thread [OF _ bf] show ?thesis by (auto simp: Let_def split: if_splits)
  next
    case False
    with rest i obtain j where j: "replyIndex (cl_Comments c1 ! i) rid = Some j"
      by (cases "replyIndex (cl_Comments c1 ! i) rid") (auto simp: Let_def)
    then have "j < length (cm_Replies (cl_Comments c1 ! i))" unfolding replyIndex_def by (auto dest: index_by_Some)
    with \<open>i < length (cl_Comments c1)\<close> rest i j False delete_reply [OF bf] show ?thesis by (auto simp: Let_def split: if_splits)
  qed
qed

lemma backfill_unique_ids:
  "backfillIDs rnd c k = Some (Inr (c1, used), k') \<Longrightarrow> distinct (collectIDs c) \<Longrightarrow> unique_ids c1"
  using backfill_unique by (auto simp: unique_ids_def)

lemma mint_new:
  assumes "backfillIDs rnd c k = Some (Inr (c1, used), k1)" "mintUniqueID rnd prefix used k1 = Some (Inr i, k2)"
    "prefix \<noteq> []"
  shows "i \<notin> insert [] (set (all_ids c1))"
  using mint_Inr [OF assms(2)] backfill_spec(2) [OF assms(1)] assms(3) by auto

text \<open>An operation touches the threads and nothing else of the claim.\<close>

lemma run_op_frame:
  assumes "run_op rnd now actor op c k = Some (Inr c', k')"
  shows "\<exists>cms. c' = c\<lparr>cl_Comments := cms\<rparr>"
proof -
  have frame: "\<exists>cms. c1 = c\<lparr>cl_Comments := cms\<rparr>" if "backfillIDs rnd c k = Some (Inr (c1, used), k1)" for c1 used k1
    using backfill_spec(4) [OF that] by (intro exI [of _ "cl_Comments c1"]) (cases c, cases c1, simp)
  show ?thesis using assms
    by (cases rule: run_op_cases) (auto dest!: frame simp: set_thread_def)
qed

text \<open>
  C10: Every message has an id of its own: after any thread operation that succeeds, no id of the claim
  is empty or used twice, whatever hand-written entries without an id the claim held before.
\<close>

theorem run_op_unique_ids:
  assumes "run_op rnd now actor op c k = Some (Inr c', k')" "distinct (collectIDs c)"
  shows "distinct (all_ids c') \<and> [] \<notin> set (all_ids c')"
proof -
  have "unique_ids c'" using assms(1)
  proof (cases rule: run_op_cases)
    case (add c1 used k1 tid k2 body)
    with backfill_unique_ids [OF add(2) assms(2)] mint_new [OF add(2,3)] show ?thesis
      by (auto simp: unique_ids_def all_ids_def thread_ids_def threadIDPrefix_def)
  next
    case (reply c1 used k1 i rid k2 tid body)
    have new: "{rid} \<inter> insert [] (set (all_ids c1)) = {}"
      using mint_new [OF reply(2,4)] by (simp add: replyIDPrefix_def)
    have u: "unique_ids c1" by (rule backfill_unique_ids [OF reply(2) assms(2)])
    then have "distinct (thread_ids (cl_Comments c1 ! i))" "set (thread_ids (cl_Comments c1 ! i)) \<subseteq> set (all_ids c1)"
      using thread_unique all_ids_split reply(3) by auto
    with new show ?thesis unfolding reply(5)
      by (intro set_thread_unique [OF u reply(3) _ _ new]) (auto simp: thread_ids_def)
  next
    case (root c1 used k1 i th)
    with backfill_unique_ids [OF root(1) assms(2)] show ?thesis
      by (auto intro: set_thread_same_unique simp: thread_ids_def)
  next
    case (edit_reply c1 used k1 i j r)
    with backfill_unique_ids [OF edit_reply(1) assms(2)] show ?thesis
      by (auto intro!: set_thread_same_unique simp: thread_ids_def map_update list_update_same_conv)
  next
    case (delete_thread c1 used k1 i tid)
    with backfill_unique_ids [OF delete_thread(2) assms(2)] show ?thesis
      by (auto intro: delete_thread_unique)
  next
    case (delete_reply c1 used k1 i j)
    have u: "unique_ids c1" by (rule backfill_unique_ids [OF delete_reply(1) assms(2)])
    let ?r = "map rp_ID (cm_Replies (cl_Comments c1 ! i))"
    have "set (delete_at j ?r) \<subseteq> set ?r" by (rule delete_at_set)
    moreover have "distinct (thread_ids (cl_Comments c1 ! i))" by (rule thread_unique [OF u delete_reply(2)])
    ultimately show ?thesis unfolding delete_reply(5)
      by (intro set_thread_unique [OF u delete_reply(2), where new = "{}"])
         (auto simp: thread_ids_def map_delete_at delete_at_distinct)
  qed
  then show ?thesis by (simp add: unique_ids_def)
qed

definition hand_written :: claim where
  "hand_written = zero_claim\<lparr>cl_Comments :=
     [\<lparr>cm_ID = ''c-1'', cm_Status = CommentStatusOpen, cm_Author = CommentRoleAgent, cm_Created = [], cm_Body = ''a'',
       cm_Edited = False, cm_Replies = [\<lparr>rp_ID = [], rp_Author = CommentRoleHuman, rp_Created = [], rp_Body = ''b'',
         rp_Edited = False\<rparr>], cm_ResolvedBy = [], cm_ResolvedAt = [], cm_ReopenedBy = [], cm_ReopenedAt = []\<rparr>]\<rparr>"

definition counting :: "nat \<Rightarrow> string option" where
  "counting k = Some (be_bytes 3 k)"

lemma counting_hex: "hex_encode (be_bytes 3 0) = ''000000''" "hex_encode (be_bytes 3 (Suc 0)) = ''000001''"
  by code_simp+

lemmas run_simps = run_op_def run_bind_def run_return_def run_fail_def backfillIDs_def backfill_thread_def
  collectIDs_def all_ids_def thread_ids_def threadIndex_def replyIndex_def set_thread_def Let_def
  threadIDPrefix_def replyIDPrefix_def

theorem run_op_unique_ids_witness:
  "\<exists>c' k'. run_op counting ''t'' CommentRoleAgent (ReplyTo ''c-1'' ''x'') hand_written 0 = Some (Inr c', k') \<and>
     all_ids c' = [''c-1'', ''r-000000'', ''r-000001''] \<and> distinct (all_ids c')"
proof -
  let ?run = "run_op counting ''t'' CommentRoleAgent (ReplyTo ''c-1'' ''x'') hand_written 0"
  have r: "(case ?run of Some (Inr c', _) \<Rightarrow> all_ids c' = [''c-1'', ''r-000000'', ''r-000001''] | _ \<Rightarrow> False)"
    by (simp add: run_simps replyOp_def mint_now counting_def counting_hex hand_written_def)
  then obtain c' k' where run: "?run = Some (Inr c', k')" by (auto split: option.splits sum.splits)
  from run_op_unique_ids [OF run] have "distinct (all_ids c')" by (simp add: collectIDs_def all_ids_def thread_ids_def hand_written_def)
  with run r show ?thesis by auto
qed

section \<open>What an agent may touch\<close>

text \<open>
  The human part of a claim: what the threads hold by other authors than agents, ids aside, because a
  missing id is filled in by whoever comes first.
\<close>

definition thread_view :: "comment \<Rightarrow> comment option \<times> reply list" where
  "thread_view cm =
     (if cm_Author cm = CommentRoleAgent then None else Some ((no_ids cm)\<lparr>cm_Replies := []\<rparr>),
      filter (\<lambda>r. rp_Author r \<noteq> CommentRoleAgent) (map no_rid (cm_Replies cm)))"

definition human_view :: "claim \<Rightarrow> (comment option \<times> reply list) list" where
  "human_view c = filter (\<lambda>v. v \<noteq> (None, [])) (map thread_view (cl_Comments c))"

lemma map_transfer:
  assumes "map f xs = map f ys" "\<And>x y. f x = f y \<Longrightarrow> g x = g y"
  shows "map g xs = map g ys"
proof -
  have len: "length xs = length ys" using assms(1) by (rule map_eq_imp_length_eq)
  have "g (xs ! n) = g (ys ! n)" if "n < length xs" for n
    using arg_cong [OF assms(1), of "\<lambda>l. l ! n"] that len by (intro assms(2)) simp
  with len show ?thesis by (intro nth_equalityI) simp_all
qed

lemma thread_view_cong: "no_ids a = no_ids b \<Longrightarrow> thread_view a = thread_view b"
  by (cases a, cases b) (simp add: thread_view_def no_ids_def)

lemma backfill_view: "backfillIDs rnd c k = Some (Inr (c1, used), k') \<Longrightarrow> human_view c1 = human_view c"
proof -
  assume "backfillIDs rnd c k = Some (Inr (c1, used), k')"
  from backfill_spec(3) [OF this] have "map thread_view (cl_Comments c1) = map thread_view (cl_Comments c)"
    by (rule map_transfer) (rule thread_view_cong)
  then show ?thesis by (simp add: human_view_def)
qed

lemma filter_update_out:
  "j < length xs \<Longrightarrow> \<not> P (xs ! j) \<Longrightarrow> \<not> P y \<Longrightarrow> filter P (xs[j := y]) = filter P xs"
  using arg_cong [OF id_take_nth_drop [of j xs], of "filter P"] by (simp add: upd_conv_take_nth_drop)

lemma filter_delete_at: "j < length xs \<Longrightarrow> \<not> P (xs ! j) \<Longrightarrow> filter P (delete_at j xs) = filter P xs"
  using arg_cong [OF id_take_nth_drop [of j xs], of "filter P"] by (simp add: delete_at_def)

lemma set_thread_view:
  "i < length (cl_Comments c) \<Longrightarrow> thread_view th = thread_view (cl_Comments c ! i) \<Longrightarrow>
   human_view (set_thread i th c) = human_view c"
  using list_update_id [of "map thread_view (cl_Comments c)" i]
  by (simp add: human_view_def set_thread_def map_update)

lemma replies_view:
  assumes "filter (\<lambda>r. rp_Author r \<noteq> CommentRoleAgent) rs = filter (\<lambda>r. rp_Author r \<noteq> CommentRoleAgent) (cm_Replies th)"
  shows "thread_view (th\<lparr>cm_Replies := rs\<rparr>) = thread_view th"
proof -
  have "filter (\<lambda>r. rp_Author r \<noteq> CommentRoleAgent) (map no_rid xs) =
      map no_rid (filter (\<lambda>r. rp_Author r \<noteq> CommentRoleAgent) xs)" for xs
    by (simp add: filter_map comp_def no_rid_def)
  with assms show ?thesis by (simp add: thread_view_def no_ids_def)
qed

lemma agent_acts: "canAct CommentRoleAgent author \<longleftrightarrow> author = CommentRoleAgent"
  by (simp add: canAct_def CommentRoleAgent_def CommentRoleHuman_def)

lemma agent_edits:
  assumes "run_op rnd now CommentRoleAgent op c k = Some (Inr c', k')"
  shows "human_view c' = human_view c \<or>
    (\<exists>tid i. op = DeleteMessage tid [] \<and> i < length (cl_Comments c) \<and> cm_Author (cl_Comments c ! i) = CommentRoleAgent \<and>
       map no_ids (cl_Comments c') = delete_at i (map no_ids (cl_Comments c)))"
  using assms
proof (cases rule: run_op_cases)
  case (add c1 used k1 tid k2 body)
  with backfill_view [OF add(2)] have "human_view c' = human_view c" by (simp add: human_view_def thread_view_def)
  then show ?thesis ..
next
  case (reply c1 used k1 i rid k2 tid body)
  have "human_view c' = human_view c1"
    unfolding reply(5) using reply(3) by (intro set_thread_view replies_view) simp_all
  with backfill_view [OF reply(2)] show ?thesis by simp
next
  case (root c1 used k1 i th)
  then have "thread_view th = thread_view (cl_Comments c1 ! i)" by (simp add: thread_view_def agent_acts no_ids_def)
  with root backfill_view [OF root(1)] show ?thesis by (simp add: set_thread_view)
next
  case (edit_reply c1 used k1 i j r)
  then have "human_view c' = human_view c1"
    by (auto intro!: set_thread_view replies_view filter_update_out simp: agent_acts)
  with backfill_view [OF edit_reply(1)] show ?thesis by simp
next
  case (delete_thread c1 used k1 i tid)
  have same: "map no_ids (cl_Comments c1) = map no_ids (cl_Comments c)" by (rule backfill_spec(3) [OF delete_thread(2)])
  then have len: "length (cl_Comments c1) = length (cl_Comments c)" by (rule map_eq_imp_length_eq)
  have "no_ids (cl_Comments c1 ! i) = no_ids (cl_Comments c ! i)"
    using arg_cong [OF same, of "\<lambda>l. l ! i"] delete_thread(3) len by simp
  then have "cm_Author (cl_Comments c ! i) = cm_Author (cl_Comments c1 ! i)"
    by (cases "cl_Comments c1 ! i"; cases "cl_Comments c ! i") (simp add: no_ids_def)
  moreover have "map no_ids (cl_Comments c') = delete_at i (map no_ids (cl_Comments c))"
    unfolding delete_thread(5) using same by (simp add: delete_at_def take_map [symmetric] drop_map [symmetric])
  ultimately show ?thesis using delete_thread(1,3,4) len by (auto simp: agent_acts)
next
  case (delete_reply c1 used k1 i j)
  then have "human_view c' = human_view c1"
    by (auto intro!: set_thread_view replies_view filter_delete_at simp: agent_acts)
  with backfill_view [OF delete_reply(1)] show ?thesis by simp
qed

text \<open>
  C11. No thread operation of an agent changes anything a human wrote, in text, state or order: the threads
  other authors than agents opened, with the replies by such authors in them, are after any of its
  operations what they were. So are their replies in the threads of agents, with one exception: an agent
  may delete a thread an agent opened, and then that thread goes as a whole and every other thread stays
  as it was. (Ids are left aside, because a missing id is filled in by whoever comes first.)
\<close>

theorem agent_keeps_human_view:
  assumes "run_op rnd now CommentRoleAgent op c k = Some (Inr c', k')"
  shows "filter (\<lambda>v. fst v \<noteq> None) (map thread_view (cl_Comments c')) =
      filter (\<lambda>v. fst v \<noteq> None) (map thread_view (cl_Comments c)) \<and>
    (human_view c' = human_view c \<or>
     (\<exists>tid i. op = DeleteMessage tid [] \<and> i < length (cl_Comments c) \<and> cm_Author (cl_Comments c ! i) = CommentRoleAgent \<and>
        map no_ids (cl_Comments c') = delete_at i (map no_ids (cl_Comments c))))"
proof -
  let ?P = "\<lambda>v :: comment option \<times> reply list. fst v \<noteq> None"
  note edits = agent_edits [OF assms]
  have threads: "filter ?P (human_view d) = filter ?P (map thread_view (cl_Comments d))" for d
    by (auto simp: human_view_def intro!: filter_cong)
  from edits have "filter ?P (map thread_view (cl_Comments c')) = filter ?P (map thread_view (cl_Comments c))"
  proof
    assume "human_view c' = human_view c"
    then show ?thesis using threads by metis
  next
    assume "\<exists>tid i. op = DeleteMessage tid [] \<and> i < length (cl_Comments c) \<and> cm_Author (cl_Comments c ! i) = CommentRoleAgent \<and>
        map no_ids (cl_Comments c') = delete_at i (map no_ids (cl_Comments c))"
    then obtain i where i: "i < length (cl_Comments c)" "cm_Author (cl_Comments c ! i) = CommentRoleAgent"
      "map no_ids (cl_Comments c') = map no_ids (delete_at i (cl_Comments c))"
      by (auto simp: delete_at_def take_map drop_map)
    from i(3) have "map thread_view (cl_Comments c') = map thread_view (delete_at i (cl_Comments c))"
      by (rule map_transfer) (rule thread_view_cong)
    also have "\<dots> = delete_at i (map thread_view (cl_Comments c))" by (simp add: delete_at_def take_map drop_map)
    finally show ?thesis using i(1,2) by (simp add: filter_delete_at thread_view_def)
  qed
  with edits show ?thesis by blast
qed

theorem agent_keeps_human_view_witness:
  "\<exists>c' k'. run_op counting ''t'' CommentRoleAgent (EditMessage ''c-1'' [] ''x'') hand_written 0 = Some (Inr c', k') \<and>
     human_view c' = human_view hand_written \<and> cm_Body (cl_Comments c' ! 0) = ''x''"
proof -
  let ?run = "run_op counting ''t'' CommentRoleAgent (EditMessage ''c-1'' [] ''x'') hand_written 0"
  have r: "(case ?run of Some (Inr c', _) \<Rightarrow> cm_Body (cl_Comments c' ! 0) = ''x'' | _ \<Rightarrow> False)"
    by (simp add: run_simps editOp_def mint_now counting_def counting_hex hand_written_def agent_acts)
  then obtain c' k' where run: "?run = Some (Inr c', k')" by (auto split: option.splits sum.splits)
  from agent_keeps_human_view [OF run] have "human_view c' = human_view hand_written" by auto
  with run r show ?thesis by auto
qed

text \<open>
  The exception is real: an agent that deletes a thread of its own deletes the human's reply in it,
  which it may not delete by itself.
\<close>

theorem agent_deletes_human_reply:
  "(\<exists>c' k'. run_op counting ''t'' CommentRoleAgent (DeleteMessage ''c-1'' []) hand_written 0 = Some (Inr c', k') \<and>
     human_view c' = [] \<and> human_view hand_written \<noteq> []) \<and>
   (\<exists>k'. run_op counting ''t'' CommentRoleAgent (DeleteMessage ''c-1'' ''r-000000'') hand_written 0 =
     Some (Inl ErrRightsDenied, k'))"
  by (simp add: run_simps deleteOp_def mint_now counting_def counting_hex hand_written_def canAct_def
      human_view_def thread_view_def no_rid_def delete_at_def CommentRoleAgent_def CommentRoleHuman_def)

section \<open>The search for an id ends\<close>

text \<open>Every three bytes come up again: what the code expects of its random source.\<close>

definition fair :: "(nat \<Rightarrow> string option) \<Rightarrow> bool" where
  "fair rnd \<longleftrightarrow> (\<forall>s. length s = idRandomBytes \<longrightarrow> (\<forall>k. \<exists>j \<ge> k. rnd j = Some s))"

definition id_space :: nat where
  "id_space = 256 ^ idRandomBytes"

lemma free_id: "length used < id_space \<Longrightarrow> \<exists>s. length s = idRandomBytes \<and> prefix @ hex_encode s \<notin> set used"
proof (rule ccontr)
  assume few: "length used < id_space"
    and "\<nexists>s. length s = idRandomBytes \<and> prefix @ hex_encode s \<notin> set used"
  then have sub: "(\<lambda>s. prefix @ hex_encode s) ` {s. set s \<subseteq> UNIV \<and> length s = idRandomBytes} \<subseteq> set used" by auto
  have "inj_on (\<lambda>s. prefix @ hex_encode s) {s. set s \<subseteq> UNIV \<and> length s = idRandomBytes}"
    by (auto intro!: inj_onI dest: hex_encode_inj)
  then have "card {s :: string. set s \<subseteq> UNIV \<and> length s = idRandomBytes} \<le> card (set used)"
    using card_mono [OF finite_set sub] by (simp add: card_image)
  also have "\<dots> \<le> length used" by (rule card_length)
  finally show False using few card_lists_length_eq [of "UNIV :: char set" idRandomBytes]
    by (simp add: id_space_def card_UNIV_char)
qed

lemma mint_ends: "fair rnd \<Longrightarrow> length used < id_space \<Longrightarrow> mintUniqueID rnd prefix used k \<noteq> None"
proof -
  assume "fair rnd" "length used < id_space"
  then obtain s where "length s = idRandomBytes" "prefix @ hex_encode s \<notin> set used" using free_id by blast
  moreover with \<open>fair rnd\<close> obtain j where "k \<le> j" "rnd j = Some s" unfolding fair_def by blast
  ultimately show ?thesis by (intro mint_returns) auto
qed

text \<open>A computation ends in \<open>Q\<close>: it returns from every position, and a value it returns satisfies \<open>Q\<close>.\<close>

definition ends :: "'a run \<Rightarrow> ('a \<Rightarrow> bool) \<Rightarrow> bool" where
  "ends m Q \<longleftrightarrow> (\<forall>k. m k \<noteq> None \<and> (\<forall>a k'. m k = Some (Inr a, k') \<longrightarrow> Q a))"

lemma ends_return [intro]: "Q a \<Longrightarrow> ends (run_return a) Q"
  by (simp add: ends_def)

lemma ends_fail [intro]: "ends (run_fail e) Q"
  by (auto simp: ends_def)

lemma ends_bind: "ends m P \<Longrightarrow> (\<And>a. P a \<Longrightarrow> ends (f a) Q) \<Longrightarrow> ends (run_bind m f) Q"
  unfolding ends_def using run_bind_returns run_bind_Inr by metis

lemma ends_mono: "ends m P \<Longrightarrow> (\<And>a. P a \<Longrightarrow> Q a) \<Longrightarrow> ends m Q"
  by (auto simp: ends_def)

lemma ends_mint: "fair rnd \<Longrightarrow> length used < id_space \<Longrightarrow> ends (mintUniqueID rnd prefix used) (\<lambda>_. True)"
  using mint_ends by (simp add: ends_def)

definition missing :: "string list \<Rightarrow> nat" where
  "missing ids = length (filter (\<lambda>i. i = []) ids)"

lemma missing_simps [simp]:
  "missing [] = 0" "missing (i # ids) = (if i = [] then Suc (missing ids) else missing ids)"
  "missing (ids @ ids') = missing ids + missing ids'"
  by (simp_all add: missing_def)

lemma backfill_replies_ends:
  "fair rnd \<Longrightarrow> length used + missing (map rp_ID rs) \<le> id_space \<Longrightarrow>
   ends (backfill_replies rnd rs used) (\<lambda>(rs', used'). length used' = length used + missing (map rp_ID rs))"
proof (induction rnd rs used rule: backfill_replies.induct)
  case (2 rnd r rs used)
  show ?case
  proof (cases "rp_ID r = []")
    case True
    have rest: "ends (backfill_replies rnd rs (i # used))
        (\<lambda>(rs', used'). length used' = length (i # used) + missing (map rp_ID rs))" for i
      using "2.prems" True by (intro "2.IH"(1)) auto
    show ?thesis using "2.prems" True
      by (auto intro!: ends_bind [OF ends_mint] ends_bind [OF rest])
  next
    case False
    have rest: "ends (backfill_replies rnd rs used)
        (\<lambda>(rs', used'). length used' = length used + missing (map rp_ID rs))"
      using "2.prems" False by (intro "2.IH"(2)) auto
    show ?thesis using False by (auto intro!: ends_bind [OF rest])
  qed
qed auto

lemma backfill_thread_ends:
  assumes "fair rnd" "length used + missing (thread_ids cm) \<le> id_space"
  shows "ends (backfill_thread rnd cm used) (\<lambda>(cm', used'). length used' = length used + missing (thread_ids cm))"
proof -
  have root: "ends (if cm_ID cm = []
               then run_bind (mintUniqueID rnd threadIDPrefix used) (\<lambda>i. run_return (cm\<lparr>cm_ID := i\<rparr>, i # used))
               else run_return (cm, used))
      (\<lambda>(cm1, used1). cm_Replies cm1 = cm_Replies cm \<and> length used1 = length used + missing [cm_ID cm])"
    using assms by (auto intro!: ends_bind [OF ends_mint] simp: thread_ids_def)
  have rest: "ends (run_bind (backfill_replies rnd (cm_Replies cm1) used1)
        (\<lambda>(rs, used2). run_return (cm1\<lparr>cm_Replies := rs\<rparr>, used2)))
      (\<lambda>(cm', used'). length used' = length used + missing (thread_ids cm))"
    if "cm_Replies cm1 = cm_Replies cm" "length used1 = length used + missing [cm_ID cm]" for cm1 used1
    using assms that by (auto intro!: ends_bind [OF backfill_replies_ends] simp: thread_ids_def split: if_splits)
  show ?thesis unfolding backfill_thread_def by (rule ends_bind [OF root]) (clarify, rule rest)
qed

lemma backfill_threads_ends:
  "fair rnd \<Longrightarrow> length used + missing (concat (map thread_ids cms)) \<le> id_space \<Longrightarrow>
   ends (backfill_threads rnd cms used)
     (\<lambda>(cms', used'). length used' = length used + missing (concat (map thread_ids cms)))"
proof (induction cms arbitrary: used)
  case (Cons cm cms)
  have one: "ends (backfill_thread rnd cm used) (\<lambda>(cm', used'). length used' = length used + missing (thread_ids cm))"
    using Cons.prems by (intro backfill_thread_ends) auto
  have rest: "ends (backfill_threads rnd cms used1)
      (\<lambda>(cms', used'). length used' = length used1 + missing (concat (map thread_ids cms)))"
    if "length used1 = length used + missing (thread_ids cm)" for used1
    using Cons.prems that by (intro Cons.IH) auto
  show ?case by (auto intro!: ends_bind [OF one] ends_bind [OF rest])
qed auto

lemma missing_rest: "length (filter (\<lambda>i. i \<noteq> []) ids) + missing ids = length ids"
  unfolding missing_def using sum_length_filter_compl [of "\<lambda>i. i \<noteq> []" ids] by simp

lemma backfill_ends:
  "fair rnd \<Longrightarrow> length (all_ids c) \<le> id_space \<Longrightarrow>
   ends (backfillIDs rnd c) (\<lambda>(c1, used). length used = length (all_ids c))"
  unfolding backfillIDs_def using missing_rest [of "all_ids c"]
  by (auto intro!: ends_bind [OF backfill_threads_ends] simp: collectIDs_def all_ids_def)

text \<open>
  C12: With a random source in which every three bytes come up again, every thread operation on a claim
  of fewer than \<open>256 ^ 3\<close> messages returns: the loop that draws ids until one is free ends.
\<close>

theorem run_op_returns:
  assumes "fair rnd" "length (all_ids c) < id_space"
  shows "\<exists>r k'. run_op rnd now actor op c k = Some (r, k')"
proof -
  have bf: "ends (backfillIDs rnd c) (\<lambda>(c1, used). length used = length (all_ids c))"
    using assms by (intro backfill_ends) auto
  note mint = ends_mint [OF assms(1)]
  have "ends (run_op rnd now actor op c) (\<lambda>_. True)"
  proof (cases op)
    case (AddThread body)
    then show ?thesis using assms(2)
      by (auto simp: run_op_def addThreadOp_def intro!: ends_bind [OF bf] ends_bind [OF mint])
  next
    case (ReplyTo tid body)
    then show ?thesis using assms(2)
      by (auto simp: run_op_def replyOp_def Let_def intro!: ends_bind [OF bf] ends_bind [OF mint] split: option.split)
  qed (auto simp: run_op_def resolveOp_def reopenOp_def editOp_def deleteOp_def Let_def
        intro!: ends_bind [OF bf] split: option.split)
  then show ?thesis by (simp add: ends_def)
qed

lemma be_bytes_onto: "length s = m \<Longrightarrow> \<exists>n \<ge> k. be_bytes m n = s"
proof (induction m arbitrary: s)
  case (Suc m)
  then obtain s' c where s: "s = s' @ [c]" "length s' = m" by (cases s rule: rev_cases) auto
  from Suc.IH [OF s(2)] obtain n where n: "k \<le> n" "be_bytes m n = s'" by blast
  have "be_bytes (Suc m) (256 * n + of_char c) = s"
    using n(2) s(1) of_char_lt [of c] by simp
  with n(1) show ?case by (intro exI [of _ "256 * n + of_char c"]) auto
qed auto

lemma counting_fair: "fair counting"
  unfolding fair_def counting_def idRandomBytes_def using be_bytes_onto [of _ 3] by simp

theorem run_op_returns_witness:
  "\<exists>r k'. run_op counting ''t'' CommentRoleHuman (AddThread ''x'') hand_written 0 = Some (r, k')"
  by (rule run_op_returns [OF counting_fair])
     (simp add: all_ids_def thread_ids_def hand_written_def id_space_def idRandomBytes_def)

end
