(* ===== verification/Comment_Ops.thy ===== *)
theory Comment_Ops
  imports Set_Lock Threads Lock_Audit
begin

text \<open>
  The comment operations on a project (\<^verbatim>\<open>comments.go\<close> and \<^verbatim>\<open>pending.go\<close> of \<^verbatim>\<open>internal/comments\<close>): the
  three reasons for a review, the integrity check against the digest store, and the one write path
  \<^verbatim>\<open>mutate\<close> that every operation goes through. The claims lock is taken as held. A write of the operating
  system goes through or not by the counter of the world, so the digest store that was found writable
  may still refuse the write.
\<close>

section \<open>The surroundings of the engine\<close>

record engine =
  en_os :: "nat \<Rightarrow> bool"
  en_storable :: "claim \<Rightarrow> bool"
  en_sha :: "string \<Rightarrow> string"
  en_entity :: "string \<Rightarrow> string option"
  en_rnd :: "nat \<Rightarrow> string option"
  en_roundtrips :: "string \<Rightarrow> bool"
  en_path :: string
  en_actor :: string

section \<open>Why a claim is under review\<close>

definition PendingTriggers ::
  "(string \<Rightarrow> string) \<Rightarrow> claim \<Rightarrow> claim list \<Rightarrow> store option \<Rightarrow> flag_store option \<Rightarrow> bool \<times> bool \<times> nat" where
  "PendingTriggers sha c claims ls fs =
     ((case ls of None \<Rightarrow> False | Some s \<Rightarrow> drift_loop sha s claims (cl_ID c) (BaselineDependencyIDs c)),
      (case fs of None \<Rightarrow> False | Some f \<Rightarrow> gm_get (fs_Flags f) (cl_ID c) \<noteq> None),
      length (OpenThreadIDs c))"

definition Recompute ::
  "(string \<Rightarrow> string) \<Rightarrow> claim \<Rightarrow> claim list \<Rightarrow> store option \<Rightarrow> flag_store option \<Rightarrow> bool" where
  "Recompute sha c claims ls fs =
     (let (drift, flag, open_threads) = PendingTriggers sha c claims ls fs in drift \<or> flag \<or> open_threads > 0)"

definition refreshReviewPending ::
  "(string \<Rightarrow> string) \<Rightarrow> claim list \<Rightarrow> claim \<Rightarrow> store option \<Rightarrow> flag_store option \<Rightarrow> claim" where
  "refreshReviewPending sha claims c ls fs =
     (if cl_Status c \<noteq> StatusLocked then c else c\<lparr>cl_ReviewPending := Recompute sha c claims ls fs\<rparr>)"

section \<open>The digest store around a comment\<close>

definition openCommentDigest :: "disk \<Rightarrow> dstore option" where
  "openCommentDigest dk =
     (if \<not> dk_lockable dk then None
      else
        (case ds_LoadStore (dk_digests dk) of
           Inl _ \<Rightarrow> None
         | Inr d \<Rightarrow> if \<not> dk_writable dk then None else Some d))"

definition checkCommentDigest :: "(string \<Rightarrow> string) \<Rightarrow> dstore \<Rightarrow> claim \<Rightarrow> bool \<Rightarrow> bool" where
  "checkCommentDigest sha d c ledgerCovered \<longleftrightarrow>
     (case ds_Digest d (cl_ID c) of
        None \<Rightarrow> \<not> (ledgerCovered \<and> length (cl_Comments c) > 0)
      | Some recorded \<Rightarrow> recorded = CommentsDigest sha c)"

definition save_digests :: "(nat \<Rightarrow> bool) \<Rightarrow> dstore \<Rightarrow> world \<Rightarrow> bool \<times> world" where
  "save_digests os d w =
     (let w1 = w\<lparr>wd_tick := Suc (wd_tick w)\<rparr> in
      if os (wd_tick w)
      then (True, w1\<lparr>wd_disk := (wd_disk w)\<lparr>dk_digests := Bytes (Some (ds_Save d))\<rparr>\<rparr>)
      else (False, w1))"

definition recordCommentDigest ::
  "(string \<Rightarrow> string) \<Rightarrow> (nat \<Rightarrow> bool) \<Rightarrow> dstore \<Rightarrow> claim list \<Rightarrow> claim \<Rightarrow> bool \<Rightarrow> bool \<Rightarrow> world \<Rightarrow> bool \<times> world" where
  "recordCommentDigest sha os d claims c ledgerCovered preLedger w =
     (if preLedger \<and> \<not> ds_fileExists d then (True, w)
      else
        let d1 = (if \<not> ds_fileExists d \<and> \<not> ledgerCovered then fst (Adopt sha d claims) else d)
        in save_digests os (ds_Record sha c d1) w)"

section \<open>The write path\<close>

datatype comment_outcome =
    InvalidActor
  | EmptyBody
  | UnsafeBody
  | ReasonRequired
  | CommentClaimNotFound
  | CommentTokenFailed
  | DigestUnavailable
  | ReviewStoresFailed
  | CommentDigestDrift
  | ThreadRefused thread_error
  | CommentSaveFailed save_error
  | DigestNotWritten
  | CommentDone claim

definition mutate_opened ::
  "engine \<Rightarrow> nat \<Rightarrow> claim \<Rightarrow> dstore \<Rightarrow> store \<Rightarrow> flag_store \<Rightarrow> (claim \<Rightarrow> claim run) \<Rightarrow> world \<Rightarrow> nat \<Rightarrow>
   ((comment_outcome \<times> world) \<times> nat) option" where
  "mutate_opened E i token d ls fs fn w k =
     (let claims = loadClaims w;
          c = claims ! i;
          ledgerCovered = LedgerEstablished ls (ds_fileExists d);
          preLedger = PreLedger ls
      in if \<not> checkCommentDigest (en_sha E) d c ledgerCovered then Some ((CommentDigestDrift, w), k)
         else
           (case fn c k of
              None \<Rightarrow> None
            | Some (Inl e, k1) \<Rightarrow> Some ((ThreadRefused e, w), k1)
            | Some (Inr c1, k1) \<Rightarrow>
                let c2 = refreshReviewPending (en_sha E) (claims[i := c1]) c1 (Some ls) (Some fs) in
                (case SaveClaimIfUnchanged (en_os E) (en_storable E) c2 token w of
                   (Some e, w1) \<Rightarrow> Some ((CommentSaveFailed e, w1), k1)
                 | (None, w1) \<Rightarrow>
                     (case recordCommentDigest (en_sha E) (en_os E) d (claims[i := c2]) c2 ledgerCovered preLedger w1 of
                        (False, w2) \<Rightarrow> Some ((DigestNotWritten, w2), k1)
                      | (True, w2) \<Rightarrow> Some ((CommentDone c2, w2), k1)))))"

definition mutate ::
  "engine \<Rightarrow> string \<Rightarrow> string \<Rightarrow> (claim \<Rightarrow> claim run) \<Rightarrow> world \<Rightarrow> nat \<Rightarrow>
   ((comment_outcome \<times> world) \<times> nat) option" where
  "mutate E now claimID fn w k =
     (case index_by cl_ID claimID (loadClaims w) of
        None \<Rightarrow> Some ((CommentClaimNotFound, w), k)
      | Some i \<Rightarrow>
          (case CaptureClaimFileToken (cl_SourcePath (loadClaims w ! i)) w of
             None \<Rightarrow> Some ((CommentTokenFailed, w), k)
           | Some token \<Rightarrow>
               (case openCommentDigest (wd_disk w) of
                  None \<Rightarrow> Some ((DigestUnavailable, w), k)
                | Some d \<Rightarrow>
                    (case LoadStore now (dk_store (wd_disk w)) (en_path E) of
                       Inl _ \<Rightarrow> Some ((ReviewStoresFailed, w), k)
                     | Inr ls \<Rightarrow>
                         (case LoadFlagStore (wd_flags w) of
                            Inl _ \<Rightarrow> Some ((ReviewStoresFailed, w), k)
                          | Inr fs \<Rightarrow> mutate_opened E i token d ls fs fn w k)))))"

definition validateActor :: "string \<Rightarrow> bool" where
  "validateActor a \<longleftrightarrow> a = CommentRoleHuman \<or> a = CommentRoleAgent"

definition validateBody :: "engine \<Rightarrow> string \<Rightarrow> comment_outcome option" where
  "validateBody E body =
     (if blank body then Some EmptyBody else if \<not> en_roundtrips E body then Some UnsafeBody else None)"

definition op_body :: "thread_op \<Rightarrow> string option" where
  "op_body op =
     (case op of AddThread b \<Rightarrow> Some b | ReplyTo _ b \<Rightarrow> Some b | EditMessage _ _ b \<Rightarrow> Some b | _ \<Rightarrow> None)"

text \<open>\<^verbatim>\<open>Add\<close>, \<^verbatim>\<open>Reply\<close>, \<^verbatim>\<open>Resolve\<close>, \<^verbatim>\<open>Reopen\<close>, \<^verbatim>\<open>Edit\<close> and \<^verbatim>\<open>Delete\<close>.\<close>

definition comment_command ::
  "engine \<Rightarrow> string \<Rightarrow> string \<Rightarrow> string \<Rightarrow> thread_op \<Rightarrow> world \<Rightarrow> nat \<Rightarrow>
   ((comment_outcome \<times> world) \<times> nat) option" where
  "comment_command E now claimID actor op w k =
     (if \<not> validateActor actor then Some ((InvalidActor, w), k)
      else
        (case (case op_body op of None \<Rightarrow> None | Some b \<Rightarrow> validateBody E b) of
           Some e \<Rightarrow> Some ((e, w), k)
         | None \<Rightarrow> mutate E now claimID (run_op (en_rnd E) now actor op) w k))"

definition ReauditDigest ::
  "engine \<Rightarrow> string \<Rightarrow> string \<Rightarrow> string \<Rightarrow> string \<Rightarrow> world \<Rightarrow> comment_outcome \<times> world" where
  "ReauditDigest E now claimID actor reason w =
     (if \<not> validateActor actor then (InvalidActor, w)
      else if blank reason then (ReasonRequired, w)
      else
        (case index_by cl_ID claimID (loadClaims w) of
           None \<Rightarrow> (CommentClaimNotFound, w)
         | Some i \<Rightarrow>
             (case openCommentDigest (wd_disk w) of
                None \<Rightarrow> (DigestUnavailable, w)
              | Some d \<Rightarrow>
                  let c = loadClaims w ! i in
                  (case save_digests (en_os E) (ds_Reaudit (en_sha E) now c actor (trim_space reason) d) w of
                     (False, w1) \<Rightarrow> (DigestNotWritten, w1)
                   | (True, w1) \<Rightarrow> (CommentDone c, w1)))))"

definition List_threads :: "claim list \<Rightarrow> string \<Rightarrow> bool \<Rightarrow> comment list option" where
  "List_threads claims claimID openOnly =
     (case findByID claims claimID of
        None \<Rightarrow> None
      | Some c \<Rightarrow> Some (filter (\<lambda>cm. \<not> (openOnly \<and> cm_Status cm \<noteq> CommentStatusOpen)) (cl_Comments c)))"

section \<open>One claim file rewritten\<close>

lemma index_claim:
  "index_by cl_ID i cs = Some n \<Longrightarrow> n < length cs \<and> cl_ID (cs ! n) = i"
  by (rule index_by_Some)

lemma set_gm_put:
  assumes "gm_wf m"
  shows "set (gm_put k v m) = insert (k, v) {(a, b) \<in> set m. a \<noteq> k}"
proof (rule set_eqI)
  fix x :: "string \<times> 'a"
  obtain a b where x: "x = (a, b)" by (cases x)
  show "x \<in> set (gm_put k v m) \<longleftrightarrow> x \<in> insert (k, v) {(a, b) \<in> set m. a \<noteq> k}"
    unfolding x by (cases "a = k") (auto simp: gm_get_mem [OF assms] gm_get_mem [OF gm_wf_put [OF assms]])
qed

lemma rewrite_file:
  assumes "world_ok w" "c \<in> set (loadClaims w)" "cl_ID c' = cl_ID c" "cl_SourcePath c' = cl_SourcePath c"
    "wd_files w' = gm_put (cl_SourcePath c) c' (wd_files w)"
  shows "set (loadClaims w') = insert c' (set (loadClaims w) - {c})" "world_ok w'"
proof -
  have wf: "gm_wf (wd_files w)" using assms(1) by (simp add: world_ok_def)
  have at: "gm_get (wd_files w) (cl_SourcePath c) = Some c" using world_ok_file assms(1,2) by blast
  have files: "set (wd_files w') = insert (cl_SourcePath c, c') {(a, b) \<in> set (wd_files w). a \<noteq> cl_SourcePath c}"
    unfolding assms(5) by (rule set_gm_put [OF wf])
  have path: "(a, b) \<in> set (wd_files w) \<Longrightarrow> cl_SourcePath b = a" for a b using assms(1) by (auto simp: world_ok_def)
  have only: "(a, c) \<in> set (wd_files w) \<longleftrightarrow> a = cl_SourcePath c" for a
    using path at by (auto dest: map_of_SomeD)
  have other: "(cl_SourcePath c, b) \<in> set (wd_files w) \<longleftrightarrow> b = c" for b
    using at by (auto simp: gm_get_mem [OF wf])
  show set: "set (loadClaims w') = insert c' (set (loadClaims w) - {c})"
  proof -
    have "x \<in> snd ` {(a, b) \<in> set (wd_files w). a \<noteq> cl_SourcePath c} \<longleftrightarrow> x \<in> snd ` set (wd_files w) - {c}" for x
    proof
      assume "x \<in> snd ` {(a, b) \<in> set (wd_files w). a \<noteq> cl_SourcePath c}"
      then obtain a where a: "(a, x) \<in> set (wd_files w)" "a \<noteq> cl_SourcePath c" by auto
      then have "x \<noteq> c" using only by blast
      with a(1) show "x \<in> snd ` set (wd_files w) - {c}" by force
    next
      assume "x \<in> snd ` set (wd_files w) - {c}"
      then obtain a where a: "(a, x) \<in> set (wd_files w)" "x \<noteq> c" by auto
      then have "a \<noteq> cl_SourcePath c" using other by blast
      with a(1) show "x \<in> snd ` {(a, b) \<in> set (wd_files w). a \<noteq> cl_SourcePath c}" by force
    qed
    then show ?thesis unfolding loadClaims_def set_map files by auto
  qed
  have ids: "known_ids (loadClaims w') = known_ids (loadClaims w)"
  proof -
    have "map (cl_ID \<circ> snd) (gm_put p c' m) = map (cl_ID \<circ> snd) m" if "gm_get m p = Some c" for p m
      using that assms(3) by (induction m) (auto split: if_splits)
    with at show ?thesis unfolding assms(5) loadClaims_def known_ids_def by simp
  qed
  show "world_ok w'" unfolding world_ok_def ids
    using assms(1) wf path files by (auto simp: world_ok_def assms(4,5))
qed

section \<open>What a comment operation does\<close>

lemma save_digests_frame:
  "save_digests os d w = (b, w') \<Longrightarrow> wd_files w' = wd_files w \<and> wd_flags w' = wd_flags w \<and>
     wd_flagWritable w' = wd_flagWritable w \<and>
     wd_disk w' = (if b then (wd_disk w)\<lparr>dk_digests := Bytes (Some (ds_Save d))\<rparr> else wd_disk w)"
  by (auto simp: save_digests_def Let_def split: if_splits)

lemma Save_flags [simp]: "wd_flags (snd (SaveClaimIfUnchanged os storable c want w)) = wd_flags w"
  by (auto simp: SaveClaimIfUnchanged_def split: option.split)

lemma opened_digests:
  "openCommentDigest dk = Some d \<longleftrightarrow> dk_lockable dk \<and> ds_LoadStore (dk_digests dk) = Inr d \<and> dk_writable dk"
  by (auto simp: openCommentDigest_def split: sum.splits)

lemma mutate_cases:
  assumes "mutate E now i fn w k = Some ((out, w'), k')"
  obtains (refused) "w' = w" "out \<in> {CommentClaimNotFound, CommentTokenFailed, DigestUnavailable, ReviewStoresFailed}"
    | (opened) n d ls fs where "n < length (loadClaims w)" "cl_ID (loadClaims w ! n) = i"
        "ds_LoadStore (dk_digests (wd_disk w)) = Inr d" "LoadStore now (dk_store (wd_disk w)) (en_path E) = Inr ls"
        "LoadFlagStore (wd_flags w) = Inr fs"
        "mutate_opened E n (the (CaptureClaimFileToken (cl_SourcePath (loadClaims w ! n)) w)) d ls fs fn w k =
           Some ((out, w'), k')"
proof (cases "index_by cl_ID i (loadClaims w)")
  case None
  with assms show ?thesis by (intro refused) (auto simp: mutate_def)
next
  case (Some n)
  note idx = index_claim [OF Some]
  show ?thesis
  proof (cases "CaptureClaimFileToken (cl_SourcePath (loadClaims w ! n)) w")
    case None
    with assms Some show ?thesis by (intro refused) (auto simp: mutate_def)
  next
    case token: (Some token)
    show ?thesis
    proof (cases "openCommentDigest (wd_disk w)")
      case None
      with assms Some token show ?thesis by (intro refused) (auto simp: mutate_def)
    next
      case d: (Some d)
      show ?thesis
      proof (cases "(\<exists>e. LoadStore now (dk_store (wd_disk w)) (en_path E) = Inl e) \<or> (\<exists>e. LoadFlagStore (wd_flags w) = Inl e)")
        case True
        with assms Some token d show ?thesis by (intro refused) (auto simp: mutate_def split: sum.splits)
      next
        case False
        then obtain ls fs where stores: "LoadStore now (dk_store (wd_disk w)) (en_path E) = Inr ls"
            "LoadFlagStore (wd_flags w) = Inr fs"
          by (metis sum.exhaust)
        from d have load: "ds_LoadStore (dk_digests (wd_disk w)) = Inr d" by (simp add: opened_digests)
        from assms Some token d stores
        have "mutate_opened E n (the (CaptureClaimFileToken (cl_SourcePath (loadClaims w ! n)) w)) d ls fs fn w k =
           Some ((out, w'), k')" by (simp add: mutate_def)
        with idx load stores show ?thesis by (intro opened) auto
      qed
    qed
  qed
qed

definition pending_set :: "claim \<Rightarrow> comment list \<Rightarrow> bool \<Rightarrow> claim" where
  "pending_set c cms b = c\<lparr>cl_Comments := cms, cl_ReviewPending := b\<rparr>"

lemma pending_set_simps [simp]:
  "cl_ID (pending_set c cms b) = cl_ID c" "cl_SourcePath (pending_set c cms b) = cl_SourcePath c"
  "cl_Status (pending_set c cms b) = cl_Status c" "cl_Comments (pending_set c cms b) = cms"
  "cl_Body (pending_set c cms b) = cl_Body c"
  by (simp_all add: pending_set_def)

lemma refresh_pending:
  "\<exists>b. refreshReviewPending sha claims (c\<lparr>cl_Comments := cms\<rparr>) ls fs = pending_set c cms b"
proof (cases "cl_Status c = StatusLocked")
  case True
  then show ?thesis by (auto simp: refreshReviewPending_def pending_set_def)
next
  case False
  then show ?thesis
    by (intro exI [of _ "cl_ReviewPending c"]) (cases c, simp add: refreshReviewPending_def pending_set_def)
qed

lemma mutate_opened_cases:
  assumes "mutate_opened E n token d ls fs fn w k = Some ((out, w'), k')"
    and frame: "\<forall>c' k'. fn (loadClaims w ! n) k = Some (Inr c', k') \<longrightarrow> (\<exists>cms. c' = (loadClaims w ! n)\<lparr>cl_Comments := cms\<rparr>)"
  obtains (refused) "wd_files w' = wd_files w" "wd_disk w' = wd_disk w" "wd_flags w' = wd_flags w"
        "out = CommentDigestDrift \<or> (\<exists>e. out = ThreadRefused e) \<or> (\<exists>e. out = CommentSaveFailed e)"
    | (saved) cms b w1 rec where
        "checkCommentDigest (en_sha E) d (loadClaims w ! n) (LedgerEstablished ls (ds_fileExists d))"
        "wd_files w1 = gm_put (cl_SourcePath (loadClaims w ! n)) (pending_set (loadClaims w ! n) cms b) (wd_files w)"
        "wd_disk w1 = wd_disk w" "wd_flags w1 = wd_flags w"
        "recordCommentDigest (en_sha E) (en_os E) d ((loadClaims w)[n := pending_set (loadClaims w ! n) cms b])
           (pending_set (loadClaims w ! n) cms b) (LedgerEstablished ls (ds_fileExists d)) (PreLedger ls) w1 = (rec, w')"
        "out = (if rec then CommentDone (pending_set (loadClaims w ! n) cms b) else DigestNotWritten)"
proof -
  let ?c = "loadClaims w ! n"
  show ?thesis
  proof (cases "checkCommentDigest (en_sha E) d ?c (LedgerEstablished ls (ds_fileExists d))")
    case False
    with assms(1) show ?thesis by (intro refused) (auto simp: mutate_opened_def Let_def)
  next
    case check: True
    show ?thesis
    proof (cases "fn ?c k")
      case None
      with assms(1) check show ?thesis by (simp add: mutate_opened_def Let_def)
    next
      case (Some r)
      obtain x k1 where r: "r = (x, k1)" by (cases r)
      show ?thesis
      proof (cases x)
        case (Inl e)
        with assms(1) check Some r show ?thesis by (intro refused) (auto simp: mutate_opened_def Let_def)
      next
        case (Inr c1)
        obtain cms where c1: "c1 = ?c\<lparr>cl_Comments := cms\<rparr>" using frame Some r Inr by blast
        obtain b where b: "refreshReviewPending (en_sha E) ((loadClaims w)[n := c1]) c1 (Some ls) (Some fs) = pending_set ?c cms b"
          unfolding c1 using refresh_pending by blast
        obtain er w1 where save: "SaveClaimIfUnchanged (en_os E) (en_storable E) (pending_set ?c cms b) token w = (er, w1)"
          by (cases "SaveClaimIfUnchanged (en_os E) (en_storable E) (pending_set ?c cms b) token w")
        have frames: "wd_disk w1 = wd_disk w" "wd_flags w1 = wd_flags w"
          using Save_disk [of "en_os E" "en_storable E" "pending_set ?c cms b" token w]
            Save_flags [of "en_os E" "en_storable E" "pending_set ?c cms b" token w] save by auto
        show ?thesis
        proof (cases er)
          case (Some e)
          then have "wd_files w1 = wd_files w"
            using Save_fails [of "en_os E" "en_storable E" "pending_set ?c cms b" token w] save by simp
          moreover have "out = CommentSaveFailed e" "w' = w1"
            using assms(1) check \<open>fn ?c k = Some r\<close> r Inr b save Some by (simp_all add: mutate_opened_def Let_def)
          ultimately show ?thesis using frames by (intro refused) auto
        next
          case None
          then have files: "wd_files w1 = gm_put (cl_SourcePath ?c) (pending_set ?c cms b) (wd_files w)"
            using Save_works [of "en_os E" "en_storable E" "pending_set ?c cms b" token w] save by simp
          obtain rec w2 where rec: "recordCommentDigest (en_sha E) (en_os E) d ((loadClaims w)[n := pending_set ?c cms b])
              (pending_set ?c cms b) (LedgerEstablished ls (ds_fileExists d)) (PreLedger ls) w1 = (rec, w2)"
            by (cases "recordCommentDigest (en_sha E) (en_os E) d ((loadClaims w)[n := pending_set ?c cms b])
              (pending_set ?c cms b) (LedgerEstablished ls (ds_fileExists d)) (PreLedger ls) w1")
          then have "w' = w2" "out = (if rec then CommentDone (pending_set ?c cms b) else DigestNotWritten)"
            using assms(1) check \<open>fn ?c k = Some r\<close> r Inr b save None
            by (auto simp: mutate_opened_def Let_def split: bool.splits)
          with check files frames rec show ?thesis by (intro saved) auto
        qed
      qed
    qed
  qed
qed

lemma comment_command_mutate:
  assumes "comment_command E now i actor op w k = Some ((out, w'), k')"
  shows "(w' = w \<and> out \<in> {InvalidActor, EmptyBody, UnsafeBody}) \<or>
    mutate E now i (run_op (en_rnd E) now actor op) w k = Some ((out, w'), k')"
  using assms by (auto simp: comment_command_def validateBody_def split: if_splits option.splits)

lemma comment_refusal:
  assumes "comment_command E now i actor op w k = Some ((out, w'), k')"
  shows "((\<forall>c. out \<noteq> CommentDone c) \<and> out \<noteq> DigestNotWritten \<longrightarrow>
       wd_files w' = wd_files w \<and> wd_disk w' = wd_disk w \<and> wd_flags w' = wd_flags w) \<and>
    (out = DigestNotWritten \<longrightarrow> wd_disk w' = wd_disk w \<and> wd_flags w' = wd_flags w \<and>
       (\<exists>c \<in> set (loadClaims w). \<exists>cms b. cl_ID c = i \<and>
          wd_files w' = gm_put (cl_SourcePath c) (c\<lparr>cl_Comments := cms, cl_ReviewPending := b\<rparr>) (wd_files w)))"
proof -
  from comment_command_mutate [OF assms] consider "w' = w" "out \<in> {InvalidActor, EmptyBody, UnsafeBody}"
    | "mutate E now i (run_op (en_rnd E) now actor op) w k = Some ((out, w'), k')" by blast
  then show ?thesis
  proof cases
    case 1
    then show ?thesis by auto
  next
    case 2
    then show ?thesis
    proof (cases rule: mutate_cases)
      case refused
      then show ?thesis by auto
    next
      case (opened n d ls fs)
      have "\<forall>c' k'. run_op (en_rnd E) now actor op (loadClaims w ! n) k = Some (Inr c', k') \<longrightarrow>
          (\<exists>cms. c' = (loadClaims w ! n)\<lparr>cl_Comments := cms\<rparr>)"
        using run_op_frame by blast
      with opened(6) show ?thesis
      proof (cases rule: mutate_opened_cases)
        case refused
        then show ?thesis by auto
      next
        case (saved cms b w1 rec)
        have "wd_disk w' = wd_disk w \<and> wd_flags w' = wd_flags w \<and> wd_files w' = wd_files w1" if "\<not> rec"
          using saved(3-5) that by (auto simp: recordCommentDigest_def Let_def dest!: save_digests_frame split: if_splits)
        moreover have "\<not> rec \<Longrightarrow> \<exists>c \<in> set (loadClaims w). \<exists>cms b. cl_ID c = i \<and>
            wd_files w1 = gm_put (cl_SourcePath c) (c\<lparr>cl_Comments := cms, cl_ReviewPending := b\<rparr>) (wd_files w)"
          using saved(2) opened(1,2) by (intro bexI [OF _ nth_mem [OF opened(1)]]) (auto simp: pending_set_def)
        ultimately show ?thesis using saved(6) by auto
      qed
    qed
  qed
qed

text \<open>
  C13: A comment operation that is refused, for whatever reason, changes no file. The one failure after
  a write is that of the digest store: the comment is then in the claim's file, no other file changed,
  and the claim's recorded digest lags behind.
\<close>

theorem comment_refusal_clean:
  assumes "comment_command E now i actor op w k = Some ((out, w'), k')"
  shows "((\<forall>c. out \<noteq> CommentDone c) \<and> out \<noteq> DigestNotWritten \<longrightarrow>
       wd_files w' = wd_files w \<and> wd_disk w' = wd_disk w \<and> wd_flags w' = wd_flags w) \<and>
    (out = DigestNotWritten \<longrightarrow> wd_disk w' = wd_disk w \<and> wd_flags w' = wd_flags w \<and>
       (\<exists>c \<in> set (loadClaims w). \<exists>cms b. cl_ID c = i \<and>
          wd_files w' = gm_put (cl_SourcePath c) (c\<lparr>cl_Comments := cms, cl_ReviewPending := b\<rparr>) (wd_files w)))"
  using assms by (rule comment_refusal)

definition test_engine :: engine where
  "test_engine = \<lparr>en_os = (\<lambda>_. True), en_storable = (\<lambda>_. True), en_sha = (\<lambda>_. ''h''), en_entity = html_table,
     en_rnd = counting, en_roundtrips = (\<lambda>_. True), en_path = ''s'', en_actor = ''me''\<rparr>"

definition threaded :: claim where
  "threaded = file_p\<lparr>cl_Comments := [\<lparr>cm_ID = ''c-1'', cm_Status = CommentStatusOpen, cm_Author = CommentRoleHuman,
     cm_Created = [], cm_Body = ''why'', cm_Edited = False, cm_Replies = [], cm_ResolvedBy = [], cm_ResolvedAt = [],
     cm_ReopenedBy = [], cm_ReopenedAt = []\<rparr>]\<rparr>"

definition discussed :: world where
  "discussed = one_file\<lparr>wd_files := [(''p.yaml'', threaded)]\<rparr>"

theorem comment_refusal_clean_witness:
  "\<exists>w' k'. comment_command test_engine ''t'' ''m.contract.p'' CommentRoleAgent (ResolveThread ''c-1'') discussed 0 =
      Some ((ThreadRefused ErrRightsDenied, w'), k') \<and> wd_files w' = wd_files discussed"
proof -
  let ?run = "comment_command test_engine ''t'' ''m.contract.p'' CommentRoleAgent (ResolveThread ''c-1'') discussed 0"
  have "(case ?run of Some ((out, _), _) \<Rightarrow> out = ThreadRefused ErrRightsDenied | None \<Rightarrow> False)" by code_simp
  then obtain w' k' where run: "?run = Some ((ThreadRefused ErrRightsDenied, w'), k')"
    by (auto split: option.splits)
  from comment_refusal_clean [OF run] run show ?thesis by auto
qed

lemma LockedClaimHash_pending [simp]: "LockedClaimHash sha (pending_set c cms b) = LockedClaimHash sha c"
  by (simp add: pending_set_def)

lemma comment_effect:
  assumes "comment_command E now i actor op w k = Some ((CommentDone c', w'), k')" and w: "world_ok w"
  obtains c cms b d ls where "c \<in> set (loadClaims w)" "cl_ID c = i" "c' = pending_set c cms b"
    "LoadStore now (dk_store (wd_disk w)) (en_path E) = Inr ls" "ds_LoadStore (dk_digests (wd_disk w)) = Inr d"
    "checkCommentDigest (en_sha E) d c (LedgerEstablished ls (ds_fileExists d))"
    "set (loadClaims w') = insert c' (set (loadClaims w) - {c})" "world_ok w'" "wd_flags w' = wd_flags w"
    "(PreLedger ls \<and> \<not> ds_fileExists d \<and> wd_disk w' = wd_disk w) \<or>
     (\<not> (PreLedger ls \<and> \<not> ds_fileExists d) \<and> (\<exists>d1.
        wd_disk w' = (wd_disk w)\<lparr>dk_digests := Bytes (Some (ds_Save d1))\<rparr> \<and> ds_Version d1 = StoreSchemaVersion \<and>
        ds_Digest d1 i = Some (CommentsDigest (en_sha E) c') \<and>
        (\<forall>x \<in> set (loadClaims w). cl_ID x \<noteq> i \<longrightarrow> ds_Digest d1 (cl_ID x) =
           (if \<not> ds_fileExists d \<and> \<not> LedgerEstablished ls False then Some (CommentsDigest (en_sha E) x)
            else ds_Digest d (cl_ID x)))))"
proof -
  from comment_command_mutate [OF assms(1)]
  have "mutate E now i (run_op (en_rnd E) now actor op) w k = Some ((CommentDone c', w'), k')" by auto
  then show ?thesis
  proof (cases rule: mutate_cases)
    case refused
    then show ?thesis by simp
  next
    case (opened n d ls fs)
    let ?c = "loadClaims w ! n"
    have c: "?c \<in> set (loadClaims w)" using opened(1) by simp
    have "\<forall>c' k'. run_op (en_rnd E) now actor op ?c k = Some (Inr c', k') \<longrightarrow> (\<exists>cms. c' = ?c\<lparr>cl_Comments := cms\<rparr>)"
      using run_op_frame by blast
    with opened(6) show ?thesis
    proof (cases rule: mutate_opened_cases)
      case refused
      then show ?thesis by auto
    next
      case (saved cms b w1 rec)
      from saved(6) have rec and c': "c' = pending_set ?c cms b" by (auto split: if_splits)
      let ?cs = "(loadClaims w)[n := c']"
      have rc: "recordCommentDigest (en_sha E) (en_os E) d ?cs c' (LedgerEstablished ls (ds_fileExists d)) (PreLedger ls) w1 =
          (True, w')" using saved(5) \<open>rec\<close> by (simp add: c')
      then have frame: "wd_files w' = wd_files w1 \<and> wd_flags w' = wd_flags w1"
        by (auto simp: recordCommentDigest_def Let_def dest!: save_digests_frame split: if_splits)
      have files: "wd_files w' = gm_put (cl_SourcePath ?c) c' (wd_files w)" using frame saved(2) c' by simp
      note claims = rewrite_file [OF w c _ _ files, unfolded c', simplified, folded c']
      have ver: "ds_Version d = StoreSchemaVersion" by (rule LoadStore_version [OF opened(3)])
      have fresh: "\<not> ds_fileExists d \<Longrightarrow> ds_Digest d j = None" for j
        using opened(3) by (auto simp: ds_LoadStore_def decodeInto_def empty_dstore_def ds_Digest_def Let_def
            split: disk_file.splits option.splits if_splits)
      have ids: "distinct (map cl_ID ?cs)"
        using world_ok_ids [OF w] opened(1) list_update_id [of "map cl_ID (loadClaims w)" n]
        by (simp add: known_ids_def c' map_update)
      have other: "x \<in> set ?cs" if "x \<in> set (loadClaims w)" "cl_ID x \<noteq> i" for x
      proof -
        from that(1) obtain m where m: "m < length (loadClaims w)" "loadClaims w ! m = x" by (auto simp: in_set_conv_nth)
        with that(2) opened(2) have "m \<noteq> n" by auto
        with m show ?thesis by (metis length_list_update nth_list_update_neq nth_mem)
      qed
      let ?est = "LedgerEstablished ls (ds_fileExists d)"
      let ?d1 = "ds_Record (en_sha E) c' (if \<not> ds_fileExists d \<and> \<not> ?est then fst (Adopt (en_sha E) d ?cs) else d)"
      have effect: "(PreLedger ls \<and> \<not> ds_fileExists d \<and> wd_disk w' = wd_disk w) \<or>
          (\<not> (PreLedger ls \<and> \<not> ds_fileExists d) \<and>
           wd_disk w' = (wd_disk w)\<lparr>dk_digests := Bytes (Some (ds_Save ?d1))\<rparr>)"
        using rc saved(3) by (auto simp: recordCommentDigest_def Let_def dest!: save_digests_frame split: if_splits)
      have "ds_Version ?d1 = StoreSchemaVersion" using ver by (simp add: ds_Record_def Adopt_frame)
      moreover have "ds_Digest ?d1 i = Some (CommentsDigest (en_sha E) c')" using opened(2) by (simp add: c')
      moreover have "ds_Digest ?d1 (cl_ID x) = (if \<not> ds_fileExists d \<and> \<not> LedgerEstablished ls False
          then Some (CommentsDigest (en_sha E) x) else ds_Digest d (cl_ID x))"
        if x: "x \<in> set (loadClaims w)" "cl_ID x \<noteq> i" for x
        using Adopt_new [OF ids other [OF x] fresh] x opened(2) by (auto simp: c')
      ultimately have disk: "(PreLedger ls \<and> \<not> ds_fileExists d \<and> wd_disk w' = wd_disk w) \<or>
         (\<not> (PreLedger ls \<and> \<not> ds_fileExists d) \<and> (\<exists>d1.
            wd_disk w' = (wd_disk w)\<lparr>dk_digests := Bytes (Some (ds_Save d1))\<rparr> \<and> ds_Version d1 = StoreSchemaVersion \<and>
            ds_Digest d1 i = Some (CommentsDigest (en_sha E) c') \<and>
            (\<forall>x \<in> set (loadClaims w). cl_ID x \<noteq> i \<longrightarrow> ds_Digest d1 (cl_ID x) =
               (if \<not> ds_fileExists d \<and> \<not> LedgerEstablished ls False then Some (CommentsDigest (en_sha E) x)
                else ds_Digest d (cl_ID x)))))"
        using effect by blast
      show ?thesis
        by (rule that [OF c opened(2) c' opened(4,3) saved(1) claims _ disk]) (use frame saved(4) in auto)
    qed
  qed
qed

end
