(* ===== verification/Commands.thy ===== *)
theory Commands
  imports Comment_Ops
begin

text \<open>
  The lifecycle commands that write a claim outside the approval of a set and the comment operations:
  \<^verbatim>\<open>claim unlock\<close>, \<^verbatim>\<open>claim flag\<close> and \<^verbatim>\<open>claim reaudit\<close> (\<^verbatim>\<open>main.go\<close> and \<^verbatim>\<open>flag.go\<close> of \<^verbatim>\<open>cmd/dossierx\<close>), each as a
  function of the engine's surroundings and the world, with every early return as an error value and
  every file write in its place. The file locks are taken as held, the repository guard and the roof
  gate are arguments, and one instant stands for the several readings of the clock. The text and the
  JSON a command prints are not modelled, beyond the data they are computed from.
\<close>

section \<open>Refusals\<close>

datatype command_error =
    ReasonMissing
  | FlagTextMissing
  | StoresGitignored
  | NoSuchClaim
  | TokenUnread
  | NotLocked string
  | StructuredLayout string
  | NotReviewPending
  | StoreUnread store_error
  | RoofNotLocked
  | StoreUnwritten
  | FlagsUnread flag_error
  | FlagsUnwritten
  | OnlyThreads nat
  | ProposalFailed reaudit_error
  | IntegrityFailed
  | CrossingFailed cross_error
  | ClaimUnsaved save_error

definition requireReason :: "string \<Rightarrow> bool" where
  "requireReason reason \<longleftrightarrow> trim_space reason \<noteq> []"

text \<open>\<^verbatim>\<open>prepareStore\<close>: the changes to the store, and the adoptions reported when the digest store was there.\<close>

definition prepareStore ::
  "(string \<Rightarrow> string) \<Rightarrow> store \<Rightarrow> disk \<Rightarrow> claim list \<Rightarrow> bool \<times> string list \<times> store \<times> disk" where
  "prepareStore sha s dk claims =
     (let digestStoreExisted = (dk_digests dk \<noteq> Absent);
          (changed, s1, dk1) = PrepareStore sha s dk claims
      in (changed, if digestStoreExisted then st_commentDigestsAdopted s1 else [], s1, dk1))"

definition write_flags :: "flag_store \<Rightarrow> world \<Rightarrow> bool \<times> world" where
  "write_flags fs w =
     (if wd_flagWritable w then (True, w\<lparr>wd_flags := Bytes (Some (SaveFlagStore fs))\<rparr>) else (False, w))"

definition write_store :: "store \<Rightarrow> world \<Rightarrow> bool \<times> world" where
  "write_store s w = (let (ok, dk) = Save s (wd_disk w) in (ok, w\<lparr>wd_disk := dk\<rparr>))"

text \<open>Loading the lock store and preparing it, with the save that follows a change.\<close>

definition open_store ::
  "engine \<Rightarrow> string \<Rightarrow> (store \<Rightarrow> bool) \<Rightarrow> world \<Rightarrow> (command_error + string list \<times> store) \<times> world" where
  "open_store E now gate w =
     (case LoadStore now (dk_store (wd_disk w)) (en_path E) of
        Inl e \<Rightarrow> (Inl (StoreUnread e), w)
      | Inr s0 \<Rightarrow>
          if \<not> gate s0 then (Inl RoofNotLocked, w)
          else
            (case prepareStore (en_sha E) s0 (wd_disk w) (loadClaims w) of
               (changed, adopted, s, dk) \<Rightarrow>
                 let w1 = w\<lparr>wd_disk := dk\<rparr> in
                 if \<not> changed then (Inr (adopted, s), w1)
                 else
                   (case write_store s w1 of
                      (False, w2) \<Rightarrow> (Inl StoreUnwritten, w2)
                    | (True, w2) \<Rightarrow> (Inr (adopted, s), w2))))"

section \<open>Unlock\<close>

record unlock_data =
  ud_From :: string
  ud_FlagCleared :: bool
  ud_FlagsUnread :: bool
  ud_Adopted :: "string list"

text \<open>The pending flag of a claim, dropped where the flag store can be read: cleared, unread, written.\<close>

definition clear_flag :: "string \<Rightarrow> world \<Rightarrow> (bool \<times> bool) option \<times> world" where
  "clear_flag i w =
     (case LoadFlagStore (wd_flags w) of
        Inl _ \<Rightarrow> (Some (False, True), w)
      | Inr fs \<Rightarrow>
          if gm_get (fs_Flags fs) i = None then (Some (False, False), w)
          else
            (case write_flags (fs\<lparr>fs_Flags := gm_del i (fs_Flags fs)\<rparr>) w of
               (False, w1) \<Rightarrow> (None, w1)
             | (True, w1) \<Rightarrow> (Some (True, False), w1)))"

definition unlock_command ::
  "engine \<Rightarrow> string \<Rightarrow> string \<Rightarrow> string \<Rightarrow> world \<Rightarrow> (command_error + unlock_data) \<times> world" where
  "unlock_command E now reason i w =
     (if \<not> requireReason reason then (Inl ReasonMissing, w)
      else
        (case findByID (loadClaims w) i of
           None \<Rightarrow> (Inl NoSuchClaim, w)
         | Some c \<Rightarrow>
             (case CaptureClaimFileToken (cl_SourcePath c) w of
                None \<Rightarrow> (Inl TokenUnread, w)
              | Some token \<Rightarrow>
                  (case open_store E now (\<lambda>_. True) w of
                     (Inl e, w1) \<Rightarrow> (Inl e, w1)
                   | (Inr (adopted, s), w1) \<Rightarrow>
                       (case clear_flag i w1 of
                          (None, w2) \<Rightarrow> (Inl FlagsUnwritten, w2)
                        | (Some (cleared, unread), w2) \<Rightarrow>
                            (case Unlock now c \<lparr>ap_Actor = en_actor E, ap_Reason = reason\<rparr> s of
                               (updated, s1) \<Rightarrow>
                                 (case SaveClaimIfUnchanged (en_os E) (en_storable E) updated token w2 of
                                    (Some e, w3) \<Rightarrow> (Inl (ClaimUnsaved e), w3)
                                  | (None, w3) \<Rightarrow>
                                      (case write_store s1 w3 of
                                         (False, w4) \<Rightarrow> (Inl StoreUnwritten, w4)
                                       | (True, w4) \<Rightarrow>
                                           (Inr \<lparr>ud_From = cl_Status c, ud_FlagCleared = cleared,
                                                 ud_FlagsUnread = unread, ud_Adopted = adopted\<rparr>, w4)))))))))"

section \<open>Flag\<close>

definition LayoutCard :: string where
  "LayoutCard = ''card''"

definition LayoutTable :: string where
  "LayoutTable = ''table''"

definition LayoutSteps :: string where
  "LayoutSteps = ''steps''"

definition LayoutMockup :: string where
  "LayoutMockup = ''mockup''"

definition flagStructuredLayout :: "claim \<Rightarrow> string" where
  "flagStructuredLayout c =
     (let layout = (if cl_Layout c \<noteq> [] then cl_Layout c
                    else if length (cl_Rows c) > 0 then LayoutTable
                    else if length (cl_Steps c) > 0 then LayoutSteps
                    else LayoutCard)
      in if layout = LayoutTable \<or> layout = LayoutSteps \<or> layout = LayoutMockup then layout
         else if cl_RawHTML c \<noteq> [] then layout
         else [])"

definition flag_command ::
  "engine \<Rightarrow> string \<Rightarrow> bool \<Rightarrow> string \<Rightarrow> string \<Rightarrow> string \<Rightarrow> string \<Rightarrow> world \<Rightarrow> (command_error + pending_flag) \<times> world" where
  "flag_command E now carrier claimSays nowDoes reason i w =
     (if trim_space claimSays = [] \<or> trim_space nowDoes = [] \<or> trim_space reason = [] then (Inl FlagTextMissing, w)
      else if \<not> carrier then (Inl StoresGitignored, w)
      else
        (case findByID (loadClaims w) i of
           None \<Rightarrow> (Inl NoSuchClaim, w)
         | Some c \<Rightarrow>
             if cl_Status c \<noteq> StatusLocked then (Inl (NotLocked (cl_Status c)), w)
             else if flagStructuredLayout c \<noteq> [] then (Inl (StructuredLayout (flagStructuredLayout c)), w)
             else
               (case CaptureClaimFileToken (cl_SourcePath c) w of
                  None \<Rightarrow> (Inl TokenUnread, w)
                | Some token \<Rightarrow>
                    (case LoadFlagStore (wd_flags w) of
                       Inl e \<Rightarrow> (Inl (FlagsUnread e), w)
                     | Inr fs \<Rightarrow>
                         let pending = \<lparr>pf_ClaimSays = claimSays, pf_NowDoes = nowDoes, pf_Reason = reason,
                                        pf_FlaggedAt = now\<rparr> in
                         (case write_flags (fs\<lparr>fs_Flags := gm_put i pending (fs_Flags fs)\<rparr>) w of
                            (False, w1) \<Rightarrow> (Inl FlagsUnwritten, w1)
                          | (True, w1) \<Rightarrow>
                              (case SaveClaimIfUnchanged (en_os E) (en_storable E) (c\<lparr>cl_ReviewPending := True\<rparr>) token w1 of
                                 (Some e, w2) \<Rightarrow> (Inl (ClaimUnsaved e), w2)
                               | (None, w2) \<Rightarrow> (Inr pending, w2)))))))"

section \<open>Reaudit\<close>

text \<open>The standing approval of a claim, if any, and whether nothing standing contradicts the claim.\<close>

definition standingLedgerRecord :: "(string \<Rightarrow> string) \<Rightarrow> store option \<Rightarrow> claim \<Rightarrow> ledger_record option \<times> bool \<times> bool" where
  "standingLedgerRecord sha so c =
     (case so of
        None \<Rightarrow> (None, False, True)
      | Some s \<Rightarrow>
          (case st_Record s (cl_ID c) of
             None \<Rightarrow> (None, False, True)
           | Some r \<Rightarrow>
               if lr_Subject r \<noteq> SubjectClaim \<or> Released r then (Some r, False, True)
               else (Some r, True, lr_Hash r = LockedClaimHash sha c)))"

fun changed_dep :: "(string \<Rightarrow> string) \<Rightarrow> store \<Rightarrow> string \<Rightarrow> claim list \<Rightarrow> string list \<Rightarrow> claim option" where
  "changed_dep sha s i claims [] = None"
| "changed_dep sha s i claims (dep # deps) =
     (case findByID claims dep of
        None \<Rightarrow> changed_dep sha s i claims deps
      | Some d \<Rightarrow>
          (case Baseline s i dep of
             None \<Rightarrow> changed_dep sha s i claims deps
           | Some stored \<Rightarrow> if stored \<noteq> ContentHash sha d then Some d else changed_dep sha s i claims deps))"

definition pickChangedDependency :: "(string \<Rightarrow> string) \<Rightarrow> claim \<Rightarrow> claim list \<Rightarrow> store \<Rightarrow> claim" where
  "pickChangedDependency sha c claims s =
     (let deps = BaselineDependencyIDs c in
      case changed_dep sha s (cl_ID c) claims deps of
        Some d \<Rightarrow> d
      | None \<Rightarrow>
          (case deps of
             [] \<Rightarrow> zero_claim
           | dep # _ \<Rightarrow> (case findByID claims dep of Some d \<Rightarrow> d | None \<Rightarrow> zero_claim)))"

definition reauditTrigger :: "bool \<Rightarrow> bool \<Rightarrow> string" where
  "reauditTrigger drift flagged = (if flagged then ''flag'' else if drift then ''drift'' else ''none'')"

record reaudit_data =
  rd_Trigger :: string
  rd_Diff :: diff
  rd_Applied :: bool
  rd_ReviewPending :: bool
  rd_Adopted :: "string list"

text \<open>The writes of a confirmed re-audit, from the integrity gate on.\<close>

definition confirm_reaudit ::
  "engine \<Rightarrow> string \<Rightarrow> string \<Rightarrow> claim \<Rightarrow> claim \<Rightarrow> diff \<Rightarrow> bool \<Rightarrow> store \<Rightarrow> flag_store \<Rightarrow> world \<Rightarrow>
   (command_error + claim) \<times> world" where
  "confirm_reaudit E now reason c token d flagged s fs w =
     (let sha = en_sha E; claims = loadClaims w;
          (rec, stands, agrees) = standingLedgerRecord sha (Some s) c
      in if stands \<and> \<not> agrees then (Inl IntegrityFailed, w)
         else
           (case CrossPreLedger s (wd_disk w) claims of
              (Some e, _, dk) \<Rightarrow> (Inl (CrossingFailed e), w\<lparr>wd_disk := dk\<rparr>)
            | (None, s1, dk) \<Rightarrow>
                (case Apply (en_entity E) c d of
                   Inl e \<Rightarrow> (Inl (ProposalFailed e), w\<lparr>wd_disk := dk\<rparr>)
                 | Inr applied \<Rightarrow>
                     let s2 = RefreshBaseline sha now applied claims s1;
                         (s3, dk1) = RecordApproval sha now applied \<lparr>ap_Actor = en_actor E, ap_Reason = reason\<rparr> (s2, dk);
                         fs1 = (if flagged then fs\<lparr>fs_Flags := gm_del (cl_ID c) (fs_Flags fs)\<rparr> else fs);
                         final = applied\<lparr>cl_ReviewPending := Recompute sha applied claims (Some s3) (Some fs1)\<rparr>
                     in (case SaveClaimIfUnchanged (en_os E) (en_storable E) final token (w\<lparr>wd_disk := dk1\<rparr>) of
                           (Some e, w1) \<Rightarrow> (Inl (ClaimUnsaved e), w1)
                         | (None, w1) \<Rightarrow>
                             (case write_store s3 w1 of
                                (False, w2) \<Rightarrow> (Inl StoreUnwritten, w2)
                              | (True, w2) \<Rightarrow>
                                  if \<not> flagged then (Inr final, w2)
                                  else
                                    (case write_flags fs1 w2 of
                                       (False, w3) \<Rightarrow> (Inl FlagsUnwritten, w3)
                                     | (True, w3) \<Rightarrow> (Inr final, w3)))))))"

definition propose_reaudit :: "engine \<Rightarrow> claim \<Rightarrow> claim list \<Rightarrow> store \<Rightarrow> flag_store \<Rightarrow> reaudit_error + diff" where
  "propose_reaudit E c claims s fs =
     (case gm_get (fs_Flags fs) (cl_ID c) of
        Some flag \<Rightarrow> ProposeFlagDiff (en_entity E) c flag
      | None \<Rightarrow> ProposeDiff (en_entity E) c (pickChangedDependency (en_sha E) c claims s))"

definition reaudit_command ::
  "engine \<Rightarrow> string \<Rightarrow> bool \<Rightarrow> (store \<Rightarrow> bool) \<Rightarrow> bool \<Rightarrow> string \<Rightarrow> string \<Rightarrow> world \<Rightarrow>
   (command_error + reaudit_data) \<times> world" where
  "reaudit_command E now carrier roof confirm reason i w =
     (let claims = loadClaims w in
      case findByID claims i of
        None \<Rightarrow> (Inl NoSuchClaim, w)
      | Some c \<Rightarrow>
          if cl_Status c \<noteq> StatusLocked \<or> \<not> cl_ReviewPending c then (Inl NotReviewPending, w)
          else if confirm \<and> \<not> requireReason reason then (Inl ReasonMissing, w)
          else if confirm \<and> \<not> carrier then (Inl StoresGitignored, w)
          else
            (case CaptureClaimFileToken (cl_SourcePath c) w of
               None \<Rightarrow> (Inl TokenUnread, w)
             | Some token \<Rightarrow>
                 (case open_store E now (\<lambda>s. confirm \<longrightarrow> roof s) w of
                    (Inl e, w1) \<Rightarrow> (Inl e, w1)
                  | (Inr (adopted, s), w1) \<Rightarrow>
                      (case LoadFlagStore (wd_flags w1) of
                         Inl e \<Rightarrow> (Inl (FlagsUnread e), w1)
                       | Inr fs \<Rightarrow>
                           let flagged = gm_get (fs_Flags fs) i \<noteq> None;
                               (drift, flagTrigger, threads) = PendingTriggers (en_sha E) c claims (Some s) (Some fs)
                           in if \<not> drift \<and> \<not> flagTrigger \<and> threads > 0 then (Inl (OnlyThreads threads), w1)
                              else
                                (case propose_reaudit E c claims s fs of
                                   Inl e \<Rightarrow> (Inl (ProposalFailed e), w1)
                                 | Inr d \<Rightarrow>
                                     let data = (\<lambda>applied pending.
                                           \<lparr>rd_Trigger = reauditTrigger drift flagged, rd_Diff = d, rd_Applied = applied,
                                            rd_ReviewPending = pending, rd_Adopted = adopted\<rparr>)
                                     in if \<not> confirm then (Inr (data False (cl_ReviewPending c)), w1)
                                        else
                                          (case confirm_reaudit E now reason c token d flagged s fs w1 of
                                             (Inl e, w2) \<Rightarrow> (Inl e, w2)
                                           | (Inr final, w2) \<Rightarrow> (Inr (data True (cl_ReviewPending final)), w2)))))))"

section \<open>Frames of the single steps\<close>

lemma findByID_in: "findByID cs i = Some c \<Longrightarrow> c \<in> set cs \<and> cl_ID c = i"
  by (induction cs) (auto split: if_splits)

lemma write_flags_frame:
  "wd_files (snd (write_flags fs w)) = wd_files w" "wd_disk (snd (write_flags fs w)) = wd_disk w"
  by (simp_all add: write_flags_def)

lemma clear_flag_frame:
  assumes "clear_flag i w = (r, w')"
  shows "wd_files w' = wd_files w" "wd_disk w' = wd_disk w"
  using assms write_flags_frame [of _ w]
  by (auto simp: clear_flag_def split: sum.splits if_splits prod.splits bool.splits) (metis snd_conv)+

lemma write_store_frame:
  assumes "write_store s w = (ok, w')"
  shows "wd_files w' = wd_files w" "Save s (wd_disk w) = (ok, wd_disk w')"
  using assms by (auto simp: write_store_def split: prod.splits)

lemma save_claim_frame:
  assumes "SaveClaimIfUnchanged os storable c t w = (e, w')"
  shows "wd_disk w' = wd_disk w" "wd_flags w' = wd_flags w"
    "wd_files w' = (if e = None then gm_put (cl_SourcePath c) c (wd_files w) else wd_files w)"
  using Save_disk [of os storable c t w] Save_flags [of os storable c t w] Save_works [of os storable c t w]
    Save_fails [of os storable c t w] assms by auto

lemma Apply_frame:
  assumes "Apply entity c d = Inr c'"
  shows "cl_ID c' = cl_ID c" "cl_SourcePath c' = cl_SourcePath c" "cl_Status c' = cl_Status c" "cl_Comments c' = cl_Comments c"
  using assms by (auto simp: Apply_def Let_def split: if_splits)

section \<open>A claim with a thread, a flag and an approval\<close>

definition tail_hash :: "string \<Rightarrow> string" where
  "tail_hash s = take 4 (rev s)"

definition sworn :: claim where
  "sworn = threaded\<lparr>cl_Status := StatusLocked, cl_ReviewPending := True, cl_Body := ''old text''\<rparr>"

definition sworn_store :: store where
  "sworn_store = putRecord (cl_ID sworn) (approval_record tail_hash ''t'' sworn \<lparr>ap_Actor = ''me'', ap_Reason = ''ok''\<rparr>)
     ((emptyStore ''s'')\<lparr>st_fileExists := True, st_diskVersion := 3\<rparr>)"

definition sworn_engine :: engine where
  "sworn_engine = test_engine\<lparr>en_sha := tail_hash\<rparr>"

text \<open>The thread of the claim is recorded in the digest store and gone from the file.\<close>

definition silenced :: world where
  "silenced = one_file\<lparr>wd_files := [(''p.yaml'', sworn\<lparr>cl_Comments := []\<rparr>)],
     wd_disk := good_disk\<lparr>dk_store := Bytes (Some (marshal sworn_store)),
       dk_digests := Bytes (Some (ds_Save (empty_dstore\<lparr>ds_Digests := [(cl_ID sworn, CommentsDigest tail_hash sworn)]\<rparr>)))\<rparr>,
     wd_flags := Bytes (Some (SaveFlagStore \<lparr>fs_Version = 1,
       fs_Flags = [(cl_ID sworn, \<lparr>pf_ClaimSays = ''old'', pf_NowDoes = ''new'', pf_Reason = ''r'', pf_FlaggedAt = ''t''\<rparr>)]\<rparr>))\<rparr>"

definition project_audit :: "engine \<Rightarrow> world \<Rightarrow> audit_finding list option" where
  "project_audit E w =
     (case (LoadStore [] (dk_store (wd_disk w)) (en_path E), ds_LoadStore (dk_digests (wd_disk w))) of
        (Inr s, Inr d) \<Rightarrow> Some (Audit (en_sha E) (loadClaims w) s (Some d))
      | _ \<Rightarrow> None)"

definition resolved_by_human :: "world \<Rightarrow> comment_outcome option" where
  "resolved_by_human w =
     map_option (fst \<circ> fst) (comment_command sworn_engine ''t'' (cl_ID sworn) CommentRoleHuman (ResolveThread ''c-1'') w 0)"

section \<open>An unlock always goes through\<close>

lemma storeWritable_kept:
  "dk_storeWritable (snd (snd (PrepareStore sha s dk claims))) = dk_storeWritable dk"
  "dk_storeWritable (snd (createCommentDigestStore p dk)) = dk_storeWritable dk"
  "dk_storeWritable (snd (Save s dk)) = dk_storeWritable dk"
proof -
  show "dk_storeWritable (snd (snd (PrepareStore sha s dk claims))) = dk_storeWritable dk"
    by (auto simp: PrepareStore_def SweepCommentDigests_def Let_def split: prod.splits sum.splits if_splits)
  show *: "dk_storeWritable (snd (createCommentDigestStore p dk)) = dk_storeWritable dk" for p dk
    by (auto simp: createCommentDigestStore_def Let_def split: sum.splits)
  show "dk_storeWritable (snd (Save s dk)) = dk_storeWritable dk"
    by (simp add: Save_def Let_def *)
qed

text \<open>What opening a store leaves alone: records, briefs, constitution and path.\<close>

definition same_records :: "store \<Rightarrow> store \<Rightarrow> bool" where
  "same_records s s' \<longleftrightarrow> st_Ledger s' = st_Ledger s \<and> st_Briefs s' = st_Briefs s \<and> st_Constitution s' = st_Constitution s \<and>
     st_path s' = st_path s"

lemma migrate_same_records: "same_records (fst sr) (fst (migrate_claims sha claims cs sr))"
proof -
  have deps: "same_records (fst sr) (fst (migrate_deps sha claims i ds sr))" for i ds sr
    by (induction ds arbitrary: sr) (auto simp: same_records_def recordBaseline_def Let_def split: option.splits)
  show ?thesis
  proof (induction cs arbitrary: sr)
    case (Cons c cs)
    then show ?case using deps by (simp add: same_records_def)
  qed (simp add: same_records_def)
qed

lemma PrepareStore_same_records: "PrepareStore sha s dk claims = (ch, s', dk') \<Longrightarrow> same_records s s'"
  using migrate_same_records [of "(s, [])" sha claims claims]
  by (auto simp: PrepareStore_def MigrateLegacyStore_def Let_def same_records_def split: prod.splits if_splits)

lemma opened_same_records:
  assumes "LoadStore now (dk_store (wd_disk w)) (en_path E) = Inr s0" "open_store E now gate w = (Inr (ad, s), w1)"
  shows "same_records s0 s"
  using assms by (auto simp: open_store_def prepareStore_def Let_def split: if_splits prod.splits bool.splits
      dest!: PrepareStore_same_records)

lemma Save_total:
  assumes "dk_storeWritable dk"
  obtains dk' where "Save s dk = (True, dk')" "dk_storeWritable dk'" "dk_store dk' = Bytes (Some (marshal s))"
  using assms storeWritable_kept(3) [of s dk] Save_stored [of s dk] by (cases "Save s dk") (auto simp: Save_def Let_def split: if_splits)

lemma open_store_total:
  assumes "LoadStore now (dk_store (wd_disk w)) (en_path E) = Inr s0" "gate s0" "dk_storeWritable (wd_disk w)"
  obtains ad s dk where "open_store E now gate w = (Inr (ad, s), w\<lparr>wd_disk := dk\<rparr>)" "dk_storeWritable dk"
proof -
  obtain ch s dk1 where prep: "PrepareStore (en_sha E) s0 (wd_disk w) (loadClaims w) = (ch, s, dk1)"
    by (cases "PrepareStore (en_sha E) s0 (wd_disk w) (loadClaims w)")
  then have "dk_storeWritable dk1" using storeWritable_kept(1) assms(3) by (metis snd_conv)
  then obtain dk2 where save: "Save s dk1 = (True, dk2)" "dk_storeWritable dk2" by (rule Save_total)
  then have "\<exists>ad dk. open_store E now gate w = (Inr (ad, s), w\<lparr>wd_disk := dk\<rparr>) \<and> dk_storeWritable dk"
    using assms(1,2) \<open>dk_storeWritable dk1\<close>
    by (cases ch) (auto simp: open_store_def prepareStore_def prep write_store_def Let_def)
  with that show ?thesis by blast
qed

lemma clear_flag_total:
  assumes "wd_flagWritable w"
  shows "\<exists>r x. clear_flag i w = (Some r, w\<lparr>wd_flags := x\<rparr>) \<and>
    (\<forall>fs. LoadFlagStore x = Inr fs \<longrightarrow> gm_get (fs_Flags fs) i = None)"
proof (cases "LoadFlagStore (wd_flags w)")
  case (Inl e)
  then have "clear_flag i w = (Some (False, True), w\<lparr>wd_flags := wd_flags w\<rparr>)" by (simp add: clear_flag_def)
  with Inl show ?thesis by (intro exI conjI) (assumption, simp)
next
  case (Inr fs)
  show ?thesis
  proof (cases "gm_get (fs_Flags fs) i")
    case None
    with Inr have "clear_flag i w = (Some (False, False), w\<lparr>wd_flags := wd_flags w\<rparr>)" by (simp add: clear_flag_def)
    with Inr None show ?thesis by (intro exI conjI) (assumption, simp)
  next
    case (Some f)
    let ?x = "Bytes (Some (SaveFlagStore (fs\<lparr>fs_Flags := gm_del i (fs_Flags fs)\<rparr>)))"
    from Inr Some assms have "clear_flag i w = (Some (True, False), w\<lparr>wd_flags := ?x\<rparr>)"
      by (simp add: clear_flag_def write_flags_def)
    then show ?thesis by (intro exI conjI) (assumption, simp)
  qed
qed

lemma released_by_unlock:
  assumes "Unlock now c ap s = (c', s')"
  shows "c' = c\<lparr>cl_Status := StatusDraft, cl_ReviewPending := False\<rparr>"
    "gm_get (st_Ledger s') j = (if j = cl_ID c then map_option (release_record now ap) (gm_get (st_Ledger s) j) else gm_get (st_Ledger s) j)"
    "st_Briefs s' = st_Briefs s" "st_Constitution s' = st_Constitution s"
  using assms by (auto simp: Unlock_def ReleaseApproval_def st_Record_def putRecord_def split: option.splits)

text \<open>
  C16. An unlock is not blocked by anything the project may be in: with a reason, a store that loads
  and files that can be written, it returns the claim to draft in its own file and in no other, whatever
  the status of the claim and the state of the flag and digest stores. In the store it saves, the record
  of the claim is what it was, hash and content included, but for the release, which carries the time, the
  actor and the reason given; every other record, the records of the briefs and the constitution are what
  they were. Where the flag store can be read, no flag is left pending for the claim.
\<close>
theorem unlock_never_blocked:
  assumes "world_ok w" "findByID (loadClaims w) i = Some c" "requireReason reason"
    and "LoadStore now (dk_store (wd_disk w)) (en_path E) = Inr s0"
    and "dk_storeWritable (wd_disk w)" "wd_flagWritable w" "\<forall>t. en_os E t"
    and "en_storable E (c\<lparr>cl_Status := StatusDraft, cl_ReviewPending := False\<rparr>)" "\<not> blank (cl_SourcePath c)"
  shows "\<exists>data w' s. unlock_command E now reason i w = (Inr data, w') \<and>
    wd_files w' = gm_put (cl_SourcePath c) (c\<lparr>cl_Status := StatusDraft, cl_ReviewPending := False\<rparr>) (wd_files w) \<and>
    dk_store (wd_disk w') = Bytes (Some (marshal s)) \<and>
    gm_get (st_Ledger s) i =
      map_option (\<lambda>r. r\<lparr>lr_ReleasedAt := now, lr_ReleasedBy := en_actor E, lr_ReleasedReason := reason\<rparr>) (gm_get (st_Ledger s0) i) \<and>
    (\<forall>j. j \<noteq> i \<longrightarrow> gm_get (st_Ledger s) j = gm_get (st_Ledger s0) j) \<and>
    st_Briefs s = st_Briefs s0 \<and> st_Constitution s = st_Constitution s0 \<and>
    (\<forall>fs. LoadFlagStore (wd_flags w') = Inr fs \<longrightarrow> gm_get (fs_Flags fs) i = None)"
proof -
  let ?ap = "\<lparr>ap_Actor = en_actor E, ap_Reason = reason\<rparr>"
  note c = findByID_in [OF assms(2)]
  have on_file: "gm_get (wd_files w) (cl_SourcePath c) = Some c" using assms(1) c by (simp add: world_ok_file)
  obtain ad s1 dk where opened: "open_store E now (\<lambda>_. True) w = (Inr (ad, s1), w\<lparr>wd_disk := dk\<rparr>)" "dk_storeWritable dk"
    by (rule open_store_total [OF assms(4) _ assms(5)]) auto
  have "wd_flagWritable (w\<lparr>wd_disk := dk\<rparr>)" using assms(6) by simp
  then obtain q x where flag: "clear_flag i (w\<lparr>wd_disk := dk\<rparr>) = (Some q, w\<lparr>wd_disk := dk, wd_flags := x\<rparr>)"
    "\<forall>fs. LoadFlagStore x = Inr fs \<longrightarrow> gm_get (fs_Flags fs) i = None"
    using clear_flag_total by fastforce
  obtain c' s2 where unlocked: "Unlock now c ?ap s1 = (c', s2)" by (cases "Unlock now c ?ap s1")
  note rel = released_by_unlock [OF unlocked]
  obtain dk' where save: "Save s2 dk = (True, dk')" "dk_store dk' = Bytes (Some (marshal s2))"
    by (rule Save_total [OF opened(2)])
  define w2 where "w2 = w\<lparr>wd_disk := dk, wd_flags := x\<rparr>"
  define w3 where "w3 = w2\<lparr>wd_files := gm_put (cl_SourcePath c') c' (wd_files w2), wd_tick := Suc (wd_tick w2)\<rparr>"
  have "SaveClaimIfUnchanged (en_os E) (en_storable E) c' c w2 = (None, w3)"
    using assms(7-9) on_file by (simp add: SaveClaimIfUnchanged_def rel(1) w2_def w3_def)
  moreover have "write_store s2 w3 = (True, w3\<lparr>wd_disk := dk'\<rparr>)" by (simp add: write_store_def save w3_def w2_def)
  ultimately have "\<exists>data. unlock_command E now reason i w = (Inr data, w3\<lparr>wd_disk := dk'\<rparr>)"
    using assms(2,3) on_file by (cases q) (simp add: unlock_command_def CaptureClaimFileToken_def opened(1) flag(1) unlocked w2_def)
  moreover have "same_records s0 s1" by (rule opened_same_records [OF assms(4) opened(1)])
  moreover have "release_record now ?ap = (\<lambda>r. r\<lparr>lr_ReleasedAt := now, lr_ReleasedBy := en_actor E, lr_ReleasedReason := reason\<rparr>)"
    by (simp add: release_record_def fun_eq_iff)
  ultimately show ?thesis
    using c save(2) flag(2) rel by (fastforce simp: w3_def w2_def same_records_def)
qed

theorem unlock_never_blocked_witness:
  "\<exists>data w' s. unlock_command sworn_engine ''t'' ''wrong'' (cl_ID sworn) (silenced\<lparr>wd_flags := Bytes None\<rparr>) = (Inr data, w') \<and>
    dk_store (wd_disk w') = Bytes (Some (marshal s)) \<and>
    map_option lr_ReleasedReason (gm_get (st_Ledger s) (cl_ID sworn)) = Some ''wrong''"
proof -
  let ?w = "silenced\<lparr>wd_flags := Bytes None\<rparr>"
  have "cl_SourcePath sworn = ''p.yaml''" by code_simp
  then have "world_ok ?w" "en_storable sworn_engine c" "\<forall>t. en_os sworn_engine t" "wd_flagWritable ?w" "dk_storeWritable (wd_disk ?w)" for c
    by (simp_all add: world_ok_def silenced_def one_file_def loadClaims_def known_ids_def sworn_engine_def test_engine_def
        good_disk_def)
  moreover have "findByID (loadClaims ?w) (cl_ID sworn) = Some (sworn\<lparr>cl_Comments := []\<rparr>)" by code_simp
  moreover have "requireReason ''wrong''" "\<not> blank (cl_SourcePath (sworn\<lparr>cl_Comments := []\<rparr>))" by code_simp+
  moreover have "case LoadStore ''t'' (dk_store (wd_disk ?w)) (en_path sworn_engine) of Inl _ \<Rightarrow> False | Inr _ \<Rightarrow> True" by code_simp
  then obtain s0 where s0: "LoadStore ''t'' (dk_store (wd_disk ?w)) (en_path sworn_engine) = Inr s0" by (auto split: sum.splits)
  moreover have "case LoadStore ''t'' (dk_store (wd_disk ?w)) (en_path sworn_engine) of
      Inl _ \<Rightarrow> False | Inr s \<Rightarrow> gm_get (st_Ledger s) (cl_ID sworn) \<noteq> None" by code_simp
  then have "gm_get (st_Ledger s0) (cl_ID sworn) \<noteq> None" using s0 by simp
  ultimately show ?thesis using unlock_never_blocked [of ?w "cl_ID sworn" _ "''wrong''" "''t''" sworn_engine] by (fastforce simp: option.map_comp)
qed

section \<open>A re-audit writes what its preview shows\<close>

lemma Apply_body:
  assumes "Apply entity c d = Inr a"
  shows "\<exists>notes. a = c\<lparr>cl_Body := stripMarkup entity (di_Body d), cl_AuditNotes := notes\<rparr> \<and> set (cl_AuditNotes c) \<subseteq> set notes"
  using assms by (auto simp: Apply_def Let_def split: if_splits intro: exI [of _ "cl_AuditNotes c"])

lemma propose_body: "propose_reaudit E c claims s fs = Inr d \<Longrightarrow> di_ResultingBody d = stripMarkup (en_entity E) (di_Body d)"
  by (auto simp: propose_reaudit_def ProposeFlagDiff_def ProposeDiff_def Let_def split: option.splits if_splits)

lemma confirm_steps:
  assumes "confirm_reaudit E now reason c token d flagged s fs w = (Inr final, w')"
  obtains s1 dk a s3 dk1 where "CrossPreLedger s (wd_disk w) (loadClaims w) = (None, s1, dk)"
    "Apply (en_entity E) c d = Inr a" "final = a\<lparr>cl_ReviewPending := cl_ReviewPending final\<rparr>"
    "RecordApproval (en_sha E) now a \<lparr>ap_Actor = en_actor E, ap_Reason = reason\<rparr>
       (RefreshBaseline (en_sha E) now a (loadClaims w) s1, dk) = (s3, dk1)"
    "Save s3 dk1 = (True, wd_disk w')" "wd_files w' = gm_put (cl_SourcePath c) final (wd_files w)"
proof -
  let ?ap = "\<lparr>ap_Actor = en_actor E, ap_Reason = reason\<rparr>"
  obtain rc st ag where std: "standingLedgerRecord (en_sha E) (Some s) c = (rc, st, ag)" by (metis prod_cases3)
  have "\<not> (st \<and> \<not> ag)" using assms by (auto simp: confirm_reaudit_def Let_def std split: if_splits)
  obtain e s1 dk where cross: "CrossPreLedger s (wd_disk w) (loadClaims w) = (e, s1, dk)" by (metis prod_cases3)
  with assms \<open>\<not> (st \<and> \<not> ag)\<close> std have e: "e = None" by (cases e) (auto simp: confirm_reaudit_def Let_def)
  with assms \<open>\<not> (st \<and> \<not> ag)\<close> std cross obtain a where a: "Apply (en_entity E) c d = Inr a"
    by (cases "Apply (en_entity E) c d") (auto simp: confirm_reaudit_def Let_def)
  obtain s3 dk1 where rec: "RecordApproval (en_sha E) now a ?ap (RefreshBaseline (en_sha E) now a (loadClaims w) s1, dk) = (s3, dk1)"
    by (metis surj_pair)
  define fs1 where "fs1 = (if flagged then fs\<lparr>fs_Flags := gm_del (cl_ID c) (fs_Flags fs)\<rparr> else fs)"
  define b where "b = Recompute (en_sha E) a (loadClaims w) (Some s3) (Some fs1)"
  let ?final = "a\<lparr>cl_ReviewPending := b\<rparr>"
  obtain x w1 where save: "SaveClaimIfUnchanged (en_os E) (en_storable E) ?final token (w\<lparr>wd_disk := dk1\<rparr>) = (x, w1)"
    by (metis surj_pair)
  obtain k w2 where store: "write_store s3 w1 = (k, w2)" by (metis surj_pair)
  obtain l w3 where flags: "write_flags fs1 w2 = (l, w3)" by (metis surj_pair)
  have "x = None \<and> k \<and> final = ?final \<and> (w' = w2 \<or> w' = w3)"
    using assms \<open>\<not> (st \<and> \<not> ag)\<close>
    by (auto simp: confirm_reaudit_def Let_def std cross e a rec save store flags b_def [symmetric] fs1_def [symmetric]
        split: option.splits bool.splits if_splits)
  moreover from this have "wd_files w' = wd_files w1" "wd_disk w' = wd_disk w2"
    using write_store_frame(1) [OF store] write_flags_frame [of fs1 w2] flags by auto
  ultimately show ?thesis
    using a rec save_claim_frame [OF save] Apply_frame(2) [OF a] write_store_frame(2) [OF store] cross e
    by (intro that [of s1 dk a s3 dk1]) auto
qed

lemma confirm_done:
  assumes "confirm_reaudit E now reason c token d flagged s fs w = (Inr final, w')"
  shows "\<exists>a. Apply (en_entity E) c d = Inr a \<and> final = a\<lparr>cl_ReviewPending := cl_ReviewPending final\<rparr> \<and>
    wd_files w' = gm_put (cl_SourcePath c) final (wd_files w)"
  by (rule confirm_steps [OF assms]) blast

lemma opened_files:
  assumes "open_store E now gate w = (r, w1)"
  shows "wd_files w1 = wd_files w"
  using assms by (auto simp: open_store_def prepareStore_def Let_def write_store_def split: sum.splits if_splits prod.splits bool.splits)

lemma gate_open:
  assumes "open_store E now gate w = (Inr q, w1)" "\<forall>s. gate' s"
  shows "open_store E now gate' w = (Inr q, w1)"
  using assms by (auto simp: open_store_def split: sum.splits if_splits)

text \<open>
  C15. What a confirmed re-audit writes is what a preview of the same project shows: the preview shows
  the same proposal for the same trigger and writes no claim, and the confirmed run replaces the body
  by the resulting body of that proposal, keeps every audit note, changes no other field than the
  review flag, and writes no other claim file.
\<close>
theorem reaudit_preview_binds:
  assumes "reaudit_command E now carrier roof True reason i w = (Inr data, w')"
  shows "\<exists>pending w1. reaudit_command E now carrier' roof' False reason' i w =
      (Inr (data\<lparr>rd_Applied := False, rd_ReviewPending := pending\<rparr>), w1) \<and> wd_files w1 = wd_files w \<and>
    (\<exists>c c'. findByID (loadClaims w) i = Some c \<and> wd_files w' = gm_put (cl_SourcePath c) c' (wd_files w) \<and>
       c' = c\<lparr>cl_Body := di_ResultingBody (rd_Diff data), cl_AuditNotes := cl_AuditNotes c',
              cl_ReviewPending := rd_ReviewPending data\<rparr> \<and>
       set (cl_AuditNotes c) \<subseteq> set (cl_AuditNotes c'))"
proof -
  from assms obtain c token ad s w1 where c: "findByID (loadClaims w) i = Some c"
    and token: "CaptureClaimFileToken (cl_SourcePath c) w = Some token"
    and opened: "open_store E now roof w = (Inr (ad, s), w1)"
    and pending: "\<not> (cl_Status c \<noteq> StatusLocked \<or> \<not> cl_ReviewPending c)"
    by (auto simp: reaudit_command_def Let_def split: option.splits if_splits sum.splits prod.splits)
  have preview: "open_store E now (\<lambda>_. True) w = (Inr (ad, s), w1)" by (rule gate_open [OF opened]) simp
  have files: "wd_files w1 = wd_files w" by (rule opened_files [OF opened])
  from assms obtain fs where flags: "LoadFlagStore (wd_flags w1) = Inr fs"
    by (cases "LoadFlagStore (wd_flags w1)") (auto simp: reaudit_command_def Let_def c token opened pending split: if_splits)
  obtain drift ft threads where trig: "PendingTriggers (en_sha E) c (loadClaims w) (Some s) (Some fs) = (drift, ft, threads)"
    by (metis prod_cases3)
  from assms have go: "\<not> (\<not> drift \<and> \<not> ft \<and> threads > 0)" "requireReason reason" "carrier"
    by (auto simp: reaudit_command_def Let_def c token opened pending flags trig split: if_splits)
  with assms obtain d where d: "propose_reaudit E c (loadClaims w) s fs = Inr d"
    by (cases "propose_reaudit E c (loadClaims w) s fs")
      (auto simp: reaudit_command_def Let_def c token opened pending flags trig split: if_splits)
  let ?flagged = "gm_get (fs_Flags fs) i \<noteq> None"
  obtain final where confirmed: "confirm_reaudit E now reason c token d ?flagged s fs w1 = (Inr final, w')"
    and data: "data = \<lparr>rd_Trigger = reauditTrigger drift ?flagged, rd_Diff = d, rd_Applied = True,
       rd_ReviewPending = cl_ReviewPending final, rd_Adopted = ad\<rparr>"
    using assms go pending d
    by (auto simp: reaudit_command_def Let_def c token opened flags trig split: sum.splits prod.splits)
  have "reaudit_command E now carrier' roof' False reason' i w =
      (Inr (data\<lparr>rd_Applied := False, rd_ReviewPending := cl_ReviewPending c\<rparr>), w1)"
    using go(1) pending d by (auto simp: reaudit_command_def Let_def c token preview flags trig data)
  moreover obtain a where a: "Apply (en_entity E) c d = Inr a" "final = a\<lparr>cl_ReviewPending := cl_ReviewPending final\<rparr>"
    "wd_files w' = gm_put (cl_SourcePath c) final (wd_files w1)" using confirm_done [OF confirmed] by blast
  obtain ns where ns: "a = c\<lparr>cl_Body := di_ResultingBody d, cl_AuditNotes := ns\<rparr>"
    "set (cl_AuditNotes c) \<subseteq> set ns" using Apply_body [OF a(1)] propose_body [OF d] by metis
  have written: "final = c\<lparr>cl_Body := di_ResultingBody d, cl_AuditNotes := ns, cl_ReviewPending := cl_ReviewPending final\<rparr>"
    by (subst a(2)) (simp add: ns(1))
  have new_notes: "cl_AuditNotes final = ns" by (subst a(2)) (simp add: ns(1))
  have proposal: "rd_Diff data = d" "rd_ReviewPending data = cl_ReviewPending final" by (simp_all add: data)
  have "final = c\<lparr>cl_Body := di_ResultingBody (rd_Diff data), cl_AuditNotes := cl_AuditNotes final,
      cl_ReviewPending := rd_ReviewPending data\<rparr> \<and> set (cl_AuditNotes c) \<subseteq> set (cl_AuditNotes final)"
    unfolding new_notes proposal using written ns(2) by blast
  ultimately show ?thesis using files c a(3) by metis
qed

theorem reaudit_preview_binds_witness:
  "\<exists>data w' w1. reaudit_command sworn_engine ''t'' True (\<lambda>_. True) True ''r'' (cl_ID sworn) silenced = (Inr data, w') \<and>
    reaudit_command sworn_engine ''t'' False (\<lambda>_. False) False [] (cl_ID sworn) silenced =
      (Inr (data\<lparr>rd_Applied := False, rd_ReviewPending := True\<rparr>), w1) \<and> wd_files w1 = wd_files silenced"
proof -
  have "case fst (reaudit_command sworn_engine ''t'' True (\<lambda>_. True) True ''r'' (cl_ID sworn) silenced) of
      Inl _ \<Rightarrow> False | Inr _ \<Rightarrow> True" by code_simp
  then obtain data w' where run:
    "reaudit_command sworn_engine ''t'' True (\<lambda>_. True) True ''r'' (cl_ID sworn) silenced = (Inr data, w')"
    by (cases "reaudit_command sworn_engine ''t'' True (\<lambda>_. True) True ''r'' (cl_ID sworn) silenced") (auto split: sum.splits)
  have "case fst (reaudit_command sworn_engine ''t'' False (\<lambda>_. False) False [] (cl_ID sworn) silenced) of
      Inl _ \<Rightarrow> False | Inr d \<Rightarrow> rd_ReviewPending d" by code_simp
  then show ?thesis using run reaudit_preview_binds [OF run, of False "\<lambda>_. False" "[]"] by fastforce
qed

section \<open>A confirmed re-audit blesses whatever comment block it finds\<close>

lemma reaudit_confirmed:
  assumes "reaudit_command E now carrier roof True reason i w = (Inr data, w')"
  obtains c token ad s w1 fs d flagged final where "findByID (loadClaims w) i = Some c"
    "open_store E now roof w = (Inr (ad, s), w1)" "requireReason reason"
    "confirm_reaudit E now reason c token d flagged s fs w1 = (Inr final, w')"
  using assms
  by (auto simp: reaudit_command_def Let_def split: option.splits if_splits sum.splits prod.splits)

text \<open>A digest store that the process can lock, read and write, which no step before the record takes away.\<close>

definition digests_ready :: "disk \<Rightarrow> bool" where
  "digests_ready dk \<longleftrightarrow> dk_lockable dk \<and> dk_writable dk \<and> (\<exists>d. ds_LoadStore (dk_digests dk) = Inr d)"

lemma ready_saved: "ds_Version d = StoreSchemaVersion \<Longrightarrow> digests_ready dk \<Longrightarrow>
    digests_ready (dk\<lparr>dk_digests := Bytes (Some (ds_Save d))\<rparr>)"
  by (simp add: digests_ready_def ds_load_save)

lemma ready_swept:
  assumes "SweepCommentDigests sha s dk claims covered = (ad, fg, dk')" "digests_ready dk"
  shows "digests_ready dk'"
proof -
  obtain d where d: "ds_LoadStore (dk_digests dk) = Inr d" using assms(2) by (auto simp: digests_ready_def)
  have ver: "ds_Version (fold ds_Forget is (fst (Adopt sha d cs))) = StoreSchemaVersion"
    "ds_Version (fold ds_Forget is d) = StoreSchemaVersion" for cs "is"
    using LoadStore_version [OF d] by (simp_all add: Forget_fold_frame Adopt_frame)
  from assms d show ?thesis
    by (auto simp: SweepCommentDigests_def Let_def split_def ready_saved ver split: if_splits)
qed

lemma ready_created: "createCommentDigestStore p dk = (b, dk') \<Longrightarrow> digests_ready dk \<Longrightarrow> digests_ready dk'"
  by (auto simp: createCommentDigestStore_def LoadStore_version intro!: ready_saved split: if_splits sum.splits)

lemma ready_store [simp]: "digests_ready (dk\<lparr>dk_store := x\<rparr>) = digests_ready dk"
  by (simp add: digests_ready_def)

lemma Save_ready: "Save s dk = (b, dk') \<Longrightarrow> digests_ready dk \<Longrightarrow> digests_ready dk'"
  using ready_created [of "st_path s" "dk\<lparr>dk_store := Bytes (Some (marshal s))\<rparr>"]
  by (auto simp: Save_def Let_def split: if_splits) (metis prod.collapse)

lemma open_ready:
  assumes "open_store E now gate w = (Inr (ad, s), w1)" "digests_ready (wd_disk w)"
  shows "digests_ready (wd_disk w1)"
proof -
  from assms(1) obtain s0 ch dk where prep: "PrepareStore (en_sha E) s0 (wd_disk w) (loadClaims w) = (ch, s, dk)"
    and w1: "wd_disk w1 = dk \<or> (\<exists>b. Save s dk = (b, wd_disk w1))"
    by (fastforce simp: open_store_def prepareStore_def Let_def write_store_def split: sum.splits if_splits prod.splits bool.splits)
  have "digests_ready dk" using prep ready_swept assms(2) by (auto simp: PrepareStore_def Let_def split: prod.splits)
  with w1 Save_ready show ?thesis by blast
qed

lemma cross_ready: "CrossPreLedger s dk claims = (None, s1, dk') \<Longrightarrow> digests_ready dk \<Longrightarrow> digests_ready dk' \<and> st_path s1 = st_path s"
  by (auto simp: CrossPreLedger_def Let_def split: if_splits prod.splits bool.splits dest: ready_created Save_ready)

lemma opened_path: "open_store E now gate w = (Inr (ad, s), w1) \<Longrightarrow> st_path s = en_path E"
  by (auto simp: open_store_def prepareStore_def Let_def same_records_def LoadStore_path
      split: sum.splits if_splits prod.splits bool.splits dest!: PrepareStore_same_records)

lemma mutate_opened_no_drift:
  "checkCommentDigest (en_sha E) d (loadClaims w ! n) (LedgerEstablished ls (ds_fileExists d)) \<Longrightarrow>
   mutate_opened E n token d ls fs fn w k = Some ((out, w'), k') \<Longrightarrow> out \<noteq> CommentDigestDrift"
  by (auto simp: mutate_opened_def Let_def split: option.splits sum.splits prod.splits bool.splits)

lemma comment_no_drift:
  assumes "comment_command E now i actor op w k = Some ((out, w'), k')" "world_ok w"
    and "c \<in> set (loadClaims w)" "cl_ID c = i" "ds_LoadStore (dk_digests (wd_disk w)) = Inr d"
    and "ds_Digest d i = Some (CommentsDigest (en_sha E) c)"
  shows "out \<noteq> CommentDigestDrift"
proof (cases "mutate E now i (run_op (en_rnd E) now actor op) w k = Some ((out, w'), k')")
  case True
  then show ?thesis
  proof (cases rule: mutate_cases)
    case refused
    then show ?thesis by auto
  next
    case (opened n d' ls fs)
    then have "loadClaims w ! n = c" using same_id [OF assms(2) nth_mem assms(3)] assms(4) by simp
    with opened(3) assms(4-6) have "checkCommentDigest (en_sha E) d' (loadClaims w ! n) (LedgerEstablished ls (ds_fileExists d'))"
      by (simp add: checkCommentDigest_def)
    from mutate_opened_no_drift [OF this opened(6)] show ?thesis .
  qed
next
  case False
  with assms(1) show ?thesis
    by (auto simp: comment_command_def validateBody_def split: if_splits option.splits)
qed

lemma audit_no_drift:
  assumes "\<forall>c \<in> set claims. cl_ID c = i \<longrightarrow> ds_Digest d i = Some (CommentsDigest sha c)"
  shows "Finding RuleCommentLedgerDrift i \<notin> set (Audit sha claims s (Some d))"
proof -
  note rules = RuleCommentLedgerDrift_def RuleLockLedgerDeleted_def RuleLockLedgerMissing_def RuleLockLedgerReleased_def
    RuleLockContentDrift_def RuleLockLedgerOrphan_def RuleCommentDigestUnrecorded_def
  have "Finding RuleCommentLedgerDrift i \<notin> set (fst (audit_claims sha s p v (Some d) cs))" if "set cs \<subseteq> set claims" for p v cs
    using that
  proof (induction cs)
    case (Cons c cs)
    have "Finding RuleCommentLedgerDrift i \<notin> set (fst (audit_ledger sha s p v c))"
      by (simp add: audit_ledger_def rules split: option.split)
    moreover have "Finding RuleCommentLedgerDrift i \<notin> set (audit_comments sha s v (Some d) c)"
      using assms Cons.prems by (auto simp: audit_comments_def rules split: option.splits)
    ultimately show ?case using Cons by (auto split: prod.splits)
  qed simp
  then show ?thesis
    by (auto simp: Audit_def audit_findings_def audit_abandoned_def Let_def rules RuleLockLedgerAbandoned_def RuleLockLedgerAbsent_def
        RuleLockLedgerPreLedger_def RuleLockLedgerDowngraded_def split_def split: if_splits)
qed

lemma RefreshBaseline_path: "st_path (RefreshBaseline sha now c claims s) = st_path s"
proof -
  have "st_path (refresh_loop sha i claims deps s) = st_path s" for i deps
    by (induction deps arbitrary: s) (auto simp: recordReceipt_def put_receipt_def recordBaseline_def Let_def split: option.splits)
  then show ?thesis by (simp add: RefreshBaseline_def st_LockedAt_put_def)
qed

text \<open>
  C40. A confirmed re-audit of a claim takes over whatever comment block it finds: with a digest store the
  process can lock, read and write, after any confirmed re-audit that goes through the digest on record
  for the claim is that of the comments its file holds, which are the comments it held before, whatever
  digest was on record; so the audit has no drift to report for it and no comment operation on it is
  refused for drift any more. The claim's comments are never compared with the recorded digest on the way.
\<close>
theorem reaudit_clears_comment_drift:
  assumes "reaudit_command E now carrier roof True reason i w = (Inr data, w')" "world_ok w"
    and "dk_lockable (wd_disk w)" "dk_writable (wd_disk w)" "ds_LoadStore (dk_digests (wd_disk w)) = Inr d0" "en_path E \<noteq> []"
  shows "\<exists>c c' d. findByID (loadClaims w) i = Some c \<and> wd_files w' = gm_put (cl_SourcePath c) c' (wd_files w) \<and>
    cl_ID c' = i \<and> cl_Comments c' = cl_Comments c \<and>
    ds_LoadStore (dk_digests (wd_disk w')) = Inr d \<and> ds_Digest d i = Some (CommentsDigest (en_sha E) c') \<and>
    (\<forall>s. Finding RuleCommentLedgerDrift i \<notin> set (Audit (en_sha E) (loadClaims w') s (Some d))) \<and>
    (\<forall>now actor op k out w2 k2. comment_command E now i actor op w' k = Some ((out, w2), k2) \<longrightarrow> out \<noteq> CommentDigestDrift)"
proof -
  from reaudit_confirmed [OF assms(1)] obtain c token ad s w1 fs dd flagged final
    where c: "findByID (loadClaims w) i = Some c" and opened: "open_store E now roof w = (Inr (ad, s), w1)"
      and run: "confirm_reaudit E now reason c token dd flagged s fs w1 = (Inr final, w')" .
  have files: "wd_files w1 = wd_files w" by (rule opened_files [OF opened])
  from confirm_steps [OF run] obtain s1 dk a s3 dk1 where steps:
    "CrossPreLedger s (wd_disk w1) (loadClaims w1) = (None, s1, dk)"
    "Apply (en_entity E) c dd = Inr a" "final = a\<lparr>cl_ReviewPending := cl_ReviewPending final\<rparr>"
    "RecordApproval (en_sha E) now a \<lparr>ap_Actor = en_actor E, ap_Reason = reason\<rparr>
       (RefreshBaseline (en_sha E) now a (loadClaims w1) s1, dk) = (s3, dk1)"
    "Save s3 dk1 = (True, wd_disk w')" "wd_files w' = gm_put (cl_SourcePath c) final (wd_files w1)" .
  note cin = findByID_in [OF c]
  have "digests_ready (wd_disk w)" using assms(3-5) by (simp add: digests_ready_def)
  then have "digests_ready (wd_disk w1)" by (rule open_ready [OF opened])
  with cross_ready [OF steps(1)] have ready: "digests_ready dk" and path: "st_path s1 = en_path E"
    using opened_path [OF opened] by auto
  then obtain d1 where d1: "ds_LoadStore (dk_digests dk) = Inr d1" "dk_lockable dk" "dk_writable dk"
    by (auto simp: digests_ready_def)
  let ?d = "ds_Record (en_sha E) a d1"
  have ver: "ds_Version ?d = StoreSchemaVersion" using LoadStore_version [OF d1(1)] by (simp add: ds_Record_def)
  have s3: "st_path s3 = en_path E" and dk1: "dk1 = dk\<lparr>dk_digests := Bytes (Some (ds_Save ?d))\<rparr>"
    using steps(4) d1 path assms(6)
    by (auto simp: RecordApproval_def Let_def recordCommentDigestBeside_def putRecord_def RefreshBaseline_path)
  have "wd_disk w' = dk1\<lparr>dk_store := Bytes (Some (marshal s3))\<rparr>"
    using steps(5) by (auto simp: Save_def Let_def dk1 createCommentDigestStore_def ds_load_save [OF ver] split: if_splits)
  then have load: "ds_LoadStore (dk_digests (wd_disk w')) = Inr (?d\<lparr>ds_fileExists := True\<rparr>)" by (simp add: dk1 ds_load_save [OF ver])
  have fin: "cl_ID final = i" "cl_SourcePath final = cl_SourcePath c" "cl_Comments final = cl_Comments c"
    "cl_ID a = i" "cl_Comments a = cl_Comments c"
    using Apply_frame [OF steps(2)] cin by (simp_all, (subst steps(3), simp)+)
  have digest: "ds_Digest (?d\<lparr>ds_fileExists := True\<rparr>) i = Some (CommentsDigest (en_sha E) final)"
    using fin by (simp add: ds_Digest_def ds_Record_def CommentsDigest_def comments_preimage_def)
  have mem: "set (loadClaims w') = insert final (set (loadClaims w) - {c})" and ok: "world_ok w'"
    using rewrite_file [OF assms(2), of c final w'] cin fin steps(6) files by auto
  have only: "x = final" if "x \<in> set (loadClaims w')" "cl_ID x = i" for x
    using same_id [OF ok that(1), of final] that(2) fin(1) mem by auto
  then have "\<forall>s. Finding RuleCommentLedgerDrift i \<notin> set (Audit (en_sha E) (loadClaims w') s (Some (?d\<lparr>ds_fileExists := True\<rparr>)))"
    using digest by (intro allI audit_no_drift) auto
  moreover have "\<forall>now actor op k out w2 k2. comment_command E now i actor op w' k = Some ((out, w2), k2) \<longrightarrow> out \<noteq> CommentDigestDrift"
    using comment_no_drift [OF _ ok _ fin(1) load digest] mem by blast
  ultimately show ?thesis using c steps(6) files fin load digest by metis
qed

theorem reaudit_clears_comment_drift_witness:
  "project_audit sworn_engine silenced = Some [Finding RuleCommentLedgerDrift (cl_ID sworn)] \<and>
   resolved_by_human silenced = Some CommentDigestDrift \<and>
   (\<exists>data w'. reaudit_command sworn_engine ''t'' True (\<lambda>_. True) True ''r'' (cl_ID sworn) silenced = (Inr data, w') \<and>
      disk_digest (wd_disk w') (cl_ID sworn) = Some (CommentsDigest tail_hash (sworn\<lparr>cl_Comments := []\<rparr>)))"
proof (intro conjI)
  show "project_audit sworn_engine silenced = Some [Finding RuleCommentLedgerDrift (cl_ID sworn)]" by code_simp
  show "resolved_by_human silenced = Some CommentDigestDrift" by code_simp
  have "case fst (reaudit_command sworn_engine ''t'' True (\<lambda>_. True) True ''r'' (cl_ID sworn) silenced) of
      Inl _ \<Rightarrow> False | Inr _ \<Rightarrow> True" by code_simp
  then obtain data w' where run: "reaudit_command sworn_engine ''t'' True (\<lambda>_. True) True ''r'' (cl_ID sworn) silenced = (Inr data, w')"
    by (cases "reaudit_command sworn_engine ''t'' True (\<lambda>_. True) True ''r'' (cl_ID sworn) silenced") (auto split: sum.splits)
  have "cl_SourcePath sworn = ''p.yaml''" by code_simp
  then have ok: "world_ok silenced" by (simp add: world_ok_def silenced_def one_file_def loadClaims_def known_ids_def)
  have disk: "dk_lockable (wd_disk silenced)" "dk_writable (wd_disk silenced)" "en_path sworn_engine \<noteq> []"
    "\<exists>d. ds_LoadStore (dk_digests (wd_disk silenced)) = Inr d"
    by (simp_all add: silenced_def good_disk_def sworn_engine_def test_engine_def ds_load_save empty_dstore_def)
  have c: "findByID (loadClaims silenced) (cl_ID sworn) = Some (sworn\<lparr>cl_Comments := []\<rparr>)" by code_simp
  from disk(4) reaudit_clears_comment_drift [OF run ok disk(1,2) _ disk(3)] c obtain c' d where
    "cl_ID c' = cl_ID sworn" "cl_Comments c' = []" "ds_LoadStore (dk_digests (wd_disk w')) = Inr d"
    "ds_Digest d (cl_ID sworn) = Some (CommentsDigest tail_hash c')" by (auto simp: sworn_engine_def)
  then have "disk_digest (wd_disk w') (cl_ID sworn) = Some (CommentsDigest tail_hash (sworn\<lparr>cl_Comments := []\<rparr>))"
    by (simp add: disk_digest_def CommentsDigest_def comments_preimage_def)
  with run show "\<exists>data w'. reaudit_command sworn_engine ''t'' True (\<lambda>_. True) True ''r'' (cl_ID sworn) silenced = (Inr data, w') \<and>
      disk_digest (wd_disk w') (cl_ID sworn) = Some (CommentsDigest tail_hash (sworn\<lparr>cl_Comments := []\<rparr>))" by blast
qed

end
