(* ===== verification/Lifecycle.thy ===== *)
theory Lifecycle
  imports Histories Commands
begin

text \<open>
  The life of a project under its commands: a step relation over the world whose steps are the runs of
  \<^verbatim>\<open>claim lock\<close>, \<^verbatim>\<open>claim unlock\<close>, \<^verbatim>\<open>claim flag\<close>, \<^verbatim>\<open>claim reaudit\<close>, the comment operations and the
  writing of drafts, in any order, refused or not. A run whose report names a file that could not be
  written is no step: the audit names what such a run leaves. The invariant is a project that is
  covered by the ledger and in order; the approvals on record form the abstract state.
\<close>

section \<open>The digests of a project in order\<close>

definition digests_open :: "disk \<Rightarrow> bool" where
  "digests_open dk \<longleftrightarrow> (\<exists>d. ds_LoadStore (dk_digests dk) = Inr d \<and> ds_fileExists d)"

definition digest_ok :: "(string \<Rightarrow> string) \<Rightarrow> disk \<Rightarrow> claim \<Rightarrow> bool" where
  "digest_ok sha dk c \<longleftrightarrow>
     (case disk_digest dk (cl_ID c) of None \<Rightarrow> cl_Comments c = [] | Some x \<Rightarrow> x = CommentsDigest sha c)"

text \<open>A change of the disk that loses no digest of these claims and records none but their own.\<close>

definition digests_kept :: "(string \<Rightarrow> string) \<Rightarrow> claim set \<Rightarrow> disk \<Rightarrow> disk \<Rightarrow> bool" where
  "digests_kept sha cs dk dk' \<longleftrightarrow>
     (digests_open dk \<longrightarrow> digests_open dk' \<and>
       (\<forall>c \<in> cs. disk_digest dk' (cl_ID c) = disk_digest dk (cl_ID c) \<or>
          disk_digest dk' (cl_ID c) = Some (CommentsDigest sha c)))"

lemma kept_refl [simp]: "digests_kept sha cs dk dk"
  by (simp add: digests_kept_def)

lemma kept_trans: "digests_kept sha cs dk dk1 \<Longrightarrow> digests_kept sha cs dk1 dk2 \<Longrightarrow> digests_kept sha cs dk dk2"
  unfolding digests_kept_def by metis

lemma kept_digest_ok: "digests_kept sha cs dk dk' \<Longrightarrow> digests_open dk \<Longrightarrow> c \<in> cs \<Longrightarrow> digest_ok sha dk c \<Longrightarrow> digest_ok sha dk' c"
  unfolding digests_kept_def digest_ok_def by (fastforce split: option.splits)

lemma kept_cong: "dk_digests dk1 = dk_digests dk2 \<Longrightarrow> digests_kept sha cs dk dk1 = digests_kept sha cs dk dk2"
  by (simp add: digests_kept_def digests_open_def disk_digest_def)

lemma digests_saved:
  assumes "ds_Version d = StoreSchemaVersion"
  shows "digests_open (dk\<lparr>dk_digests := Bytes (Some (ds_Save d))\<rparr>)"
    "disk_digest (dk\<lparr>dk_digests := Bytes (Some (ds_Save d))\<rparr>) i = ds_Digest d i"
  using assms by (simp_all add: digests_open_def disk_digest_saved ds_load_save)

lemma CommentsDigest_cong:
  "cl_ID c' = cl_ID c \<Longrightarrow> cl_Comments c' = cl_Comments c \<Longrightarrow> CommentsDigest sha c' = CommentsDigest sha c"
  by (simp add: CommentsDigest_def comments_preimage_def)

lemma digest_ok_cong: "cl_ID c' = cl_ID c \<Longrightarrow> cl_Comments c' = cl_Comments c \<Longrightarrow> digest_ok sha dk c' = digest_ok sha dk c"
  by (simp add: digest_ok_def CommentsDigest_cong [of c' c] split: option.split)

lemma kept_beside:
  assumes "\<And>x. x \<in> cs \<Longrightarrow> cl_ID x = cl_ID c \<Longrightarrow> cl_Comments x = cl_Comments c"
  shows "digests_kept sha cs dk (recordCommentDigestBeside sha s [c] dk)"
  unfolding digests_kept_def
proof (intro impI)
  assume "digests_open dk"
  then obtain d where d: "ds_LoadStore (dk_digests dk) = Inr d" "ds_fileExists d" by (auto simp: digests_open_def)
  have ver: "ds_Version (ds_Record sha c d) = StoreSchemaVersion"
    using LoadStore_version [OF d(1)] by (simp add: ds_Record_def)
  have "digests_open dk" using d by (auto simp: digests_open_def)
  with d(1) assms show "digests_open (recordCommentDigestBeside sha s [c] dk) \<and>
      (\<forall>x \<in> cs. disk_digest (recordCommentDigestBeside sha s [c] dk) (cl_ID x) = disk_digest dk (cl_ID x) \<or>
         disk_digest (recordCommentDigestBeside sha s [c] dk) (cl_ID x) = Some (CommentsDigest sha x))"
    by (auto simp: recordCommentDigestBeside_def digests_saved [OF ver] disk_digest_def [of dk]
        intro!: CommentsDigest_cong [symmetric])
qed

lemma kept_sweep:
  assumes "distinct (known_ids claims)" "SweepCommentDigests sha s dk claims covered = (adopted, forgotten, dk')"
  shows "digests_kept sha (set claims) dk dk'"
  unfolding digests_kept_def
proof (intro impI)
  assume "digests_open dk"
  then obtain d where d: "ds_LoadStore (dk_digests dk) = Inr d" "ds_fileExists d" by (auto simp: digests_open_def)
  let ?cs = "adoptableClaims s claims"
  let ?a = "fst (Adopt sha d ?cs)"
  let ?f = "releasableCommentDigests sha claims s ?a"
  let ?d = "fold ds_Forget ?f ?a"
  have ver: "ds_Version ?d = StoreSchemaVersion"
    using LoadStore_version [OF d(1)] by (simp add: Forget_fold_frame Adopt_frame)
  have res: "dk' = dk \<or> dk' = dk\<lparr>dk_digests := Bytes (Some (ds_Save ?d))\<rparr>"
    using assms(2) d by (auto simp: SweepCommentDigests_def Let_def split: prod.splits if_splits)
  have dist: "distinct (map cl_ID ?cs)"
    using assms(1) by (simp add: adoptableClaims_def known_ids_def distinct_map_filter)
  have "ds_Digest ?d (cl_ID c) = ds_Digest d (cl_ID c) \<or> ds_Digest ?d (cl_ID c) = Some (CommentsDigest sha c)"
    if c: "c \<in> set claims" for c
  proof -
    have "cl_ID c \<notin> set ?f" by (rule releasable_absent) (use c in simp)
    then have eq: "ds_Digest ?d (cl_ID c) = ds_Digest ?a (cl_ID c)" by (simp add: Forget_fold)
    show ?thesis
    proof (cases "ds_Digest d (cl_ID c)")
      case (Some x)
      then show ?thesis using eq by (simp add: Adopt_keeps)
    next
      case None
      show ?thesis
      proof (cases "c \<in> set ?cs")
        case True
        with Adopt_new [OF dist True None] eq show ?thesis by simp
      next
        case False
        have "cl_ID c \<notin> cl_ID ` set ?cs"
        proof
          assume "cl_ID c \<in> cl_ID ` set ?cs"
          then obtain x where x: "x \<in> set ?cs" "cl_ID x = cl_ID c" by auto
          then have "x \<in> set claims" by (simp add: adoptableClaims_def)
          with x(2) c assms(1) have "x = c" by (auto simp: known_ids_def distinct_map dest: inj_onD)
          with x(1) False show False by simp
        qed
        with eq show ?thesis by (simp add: Adopt_other)
      qed
    qed
  qed
  then have kept: "\<forall>c \<in> set claims. ds_Digest ?d (cl_ID c) = ds_Digest d (cl_ID c) \<or>
      ds_Digest ?d (cl_ID c) = Some (CommentsDigest sha c)" by blast
  have before: "disk_digest dk i = ds_Digest d i" for i by (simp add: disk_digest_def d(1))
  from res show "digests_open dk' \<and> (\<forall>c \<in> set claims. disk_digest dk' (cl_ID c) = disk_digest dk (cl_ID c) \<or>
      disk_digest dk' (cl_ID c) = Some (CommentsDigest sha c))"
  proof
    assume "dk' = dk"
    with \<open>digests_open dk\<close> show ?thesis by simp
  next
    assume dk': "dk' = dk\<lparr>dk_digests := Bytes (Some (ds_Save ?d))\<rparr>"
    show ?thesis unfolding dk' digests_saved [OF ver] before using kept digests_saved(1) [OF ver] by blast
  qed
qed

section \<open>The store of a project in order\<close>

definition ready :: "string \<Rightarrow> store \<Rightarrow> bool" where
  "ready p s \<longleftrightarrow> st_path s = p \<and> LedgerCovered s \<and> ledgerSchemaVersion \<le> st_Version s \<and> writable_store s \<and>
     gm_wf (st_Ledger s)"

definition on_disk :: "string \<Rightarrow> store \<Rightarrow> disk \<Rightarrow> bool" where
  "on_disk p s dk \<longleftrightarrow> (\<forall>now. LoadStore now (dk_store dk) p = Inr s)"

text \<open>
  The ledger and the claims agree: the two clauses of the audit on the ledger, and no trace of a lock
  without a record.
\<close>

definition agrees :: "(string \<Rightarrow> string) \<Rightarrow> store \<Rightarrow> claim set \<Rightarrow> bool" where
  "agrees sha s cs \<longleftrightarrow> (\<forall>c \<in> cs. claim_in_order sha s c) \<and>
     (\<forall>i r. ledgerRecordFor s i = Some r \<longrightarrow> \<not> Released r \<longrightarrow> i \<in> cl_ID ` cs) \<and>
     (\<forall>i. engineLocked s i \<longrightarrow> ledgerRecordFor s i \<noteq> None)"

definition project_ok :: "engine \<Rightarrow> world \<Rightarrow> bool" where
  "project_ok E w \<longleftrightarrow> world_ok w \<and> digests_open (wd_disk w) \<and>
     (\<forall>c \<in> set (loadClaims w). digest_ok (en_sha E) (wd_disk w) c) \<and>
     (\<exists>s. on_disk (en_path E) s (wd_disk w) \<and> ready (en_path E) s \<and> agrees (en_sha E) s (set (loadClaims w)))"

lemma claim_in_order_cong:
  "st_Record s i = st_Record s' i \<Longrightarrow> engineLocked s i = engineLocked s' i \<Longrightarrow> cl_ID c = i \<Longrightarrow>
   claim_in_order sha s c = claim_in_order sha s' c"
  by (simp add: claim_in_order_def ledgerRecordFor_def split: option.split)

text \<open>A store read back has the records it was saved with, the approved content as JSON tells it.\<close>

lemma reloaded_record [simp]:
  "ledgerRecordFor (reloaded s) i = map_option (record_via json_claim) (ledgerRecordFor s i)"
  "engineLocked (reloaded s) = engineLocked s" "Released (record_via f r) = Released r"
  by (auto simp: ledgerRecordFor_def st_Record_def engineLocked_def reloaded_def store_via_def Released_def fun_eq_iff
      split: option.split)

lemma agrees_reloaded: "agrees sha (reloaded s) cs = agrees sha s cs"
proof -
  have "claim_in_order sha (reloaded s) c = claim_in_order sha s c" for c
    by (simp add: claim_in_order_def split: option.split)
  then show ?thesis by (auto simp: agrees_def)
qed

lemma ready_states: "ready p s \<Longrightarrow> \<not> PreLedger s \<and> \<not> LedgerDowngraded s b \<and> LedgerEstablished s b \<and> st_fileExists s"
  by (auto simp: ready_def LedgerCovered_def PreLedger_def LedgerDowngraded_def LedgerEstablished_def)

lemma saved_store:
  assumes "Save s dk = (True, dk')" "ready p s"
  shows "on_disk p (reloaded s) dk'" "ready p (reloaded s)" "dk_digests dk' = dk_digests dk"
proof -
  have "dk_store dk' = Bytes (Some (marshal s))" using assms(1) by (rule Save_stored)
  with assms(2) decode_marshal [of s] show "on_disk p (reloaded s) dk'"
    by (simp add: on_disk_def LoadStore_def ready_def)
  show "ready p (reloaded s)"
    using assms(2) by (auto simp: ready_def reloaded_def store_via_def LedgerCovered_def writable_store_def)
  show "dk_digests dk' = dk_digests dk"
    using assms ready_states [OF assms(2)] by (auto simp: Save_def Let_def split: if_splits)
qed

lemma Save_failed: "Save s dk = (False, dk') \<Longrightarrow> dk' = dk"
  by (auto simp: Save_def Let_def split: if_splits)

lemma refresh_loop_frame:
  "ready p (refresh_loop sha i claims deps s) = ready p s \<and>
   (j \<noteq> i \<longrightarrow> gm_get (st_Hashes (refresh_loop sha i claims deps s)) j = gm_get (st_Hashes s) j) \<and>
   st_LockedAt (refresh_loop sha i claims deps s) = st_LockedAt s"
proof (induction deps arbitrary: s)
  case (Cons dep deps)
  have "ready p (recordReceipt sha i d (recordBaseline i dep h s)) = ready p s \<and>
      (j \<noteq> i \<longrightarrow> gm_get (st_Hashes (recordReceipt sha i d (recordBaseline i dep h s))) j = gm_get (st_Hashes s) j) \<and>
      st_LockedAt (recordReceipt sha i d (recordBaseline i dep h s)) = st_LockedAt s" for d h
    by (simp add: ready_def LedgerCovered_def writable_store_def recordReceipt_def put_receipt_def recordBaseline_def Let_def)
  with Cons.IH show ?case by (auto split: option.split)
qed simp

lemma RefreshBaseline_frame:
  "ready p (RefreshBaseline sha now c claims s) = ready p s"
  "st_Record (RefreshBaseline sha now c claims s) = st_Record s"
  "j \<noteq> cl_ID c \<Longrightarrow> engineLocked (RefreshBaseline sha now c claims s) j = engineLocked s j"
proof -
  have st: "ready p (st_LockedAt_put i t s) = ready p s" for i t s
    by (simp add: ready_def LedgerCovered_def writable_store_def st_LockedAt_put_def)
  show "ready p (RefreshBaseline sha now c claims s) = ready p s"
    using refresh_loop_frame by (simp add: RefreshBaseline_def st)
  show "st_Record (RefreshBaseline sha now c claims s) = st_Record s" by simp
  show "engineLocked (RefreshBaseline sha now c claims s) j = engineLocked s j" if "j \<noteq> cl_ID c"
    using that refresh_loop_frame [of _ sha "cl_ID c" claims _ s j]
    by (simp add: RefreshBaseline_def engineLocked_def st_LockedAt_put_def)
qed

lemma putRecord_frame:
  "ready p s \<Longrightarrow> ready p (putRecord i r s)" "engineLocked (putRecord i r s) = engineLocked s"
  by (auto simp: ready_def LedgerCovered_def writable_store_def putRecord_def engineLocked_def fun_eq_iff)

text \<open>One claim of a project replaced, with the record of its id.\<close>

lemma agrees_replace:
  assumes "agrees sha s cs" "c \<in> cs" "cl_ID c' = cl_ID c" "\<forall>x \<in> cs. cl_ID x = cl_ID c \<longrightarrow> x = c"
    and "claim_in_order sha s' c'"
    and "\<And>i. i \<noteq> cl_ID c \<Longrightarrow> st_Record s' i = st_Record s i" "\<And>i. i \<noteq> cl_ID c \<Longrightarrow> engineLocked s' i = engineLocked s i"
  shows "agrees sha s' (insert c' (cs - {c}))"
proof -
  have "claim_in_order sha s' x" if "x \<in> cs - {c}" for x
  proof -
    from that assms(4) have "cl_ID x \<noteq> cl_ID c" by auto
    with assms(6,7) have "claim_in_order sha s' x = claim_in_order sha s x" by (intro claim_in_order_cong) auto
    with assms(1) that show ?thesis by (simp add: agrees_def)
  qed
  moreover have "i \<in> cl_ID ` insert c' (cs - {c})" if "ledgerRecordFor s' i = Some r" "\<not> Released r" for i r
  proof (cases "i = cl_ID c")
    case True
    with assms(3) show ?thesis by simp
  next
    case False
    with that assms(6) have "ledgerRecordFor s i = Some r" by (simp add: ledgerRecordFor_def)
    with that(2) assms(1) have "i \<in> cl_ID ` cs" unfolding agrees_def by blast
    with False show ?thesis by auto
  qed
  moreover have "ledgerRecordFor s' i \<noteq> None" if "engineLocked s' i" for i
  proof (cases "i = cl_ID c")
    case True
    with assms(3,5) that show ?thesis by (auto simp: claim_in_order_def split: option.splits)
  next
    case False
    with that assms(6,7) assms(1) show ?thesis unfolding agrees_def ledgerRecordFor_def by metis
  qed
  ultimately show ?thesis using assms(5) by (auto simp: agrees_def)
qed

section \<open>Opening the store\<close>

lemma covered_prepare:
  assumes "ready p s"
  shows "PrepareStore sha s dk claims =
    (False, s\<lparr>st_commentDigestsAdopted := fst (SweepCommentDigests sha s dk claims True)\<rparr>,
     snd (snd (SweepCommentDigests sha s dk claims True)))"
proof -
  have "MigrateLegacyStore sha s dk claims = (False, s)"
    using assms by (auto simp: MigrateLegacyStore_def ready_def LedgerCovered_def schema_defs)
  with ready_states [OF assms] show ?thesis
    by (simp add: PrepareStore_def split: prod.split)
qed

lemma sweep_store: "SweepCommentDigests sha s dk claims covered = (a, f, dk') \<Longrightarrow> dk_store dk' = dk_store dk"
  by (auto simp: SweepCommentDigests_def Let_def split: sum.splits prod.splits if_splits)

lemma open_store_ok:
  assumes ok: "project_ok E w" and s: "on_disk (en_path E) s (wd_disk w)" "ready (en_path E) s"
    and run: "open_store E now gate w = (res, w1)"
  shows "w1 = w\<lparr>wd_disk := wd_disk w1\<rparr>" "dk_store (wd_disk w1) = dk_store (wd_disk w)"
    "digests_kept (en_sha E) (set (loadClaims w)) (wd_disk w) (wd_disk w1)"
    "res = Inl RoofNotLocked \<or> (\<exists>a b. res = Inr (a, s\<lparr>st_commentDigestsAdopted := b\<rparr>))"
proof -
  obtain a f dk where sweep: "SweepCommentDigests (en_sha E) s (wd_disk w) (loadClaims w) True = (a, f, dk)"
    by (cases "SweepCommentDigests (en_sha E) s (wd_disk w) (loadClaims w) True")
  have load: "LoadStore now (dk_store (wd_disk w)) (en_path E) = Inr s" using s(1) by (simp add: on_disk_def)
  have ids: "distinct (known_ids (loadClaims w))" using ok world_ok_ids by (simp add: project_ok_def)
  have cases: "(res = Inl RoofNotLocked \<and> w1 = w) \<or>
     (\<exists>x. res = Inr (x, s\<lparr>st_commentDigestsAdopted := a\<rparr>) \<and> w1 = w\<lparr>wd_disk := dk\<rparr>)"
    using run covered_prepare [OF s(2), of "en_sha E" "wd_disk w" "loadClaims w"] load sweep
    by (auto simp: open_store_def prepareStore_def Let_def split: if_splits)
  then show "w1 = w\<lparr>wd_disk := wd_disk w1\<rparr>" "dk_store (wd_disk w1) = dk_store (wd_disk w)"
    "res = Inl RoofNotLocked \<or> (\<exists>a b. res = Inr (a, s\<lparr>st_commentDigestsAdopted := b\<rparr>))"
    using sweep_store [OF sweep] by auto
  show "digests_kept (en_sha E) (set (loadClaims w)) (wd_disk w) (wd_disk w1)"
    using cases kept_sweep [OF ids sweep] by auto
qed

lemma ready_adopted [simp]: "ready p (s\<lparr>st_commentDigestsAdopted := a\<rparr>) = ready p s"
  "st_Record (s\<lparr>st_commentDigestsAdopted := a\<rparr>) = st_Record s"
  "engineLocked (s\<lparr>st_commentDigestsAdopted := a\<rparr>) = engineLocked s"
  by (auto simp: ready_def LedgerCovered_def writable_store_def st_Record_def engineLocked_def fun_eq_iff)

lemma on_disk_cong: "dk_store dk' = dk_store dk \<Longrightarrow> on_disk p s dk' = on_disk p s dk"
  by (simp add: on_disk_def)

text \<open>A world whose claim files and lock store are as they were.\<close>

lemma project_ok_same:
  assumes "project_ok E w" "wd_files w' = wd_files w" "dk_store (wd_disk w') = dk_store (wd_disk w)"
    "digests_kept (en_sha E) (set (loadClaims w)) (wd_disk w) (wd_disk w')"
  shows "project_ok E w'"
proof -
  have "loadClaims w' = loadClaims w" "world_ok w' = world_ok w"
    using assms(2) by (simp_all add: loadClaims_def world_ok_def)
  with assms kept_digest_ok [OF assms(4)] on_disk_cong [OF assms(3)] show ?thesis
    unfolding project_ok_def by (metis digests_kept_def)
qed

text \<open>A world with one claim rewritten, a store to match, and that store on disk, as it is or read back.\<close>

lemma project_ok_rewrite:
  assumes ok: "project_ok E w" and c: "c \<in> set (loadClaims w)" "cl_ID c' = cl_ID c" "cl_SourcePath c' = cl_SourcePath c"
    and files: "wd_files w' = gm_put (cl_SourcePath c) c' (wd_files w)"
    and kept: "digests_kept (en_sha E) (set (loadClaims w)) (wd_disk w) (wd_disk w')"
    and own: "digest_ok (en_sha E) (wd_disk w') c'"
    and s: "on_disk (en_path E) s (wd_disk w)" "agrees (en_sha E) s (set (loadClaims w))"
    and s': "on_disk (en_path E) s'' (wd_disk w')" "ready (en_path E) s''" "s'' = s' \<or> s'' = reloaded s'"
    and order: "claim_in_order (en_sha E) s' c'"
    and frame: "\<And>i. i \<noteq> cl_ID c \<Longrightarrow> st_Record s' i = st_Record s i"
      "\<And>i. i \<noteq> cl_ID c \<Longrightarrow> engineLocked s' i = engineLocked s i"
  shows "project_ok E w'"
proof -
  have w: "world_ok w" and dig: "digests_open (wd_disk w)"
    and digs: "\<And>x. x \<in> set (loadClaims w) \<Longrightarrow> digest_ok (en_sha E) (wd_disk w) x"
    using ok by (auto simp: project_ok_def)
  note claims = rewrite_file [OF w c files]
  have "\<forall>x \<in> set (loadClaims w). cl_ID x = cl_ID c \<longrightarrow> x = c" using same_id [OF w _ c(1)] by blast
  from agrees_replace [OF s(2) c(1,2) this order frame]
  have "agrees (en_sha E) s'' (set (loadClaims w'))" using s'(3) by (auto simp: claims(1) agrees_reloaded)
  moreover have "\<forall>x \<in> set (loadClaims w'). digest_ok (en_sha E) (wd_disk w') x"
    using kept_digest_ok [OF kept dig] digs own by (auto simp: claims(1))
  moreover have "digests_open (wd_disk w')" using kept dig by (auto simp: digests_kept_def)
  ultimately show ?thesis using claims(2) s' by (auto simp: project_ok_def)
qed

section \<open>The cases of a command\<close>

lemma unlock_cases:
  assumes ok: "project_ok E w" and s: "on_disk (en_path E) s (wd_disk w)" "ready (en_path E) s"
    and run: "unlock_command E now reason i w = (res, w')"
  obtains (same) e where "res = Inl e" "wd_files w' = wd_files w" "dk_store (wd_disk w') = dk_store (wd_disk w)"
      "digests_kept (en_sha E) (set (loadClaims w)) (wd_disk w) (wd_disk w')"
    | (half) "res = Inl StoreUnwritten"
    | (unlocked) d c a dk where "res = Inr d" "c \<in> set (loadClaims w)" "cl_ID c = i" "requireReason reason"
      "wd_files w' = gm_put (cl_SourcePath c) (c\<lparr>cl_Status := StatusDraft, cl_ReviewPending := False\<rparr>) (wd_files w)"
      "digests_kept (en_sha E) (set (loadClaims w)) (wd_disk w) dk"
      "Save (snd (ReleaseApproval now i \<lparr>ap_Actor = en_actor E, ap_Reason = reason\<rparr> (s\<lparr>st_commentDigestsAdopted := a\<rparr>))) dk =
         (True, wd_disk w')"
proof (cases "requireReason reason")
  case False
  with run show ?thesis by (intro same) (auto simp: unlock_command_def)
next
  case reason: True
  show ?thesis
  proof (cases "findByID (loadClaims w) i")
    case None
    with run reason show ?thesis by (intro same) (auto simp: unlock_command_def)
  next
    case (Some c)
    note c = findByID_in [OF Some]
    show ?thesis
    proof (cases "CaptureClaimFileToken (cl_SourcePath c) w")
      case None
      with run reason Some show ?thesis by (intro same) (auto simp: unlock_command_def)
    next
      case token: (Some token)
      obtain r w1 where open_run: "open_store E now (\<lambda>_. True) w = (r, w1)" by (cases "open_store E now (\<lambda>_. True) w")
      note opened = open_store_ok [OF ok s open_run]
      have files1: "wd_files w1 = wd_files w" by (subst opened(1)) simp
      show ?thesis
      proof (cases r)
        case (Inl e)
        with run reason Some token open_run files1 opened(2,3) show ?thesis
          by (intro same [of e]) (auto simp: unlock_command_def)
      next
        case (Inr x)
        then obtain a b where r: "r = Inr (a, s\<lparr>st_commentDigestsAdopted := b\<rparr>)" using opened(4) by auto
        let ?s = "s\<lparr>st_commentDigestsAdopted := b\<rparr>"
        let ?c = "c\<lparr>cl_Status := StatusDraft, cl_ReviewPending := False\<rparr>"
        let ?s1 = "snd (ReleaseApproval now i \<lparr>ap_Actor = en_actor E, ap_Reason = reason\<rparr> ?s)"
        obtain f w2 where flag: "clear_flag i w1 = (f, w2)" by (cases "clear_flag i w1")
        note frame2 = clear_flag_frame [OF flag]
        show ?thesis
        proof (cases f)
          case None
          with run reason Some token open_run r flag frame2 files1 opened(2,3) show ?thesis
            by (intro same [of FlagsUnwritten]) (auto simp: unlock_command_def)
        next
          case f: (Some fl)
          obtain e w3 where save: "SaveClaimIfUnchanged (en_os E) (en_storable E) ?c token w2 = (e, w3)"
            by (cases "SaveClaimIfUnchanged (en_os E) (en_storable E) ?c token w2")
          note frame3 = save_claim_frame [OF save]
          have do_unlock: "Unlock now c ap ?s = (?c, snd (ReleaseApproval now i ap ?s))" for ap
            using c by (simp add: Unlock_def)
          show ?thesis
          proof (cases e)
            case (Some err)
            with run reason \<open>findByID (loadClaims w) i = Some c\<close> token open_run r flag f save do_unlock frame2 frame3 files1 opened(2,3)
            show ?thesis by (intro same [of "ClaimUnsaved err"]) (auto simp: unlock_command_def split: prod.splits)
          next
            case None
            obtain k w4 where store: "write_store ?s1 w3 = (k, w4)" by (cases "write_store ?s1 w3")
            note frame4 = write_store_frame [OF store]
            show ?thesis
            proof (cases k)
              case False
              with run reason \<open>findByID (loadClaims w) i = Some c\<close> token open_run r flag f save do_unlock None store
              show ?thesis by (intro half) (auto simp: unlock_command_def split: prod.splits)
            next
              case True
              with run reason \<open>findByID (loadClaims w) i = Some c\<close> token open_run r flag f save do_unlock None store
              have "w' = w4" "\<exists>d. res = Inr d" by (auto simp: unlock_command_def split: prod.splits)
              with c reason None True frame2 frame3 frame4 files1 opened(3)
              show ?thesis by (elim exE, intro unlocked [of _ c "wd_disk w3" b]) simp_all
            qed
          qed
        qed
      qed
    qed
  qed
qed

lemma flag_cases:
  assumes run: "flag_command E now carrier says does reason i w = (res, w')"
  obtains (same) "wd_files w' = wd_files w" "wd_disk w' = wd_disk w"
    | (flagged) c where "c \<in> set (loadClaims w)" "cl_ID c = i" "cl_Status c = StatusLocked"
      "wd_files w' = gm_put (cl_SourcePath c) (c\<lparr>cl_ReviewPending := True\<rparr>) (wd_files w)" "wd_disk w' = wd_disk w"
proof (cases "findByID (loadClaims w) i")
  case None
  with run show ?thesis by (intro same) (auto simp: flag_command_def split: if_splits)
next
  case (Some c)
  note c = findByID_in [OF Some]
  show ?thesis
  proof (cases "\<exists>token fs. CaptureClaimFileToken (cl_SourcePath c) w = Some token \<and> LoadFlagStore (wd_flags w) = Inr fs \<and>
      cl_Status c = StatusLocked")
    case False
    with run Some show ?thesis
      by (intro same) (auto simp: flag_command_def split: if_splits option.splits sum.splits)
  next
    case True
    then obtain token fs where in_hand: "CaptureClaimFileToken (cl_SourcePath c) w = Some token"
      "LoadFlagStore (wd_flags w) = Inr fs" "cl_Status c = StatusLocked" by blast
    let ?fs = "fs\<lparr>fs_Flags := gm_put i \<lparr>pf_ClaimSays = says, pf_NowDoes = does, pf_Reason = reason, pf_FlaggedAt = now\<rparr> (fs_Flags fs)\<rparr>"
    let ?c = "c\<lparr>cl_ReviewPending := True\<rparr>"
    obtain ok w1 where flags: "write_flags ?fs w = (ok, w1)" by (cases "write_flags ?fs w")
    then have frame1: "wd_files w1 = wd_files w" "wd_disk w1 = wd_disk w" using write_flags_frame [of ?fs w] by simp_all
    obtain e w2 where save: "SaveClaimIfUnchanged (en_os E) (en_storable E) ?c token w1 = (e, w2)"
      by (cases "SaveClaimIfUnchanged (en_os E) (en_storable E) ?c token w1")
    note frame2 = save_claim_frame [OF save]
    have "w' = w \<or> w' = w1 \<or> w' = w2"
      using run Some in_hand flags save
      by (auto simp: flag_command_def Let_def split: if_splits prod.splits bool.splits option.splits)
    with c in_hand(3) frame1 frame2 show ?thesis
      by (cases "w' = w2 \<and> e = None") (auto intro: same flagged)
  qed
qed

lemma cross_covered: "ready p s \<Longrightarrow> CrossPreLedger s dk claims = (None, s, dk)"
  using ready_states by (simp add: CrossPreLedger_def)

text \<open>A confirmed re-audit on a store that is ready: refused, half written, or applied.\<close>

lemma confirm_cases:
  assumes s: "ready p s"
    and own: "\<forall>x \<in> cs. cl_ID x = cl_ID c \<longrightarrow> cl_Comments x = cl_Comments c"
    and run: "confirm_reaudit E now reason c token d flagged s fs w = (res, w')"
  obtains (same) e where "res = Inl e" "e \<noteq> FlagsUnwritten" "wd_files w' = wd_files w" "dk_store (wd_disk w') = dk_store (wd_disk w)"
      "digests_kept (en_sha E) cs (wd_disk w) (wd_disk w')"
    | (half) "res = Inl StoreUnwritten"
    | (applied) a b dk s2 where "(\<exists>d. res = Inr d) \<or> res = Inl FlagsUnwritten" "Apply (en_entity E) c d = Inr a"
      "fst (snd (standingLedgerRecord (en_sha E) (Some s) c)) \<longrightarrow> snd (snd (standingLedgerRecord (en_sha E) (Some s) c))"
      "wd_files w' = gm_put (cl_SourcePath c) (a\<lparr>cl_ReviewPending := b\<rparr>) (wd_files w)"
      "s2 = putRecord (cl_ID c) (approval_record (en_sha E) now a \<lparr>ap_Actor = en_actor E, ap_Reason = reason\<rparr>)
         (RefreshBaseline (en_sha E) now a (loadClaims w) s)"
      "dk = recordCommentDigestBeside (en_sha E) s2 [a] (wd_disk w)"
      "digests_kept (en_sha E) cs (wd_disk w) dk" "Save s2 dk = (True, wd_disk w')"
proof -
  obtain rc stands agr where std: "standingLedgerRecord (en_sha E) (Some s) c = (rc, stands, agr)"
    by (cases "standingLedgerRecord (en_sha E) (Some s) c") auto
  note cross = cross_covered [OF s, of "wd_disk w" "loadClaims w"]
  show ?thesis
  proof (cases "(stands \<longrightarrow> agr) \<and> (\<exists>a. Apply (en_entity E) c d = Inr a)")
    case False
    with run std cross have "w' = w \<and> (\<exists>e. res = Inl e \<and> e \<noteq> FlagsUnwritten)"
      by (cases "Apply (en_entity E) c d") (auto simp: confirm_reaudit_def Let_def split: if_splits)
    then show ?thesis by (auto intro: same)
  next
    case True
    then obtain a where a: "stands \<longrightarrow> agr" "Apply (en_entity E) c d = Inr a" by blast
    note fr = Apply_frame [OF a(2)]
    let ?ap = "\<lparr>ap_Actor = en_actor E, ap_Reason = reason\<rparr>"
    define s2 where "s2 = putRecord (cl_ID c) (approval_record (en_sha E) now a ?ap) (RefreshBaseline (en_sha E) now a (loadClaims w) s)"
    define dk where "dk = recordCommentDigestBeside (en_sha E) s2 [a] (wd_disk w)"
    define fs1 where "fs1 = (if flagged then fs\<lparr>fs_Flags := gm_del (cl_ID c) (fs_Flags fs)\<rparr> else fs)"
    define b where "b = Recompute (en_sha E) a (loadClaims w) (Some s2) (Some fs1)"
    have rec: "RecordApproval (en_sha E) now a ?ap (RefreshBaseline (en_sha E) now a (loadClaims w) s, wd_disk w) = (s2, dk)"
      by (simp add: RecordApproval_def Let_def fr s2_def dk_def)
    have kept: "digests_kept (en_sha E) cs (wd_disk w) dk" unfolding dk_def by (rule kept_beside) (simp add: own fr)
    have store0: "dk_store dk = dk_store (wd_disk w)"
      by (simp add: dk_def recordCommentDigestBeside_def split: sum.split)
    obtain e w1 where save: "SaveClaimIfUnchanged (en_os E) (en_storable E) (a\<lparr>cl_ReviewPending := b\<rparr>) token (w\<lparr>wd_disk := dk\<rparr>) = (e, w1)"
      by (cases "SaveClaimIfUnchanged (en_os E) (en_storable E) (a\<lparr>cl_ReviewPending := b\<rparr>) token (w\<lparr>wd_disk := dk\<rparr>)")
    note fr1 = save_claim_frame [OF save]
    obtain k w2 where store: "write_store s2 w1 = (k, w2)" by (cases "write_store s2 w1")
    note fr2 = write_store_frame [OF store]
    obtain k3 w3 where flags: "write_flags fs1 w2 = (k3, w3)" by (cases "write_flags fs1 w2")
    then have fr3: "wd_files w3 = wd_files w2" "wd_disk w3 = wd_disk w2" using write_flags_frame [of fs1 w2] by auto
    have "confirm_reaudit E now reason c token d flagged s fs w =
        (if stands \<and> \<not> agr then (Inl IntegrityFailed, w)
         else (case SaveClaimIfUnchanged (en_os E) (en_storable E) (a\<lparr>cl_ReviewPending := b\<rparr>) token (w\<lparr>wd_disk := dk\<rparr>) of
             (Some x, w1) \<Rightarrow> (Inl (ClaimUnsaved x), w1)
           | (None, w1) \<Rightarrow>
              (case write_store s2 w1 of
                 (False, w2) \<Rightarrow> (Inl StoreUnwritten, w2)
               | (True, w2) \<Rightarrow>
                   if \<not> flagged then (Inr (a\<lparr>cl_ReviewPending := b\<rparr>), w2)
                   else (case write_flags fs1 w2 of
                           (False, w3) \<Rightarrow> (Inl FlagsUnwritten, w3)
                         | (True, w3) \<Rightarrow> (Inr (a\<lparr>cl_ReviewPending := b\<rparr>), w3)))))"
      by (simp only: confirm_reaudit_def Let_def std cross a(2) rec prod.case option.case sum.case b_def fs1_def)
    then have run': "(res, w') = (case e of Some x \<Rightarrow> (Inl (ClaimUnsaved x), w1)
        | None \<Rightarrow> if \<not> k then (Inl StoreUnwritten, w2)
            else if \<not> flagged then (Inr (a\<lparr>cl_ReviewPending := b\<rparr>), w2)
            else if k3 then (Inr (a\<lparr>cl_ReviewPending := b\<rparr>), w3) else (Inl FlagsUnwritten, w3))"
      using run a(1) unfolding save store flags prod.case by (cases e; cases k; cases k3) (simp_all add: store flags)
    show ?thesis
    proof (cases e)
      case (Some x)
      with run' fr1 kept store0 show ?thesis by (intro same [of "ClaimUnsaved x"]) auto
    next
      case None
      show ?thesis
      proof (cases k)
        case False
        with run' None show ?thesis by (intro half) simp
      next
        case True
        with run' None fr1 fr2 fr3 have "wd_files w' = gm_put (cl_SourcePath c) (a\<lparr>cl_ReviewPending := b\<rparr>) (wd_files w)"
          "Save s2 dk = (True, wd_disk w')" "(\<exists>d. res = Inr d) \<or> res = Inl FlagsUnwritten" by (auto simp: fr split: if_splits)
        with a std kept s2_def dk_def show ?thesis by (intro applied [of a b s2 dk]) auto
      qed
    qed
  qed
qed

lemma reaudit_cases:
  assumes ok: "project_ok E w" and s: "on_disk (en_path E) s (wd_disk w)" "ready (en_path E) s"
    and run: "reaudit_command E now carrier roof confirm reason i w = (res, w')"
  obtains (same) "\<not> confirm \<or> (\<exists>e. res = Inl e \<and> e \<noteq> FlagsUnwritten)" "wd_files w' = wd_files w"
      "dk_store (wd_disk w') = dk_store (wd_disk w)"
      "digests_kept (en_sha E) (set (loadClaims w)) (wd_disk w) (wd_disk w')"
    | (half) "res = Inl StoreUnwritten"
    | (applied) c d x y a b dk s2 where "(\<exists>d. res = Inr d) \<or> res = Inl FlagsUnwritten" "c \<in> set (loadClaims w)" "cl_ID c = i" "cl_Status c = StatusLocked"
      "confirm" "requireReason reason" "Apply (en_entity E) c d = Inr a"
      "fst (snd (standingLedgerRecord (en_sha E) (Some s) c)) \<longrightarrow> snd (snd (standingLedgerRecord (en_sha E) (Some s) c))"
      "wd_files w' = gm_put (cl_SourcePath c) (a\<lparr>cl_ReviewPending := b\<rparr>) (wd_files w)"
      "s2 = putRecord i (approval_record (en_sha E) now a \<lparr>ap_Actor = en_actor E, ap_Reason = reason\<rparr>)
         (RefreshBaseline (en_sha E) now a (loadClaims w) (s\<lparr>st_commentDigestsAdopted := x\<rparr>))"
      "digests_kept (en_sha E) (set (loadClaims w)) (wd_disk w) dk"
      "dk = recordCommentDigestBeside (en_sha E) s2 [a] y" "Save s2 dk = (True, wd_disk w')"
proof (cases "findByID (loadClaims w) i")
  case None
  with run show ?thesis by (intro same) (auto simp: reaudit_command_def Let_def)
next
  case (Some c)
  note c = findByID_in [OF Some]
  show ?thesis
  proof (cases "cl_Status c = StatusLocked \<and> cl_ReviewPending c \<and> (confirm \<longrightarrow> requireReason reason \<and> carrier) \<and>
      (\<exists>token. CaptureClaimFileToken (cl_SourcePath c) w = Some token)")
    case False
    with run Some have "w' = w" "\<exists>e. res = Inl e \<and> e \<noteq> FlagsUnwritten"
      by (auto simp: reaudit_command_def Let_def split: if_splits option.splits)
    with kept_refl show ?thesis by (intro that(1)) auto
  next
    case True
    then obtain token where go: "cl_Status c = StatusLocked" "cl_ReviewPending c" "confirm \<longrightarrow> requireReason reason \<and> carrier"
      "CaptureClaimFileToken (cl_SourcePath c) w = Some token" by blast
    let ?gate = "\<lambda>s. confirm \<longrightarrow> roof s"
    obtain r w1 where open_run: "open_store E now ?gate w = (r, w1)" by (cases "open_store E now ?gate w")
    note opened = open_store_ok [OF ok s open_run]
    have files1: "wd_files w1 = wd_files w" by (subst opened(1)) simp
    have claims1: "loadClaims w1 = loadClaims w" by (simp add: loadClaims_def files1)
    have same1: thesis if "w' = w1" "\<not> confirm \<or> (\<exists>e. res = Inl e \<and> e \<noteq> FlagsUnwritten)"
      using that files1 opened(2,3) by (intro same) auto
    show ?thesis
    proof (cases r)
      case (Inl e)
      have "e \<noteq> FlagsUnwritten" using open_run Inl
        by (auto simp: open_store_def Let_def split: if_splits sum.splits prod.splits bool.splits)
      with Inl run Some go open_run have "w' = w1" "\<exists>e. res = Inl e \<and> e \<noteq> FlagsUnwritten"
        by (auto simp: reaudit_command_def Let_def split: if_splits)
      then show ?thesis using same1 by blast
    next
      case (Inr q)
      then obtain ad x where r: "r = Inr (ad, s\<lparr>st_commentDigestsAdopted := x\<rparr>)" using opened(4) by auto
      let ?s = "s\<lparr>st_commentDigestsAdopted := x\<rparr>"
      have std: "standingLedgerRecord (en_sha E) (Some ?s) c = standingLedgerRecord (en_sha E) (Some s) c"
        by (simp add: standingLedgerRecord_def)
      show ?thesis
      proof (cases "confirm \<and> (\<exists>fs d. LoadFlagStore (wd_flags w1) = Inr fs \<and>
          propose_reaudit E c (loadClaims w) ?s fs = Inr d)")
        case False
        with run Some go open_run r have "w' = w1" "\<not> confirm \<or> (\<exists>e. res = Inl e \<and> e \<noteq> FlagsUnwritten)"
          by (auto simp: reaudit_command_def Let_def split: if_splits sum.splits prod.splits)
        then show ?thesis by (rule same1)
      next
        case True
        then obtain fs d where fs: "LoadFlagStore (wd_flags w1) = Inr fs"
          and d: "propose_reaudit E c (loadClaims w) ?s fs = Inr d" and confirm by blast
        let ?flagged = "gm_get (fs_Flags fs) i \<noteq> None"
        obtain out w2 where run2: "confirm_reaudit E now reason c token d ?flagged ?s fs w1 = (out, w2)"
          by (cases "confirm_reaudit E now reason c token d ?flagged ?s fs w1")
        have w': "w' = w1 \<and> (\<exists>e. res = Inl e \<and> e \<noteq> FlagsUnwritten) \<or>
            w' = w2 \<and> (\<forall>e. out = Inl e \<longrightarrow> res = Inl e) \<and> (\<forall>x. out = Inr x \<longrightarrow> (\<exists>y. res = Inr y))"
          using run Some go open_run r fs d run2 \<open>confirm\<close>
          by (auto simp: reaudit_command_def Let_def split: if_splits sum.splits prod.splits)
        show ?thesis
        proof (cases "w' = w1 \<and> (\<exists>e. res = Inl e \<and> e \<noteq> FlagsUnwritten)")
          case True
          then show ?thesis by (intro same1) auto
        next
          case False
          with w' have w2: "w' = w2" "\<forall>e. out = Inl e \<longrightarrow> res = Inl e" "\<forall>x. out = Inr x \<longrightarrow> (\<exists>y. res = Inr y)" by auto
          have ready: "ready (en_path E) ?s" using s(2) by simp
          have own: "\<forall>y \<in> set (loadClaims w). cl_ID y = cl_ID c \<longrightarrow> cl_Comments y = cl_Comments c"
            using ok same_id [of w _ c] c by (auto simp: project_ok_def)
          from ready own run2 show ?thesis
          proof (cases rule: confirm_cases)
            case (same e)
            with w2 files1 opened(2,3) kept_trans show ?thesis by (intro that(1)) auto
          next
            case half
            with w2 show ?thesis by (intro that(2)) simp
          next
            case (applied a b dk s2)
            show ?thesis
              by (rule that(3) [of c d a b s2 x dk "wd_disk w1"])
                (use applied c go \<open>confirm\<close> w2 std files1 claims1 kept_trans [OF opened(3)] in auto)
          qed
        qed
      qed
    qed
  qed
qed

section \<open>The cases of an approval\<close>

lemma put_keys: "gm_get m k \<noteq> None \<Longrightarrow> map fst (gm_put k v m) = map fst m"
  by (induction m) auto

lemma save_keys: "map fst (wd_files (snd (SaveClaimIfUnchanged os storable c want w))) = map fst (wd_files w)"
  by (auto simp: SaveClaimIfUnchanged_def put_keys split: option.split)

lemma write_claims_keys:
  "write_claims os storable fault R tokens cs (written, w) = (ok, written', w') \<Longrightarrow> map fst (wd_files w') = map fst (wd_files w)"
proof (induction cs arbitrary: written w)
  case (Cons c cs)
  show ?case
  proof (cases "cl_ID c \<in> set R \<and> (\<exists>token. gm_get tokens (cl_ID c) = Some token)")
    case False
    with Cons show ?thesis by (auto split: if_splits option.splits)
  next
    case True
    then obtain token where token: "gm_get tokens (cl_ID c) = Some token" by blast
    obtain e w1 where save: "SaveClaimIfUnchanged os storable c token w = (e, w1)"
      by (cases "SaveClaimIfUnchanged os storable c token w")
    with save_keys [of os storable c token w] have "map fst (wd_files w1) = map fst (wd_files w)" by simp
    with Cons True token save show ?thesis by (auto split: if_splits option.splits)
  qed
qed simp

lemma rollback_claims_keys:
  "map fst (wd_files (snd (rollback_claims os storable originals is w))) = map fst (wd_files w)"
proof (induction "is" arbitrary: w)
  case (Cons i "is")
  let ?o = "case gm_get originals i of None \<Rightarrow> zero_claim | Some c \<Rightarrow> c"
  have "map fst (wd_files (snd (SaveClaimIfUnchanged os storable ?o t w))) = map fst (wd_files w)" for t
    by (rule save_keys)
  with Cons show ?case
    by (auto simp: Let_def split: option.split prod.split) (metis snd_conv)+
qed simp

lemma write_set_keys:
  assumes "write_set os storable fault sha call e claims s w = (out, w')"
  shows "map fst (wd_files w') = map fst (wd_files w)"
proof -
  have roll: "map fst (wd_files (snd (rollback os storable ori a b wr v))) = map fst (wd_files v)" for ori a b wr v
    using rollback_claims_keys [of os storable ori wr v]
    by (auto simp: rollback_def Let_def split: prod.split)
  have rollD: "rollback os storable ori a b wr v = (f, v') \<Longrightarrow> map fst (wd_files v') = map fst (wd_files v)" for ori a b wr v f v'
    using roll [of ori a b wr v] by simp
  show ?thesis
    using assms by (auto simp: write_set_def Let_def dest!: rollD write_claims_keys
        split: option.splits if_splits prod.splits bool.splits)
qed

lemma same_files:
  assumes "world_ok w" "map fst (wd_files w') = map fst (wd_files w)" "\<And>p. gm_get (wd_files w') p = gm_get (wd_files w) p"
  shows "wd_files w' = wd_files w"
  using assms by (intro gomap_eqI) (auto simp: world_ok_def)

lemma approve_frame:
  "approve_claims sha now ap R finals cs (s, dk) = (s', dk') \<Longrightarrow> ready p s \<Longrightarrow>
   ready p s' \<and> (\<forall>i. i \<notin> set R \<inter> set (known_ids cs) \<longrightarrow> engineLocked s' i = engineLocked s i) \<and>
   ((\<forall>x \<in> CS. \<forall>c \<in> set cs. cl_ID x = cl_ID c \<longrightarrow> cl_Comments x = cl_Comments c) \<longrightarrow> digests_kept sha CS dk dk')"
proof (induction cs arbitrary: s dk)
  case (Cons c cs)
  show ?case
  proof (cases "cl_ID c \<in> set R")
    case False
    with Cons show ?thesis by (auto simp: known_ids_def)
  next
    case True
    let ?s = "putRecord (cl_ID c) (approval_record sha now c ap) (RefreshBaseline sha now c finals s)"
    let ?dk = "recordCommentDigestBeside sha ?s [c] dk"
    have rec: "approve_claims sha now ap R finals cs (?s, ?dk) = (s', dk')"
      using Cons.prems(1) True by (simp add: RecordApproval_def Let_def)
    have "ready p ?s" using Cons.prems(2) by (simp add: putRecord_frame RefreshBaseline_frame)
    note ih = Cons.IH [OF rec this]
    have "engineLocked ?s i = engineLocked s i" if "i \<noteq> cl_ID c" for i
      using that by (simp add: putRecord_frame RefreshBaseline_frame)
    moreover have "digests_kept sha CS dk ?dk" if "\<forall>x \<in> CS. cl_ID x = cl_ID c \<longrightarrow> cl_Comments x = cl_Comments c"
      using that by (intro kept_beside) blast
    ultimately show ?thesis using ih True kept_trans by (auto simp: known_ids_def)
  qed
qed simp

lemma allowed_known:
  assumes "Allowed (EvaluateSetWithSemanticConflicts registry claims ids cfg st conflicts)" "i \<in> set ids - {[]}"
  shows "\<exists>c \<in> set claims. cl_ID c = i"
proof (cases "byID claims i")
  case None
  then have "\<not> cv_LocalAdmissible (evaluate_candidate claims candidate fs st' ks i)" for candidate fs st' ks
    by (simp add: evaluate_candidate_def)
  with assms show ?thesis unfolding Allowed_def EvaluateSetWithSemanticConflicts_def Let_def list_all_iff by fastforce
next
  case (Some c)
  then show ?thesis using byID_SomeD by blast
qed

lemma run_covered:
  assumes s: "on_disk (lc_Path call) s (wd_disk w)" "ready (lc_Path call) s"
    and run: "runPolicySetLock os storable fault sha call w = (out, w')"
  obtains (refused) "w' = w" "\<forall>e t. out \<noteq> ApprovedSet e t"
    | (written) e where "se_RequestedIDs e = uniqueIDs (lc_IDs call)" "\<forall>i \<in> set (lc_IDs call) - {[]}. \<exists>c \<in> set (loadClaims w). cl_ID c = i"
      "write_set os storable fault sha call e (loadClaims w) s w = (out, w')"
proof -
  let ?e = "EvaluateSetWithSemanticConflicts (lc_Registry call) (loadClaims w) (lc_IDs call) (lc_Config call)
      (Some (s, wd_disk w)) (lc_Conflicts call)"
  have load: "LoadStore (lc_Now call) (dk_store (wd_disk w)) (lc_Path call) = Inr s" using s(1) by (simp add: on_disk_def)
  have "(w' = w \<and> (\<forall>e t. out \<noteq> ApprovedSet e t)) \<or>
      (Allowed ?e \<and> write_set os storable fault sha call ?e (loadClaims w) s w = (out, w'))"
    using run by (auto simp: runPolicySetLock_def Let_def load cross_covered [OF s(2)] split: if_splits)
  moreover have "se_RequestedIDs ?e = uniqueIDs (lc_IDs call)" by (simp add: EvaluateSetWithSemanticConflicts_def Let_def)
  ultimately show ?thesis using refused written [of ?e] allowed_known by blast
qed

lemma write_set_outcome:
  assumes "write_set os storable fault sha call e claims s w = (out, w')"
  shows "(w' = w \<and> (\<forall>e t. out \<noteq> ApprovedSet e t)) \<or> (\<exists>fs. out = WriteFailed fs) \<or> (\<exists>t. out = ApprovedSet e t)"
  using assms by (auto simp: write_set_def Let_def split: option.splits if_splits prod.splits bool.splits)

definition lock_final :: "string list \<Rightarrow> claim \<Rightarrow> claim" where
  "lock_final ids c = (if cl_ID c \<in> set ids - {[]} then lock_state c else c)"

lemma lock_final_simps [simp]:
  "cl_ID (lock_final ids c) = cl_ID c" "cl_SourcePath (lock_final ids c) = cl_SourcePath c"
  "cl_Comments (lock_final ids c) = cl_Comments c" "LockedClaimHash sha (lock_final ids c) = LockedClaimHash sha c"
  by (simp_all add: lock_final_def)

lemma lock_cases:
  assumes ok: "project_ok E w" and path: "lc_Path call = en_path E"
    and s: "on_disk (en_path E) s (wd_disk w)" "ready (en_path E) s"
    and run: "runPolicySetLock (en_os E) (en_storable E) fault (en_sha E) call w = (out, w')"
    and clean: "\<forall>i is. out \<noteq> WriteFailed (i # is)"
  obtains (same) "\<forall>e t. out \<noteq> ApprovedSet e t" "wd_files w' = wd_files w" "dk_store (wd_disk w') = dk_store (wd_disk w)"
      "dk_digests (wd_disk w') = dk_digests (wd_disk w)"
    | (locked) e t s1 dk1 where "out = ApprovedSet e t" "\<forall>i \<in> set (lc_IDs call) - {[]}. \<exists>c \<in> set (loadClaims w). cl_ID c = i"
      "wd_files w' = map (\<lambda>(p, c). (p, lock_final (lc_IDs call) c)) (wd_files w)"
      "approve_claims (en_sha E) (lc_Now call) \<lparr>ap_Actor = lc_Actor call, ap_Reason = lc_Reason call\<rparr>
        (uniqueIDs (lc_IDs call)) (candidate_claims (uniqueIDs (lc_IDs call)) (loadClaims w))
        (candidate_claims (uniqueIDs (lc_IDs call)) (loadClaims w)) (s, wd_disk w) = (s1, dk1)"
      "Save s1 dk1 = (True, wd_disk w')"
proof -
  have w: "world_ok w" and dig: "digests_open (wd_disk w)" using ok by (auto simp: project_ok_def)
  have load: "\<forall>now. LoadStore now (dk_store (wd_disk w)) (en_path E) = Inr s" using s(1) by (simp add: on_disk_def)
  show ?thesis
  proof (rule run_covered [OF s [folded path] run])
    assume "w' = w" "\<forall>e t. out \<noteq> ApprovedSet e t"
    then show ?thesis by (intro same) auto
  next
    fix e assume R: "se_RequestedIDs e = uniqueIDs (lc_IDs call)"
      and known: "\<forall>i \<in> set (lc_IDs call) - {[]}. \<exists>c \<in> set (loadClaims w). cl_ID c = i"
      and ws: "write_set (en_os E) (en_storable E) fault (en_sha E) call e (loadClaims w) s w = (out, w')"
    note keys = write_set_keys [OF ws]
    from write_set_outcome [OF ws] consider "w' = w" "\<forall>e t. out \<noteq> ApprovedSet e t" | fs where "out = WriteFailed fs" | t where "out = ApprovedSet e t" by blast
    then show ?thesis
    proof cases
      case 1
      then show ?thesis by (intro same) auto
    next
      case 2
      with clean have out: "out = WriteFailed []" by (cases fs) auto
      have unread: "dk_store (wd_disk w) \<noteq> Unreadable" using load by (auto simp: LoadStore_def)
      have "dk_digests (wd_disk w) \<noteq> Unreadable" using dig by (auto simp: digests_open_def ds_LoadStore_def)
      with write_set_failed [OF w unread ws [unfolded out]]
      have "\<And>p. gm_get (wd_files w') p = gm_get (wd_files w) p" "dk_store (wd_disk w') = dk_store (wd_disk w)"
        "dk_digests (wd_disk w') = dk_digests (wd_disk w)" by auto
      with same_files [OF w keys] out show ?thesis by (intro same) auto
    next
      case 3
      note res = write_set_approved [OF w ws [unfolded 3]]
      let ?f = "lock_final (lc_IDs call)"
      have "wd_files w' = map (\<lambda>(p, c). (p, ?f c)) (wd_files w)"
      proof (rule gomap_eqI)
        show "map fst (wd_files w') = map fst (map (\<lambda>(p, c). (p, ?f c)) (wd_files w))"
          using keys by (simp add: comp_def case_prod_beta)
        show "gm_wf (wd_files w')" using keys w by (simp add: world_ok_def)
        fix p
        have "gm_get (map (\<lambda>(p, c). (p, ?f c)) (wd_files w)) p = map_option ?f (gm_get (wd_files w) p)"
          by (simp add: map_of_map)
        also have "\<dots> = gm_get (wd_files w') p"
        proof (cases "gm_get (wd_files w) p")
          case None
          then have "p \<notin> cl_SourcePath ` set (loadClaims w)" using world_ok_file [OF w] by fastforce
          with res None show ?thesis by simp
        next
          case (Some c)
          note pc = world_ok_path [OF w Some]
          then have "gm_get (wd_files w') (cl_SourcePath c) =
              Some (if cl_ID c \<in> set (se_RequestedIDs e) then lock_state c else c)" using res by blast
          with Some pc show ?thesis by (auto simp: lock_final_def R)
        qed
        finally show "gm_get (wd_files w') p = gm_get (map (\<lambda>(p, c). (p, ?f c)) (wd_files w)) p" by simp
      qed
      moreover obtain s1 dk1 where "approve_claims (en_sha E) (lc_Now call) \<lparr>ap_Actor = lc_Actor call, ap_Reason = lc_Reason call\<rparr>
        (uniqueIDs (lc_IDs call)) (candidate_claims (uniqueIDs (lc_IDs call)) (loadClaims w))
        (candidate_claims (uniqueIDs (lc_IDs call)) (loadClaims w)) (s, wd_disk w) = (s1, dk1)"
        "Save s1 dk1 = (True, wd_disk w')" using res unfolding R by blast
      ultimately show ?thesis using 3 known by (intro locked) auto
    qed
  qed
qed

section \<open>Approvals on record\<close>

type_synonym approvals = "string \<Rightarrow> (string \<times> string) option"

definition standing_approval :: "store \<Rightarrow> approvals" where
  "standing_approval s i =
     (case ledgerRecordFor s i of
        None \<Rightarrow> None
      | Some r \<Rightarrow> if Released r then None else Some (lr_Hash r, lr_Reason r))"

definition approved_on :: "engine \<Rightarrow> world \<Rightarrow> approvals" where
  "approved_on E w i =
     (case LoadStore [] (dk_store (wd_disk w)) (en_path E) of Inl _ \<Rightarrow> None | Inr s \<Rightarrow> standing_approval s i)"

text \<open>
  The abstract state is the map of standing approvals. An event is what a run came to: the lock of a set that
  was approved, the unlock and the confirmed re-audit of a claim that went through, the preview of a re-audit,
  and a run that was refused; the others change no approval, refused or not.
\<close>

datatype event =
    ELock "string list" string
  | EUnlock string string
  | EReaudit string string
  | EPreview string
  | EFlag string
  | EComment string
  | EDraft string
  | ERefused

inductive approval_step :: "approvals \<Rightarrow> event \<Rightarrow> approvals \<Rightarrow> bool" where
  approve: "requireReason reason \<Longrightarrow>
    approval_step A (ELock ids reason) (\<lambda>i. if i \<in> set ids - {[]} then Some (h i, reason) else A i)"
| withdraw: "requireReason reason \<Longrightarrow> approval_step A (EUnlock i reason) (A(i := None))"
| renew: "requireReason reason \<Longrightarrow> A i \<noteq> None \<Longrightarrow> approval_step A (EReaudit i reason) (A(i := Some (h, reason)))"
| preview: "approval_step A (EPreview i) A"
| flag: "approval_step A (EFlag i) A"
| comment: "approval_step A (EComment i) A"
| draft: "approval_step A (EDraft i) A"
| refused: "approval_step A ERefused A"

inductive_cases approval_stepE: "approval_step A e A'"

lemma approved_on_disk: "on_disk (en_path E) s (wd_disk w) \<Longrightarrow> approved_on E w = standing_approval s"
  by (simp add: approved_on_def on_disk_def fun_eq_iff)

lemma standing_approval_reloaded [simp]: "standing_approval (reloaded s) = standing_approval s"
  by (auto simp: standing_approval_def fun_eq_iff split: option.split)

lemma standing_approval_put:
  "standing_approval (putRecord i r s) =
     (standing_approval s)(i := if lr_Subject r \<noteq> SubjectClaim \<or> Released r then None else Some (lr_Hash r, lr_Reason r))"
  by (auto simp: standing_approval_def ledgerRecordFor_def fun_eq_iff)

lemma approved_same: "dk_store (wd_disk w') = dk_store (wd_disk w) \<Longrightarrow> approved_on E w' = approved_on E w"
  by (simp add: approved_on_def fun_eq_iff)

lemma project_okD:
  assumes "project_ok E w"
  obtains s where "on_disk (en_path E) s (wd_disk w)" "ready (en_path E) s" "agrees (en_sha E) s (set (loadClaims w))"
    "world_ok w" "digests_open (wd_disk w)" "\<forall>c \<in> set (loadClaims w). digest_ok (en_sha E) (wd_disk w) c"
  using assms by (auto simp: project_ok_def)

section \<open>Each command keeps the project in order\<close>

lemma unlock_keeps:
  assumes ok: "project_ok E w" and run: "unlock_command E now reason i w = (res, w')"
    and clock: "\<forall>d. res = Inr d \<longrightarrow> now \<noteq> []" and written: "res \<noteq> Inl StoreUnwritten"
  shows "project_ok E w' \<and> (case res of
      Inl e \<Rightarrow> approved_on E w' = approved_on E w
    | Inr d \<Rightarrow> approval_step (approved_on E w) (EUnlock i reason) (approved_on E w'))"
proof -
  from ok obtain s where s: "on_disk (en_path E) s (wd_disk w)" "ready (en_path E) s"
    "agrees (en_sha E) s (set (loadClaims w))" "world_ok w" "digests_open (wd_disk w)"
    "\<forall>c \<in> set (loadClaims w). digest_ok (en_sha E) (wd_disk w) c" by (rule project_okD)
  from ok s(1,2) run show ?thesis
  proof (cases rule: unlock_cases)
    case (same e)
    then show ?thesis using project_ok_same [OF ok] approved_same [of w' w E] by simp
  next
    case half
    with written show ?thesis by simp
  next
    case (unlocked d c a dk)
    let ?c = "c\<lparr>cl_Status := StatusDraft, cl_ReviewPending := False\<rparr>"
    let ?ap = "\<lparr>ap_Actor = en_actor E, ap_Reason = reason\<rparr>"
    let ?s = "s\<lparr>st_commentDigestsAdopted := a\<rparr>"
    let ?s1 = "snd (ReleaseApproval now i ?ap ?s)"
    have ready1: "ready (en_path E) ?s1"
      using s(2) by (auto simp: ReleaseApproval_def putRecord_frame split: option.split)
    note saved = saved_store [OF unlocked(7) ready1]
    have eng: "engineLocked ?s1 = engineLocked s"
      by (simp add: ReleaseApproval_def putRecord_frame split: option.split)
    have rec: "st_Record ?s1 j = (if j = i then map_option (release_record now ?ap) (st_Record s i) else st_Record s j)" for j
      by (simp add: ReleaseApproval_def split: option.split)
    have rel: "Released (release_record now ?ap r)" "lr_Subject (release_record now ?ap r) = lr_Subject r" for r
      using clock unlocked(1) by (simp_all add: Released_def release_record_def)
    have none: "standing_approval ?s1 = (standing_approval s)(i := None)"
      by (auto simp: standing_approval_def ledgerRecordFor_def rec rel fun_eq_iff split: option.split)
    have "claim_in_order (en_sha E) s c" using s(3) unlocked(2) by (simp add: agrees_def)
    then have order: "claim_in_order (en_sha E) ?s1 ?c"
      using s(3) unlocked(3) draft_not_locked
      by (auto simp: claim_in_order_def ledgerRecordFor_def rec rel eng agrees_def split: option.splits if_splits)
    have kept: "digests_kept (en_sha E) (set (loadClaims w)) (wd_disk w) (wd_disk w')"
      using unlocked(6) kept_cong [OF saved(3)] by simp
    have "digest_ok (en_sha E) (wd_disk w') c"
      using kept_digest_ok [OF kept s(5) unlocked(2)] s(6) unlocked(2) by simp
    then have own: "digest_ok (en_sha E) (wd_disk w') ?c" by (subst digest_ok_cong [of _ c]) simp_all
    have "project_ok E w'"
      by (rule project_ok_rewrite [OF ok unlocked(2) _ _ unlocked(5) kept own s(1,3) saved(1,2) _ order])
        (use unlocked(3) rec eng in auto)
    moreover have "approved_on E w' = (approved_on E w)(i := None)"
      using none by (simp add: approved_on_disk [OF s(1)] approved_on_disk [OF saved(1)])
    ultimately show ?thesis using approval_step.withdraw [OF unlocked(4)] by (simp add: unlocked(1))
  qed
qed

lemma claim_in_order_same:
  "cl_ID c' = cl_ID c \<Longrightarrow> cl_Status c' = cl_Status c \<Longrightarrow> LockedClaimHash sha c' = LockedClaimHash sha c \<Longrightarrow>
   claim_in_order sha s c' = claim_in_order sha s c"
  by (simp add: claim_in_order_def split: option.split)

text \<open>A claim whose signed content, status and comments are as they were, written back.\<close>

lemma rewrite_unsigned:
  assumes ok: "project_ok E w" and c: "c \<in> set (loadClaims w)" "cl_ID c' = cl_ID c" "cl_SourcePath c' = cl_SourcePath c"
      "cl_Status c' = cl_Status c" "LockedClaimHash (en_sha E) c' = LockedClaimHash (en_sha E) c"
    and files: "wd_files w' = gm_put (cl_SourcePath c) c' (wd_files w)"
    and kept: "digests_kept (en_sha E) (set (loadClaims w)) (wd_disk w) (wd_disk w')"
    and own: "digest_ok (en_sha E) (wd_disk w') c'" and store: "dk_store (wd_disk w') = dk_store (wd_disk w)"
  shows "project_ok E w'"
proof -
  from ok obtain s where s: "on_disk (en_path E) s (wd_disk w)" "ready (en_path E) s"
    "agrees (en_sha E) s (set (loadClaims w))" by (rule project_okD)
  have "claim_in_order (en_sha E) s c" using s(3) c(1) by (simp add: agrees_def)
  then have "claim_in_order (en_sha E) s c'" using claim_in_order_same [OF c(2,4,5)] by simp
  then show ?thesis
    by (intro project_ok_rewrite [OF ok c(1-3) files kept own s(1,3) _ s(2) disjI1]) (simp_all add: on_disk_cong [OF store] s(1))
qed

lemma flag_keeps:
  assumes ok: "project_ok E w" and run: "flag_command E now carrier says does reason i w = (res, w')"
  shows "project_ok E w' \<and> approved_on E w' = approved_on E w"
  using run
proof (cases rule: flag_cases)
  case same
  then show ?thesis using project_ok_same [OF ok] approved_same [of w' w E] by simp
next
  case (flagged c)
  have dig: "digests_open (wd_disk w)" "digest_ok (en_sha E) (wd_disk w) c" using ok flagged(1) by (auto simp: project_ok_def)
  then have "digest_ok (en_sha E) (wd_disk w') (c\<lparr>cl_ReviewPending := True\<rparr>)"
    unfolding flagged(5) by (subst digest_ok_cong [of _ c]) simp_all
  then have "project_ok E w'"
    by (intro rewrite_unsigned [OF ok flagged(1) _ _ _ _ flagged(4)]) (simp_all add: flagged(5))
  with flagged(5) show ?thesis using approved_same [of w' w E] by simp
qed

text \<open>
  A re-audit is applied when it reports no error, or none but that the flag it answered could not be cleared:
  the flag store is written last.
\<close>

definition reaudit_applied :: "command_error + 'a \<Rightarrow> bool" where
  "reaudit_applied res \<longleftrightarrow> (case res of Inl e \<Rightarrow> e = FlagsUnwritten | Inr d \<Rightarrow> True)"

lemma reaudit_keeps:
  assumes ok: "project_ok E w" and run: "reaudit_command E now carrier roof confirm reason i w = (res, w')"
    and written: "res \<noteq> Inl StoreUnwritten"
  shows "project_ok E w' \<and> (if confirm \<and> reaudit_applied res then approval_step (approved_on E w) (EReaudit i reason) (approved_on E w')
    else approved_on E w' = approved_on E w)"
proof -
  from ok obtain s where s: "on_disk (en_path E) s (wd_disk w)" "ready (en_path E) s"
    "agrees (en_sha E) s (set (loadClaims w))" "world_ok w" "digests_open (wd_disk w)"
    "\<forall>c \<in> set (loadClaims w). digest_ok (en_sha E) (wd_disk w) c" by (rule project_okD)
  from ok s(1,2) run show ?thesis
  proof (cases rule: reaudit_cases)
    case same
    then show ?thesis using project_ok_same [OF ok] approved_same [of w' w E] by (auto simp: reaudit_applied_def)
  next
    case half
    with written show ?thesis by simp
  next
    case applied': (applied c d x y a b dk s2)
    note applied = applied'(2-)
    have through: "reaudit_applied res" using applied'(1) by (auto simp: reaudit_applied_def)
    note fr = Apply_frame [OF applied(6)]
    let ?a = "a\<lparr>cl_ReviewPending := b\<rparr>"
    let ?s = "RefreshBaseline (en_sha E) now a (loadClaims w) (s\<lparr>st_commentDigestsAdopted := x\<rparr>)"
    have ready2: "ready (en_path E) s2"
      unfolding applied(9) by (rule putRecord_frame) (simp add: RefreshBaseline_frame s(2))
    note saved = saved_store [OF applied(12) ready2]
    let ?r = "approval_record (en_sha E) now a \<lparr>ap_Actor = en_actor E, ap_Reason = reason\<rparr>"
    have r: "\<not> Released ?r" "lr_Subject ?r = SubjectClaim" "lr_Hash ?r = LockedClaimHash (en_sha E) ?a" "lr_Reason ?r = reason"
      by (simp_all add: approval_record_def Released_def)
    have rec: "st_Record s2 j = (if j = i then Some ?r else st_Record s j)" for j
      unfolding applied(9) by (simp add: RefreshBaseline_frame)
    have eng: "engineLocked s2 j = engineLocked s j" if "j \<noteq> i" for j
      unfolding applied(9) using that fr(1) applied(2) by (simp add: putRecord_frame RefreshBaseline_frame)
    have kept: "digests_kept (en_sha E) (set (loadClaims w)) (wd_disk w) (wd_disk w')"
      using applied(10) kept_cong [OF saved(3)] by simp
    have "digest_ok (en_sha E) (wd_disk w') c"
      using kept_digest_ok [OF kept s(5) applied(1)] s(6) applied(1) by simp
    then have own: "digest_ok (en_sha E) (wd_disk w') ?a" by (subst digest_ok_cong [of _ c]) (simp_all add: fr)
    have order: "claim_in_order (en_sha E) s2 ?a"
      using r fr(1,3) applied(2,3) by (simp add: claim_in_order_def ledgerRecordFor_def rec)
    have id: "cl_ID ?a = cl_ID c" "cl_SourcePath ?a = cl_SourcePath c" using fr by simp_all
    have "project_ok E w'"
    proof (rule project_ok_rewrite [OF ok applied(1) id applied(8) kept own s(1,3) saved(1,2) disjI2 order])
      fix j assume "j \<noteq> cl_ID c"
      then show "st_Record s2 j = st_Record s j" "engineLocked s2 j = engineLocked s j"
        using rec eng by (simp_all add: applied(2))
    qed simp
    moreover have "claim_in_order (en_sha E) s c" using s(3) applied(1) by (simp add: agrees_def)
    then have "approved_on E w i \<noteq> None"
      using applied(2,3) unfolding approved_on_disk [OF s(1)]
      by (auto simp: claim_in_order_def standing_approval_def split: option.splits)
    moreover have "standing_approval s2 = (standing_approval s)(i := Some (lr_Hash ?r, reason))"
      using rec r(1,2,4) by (auto simp: standing_approval_def ledgerRecordFor_def fun_eq_iff)
    then have "approved_on E w' = (approved_on E w)(i := Some (lr_Hash ?r, reason))"
      by (simp only: approved_on_disk [OF s(1)] approved_on_disk [OF saved(1)] standing_approval_reloaded)
    ultimately show ?thesis using approval_step.renew [OF applied(5)] applied(4) through by metis
  qed
qed

lemma comment_keeps:
  assumes ok: "project_ok E w" and run: "comment_command E now i actor op w k = Some ((out, w'), k')"
    and written: "out \<noteq> DigestNotWritten"
  shows "project_ok E w' \<and> approved_on E w' = approved_on E w"
proof (cases "\<exists>c. out = CommentDone c")
  case False
  with comment_refusal [OF run] written have "wd_files w' = wd_files w \<and> wd_disk w' = wd_disk w" by blast
  then show ?thesis using project_ok_same [OF ok] approved_same [of w' w E] by simp
next
  case True
  then obtain c' where run': "comment_command E now i actor op w k = Some ((CommentDone c', w'), k')" using run by auto
  from ok obtain s where s: "on_disk (en_path E) s (wd_disk w)" "ready (en_path E) s"
    "agrees (en_sha E) s (set (loadClaims w))" "world_ok w" "digests_open (wd_disk w)"
    "\<forall>c \<in> set (loadClaims w). digest_ok (en_sha E) (wd_disk w) c" by (rule project_okD)
  obtain d0 where d0: "ds_LoadStore (dk_digests (wd_disk w)) = Inr d0" "ds_fileExists d0" using s(5) by (auto simp: digests_open_def)
  from run' s(4) show ?thesis
  proof (cases rule: comment_effect)
    case (1 c cms b d ls)
    have ls: "ls = s" "d = d0" using 1(4,5) s(1) d0 by (simp_all add: on_disk_def)
    obtain d1 where d1: "wd_disk w' = (wd_disk w)\<lparr>dk_digests := Bytes (Some (ds_Save d1))\<rparr>" "ds_Version d1 = StoreSchemaVersion"
      "ds_Digest d1 i = Some (CommentsDigest (en_sha E) c')"
      "\<forall>x \<in> set (loadClaims w). cl_ID x \<noteq> i \<longrightarrow> ds_Digest d1 (cl_ID x) = ds_Digest d0 (cl_ID x)"
      using 1(10) d0 unfolding ls by auto
    have before: "disk_digest (wd_disk w) j = ds_Digest d0 j" for j by (simp add: disk_digest_def d0)
    have open1: "digests_open (wd_disk w')" unfolding d1(1) by (rule digests_saved) (rule d1(2))
    have after: "disk_digest (wd_disk w') j = ds_Digest d1 j" for j unfolding d1(1) by (rule digests_saved) (rule d1(2))
    have digs: "digest_ok (en_sha E) (wd_disk w') x" if "x \<in> set (loadClaims w')" for x
    proof (cases "x = c'")
      case True
      then show ?thesis using 1(2,3) d1(3) by (simp add: digest_ok_def after)
    next
      case False
      with that 1(7) have x: "x \<in> set (loadClaims w)" "x \<noteq> c" by auto
      with same_id [OF s(4) x(1) 1(1)] 1(2) have "cl_ID x \<noteq> i" by auto
      with d1(4) x(1) s(6) show ?thesis by (simp add: digest_ok_def after before)
    qed
    have order: "claim_in_order (en_sha E) s c'"
      using s(3) 1(1,3) claim_in_order_same [of c' c "en_sha E" s] by (simp add: agrees_def)
    have "agrees (en_sha E) s (insert c' (set (loadClaims w) - {c}))"
      by (rule agrees_replace [OF s(3) 1(1) _ _ order]) (use 1(1,3) same_id [OF s(4)] in auto)
    then have "project_ok E w'"
      using 1(7,8) open1 digs s(1,2) on_disk_cong [of "wd_disk w'" "wd_disk w" "en_path E" s]
      unfolding project_ok_def by (auto simp: d1(1))
    with d1(1) show ?thesis using approved_same [of w' w E] by simp
  qed
qed

lemma readopt_cases:
  assumes "ReauditDigest E now i actor reason w = (out, w')"
  obtains (same) "wd_files w' = wd_files w" "wd_disk w' = wd_disk w"
    | (recorded) n d where "n < length (loadClaims w)" "cl_ID (loadClaims w ! n) = i"
        "ds_LoadStore (dk_digests (wd_disk w)) = Inr d" "wd_files w' = wd_files w"
        "wd_disk w' = (wd_disk w)\<lparr>dk_digests :=
           Bytes (Some (ds_Save (ds_Reaudit (en_sha E) now (loadClaims w ! n) actor (trim_space reason) d)))\<rparr>"
proof (cases "\<exists>n d. index_by cl_ID i (loadClaims w) = Some n \<and> openCommentDigest (wd_disk w) = Some d \<and>
    validateActor actor \<and> \<not> blank reason")
  case False
  then have "w' = w" using assms by (auto simp: ReauditDigest_def split: if_splits option.splits)
  then show ?thesis by (intro same) simp_all
next
  case True
  then obtain n d where n: "index_by cl_ID i (loadClaims w) = Some n" "openCommentDigest (wd_disk w) = Some d"
    "validateActor actor" "\<not> blank reason" by blast
  let ?d = "ds_Reaudit (en_sha E) now (loadClaims w ! n) actor (trim_space reason) d"
  obtain k w1 where save: "save_digests (en_os E) ?d w = (k, w1)" by (cases "save_digests (en_os E) ?d w")
  have "w' = w1" using assms n save by (cases k) (simp_all add: ReauditDigest_def Let_def)
  with save_digests_frame [OF save] index_claim [OF n(1)] n(2) show ?thesis
    by (cases k) (auto simp: opened_digests intro: same recorded)
qed

lemma readopt_keeps:
  assumes ok: "project_ok E w" and run: "ReauditDigest E now i actor reason w = (out, w')"
  shows "project_ok E w' \<and> approved_on E w' = approved_on E w"
  using run
proof (cases rule: readopt_cases)
  case same
  with project_ok_same [OF ok] approved_same [of w' w E] show ?thesis by simp
next
  case (recorded n d)
  let ?d = "ds_Reaudit (en_sha E) now (loadClaims w ! n) actor (trim_space reason) d"
  have ver: "ds_Version ?d = StoreSchemaVersion"
    using LoadStore_version [OF recorded(3)] by (simp add: ds_Reaudit_def ds_Record_def Let_def)
  have digest: "ds_Digest ?d j = (if j = i then Some (CommentsDigest (en_sha E) (loadClaims w ! n)) else ds_Digest d j)" for j
    using recorded(2) by (simp add: ds_Reaudit_def Let_def ds_Digest_def ds_Record_def)
  have before: "disk_digest (wd_disk w) j = ds_Digest d j" for j by (simp add: disk_digest_def recorded(3))
  have mine: "x = loadClaims w ! n" if "x \<in> set (loadClaims w)" "cl_ID x = i" for x
    using ok same_id [of w x "loadClaims w ! n"] that recorded(1,2) by (simp add: project_ok_def)
  have "digests_kept (en_sha E) (set (loadClaims w)) (wd_disk w) (wd_disk w')"
    unfolding digests_kept_def recorded(5) digests_saved(2) [OF ver] before digest
    using digests_saved(1) [OF ver] by (auto simp: mine [symmetric])
  with recorded(4,5) project_ok_same [OF ok] approved_same [of w' w E] show ?thesis by simp
qed

lemma lock_keeps:
  assumes ok: "project_ok E w" and path: "lc_Path call = en_path E"
    and run: "runPolicySetLock (en_os E) (en_storable E) fault (en_sha E) call w = (out, w')"
    and clean: "\<forall>i is. out \<noteq> WriteFailed (i # is)"
  shows "project_ok E w' \<and> (case out of
      ApprovedSet e t \<Rightarrow> \<exists>h. approved_on E w' =
        (\<lambda>i. if i \<in> set (lc_IDs call) - {[]} then Some (h i, lc_Reason call) else approved_on E w i)
    | _ \<Rightarrow> approved_on E w' = approved_on E w)"
proof -
  from ok obtain s where s: "on_disk (en_path E) s (wd_disk w)" "ready (en_path E) s"
    "agrees (en_sha E) s (set (loadClaims w))" "world_ok w" "digests_open (wd_disk w)"
    "\<forall>c \<in> set (loadClaims w). digest_ok (en_sha E) (wd_disk w) c" by (rule project_okD)
  from ok path s(1,2) run clean show ?thesis
  proof (cases rule: lock_cases)
    case same
    then have "project_ok E w'"
      using project_ok_same [OF ok] kept_cong [of "wd_disk w'" "wd_disk w" "en_sha E" "set (loadClaims w)" "wd_disk w"] by simp
    with same approved_same [of w' w E] show ?thesis by (auto split: lock_outcome.split)
  next
    case locked': (locked e t s1 dk1)
    note locked = locked'(1,3-)
    let ?f = "lock_final (lc_IDs call)" and ?ids = "lc_IDs call"
    let ?finals = "candidate_claims (uniqueIDs ?ids) (loadClaims w)"
    let ?ap = "\<lparr>ap_Actor = lc_Actor call, ap_Reason = lc_Reason call\<rparr>"
    have claims: "loadClaims w' = map ?f (loadClaims w)" using locked(2) by (simp add: loadClaims_def case_prod_beta)
    have w': "world_ok w'"
      using s(4) unfolding world_ok_def claims known_ids_def by (auto simp: locked(2) comp_def case_prod_beta)
    have finals: "?finals = map ?f (loadClaims w)" by (auto simp: candidate_claims_def lock_final_def)
    have dist: "distinct (known_ids ?finals)" using world_ok_ids [OF s(4)] by (simp add: candidate_ids)
    have own: "\<forall>x \<in> set (loadClaims w). \<forall>c \<in> set ?finals. cl_ID x = cl_ID c \<longrightarrow> cl_Comments x = cl_Comments c"
      unfolding finals using same_id [OF s(4)] by fastforce
    from approve_frame [OF locked(3) s(2), of "set (loadClaims w)"] own
    have frame: "ready (en_path E) s1" "\<And>i. i \<notin> set (uniqueIDs ?ids) \<inter> set (known_ids ?finals) \<Longrightarrow> engineLocked s1 i = engineLocked s i"
      "digests_kept (en_sha E) (set (loadClaims w)) (wd_disk w) dk1" by blast+
    note saved = saved_store [OF locked(4) frame(1)]
    note recs = approve_records [OF locked(3) dist]
    have mine: "st_Record s1 (cl_ID c) = Some (approval_record (en_sha E) (lc_Now call) (?f c) ?ap)"
      if "c \<in> set (loadClaims w)" "cl_ID c \<in> set ?ids - {[]}" for c
    proof -
      have "?f c \<in> set ?finals" using that(1) unfolding finals by simp
      moreover have "cl_ID (?f c) \<in> set (uniqueIDs ?ids)" using that(2) by simp
      ultimately show ?thesis using recs by fastforce
    qed
    have named: "i \<in> set (uniqueIDs ?ids) \<inter> set (known_ids ?finals) \<longleftrightarrow>
        (\<exists>c \<in> set (loadClaims w). cl_ID c = i \<and> cl_ID c \<in> set ?ids - {[]})" for i
      by (auto simp: candidate_ids) (auto simp: known_ids_def)
    have kept: "digests_kept (en_sha E) (set (loadClaims w)) (wd_disk w) (wd_disk w')"
      using frame(3) kept_cong [OF saved(3)] by simp
    have other: "st_Record s1 i = st_Record s i \<and> engineLocked s1 i = engineLocked s i"
      if "\<forall>c \<in> set (loadClaims w). cl_ID c = i \<longrightarrow> cl_ID c \<notin> set ?ids - {[]}" for i
      using that named [of i] recs frame(2) [of i] by blast
    have "claim_in_order (en_sha E) s1 (?f c)" if c: "c \<in> set (loadClaims w)" for c
    proof (cases "cl_ID c \<in> set ?ids - {[]}")
      case True
      with mine [OF c True] show ?thesis
        by (simp add: claim_in_order_def ledgerRecordFor_def  approval_record_def Released_def lock_final_def)
    next
      case False
      have "\<forall>x \<in> set (loadClaims w). cl_ID x = cl_ID c \<longrightarrow> cl_ID x \<notin> set ?ids - {[]}" using False by simp
      from other [OF this] have "claim_in_order (en_sha E) s1 c = claim_in_order (en_sha E) s c"
        by (intro claim_in_order_cong) simp_all
      with False s(3) c show ?thesis by (auto simp: agrees_def lock_final_def)
    qed
    moreover have "i \<in> cl_ID ` set (loadClaims w)" if "ledgerRecordFor s1 i = Some r" "\<not> Released r" for i r
    proof (rule ccontr)
      assume none: "i \<notin> cl_ID ` set (loadClaims w)"
      then have "\<forall>x \<in> set (loadClaims w). cl_ID x = i \<longrightarrow> cl_ID x \<notin> set ?ids - {[]}" by auto
      from other [OF this] that(1) have "ledgerRecordFor s i = Some r" by (simp add: ledgerRecordFor_def )
      with that(2) s(3) none show False unfolding agrees_def by blast
    qed
    moreover have "ledgerRecordFor s1 i \<noteq> None" if "engineLocked s1 i" for i
    proof (cases "\<exists>c \<in> set (loadClaims w). cl_ID c = i \<and> cl_ID c \<in> set ?ids - {[]}")
      case True
      with mine show ?thesis by (auto simp: ledgerRecordFor_def  approval_record_def)
    next
      case False
      then have "\<forall>x \<in> set (loadClaims w). cl_ID x = i \<longrightarrow> cl_ID x \<notin> set ?ids - {[]}" by blast
      from other [OF this] that s(3) show ?thesis
        unfolding agrees_def by (simp add: ledgerRecordFor_def )
    qed
    ultimately have "agrees (en_sha E) s1 (set (loadClaims w'))"
      unfolding agrees_def claims by (simp add: image_image)
    then have "agrees (en_sha E) (reloaded s1) (set (loadClaims w'))" by (simp only: agrees_reloaded)
    moreover have "\<forall>c \<in> set (loadClaims w'). digest_ok (en_sha E) (wd_disk w') c"
    proof -
      have "digest_ok (en_sha E) (wd_disk w') (?f c)" if "c \<in> set (loadClaims w)" for c
        using kept_digest_ok [OF kept s(5) that] s(6) that digest_ok_cong [of "?f c" c] by simp
      then show ?thesis unfolding claims by auto
    qed
    moreover have "digests_open (wd_disk w')" using kept s(5) by (simp add: digests_kept_def)
    ultimately have "project_ok E w'" using w' saved(1,2) by (auto simp: project_ok_def)
    moreover have "standing_approval s1 i = (if i \<in> set ?ids - {[]}
        then Some (fst (the (standing_approval s1 i)), lc_Reason call) else standing_approval s i)" for i
    proof (cases "i \<in> set ?ids - {[]}")
      case True
      with locked'(2) obtain c where "c \<in> set (loadClaims w)" "cl_ID c = i" by blast
      with mine [of c] True show ?thesis
        by (simp add: standing_approval_def ledgerRecordFor_def approval_record_def Released_def)
    next
      case False
      then have "\<forall>x \<in> set (loadClaims w). cl_ID x = i \<longrightarrow> cl_ID x \<notin> set ?ids - {[]}" by blast
      from other [OF this] have "standing_approval s1 i = standing_approval s i"
        by (simp add: standing_approval_def ledgerRecordFor_def)
      with False show ?thesis by auto
    qed
    then have "approved_on E w' = (\<lambda>i. if i \<in> set ?ids - {[]}
        then Some (fst (the (standing_approval s1 i)), lc_Reason call) else approved_on E w i)"
      unfolding approved_on_disk [OF s(1)] approved_on_disk [OF saved(1)] standing_approval_reloaded by blast
    ultimately show ?thesis unfolding locked'(1) lock_outcome.case
      by (intro conjI exI [of _ "\<lambda>i. fst (the (standing_approval s1 i))"])
  qed
qed

section \<open>The writing of drafts\<close>

lemma put_new: "gm_get m k = None \<Longrightarrow> gm_put k v m = m @ [(k, v)]"
  by (induction m) auto

lemma draft_new_keeps:
  assumes ok: "project_ok E w" and c: "cl_Status c \<noteq> StatusLocked" "digest_ok (en_sha E) (wd_disk w) c"
    and new: "gm_get (wd_files w) (cl_SourcePath c) = None" "cl_ID c \<notin> set (known_ids (loadClaims w))"
    and w': "w' = w\<lparr>wd_files := gm_put (cl_SourcePath c) c (wd_files w)\<rparr>"
  shows "project_ok E w' \<and> approved_on E w' = approved_on E w"
proof -
  from ok obtain s where s: "on_disk (en_path E) s (wd_disk w)" "ready (en_path E) s"
    "agrees (en_sha E) s (set (loadClaims w))" "world_ok w" "digests_open (wd_disk w)"
    "\<forall>c \<in> set (loadClaims w). digest_ok (en_sha E) (wd_disk w) c" by (rule project_okD)
  have files: "wd_files w' = wd_files w @ [(cl_SourcePath c, c)]" "wd_disk w' = wd_disk w"
    using w' put_new [OF new(1)] by simp_all
  have claims: "loadClaims w' = loadClaims w @ [c]" by (simp add: loadClaims_def files)
  have "world_ok w'"
    using s(4) new unfolding world_ok_def claims known_ids_def by (auto simp: files map_of_eq_None_iff)
  moreover have "claim_in_order (en_sha E) s c"
  proof (cases "ledgerRecordFor s (cl_ID c)")
    case None
    with s(3) c(1) show ?thesis by (auto simp: claim_in_order_def agrees_def)
  next
    case (Some r)
    have "cl_ID c \<notin> cl_ID ` set (loadClaims w)" using new(2) by (simp add: known_ids_def)
    with Some s(3) have "Released r" unfolding agrees_def by blast
    with Some c(1) show ?thesis by (simp add: claim_in_order_def)
  qed
  then have "agrees (en_sha E) s (set (loadClaims w'))" using s(3) unfolding agrees_def claims by auto
  ultimately have "project_ok E w'" using s c(2) unfolding project_ok_def claims by (auto simp: files)
  then show ?thesis using approved_same [of w' w E] files(2) by simp
qed

lemma draft_delete_keeps:
  assumes ok: "project_ok E w" and c: "c \<in> set (loadClaims w)" "cl_Status c \<noteq> StatusLocked"
    and w': "w' = w\<lparr>wd_files := gm_del (cl_SourcePath c) (wd_files w)\<rparr>"
  shows "project_ok E w' \<and> approved_on E w' = approved_on E w"
proof -
  from ok obtain s where s: "on_disk (en_path E) s (wd_disk w)" "ready (en_path E) s"
    "agrees (en_sha E) s (set (loadClaims w))" "world_ok w" "digests_open (wd_disk w)"
    "\<forall>c \<in> set (loadClaims w). digest_ok (en_sha E) (wd_disk w) c" by (rule project_okD)
  have files: "wd_files w' = filter (\<lambda>(p, x). p \<noteq> cl_SourcePath c) (wd_files w)" "wd_disk w' = wd_disk w"
    using w' by (auto simp: AList.delete_eq intro!: filter_cong)
  have sub: "set (loadClaims w') \<subseteq> set (loadClaims w)" by (auto simp: loadClaims_def files)
  have rest: "x \<in> set (loadClaims w')" if x: "x \<in> set (loadClaims w)" "cl_ID x \<noteq> cl_ID c" for x
  proof -
    from x(1) obtain p where p: "(p, x) \<in> set (wd_files w)" by (auto simp: loadClaims_def)
    have "p \<noteq> cl_SourcePath c"
    proof
      assume "p = cl_SourcePath c"
      with p s(4) have "gm_get (wd_files w) (cl_SourcePath c) = Some x" by (simp add: world_ok_def gm_get_mem [symmetric])
      moreover have "gm_get (wd_files w) (cl_SourcePath c) = Some c" using world_ok_file [OF s(4)] c(1) by blast
      ultimately show False using x(2) by simp
    qed
    with p show ?thesis by (force simp: loadClaims_def files)
  qed
  have "world_ok w'"
  proof -
    have "distinct (known_ids (map snd (filter q m)))" if "distinct (known_ids (map snd m))" for q and m :: "claim gomap"
      using that by (induction m) (auto simp: known_ids_def)
    then have "distinct (known_ids (loadClaims w'))" using s(4) by (simp add: world_ok_def loadClaims_def files)
    with s(4) show ?thesis by (auto simp: world_ok_def files distinct_map_filter)
  qed
  moreover have "agrees (en_sha E) s (set (loadClaims w'))"
  proof -
    have "i \<in> cl_ID ` set (loadClaims w')" if r: "ledgerRecordFor s i = Some r" "\<not> Released r" for i r
    proof -
      from r s(3) obtain x where x: "x \<in> set (loadClaims w)" "cl_ID x = i" unfolding agrees_def by blast
      have "claim_in_order (en_sha E) s c" using s(3) c(1) by (simp add: agrees_def)
      with c(2) r have "i \<noteq> cl_ID c" by (auto simp: claim_in_order_def)
      with x rest [of x] show ?thesis by auto
    qed
    with s(3) sub show ?thesis unfolding agrees_def by blast
  qed
  ultimately have "project_ok E w'" using s sub unfolding project_ok_def by (auto simp: files)
  then show ?thesis using approved_same [of w' w E] files(2) by simp
qed

lemma draft_edit_keeps:
  assumes ok: "project_ok E w" and c: "c \<in> set (loadClaims w)" "cl_Status c \<noteq> StatusLocked"
    and c': "cl_ID c' = cl_ID c" "cl_SourcePath c' = cl_SourcePath c" "cl_Comments c' = cl_Comments c" "cl_Status c' \<noteq> StatusLocked"
    and w': "w' = w\<lparr>wd_files := gm_put (cl_SourcePath c) c' (wd_files w)\<rparr>"
  shows "project_ok E w' \<and> approved_on E w' = approved_on E w"
proof -
  from ok obtain s where s: "on_disk (en_path E) s (wd_disk w)" "ready (en_path E) s"
    "agrees (en_sha E) s (set (loadClaims w))" "\<forall>c \<in> set (loadClaims w). digest_ok (en_sha E) (wd_disk w) c"
    by (auto elim: project_okD)
  have files: "wd_files w' = gm_put (cl_SourcePath c) c' (wd_files w)" and disk: "wd_disk w' = wd_disk w" using w' by simp_all
  have own: "digest_ok (en_sha E) (wd_disk w') c'" using s(4) c(1) c' digest_ok_cong [of c' c] disk by simp
  have "claim_in_order (en_sha E) s c" using s(3) c(1) by (simp add: agrees_def)
  with c(2) c' have order: "claim_in_order (en_sha E) s c'" by (simp add: claim_in_order_def split: option.splits)
  have "project_ok E w'"
    by (rule project_ok_rewrite [OF ok c(1) c'(1,2) files _ own s(1,3) _ s(2) disjI1 order]) (simp_all add: disk s(1))
  with disk approved_same [of w' w E] show ?thesis by simp
qed

section \<open>The steps\<close>

text \<open>\<^verbatim>\<open>claim lock\<close> as it is given, before the project is opened: no dry run.\<close>

datatype lock_refusal = ConflictElsewhere | LockReasonMissing

definition newLockCmd ::
  "engine \<Rightarrow> (string \<Rightarrow> string \<Rightarrow> bool) \<Rightarrow> lock_call \<Rightarrow> world \<Rightarrow> (lock_refusal + lock_outcome) \<times> world" where
  "newLockCmd E fault call w =
     (if \<not> list_all (\<lambda>k. sc_ClaimID k \<in> set (lc_IDs call)) (lc_Conflicts call) then (Inl ConflictElsewhere, w)
      else if \<not> requireReason (lc_Reason call) then (Inl LockReasonMissing, w)
      else (case runPolicySetLock (en_os E) (en_storable E) fault (en_sha E) call w of (out, w') \<Rightarrow> (Inr out, w')))"

text \<open>
  A run and the event it came to. Of the refusals only those that name a file that could not be written are
  left out: a set lock that could not roll back, and a store that was not written after the claim was.
\<close>

inductive life_step :: "engine \<Rightarrow> world \<Rightarrow> event \<Rightarrow> world \<Rightarrow> bool" for E :: engine where
  lock: "newLockCmd E fault call w = (Inr (ApprovedSet e t), w') \<Longrightarrow> lc_Path call = en_path E \<Longrightarrow>
    life_step E w (ELock (lc_IDs call) (lc_Reason call)) w'"
| lock_refused: "newLockCmd E fault call w = (out, w') \<Longrightarrow> lc_Path call = en_path E \<Longrightarrow>
    \<forall>e t. out \<noteq> Inr (ApprovedSet e t) \<Longrightarrow> \<forall>i is. out \<noteq> Inr (WriteFailed (i # is)) \<Longrightarrow> life_step E w ERefused w'"
| unlock: "unlock_command E now reason i w = (Inr d, w') \<Longrightarrow> now \<noteq> [] \<Longrightarrow> life_step E w (EUnlock i reason) w'"
| unlock_refused: "unlock_command E now reason i w = (Inl err, w') \<Longrightarrow> err \<noteq> StoreUnwritten \<Longrightarrow>
    life_step E w ERefused w'"
| flag: "flag_command E now carrier says does reason i w = (res', w') \<Longrightarrow> life_step E w (EFlag i) w'"
| reaudit: "reaudit_command E now carrier roof True reason i w = (res, w') \<Longrightarrow> reaudit_applied res \<Longrightarrow>
    res \<noteq> Inl StoreUnwritten \<Longrightarrow> life_step E w (EReaudit i reason) w'"
| preview: "reaudit_command E now carrier roof False reason i w = (Inr data, w') \<Longrightarrow> life_step E w (EPreview i) w'"
| reaudit_refused: "reaudit_command E now carrier roof confirm reason i w = (Inl err, w') \<Longrightarrow>
    err \<noteq> StoreUnwritten \<Longrightarrow> \<not> (confirm \<and> err = FlagsUnwritten) \<Longrightarrow> life_step E w ERefused w'"
| comment: "comment_command E now i actor op w k = Some ((out', w'), k') \<Longrightarrow> out' \<noteq> DigestNotWritten \<Longrightarrow>
    life_step E w (EComment i) w'"
| readopt: "ReauditDigest E now i actor reason w = (out', w') \<Longrightarrow> life_step E w (EComment i) w'"
| new: "cl_Status c \<noteq> StatusLocked \<Longrightarrow> digest_ok (en_sha E) (wd_disk w) c \<Longrightarrow>
    gm_get (wd_files w) (cl_SourcePath c) = None \<Longrightarrow> cl_ID c \<notin> set (known_ids (loadClaims w)) \<Longrightarrow>
    life_step E w (EDraft (cl_ID c)) (w\<lparr>wd_files := gm_put (cl_SourcePath c) c (wd_files w)\<rparr>)"
| edit: "c \<in> set (loadClaims w) \<Longrightarrow> cl_Status c \<noteq> StatusLocked \<Longrightarrow> cl_ID c' = cl_ID c \<Longrightarrow>
    cl_SourcePath c' = cl_SourcePath c \<Longrightarrow> cl_Comments c' = cl_Comments c \<Longrightarrow> cl_Status c' \<noteq> StatusLocked \<Longrightarrow>
    life_step E w (EDraft (cl_ID c)) (w\<lparr>wd_files := gm_put (cl_SourcePath c) c' (wd_files w)\<rparr>)"
| delete: "c \<in> set (loadClaims w) \<Longrightarrow> cl_Status c \<noteq> StatusLocked \<Longrightarrow>
    life_step E w (EDraft (cl_ID c)) (w\<lparr>wd_files := gm_del (cl_SourcePath c) (wd_files w)\<rparr>)"

inductive_cases life_stepE: "life_step E w e w'"

lemma newLockCmd_cases:
  assumes "newLockCmd E fault call w = (res, w')"
  obtains (refused) e where "res = Inl e" "w' = w"
    | (run) out where "res = Inr out" "requireReason (lc_Reason call)"
      "runPolicySetLock (en_os E) (en_storable E) fault (en_sha E) call w = (out, w')"
  using assms by (auto simp: newLockCmd_def split: if_splits prod.splits)

lemma life_step_keeps:
  assumes "life_step E w e w'" "project_ok E w"
  shows "project_ok E w' \<and> approval_step (approved_on E w) e (approved_on E w')"
  using assms
proof (induction rule: life_step.induct)
  case (lock fault call w e t w')
  then obtain "requireReason (lc_Reason call)"
    and run: "runPolicySetLock (en_os E) (en_storable E) fault (en_sha E) call w = (ApprovedSet e t, w')"
    by (auto elim: newLockCmd_cases)
  then show ?case using lock_keeps [OF lock(3,2) run] approval_step.approve by auto
next
  case (lock_refused fault call w out w')
  from lock_refused(1) show ?case
  proof (cases rule: newLockCmd_cases)
    case (refused e)
    then show ?thesis using lock_refused(5) by (simp add: approval_step.refused)
  next
    case (run o')
    then show ?thesis using lock_keeps [OF lock_refused(5,2) run(3)] lock_refused(3,4)
      by (auto simp: approval_step.refused split: lock_outcome.splits)
  qed
next
  case (unlock now reason i w d w')
  then show ?case using unlock_keeps [OF unlock(3,1)] by simp
next
  case (unlock_refused now reason i w err w')
  then show ?case using unlock_keeps [OF unlock_refused(3,1)] by (simp add: approval_step.refused)
next
  case (flag now carrier says does reason i w res w')
  then show ?case using flag_keeps [OF _ flag(1)] by (simp add: approval_step.flag)
next
  case (reaudit now carrier roof reason i w res w')
  then show ?case using reaudit_keeps [OF reaudit(4,1,3)] by simp
next
  case (preview now carrier roof reason i w data w')
  then show ?case using reaudit_keeps [OF preview(2,1)] by (simp add: approval_step.preview)
next
  case (reaudit_refused now carrier roof confirm reason i w err w')
  then show ?case using reaudit_keeps [OF reaudit_refused(4,1)]
    by (auto simp: approval_step.refused reaudit_applied_def split: if_splits)
next
  case (comment now i actor op w k out w' k')
  then show ?case using comment_keeps [OF _ comment(1)] by (simp add: approval_step.comment)
next
  case (readopt now i actor reason w out w')
  then show ?case using readopt_keeps [OF _ readopt(1)] by (simp add: approval_step.comment)
next
  case (new c w)
  then show ?case using draft_new_keeps [OF _ new(1-4) refl] by (simp add: approval_step.draft)
next
  case (edit c w c')
  then show ?case using draft_edit_keeps [OF _ edit(1-6) refl] by (simp add: approval_step.draft)
next
  case (delete c w)
  then show ?case using draft_delete_keeps [OF _ delete(1,2) refl] by (simp add: approval_step.draft)
qed

text \<open>The runs of a project, with the events in order.\<close>

inductive life :: "engine \<Rightarrow> world \<Rightarrow> event list \<Rightarrow> world \<Rightarrow> bool" for E :: engine where
  start: "life E w [] w"
| then_step: "life E w es w' \<Longrightarrow> life_step E w' e w'' \<Longrightarrow> life E w (es @ [e]) w''"

inductive approval_run :: "approvals \<Rightarrow> event list \<Rightarrow> approvals \<Rightarrow> bool" where
  start: "approval_run A [] A"
| then_step: "approval_run A es A' \<Longrightarrow> approval_step A' e A'' \<Longrightarrow> approval_run A (es @ [e]) A''"

interpretation approvals: history approval_step approval_run
proof
  show "approval_run A es A' \<longleftrightarrow> es = [] \<and> A' = A \<or> (\<exists>ds e u. es = ds @ [e] \<and> approval_run A ds u \<and> approval_step u e A')" for A es A'
    by (subst approval_run.simps) auto
qed

interpretation lives: history "life_step E" "life E"
proof
  show "life E w es w' \<longleftrightarrow> es = [] \<and> w' = w \<or> (\<exists>ds e u. es = ds @ [e] \<and> life E w ds u \<and> life_step E u e w')" for w es w'
    by (subst life.simps) auto
qed

interpretation refined: simulation "life_step E" "life E" approval_step approval_run "project_ok E" "approved_on E"
  by unfold_locales (rule life_step_keeps)

lemma life_keeps:
  "life E w es w' \<Longrightarrow> project_ok E w \<Longrightarrow> project_ok E w' \<and> approval_run (approved_on E w) es (approved_on E w')"
  by (rule refined.run_simulates)

text \<open>Where the reason of a standing approval comes from.\<close>

definition names :: "string \<Rightarrow> string \<Rightarrow> event \<Rightarrow> bool" where
  "names i reason e \<longleftrightarrow> (\<exists>ids. e = ELock ids reason \<and> i \<in> set ids) \<or> e = EReaudit i reason"

lemma approval_run_origin:
  assumes "approval_run A es A'" "A' i = Some (h, reason)"
  shows "A i = Some (h, reason) \<or> (requireReason reason \<and> (\<exists>e \<in> set es. names i reason e))"
proof -
  let ?Q = "\<lambda>e. requireReason reason \<and> names i reason e"
  have "A i = Some (h, reason) \<or> (\<exists>e \<in> set es. ?Q e)"
  proof (rule approvals.origin [where I = "\<lambda>A. A i = Some (h, reason)" and Q = ?Q, OF assms])
    fix u e u' assume "approval_step u e u'" "u' i = Some (h, reason)"
    then show "u i = Some (h, reason) \<or> ?Q e"
      by cases (auto simp: names_def split: if_splits)
  qed
  then show ?thesis by blast
qed

lemma project_ok_audit:
  assumes "project_ok E w"
  shows "\<exists>s d. LoadStore now (dk_store (wd_disk w)) (en_path E) = Inr s \<and>
    ds_LoadStore (dk_digests (wd_disk w)) = Inr d \<and> Audit (en_sha E) (loadClaims w) s (Some d) = []"
proof -
  from assms obtain s where s: "on_disk (en_path E) s (wd_disk w)" "ready (en_path E) s"
    "agrees (en_sha E) s (set (loadClaims w))" "digests_open (wd_disk w)"
    "\<forall>c \<in> set (loadClaims w). digest_ok (en_sha E) (wd_disk w) c" by (rule project_okD)
  from s(4) obtain d where d: "ds_LoadStore (dk_digests (wd_disk w)) = Inr d" by (auto simp: digests_open_def)
  have "comments_in_order (en_sha E) s d c" if "c \<in> set (loadClaims w)" for c
    using s(5) that by (auto simp: comments_in_order_def digest_ok_def disk_digest_def d split: option.splits)
  moreover have "k \<in> cl_ID ` set (loadClaims w)"
    if "(k, r) \<in> set (st_Ledger s)" "lr_Subject r = SubjectClaim" "\<not> Released r" for k r
  proof -
    have "ledgerRecordFor s k = Some r"
      using that(1,2) s(2) by (simp add: ledgerRecordFor_def st_Record_def ready_def)
    with that(3) s(3) show ?thesis unfolding agrees_def by blast
  qed
  ultimately have "Audit (en_sha E) (loadClaims w) s (Some d) = []"
    using s(2,3) Audit_silent_covered [of s "en_sha E" "loadClaims w" d] by (auto simp: ready_def agrees_def)
  with s(1) d show ?thesis by (auto simp: on_disk_def)
qed

lemma project_ok_locked:
  assumes "project_ok E w" "c \<in> set (loadClaims w)" "cl_Status c = StatusLocked"
  shows "\<exists>reason. approved_on E w (cl_ID c) = Some (LockedClaimHash (en_sha E) c, reason)"
proof -
  from assms(1) obtain s where s: "on_disk (en_path E) s (wd_disk w)" "agrees (en_sha E) s (set (loadClaims w))"
    by (rule project_okD)
  have "claim_in_order (en_sha E) s c" using s(2) assms(2) by (simp add: agrees_def)
  with assms(3) show ?thesis
    by (auto simp: approved_on_disk [OF s(1)] claim_in_order_def standing_approval_def split: option.splits)
qed

text \<open>
  C1. No honest history leaves a finding: from a project in order, whatever commands run and in
  whatever order, refused or not, and whatever drafts are written between them, the stores load and
  the audit reports nothing.
\<close>

theorem life_audit_silent:
  assumes "project_ok E w" "life E w es w'"
  shows "\<exists>s d. LoadStore now (dk_store (wd_disk w')) (en_path E) = Inr s \<and>
    ds_LoadStore (dk_digests (wd_disk w')) = Inr d \<and> Audit (en_sha E) (loadClaims w') s (Some d) = []"
  using life_keeps [OF assms(2,1)] project_ok_audit by blast

text \<open>
  C2. The program implements the map of standing approvals: each run, seen through the approvals on
  record, is a run of the abstract machine in which only a \<open>claim lock\<close> that was approved adds approvals, to
  every id it names and with its reason, only an unlock that went through withdraws one, only a confirmed
  re-audit that was applied renews one, of a claim whose approval stands, each of them with a reason that is
  not blank; a preview, a refused run and everything else leave every approval as it is.
\<close>

theorem life_refines:
  assumes "project_ok E w" "life E w es w'"
  shows "approval_run (approved_on E w) es (approved_on E w')"
  using life_keeps [OF assms(2,1)] by blast

text \<open>
  C3. Nobody's words, no lock: every locked claim of a project that was in order is, as it stands,
  the content of an approval on record, and the reason of that approval was either on record at the
  start, or is not blank and was given to a \<open>claim lock\<close> that was approved and named this very claim, or to a
  confirmed re-audit of it that was applied, in the course of the run.
\<close>

theorem locked_by_reason:
  assumes "project_ok E w" "life E w es w'" "c \<in> set (loadClaims w')" "cl_Status c = StatusLocked"
  shows "\<exists>reason. approved_on E w' (cl_ID c) = Some (LockedClaimHash (en_sha E) c, reason) \<and>
    (approved_on E w (cl_ID c) = Some (LockedClaimHash (en_sha E) c, reason) \<or>
     (requireReason reason \<and> (\<exists>e \<in> set es. names (cl_ID c) reason e)))"
proof -
  note keeps = life_keeps [OF assms(2,1)]
  from project_ok_locked [OF _ assms(3,4)] keeps obtain reason
    where "approved_on E w' (cl_ID c) = Some (LockedClaimHash (en_sha E) c, reason)" by blast
  with approval_run_origin [of "approved_on E w" es "approved_on E w'"] keeps show ?thesis by blast
qed

definition settled_store :: store where
  "settled_store = (emptyStore ''s'')\<lparr>st_fileExists := True, st_diskVersion := 3\<rparr>"

definition settled :: world where
  "settled = one_file\<lparr>wd_disk := good_disk\<lparr>dk_store := Bytes (Some (marshal settled_store)),
     dk_digests := Bytes (Some (ds_Save empty_dstore))\<rparr>\<rparr>"

lemma settled_ok: "project_ok test_engine settled"
proof -
  have s: "on_disk ''s'' settled_store (wd_disk settled)"
    by (simp add: on_disk_def settled_def LoadStore_def decodeStore_def marshal_def settled_store_def emptyStore_def
        schema_defs PolicyLocalApprovalV1_def Let_def omit_empty_def some_map_def opt_map_def set_raw_def)
  have r: "ready ''s'' settled_store"
    by (simp add: ready_def settled_store_def emptyStore_def LedgerCovered_def writable_store_def schema_defs)
  have d: "ds_LoadStore (dk_digests (wd_disk settled)) = Inr (empty_dstore\<lparr>ds_fileExists := True\<rparr>)"
    by (simp add: settled_def ds_load_save empty_dstore_def)
  have c: "loadClaims settled = [file_p]" by (simp add: settled_def one_file_def loadClaims_def)
  have "agrees (en_sha test_engine) settled_store (set (loadClaims settled))"
    by (simp add: agrees_def c claim_in_order_def ledgerRecordFor_def st_Record_def settled_store_def emptyStore_def
        engineLocked_def file_p_def premise_def)
  moreover have "digest_ok sha (wd_disk settled) file_p" for sha
    by (simp add: digest_ok_def disk_digest_def d ds_Digest_def empty_dstore_def file_p_def premise_def zero_claim_def)
  moreover have "world_ok settled" using world_ok_one by (simp add: settled_def)
  moreover have "digests_open (wd_disk settled)" by (simp add: digests_open_def d)
  ultimately show ?thesis using s r by (auto simp: project_ok_def c test_engine_def)
qed

abbreviation no_fault :: "string \<Rightarrow> string \<Rightarrow> bool" where
  "no_fault \<equiv> \<lambda>_ _. False"

lemma settled_locks:
  obtains w' where "life test_engine settled [ELock [''m.contract.p''] ''ok''] w'" "loadClaims w' = [lock_state file_p]"
proof -
  let ?run = "newLockCmd test_engine no_fault lock_p settled"
  have approved: "(case ?run of (Inr (ApprovedSet _ _), w) \<Rightarrow> loadClaims w = [lock_state file_p] | _ \<Rightarrow> False)" by code_simp
  then obtain e t w' where run: "?run = (Inr (ApprovedSet e t), w')" "loadClaims w' = [lock_state file_p]"
    by (auto split: prod.splits sum.splits lock_outcome.splits)
  have "life_step test_engine settled (ELock (lc_IDs lock_p) (lc_Reason lock_p)) w'"
    by (rule life_step.lock [OF run(1)]) (simp_all add: lock_p_def test_engine_def)
  from life.then_step [OF life.start this] have "life test_engine settled [ELock [''m.contract.p''] ''ok''] w'"
    by (simp add: lock_p_def)
  then show ?thesis using run(2) by (intro that) simp_all
qed


theorem life_audit_silent_witness:
  "\<exists>w' s d. life test_engine settled [ELock [''m.contract.p''] ''ok''] w' \<and>
    LoadStore ''t'' (dk_store (wd_disk w')) (en_path test_engine) = Inr s \<and>
    ds_LoadStore (dk_digests (wd_disk w')) = Inr d \<and> Audit (en_sha test_engine) (loadClaims w') s (Some d) = []"
  by (rule settled_locks) (use life_audit_silent [OF settled_ok] in blast)

theorem life_refines_witness:
  "\<exists>w'. approval_run (approved_on test_engine settled) [ELock [''m.contract.p''] ''ok''] (approved_on test_engine w') \<and>
    cl_Status (hd (loadClaims w')) = StatusLocked"
  by (rule settled_locks) (use life_refines [OF settled_ok] in force)

theorem locked_by_reason_witness:
  "\<exists>w' h. approved_on test_engine w' ''m.contract.p'' = Some (h, ''ok'')"
proof (rule settled_locks)
  fix w' assume run: "life test_engine settled [ELock [''m.contract.p''] ''ok''] w'" and claims: "loadClaims w' = [lock_state file_p]"
  have "approved_on test_engine settled i = None" for i
    by (simp add: approved_on_def settled_def LoadStore_def decodeStore_def marshal_def settled_store_def emptyStore_def
        schema_defs PolicyLocalApprovalV1_def Let_def omit_empty_def some_map_def opt_map_def set_raw_def
        standing_approval_def ledgerRecordFor_def st_Record_def)
  moreover have "cl_ID (lock_state file_p) = ''m.contract.p''" by (simp add: file_p_def premise_def)
  ultimately show ?thesis
    using locked_by_reason [OF settled_ok run, of "lock_state file_p"] by (auto simp: claims names_def)
qed

end
