(* ===== verification/Strong_Components.thy ===== *)
theory Strong_Components
  imports Lock_Store
begin

text \<open>
  The strongly connected components of the dependency graph (\<^verbatim>\<open>findSCCs\<close> of
  \<^verbatim>\<open>internal/readiness/readiness.go\<close>): Tarjan's algorithm with its state as a record, the stack with
  its top first. The lemmas show that it finds exactly the classes of claims that reach each other.
  The recursion takes a fuel, which the number of claims bounds: running out is \<open>None\<close>, and so is
  popping an empty stack, and both are shown not to happen.
\<close>

section \<open>The graph\<close>

definition unique :: "string list \<Rightarrow> string list" where
  "unique values = dedupe_acc [] values"

lemma set_unique [simp]: "set (unique xs) = set xs"
  by (simp add: unique_def set_dedupe_acc)

text \<open>The dependencies of a claim of the map, each once and in ascending order.\<close>

definition required :: "claim gomap \<Rightarrow> string \<Rightarrow> string list" where
  "required byID v = (case gm_get byID v of None \<Rightarrow> [] | Some c \<Rightarrow> sort (unique (ro_IDs (cl_RestsOn c))))"

definition known :: "claim gomap \<Rightarrow> string set" where
  "known byID = fst ` set byID"

lemma known_iff: "v \<in> known byID \<longleftrightarrow> gm_get byID v \<noteq> None"
  by (auto simp: known_def map_of_eq_None_iff)

lemma finite_known [simp]: "finite (known byID)"
  by (simp add: known_def)

text \<open>The edges between claims of the map.\<close>

definition arc :: "claim gomap \<Rightarrow> (string \<times> string) set" where
  "arc byID = {(a, b). a \<in> known byID \<and> b \<in> known byID \<and> b \<in> set (required byID a)}"

section \<open>The algorithm\<close>

record scc_state =
  sc_index :: nat
  sc_indices :: "string \<rightharpoonup> nat"
  sc_lowlink :: "string \<rightharpoonup> nat"
  sc_onStack :: "string \<Rightarrow> bool"
  sc_stack :: "string list"
  sc_sccs :: "string list list"

definition scc_start :: scc_state where
  "scc_start = \<lparr>sc_index = 0, sc_indices = Map.empty, sc_lowlink = Map.empty, sc_onStack = (\<lambda>_. False), sc_stack = [], sc_sccs = []\<rparr>"

definition scc_enter :: "string \<Rightarrow> scc_state \<Rightarrow> scc_state" where
  "scc_enter v st =
     st\<lparr>sc_indices := (sc_indices st)(v \<mapsto> sc_index st), sc_lowlink := (sc_lowlink st)(v \<mapsto> sc_index st),
        sc_index := sc_index st + 1, sc_stack := v # sc_stack st, sc_onStack := (sc_onStack st)(v := True)\<rparr>"

text \<open>A missing key of a Go map reads as zero.\<close>

definition at :: "(string \<rightharpoonup> nat) \<Rightarrow> string \<Rightarrow> nat" where
  "at m v = (case m v of None \<Rightarrow> 0 | Some n \<Rightarrow> n)"

definition scc_lower :: "string \<Rightarrow> nat \<Rightarrow> scc_state \<Rightarrow> scc_state" where
  "scc_lower v n st = (if n < at (sc_lowlink st) v then st\<lparr>sc_lowlink := (sc_lowlink st)(v \<mapsto> n)\<rparr> else st)"

text \<open>The loop that pops a component, down to its root.\<close>

fun scc_pop ::
  "string \<Rightarrow> string list \<Rightarrow> (string \<Rightarrow> bool) \<Rightarrow> string list \<Rightarrow> (string list \<times> (string \<Rightarrow> bool) \<times> string list) option" where
  "scc_pop v [] onStack scc = None"
| "scc_pop v (w # stack) onStack scc =
     (if w = v then Some (scc @ [w], onStack(w := False), stack)
      else scc_pop v stack (onStack(w := False)) (scc @ [w]))"

definition scc_leave :: "string \<Rightarrow> scc_state \<Rightarrow> scc_state option" where
  "scc_leave v st =
     (if at (sc_lowlink st) v \<noteq> at (sc_indices st) v then Some st
      else
        (case scc_pop v (sc_stack st) (sc_onStack st) [] of
           None \<Rightarrow> None
         | Some (scc, onStack, stack) \<Rightarrow>
             Some (st\<lparr>sc_stack := stack, sc_onStack := onStack, sc_sccs := sc_sccs st @ [sort scc]\<rparr>)))"

fun strongconnect :: "claim gomap \<Rightarrow> nat \<Rightarrow> string \<Rightarrow> scc_state \<Rightarrow> scc_state option"
  and connect_deps :: "claim gomap \<Rightarrow> nat \<Rightarrow> string \<Rightarrow> string list \<Rightarrow> scc_state \<Rightarrow> scc_state option" where
  "strongconnect byID 0 v st = None"
| "strongconnect byID (Suc n) v st =
     (case connect_deps byID n v (required byID v) (scc_enter v st) of
        None \<Rightarrow> None
      | Some st1 \<Rightarrow> scc_leave v st1)"
| "connect_deps byID n v [] st = Some st"
| "connect_deps byID n v (w # ws) st =
     (if gm_get byID w = None then connect_deps byID n v ws st
      else if sc_indices st w = None then
        (case strongconnect byID n w st of
           None \<Rightarrow> None
         | Some st1 \<Rightarrow> connect_deps byID n v ws (scc_lower v (at (sc_lowlink st1) w) st1))
      else if sc_onStack st w then connect_deps byID n v ws (scc_lower v (at (sc_indices st) w) st)
      else connect_deps byID n v ws st)"

fun connect_all :: "claim gomap \<Rightarrow> nat \<Rightarrow> string list \<Rightarrow> scc_state \<Rightarrow> scc_state option" where
  "connect_all byID n [] st = Some st"
| "connect_all byID n (v # vs) st =
     (if sc_indices st v \<noteq> None then connect_all byID n vs st
      else (case strongconnect byID n v st of None \<Rightarrow> None | Some st1 \<Rightarrow> connect_all byID n vs st1))"

definition findSCCs :: "claim gomap \<Rightarrow> string list list option" where
  "findSCCs byID = map_option sc_sccs (connect_all byID (length byID) (sort (map fst byID)) scc_start)"

section \<open>The invariant\<close>

abbreviation ix :: "scc_state \<Rightarrow> string \<Rightarrow> nat" where
  "ix st \<equiv> at (sc_indices st)"

abbreviation low :: "scc_state \<Rightarrow> string \<Rightarrow> nat" where
  "low st \<equiv> at (sc_lowlink st)"

definition seen :: "scc_state \<Rightarrow> string set" where
  "seen st = {u. sc_indices st u \<noteq> None}"

abbreviation stacked :: "scc_state \<Rightarrow> string set" where
  "stacked st \<equiv> set (sc_stack st)"

text \<open>What holds whatever the recursion is doing: numbers, the stack, and the components found.\<close>

definition scc_shape :: "claim gomap \<Rightarrow> scc_state \<Rightarrow> bool" where
  "scc_shape m st \<longleftrightarrow>
     seen st \<subseteq> known m \<and> stacked st \<subseteq> seen st \<and> (\<forall>u \<in> seen st. ix st u < sc_index st) \<and>
     sorted_wrt (\<lambda>a b. ix st b < ix st a) (sc_stack st) \<and> (\<forall>u. sc_onStack st u \<longleftrightarrow> u \<in> stacked st)"

definition scc_done :: "claim gomap \<Rightarrow> scc_state \<Rightarrow> bool" where
  "scc_done m st \<longleftrightarrow>
     (\<forall>(a, b) \<in> arc m. a \<in> seen st - stacked st \<longrightarrow> b \<in> seen st - stacked st) \<and>
     (\<Union>C \<in> set (sc_sccs st). set C) = seen st - stacked st \<and>
     (\<forall>C \<in> set (sc_sccs st). sorted C \<and> distinct C \<and> C \<noteq> [] \<and>
        (\<forall>a \<in> set C. \<forall>b. b \<in> set C \<longleftrightarrow> (a, b) \<in> (arc m)\<^sup>* \<and> (b, a) \<in> (arc m)\<^sup>*))"

text \<open>\<open>G\<close> holds the claims whose visit has not ended; each stacked claim reaches one below it.\<close>

definition scc_open :: "claim gomap \<Rightarrow> string set \<Rightarrow> scc_state \<Rightarrow> bool" where
  "scc_open m G st \<longleftrightarrow>
     G \<subseteq> stacked st \<and>
     (\<forall>(a, b) \<in> arc m. a \<in> stacked st - G \<longrightarrow> b \<in> seen st) \<and>
     (\<forall>a \<in> G. \<forall>b \<in> stacked st. ix st a \<le> ix st b \<longrightarrow> (a, b) \<in> (arc m)\<^sup>*) \<and>
     (\<forall>b \<in> stacked st. \<exists>a \<in> G. ix st a \<le> ix st b \<and> (b, a) \<in> (arc m)\<^sup>*)"

definition scc_inv :: "claim gomap \<Rightarrow> string set \<Rightarrow> scc_state \<Rightarrow> bool" where
  "scc_inv m G st \<longleftrightarrow> scc_shape m st \<and> scc_done m st \<and> scc_open m G st"

text \<open>Nothing about a claim seen before is changed by the visit of another.\<close>

definition scc_ext :: "scc_state \<Rightarrow> scc_state \<Rightarrow> bool" where
  "scc_ext st st' \<longleftrightarrow> sc_index st \<le> sc_index st' \<and>
     (\<forall>u \<in> seen st. sc_indices st' u = sc_indices st u \<and> sc_lowlink st' u = sc_lowlink st u)"

text \<open>What a finished visit of \<open>v\<close> leaves: what it stacked on top reaches no lower than its low link.\<close>

definition visited :: "claim gomap \<Rightarrow> string \<Rightarrow> scc_state \<Rightarrow> scc_state \<Rightarrow> bool" where
  "visited m v st st' \<longleftrightarrow>
     scc_ext st st' \<and> v \<in> seen st' \<and> low st' v \<le> ix st' v \<and>
     (\<exists>T. sc_stack st' = T @ sc_stack st \<and> set T \<inter> seen st = {} \<and>
        (\<forall>(a, b) \<in> arc m. a \<in> set T \<longrightarrow> b \<in> stacked st \<longrightarrow> low st' v \<le> ix st b) \<and>
        ((\<exists>z \<in> stacked st. ix st z = low st' v \<and> (v, z) \<in> (arc m)\<^sup>*) \<or> T = [] \<and> sc_index st \<le> low st' v))"

text \<open>The middle of a visit of \<open>v\<close> begun in \<open>st0\<close>, with the dependencies in \<open>D\<close> behind it.\<close>

definition visiting :: "claim gomap \<Rightarrow> string \<Rightarrow> scc_state \<Rightarrow> string set \<Rightarrow> scc_state \<Rightarrow> bool" where
  "visiting m v st0 D st \<longleftrightarrow>
     sc_index st0 < sc_index st \<and> v \<in> seen st \<and> v \<notin> seen st0 \<and> ix st v = sc_index st0 \<and>
     (\<forall>u \<in> seen st0. sc_indices st u = sc_indices st0 u \<and> sc_lowlink st u = sc_lowlink st0 u) \<and>
     low st v \<le> ix st v \<and>
     (\<exists>z \<in> insert v (stacked st0). ix st z = low st v \<and> (v, z) \<in> (arc m)\<^sup>*) \<and>
     (\<exists>T. sc_stack st = T @ v # sc_stack st0 \<and> set T \<inter> insert v (seen st0) = {} \<and>
        (\<forall>(a, b) \<in> arc m. a \<in> set T \<longrightarrow> b \<in> stacked st0 \<longrightarrow> low st v \<le> ix st b)) \<and>
     (\<forall>d \<in> D. (v, d) \<in> arc m \<longrightarrow> d \<in> seen st \<and> (d \<in> stacked st0 \<longrightarrow> low st v \<le> ix st d))"

lemma at_upd [simp]: "at (m(v \<mapsto> n)) u = (if u = v then n else at m u)"
  by (simp add: at_def)

lemma at_cong: "m u = m' u \<Longrightarrow> at m u = at m' u"
  by (simp add: at_def)

lemma sorted_wrt_less_distinct: "sorted_wrt R xs \<Longrightarrow> (\<And>x. \<not> R x x) \<Longrightarrow> distinct xs"
  by (induction xs) auto

lemma scc_pop_split:
  "v \<notin> set T \<Longrightarrow> scc_pop v (T @ v # S) f scc = Some (scc @ T @ [v], (\<lambda>x. x \<notin> set (T @ [v]) \<and> f x), S)"
  by (induction T arbitrary: f scc) (auto simp: fun_eq_iff)

lemma scc_inv_lower [simp]: "scc_inv m G (scc_lower v n st) = scc_inv m G st"
  by (simp add: scc_lower_def scc_inv_def scc_shape_def scc_done_def scc_open_def seen_def)

lemma low_lower [simp]: "low (scc_lower v n st) u = (if u = v then min n (low st v) else low st u)"
  by (simp add: scc_lower_def min_def)

lemma scc_lower_frame [simp]:
  "sc_indices (scc_lower v n st) = sc_indices st" "sc_stack (scc_lower v n st) = sc_stack st"
  "sc_onStack (scc_lower v n st) = sc_onStack st" "sc_index (scc_lower v n st) = sc_index st"
  "sc_lowlink (scc_lower v n st) u = (if u = v \<and> n < low st v then Some n else sc_lowlink st u)"
  "seen (scc_lower v n st) = seen st"
  by (simp_all add: scc_lower_def seen_def)

lemma scc_enter_frame [simp]:
  "seen (scc_enter v st) = insert v (seen st)" "sc_stack (scc_enter v st) = v # sc_stack st"
  "ix (scc_enter v st) u = (if u = v then sc_index st else ix st u)"
  "low (scc_enter v st) u = (if u = v then sc_index st else low st u)"
  "sc_index (scc_enter v st) = Suc (sc_index st)" "sc_sccs (scc_enter v st) = sc_sccs st"
  "sc_onStack (scc_enter v st) u = (u = v \<or> sc_onStack st u)"
  by (auto simp: scc_enter_def seen_def)

lemma scc_ext_seen: "scc_ext st st' \<Longrightarrow> u \<in> seen st \<Longrightarrow> u \<in> seen st'"
  by (auto simp: scc_ext_def seen_def)

lemma scc_open_below: "scc_open m G st \<Longrightarrow> b \<in> stacked st \<Longrightarrow> \<exists>a \<in> G. ix st a \<le> ix st b \<and> (b, a) \<in> (arc m)\<^sup>*"
  by (simp add: scc_open_def)

lemma scc_open_reach:
  "scc_open m G st \<Longrightarrow> a \<in> G \<Longrightarrow> b \<in> stacked st \<Longrightarrow> ix st a \<le> ix st b \<Longrightarrow> (a, b) \<in> (arc m)\<^sup>*"
  by (simp add: scc_open_def)

lemma scc_open_arc: "scc_open m G st \<Longrightarrow> (a, b) \<in> arc m \<Longrightarrow> a \<in> stacked st \<Longrightarrow> a \<notin> G \<Longrightarrow> b \<in> seen st"
  by (auto simp: scc_open_def)

section \<open>The steps of a visit\<close>

lemma visiting_frame:
  assumes "visiting m v st0 D st" "u \<in> seen st0"
  shows "sc_indices st u = sc_indices st0 u" "sc_lowlink st u = sc_lowlink st0 u" "u \<in> seen st" "u \<noteq> v"
proof -
  show "sc_indices st u = sc_indices st0 u" "sc_lowlink st u = sc_lowlink st0 u" "u \<noteq> v"
    using assms by (auto simp: visiting_def)
  then show "u \<in> seen st" using assms(2) by (simp add: seen_def)
qed

lemma enter_step:
  assumes inv: "scc_inv m G st" and v: "v \<in> known m" "v \<notin> seen st" and reach: "\<forall>a \<in> G. (a, v) \<in> (arc m)\<^sup>*"
  shows "scc_inv m (insert v G) (scc_enter v st)" "visiting m v st {} (scc_enter v st)"
proof -
  let ?st = "scc_enter v st"
  have old: "ix ?st u = ix st u" if "u \<in> seen st" for u using that v by auto
  have new: "ix ?st v = sc_index st" by simp
  have shape: "scc_shape m st" and d: "scc_done m st" and o: "scc_open m G st" using inv by (auto simp: scc_inv_def)
  have sub: "stacked st \<subseteq> seen st" "seen ?st = insert v (seen st)" "stacked ?st = insert v (stacked st)"
    using shape by (auto simp: scc_shape_def)
  have less: "ix ?st u < ix ?st v" if "u \<in> seen st" for u
    using that old new shape by (auto simp: scc_shape_def)
  have "sorted_wrt (\<lambda>a b. ix st b < ix st a) (sc_stack st)" using shape by (simp add: scc_shape_def)
  then have "sorted_wrt (\<lambda>a b. ix ?st b < ix ?st a) (sc_stack st)"
    by (rule sorted_wrt_mono_rel [rotated]) (use sub(1) v(2) in auto)
  then have shape1: "scc_shape m ?st"
    using shape v sub less new by (auto simp: scc_shape_def less_SucI)
  have gone: "seen ?st - stacked ?st = seen st - stacked st" using sub v by auto
  have sccs: "sc_sccs ?st = sc_sccs st" by simp
  have done1: "scc_done m ?st" using d unfolding scc_done_def gone sccs .
  have "scc_open m (insert v G) ?st"
    unfolding scc_open_def
  proof (intro conjI ballI impI)
    show "insert v G \<subseteq> stacked ?st" using o sub by (auto simp: scc_open_def)
    show "case x of (a, b) \<Rightarrow> a \<in> stacked ?st - insert v G \<longrightarrow> b \<in> seen ?st" if "x \<in> arc m" for x
      using that o sub by (auto simp: scc_open_def)
    show "(a, b) \<in> (arc m)\<^sup>*" if "a \<in> insert v G" "b \<in> stacked ?st" "ix ?st a \<le> ix ?st b" for a b
    proof (cases "b = v")
      case False
      then have b: "b \<in> stacked st" "b \<in> seen st" using that sub by auto
      then have "a \<noteq> v" using that(3) less [of b] by auto
      then show ?thesis using that b o old sub by (auto simp: scc_open_def subset_iff)
    qed (use that reach in auto)
    show "\<exists>a \<in> insert v G. ix ?st a \<le> ix ?st b \<and> (b, a) \<in> (arc m)\<^sup>*" if "b \<in> stacked ?st" for b
    proof (cases "b = v")
      case False
      then have b: "b \<in> stacked st" using that sub by auto
      then obtain a where "a \<in> G" "ix st a \<le> ix st b" "(b, a) \<in> (arc m)\<^sup>*" using o by (auto simp: scc_open_def)
      then show ?thesis using b old sub o by (auto simp: scc_open_def subset_iff intro!: bexI [of _ a])
    qed auto
  qed
  with shape1 done1 show "scc_inv m (insert v G) ?st" by (simp add: scc_inv_def)
  show "visiting m v st {} ?st"
    using v sub(1) by (auto simp: visiting_def) (auto simp: scc_enter_def)
qed

text \<open>A dependency that was seen before: on the stack it may lower the link, off the stack it does not.\<close>

lemma seen_step:
  assumes inv: "scc_inv m H st" and vis: "visiting m v st0 D st" and w: "(v, w) \<in> arc m" "w \<in> seen st"
  shows "visiting m v st0 (insert w D) (if sc_onStack st w then scc_lower v (ix st w) st else st)"
proof -
  have shape: "scc_shape m st" using inv by (simp add: scc_inv_def)
  obtain T where T: "sc_stack st = T @ v # sc_stack st0" "set T \<inter> insert v (seen st0) = {}"
    "\<forall>(a, b) \<in> arc m. a \<in> set T \<longrightarrow> b \<in> stacked st0 \<longrightarrow> low st v \<le> ix st b"
    using vis by (auto simp: visiting_def)
  have on: "sc_onStack st w \<longleftrightarrow> w \<in> stacked st" using shape by (simp add: scc_shape_def)
  show ?thesis
  proof (cases "sc_onStack st w")
    case False
    then have "w \<notin> stacked st0" using on T(1) by auto
    then show ?thesis using False vis w by (auto simp: visiting_def)
  next
    case True
    obtain z where z: "z \<in> insert v (stacked st0)" "ix st z = low st v" "(v, z) \<in> (arc m)\<^sup>*"
      using vis by (auto simp: visiting_def)
    have above: "ix st v < ix st u" if "u \<in> set T" for u
      using shape that T(1) by (auto simp: scc_shape_def sorted_wrt_append)
    have "\<exists>z \<in> insert v (stacked st0). ix st z = min (ix st w) (low st v) \<and> (v, z) \<in> (arc m)\<^sup>*"
    proof (cases "ix st w < low st v")
      case True
      then have "ix st w < ix st v" using vis by (auto simp: visiting_def)
      then have "w \<in> stacked st0" using on \<open>sc_onStack st w\<close> T(1) above by fastforce
      with True w(1) show ?thesis by (intro bexI [of _ w]) auto
    qed (use z in \<open>auto simp: min_def\<close>)
    moreover have "\<forall>u \<in> seen st0. sc_indices st u = sc_indices st0 u \<and>
        sc_lowlink (scc_lower v (ix st w) st) u = sc_lowlink st0 u"
      using visiting_frame [OF vis] by simp
    moreover have "sc_index st0 < sc_index st" "v \<in> seen st" "v \<notin> seen st0" "ix st v = sc_index st0" "low st v \<le> ix st v"
      "\<forall>d \<in> D. (v, d) \<in> arc m \<longrightarrow> d \<in> seen st \<and> (d \<in> stacked st0 \<longrightarrow> low st v \<le> ix st d)"
      using vis by (simp_all add: visiting_def)
    ultimately show ?thesis using True w T
      unfolding visiting_def by (intro conjI) (auto simp: min_le_iff_disj)
  qed
qed

text \<open>A dependency that was visited just now.\<close>

lemma fresh_step:
  assumes inv: "scc_inv m H st" and vis: "visiting m v st0 D st" and sub: "stacked st0 \<subseteq> seen st0"
    and w: "(v, w) \<in> arc m" "w \<notin> seen st" and inv1: "scc_inv m H st1" and post: "visited m w st st1"
  shows "visiting m v st0 (insert w D) (scc_lower v (low st1 w) st1)"
proof -
  have shape: "scc_shape m st" "scc_shape m st1" using inv inv1 by (auto simp: scc_inv_def)
  obtain T where T: "sc_stack st = T @ v # sc_stack st0" "set T \<inter> insert v (seen st0) = {}"
    "\<forall>(a, b) \<in> arc m. a \<in> set T \<longrightarrow> b \<in> stacked st0 \<longrightarrow> low st v \<le> ix st b"
    using vis by (auto simp: visiting_def)
  obtain T1 where T1: "sc_stack st1 = T1 @ sc_stack st" "set T1 \<inter> seen st = {}"
    "\<forall>(a, b) \<in> arc m. a \<in> set T1 \<longrightarrow> b \<in> stacked st \<longrightarrow> low st1 w \<le> ix st b"
    "(\<exists>z \<in> stacked st. ix st z = low st1 w \<and> (w, z) \<in> (arc m)\<^sup>*) \<or> T1 = [] \<and> sc_index st \<le> low st1 w"
    using post by (auto simp: visited_def)
  have ext: "scc_ext st st1" using post by (simp add: visited_def)
  have kept: "sc_indices st1 u = sc_indices st u" "sc_lowlink st1 u = sc_lowlink st u" if "u \<in> seen st" for u
    using ext that by (auto simp: scc_ext_def)
  have v: "v \<in> seen st" "v \<notin> seen st0" "ix st v = sc_index st0" "low st v \<le> ix st v" "sc_index st0 < sc_index st"
    using vis by (auto simp: visiting_def)
  have seen0: "seen st0 \<subseteq> seen st" using visiting_frame(3) [OF vis] by blast
  have old: "ix st1 u = ix st u" "low st1 u = low st u" if "u \<in> seen st" for u
    using kept [OF that] by (auto intro: at_cong)
  have above: "ix st v < ix st u" if "u \<in> set T" for u
    using shape(1) that T(1) by (auto simp: scc_shape_def sorted_wrt_append)
  have num: "sc_index st \<le> sc_index st1" using ext by (simp add: scc_ext_def)
  let ?L = "min (low st1 w) (low st v)"
  have link: "low (scc_lower v (low st1 w) st1) v = ?L" using old v(1) by simp
  obtain z where z: "z \<in> insert v (stacked st0)" "ix st z = low st v" "(v, z) \<in> (arc m)\<^sup>*"
    using vis by (auto simp: visiting_def)
  have reach: "\<exists>z \<in> insert v (stacked st0). ix st1 z = ?L \<and> (v, z) \<in> (arc m)\<^sup>*"
  proof (cases "low st1 w < low st v")
    case True
    then have "\<not> sc_index st \<le> low st1 w" using v by auto
    then obtain y where y: "y \<in> stacked st" "ix st y = low st1 w" "(w, y) \<in> (arc m)\<^sup>*" using T1(4) by auto
    then have y0: "y \<in> stacked st0" using T(1) above True v(4) by fastforce
    then have "y \<in> seen st" using seen0 sub by blast
    with y(2) True old(1) have "ix st1 y = ?L" by (simp add: min_def)
    moreover have "(v, y) \<in> (arc m)\<^sup>*" using w(1) y(3) by (rule converse_rtrancl_into_rtrancl)
    ultimately show ?thesis using y0 by blast
  next
    case False
    have "z \<in> seen st" using z(1) v(1) seen0 sub by blast
    with z(2) False old(1) have "ix st1 z = ?L" by (simp add: min_def)
    with z show ?thesis by blast
  qed
  have split: "sc_stack st1 = (T1 @ T) @ v # sc_stack st0" "set (T1 @ T) \<inter> insert v (seen st0) = {}"
    using T(1,2) T1(1,2) v(1) seen0 by auto
  have low_new: "\<forall>(a, b) \<in> arc m. a \<in> set (T1 @ T) \<longrightarrow> b \<in> stacked st0 \<longrightarrow> ?L \<le> ix st1 b"
    using T(1,3) T1(3) old seen0 sub by (fastforce simp: min_le_iff_disj)
  have deps: "d \<in> seen st1 \<and> (d \<in> stacked st0 \<longrightarrow> ?L \<le> ix st1 d)" if "d \<in> insert w D" "(v, d) \<in> arc m" for d
  proof (cases "d = w")
    case True
    then show ?thesis using post w(2) seen0 sub by (auto simp: visited_def)
  next
    case False
    then have "d \<in> seen st" "d \<in> stacked st0 \<longrightarrow> low st v \<le> ix st d" using that vis by (auto simp: visiting_def)
    then show ?thesis using scc_ext_seen [OF ext] old by (auto simp: min_le_iff_disj)
  qed
  have frame: "\<forall>u \<in> seen st0. sc_indices st1 u = sc_indices st0 u \<and> sc_lowlink st1 u = sc_lowlink st0 u"
    using visiting_frame [OF vis] kept by auto
  have "v \<in> seen st1" "?L \<le> ix st1 v" using v old scc_ext_seen [OF ext] by (auto simp: min_le_iff_disj)
  then show ?thesis
    unfolding visiting_def link scc_lower_frame
    using num v old(1) [OF v(1)] frame reach split low_new deps by (intro conjI) auto
qed

section \<open>The end of a visit\<close>

text \<open>What is above the root on the stack, with the root, when all its dependencies have been seen.\<close>

definition scc_finished ::
  "claim gomap \<Rightarrow> string set \<Rightarrow> string \<Rightarrow> scc_state \<Rightarrow> string list \<Rightarrow> scc_state \<Rightarrow> bool" where
  "scc_finished m G v st0 T st \<longleftrightarrow>
     scc_inv m G st0 \<and> scc_inv m (insert v G) st \<and> visiting m v st0 (set (required m v)) st \<and>
     sc_stack st = T @ v # sc_stack st0 \<and> set T \<inter> insert v (seen st0) = {}"

lemma finished_facts:
  assumes "scc_finished m G v st0 T st"
  shows "v \<in> seen st" "v \<notin> seen st0" "stacked st0 \<subseteq> seen st0" "G \<subseteq> stacked st0" "insert v (set T) \<inter> stacked st0 = {}"
    "stacked st = insert v (set T) \<union> stacked st0"
    "\<And>u. u \<in> seen st0 \<Longrightarrow> ix st u = ix st0 u \<and> u \<in> seen st"
    "\<And>u. u \<in> stacked st0 \<Longrightarrow> ix st u < ix st v" "\<And>u. u \<in> set T \<Longrightarrow> ix st v < ix st u"
proof -
  have shape: "scc_shape m st0" "scc_shape m st" "scc_open m G st0" using assms by (auto simp: scc_finished_def scc_inv_def)
  have vis: "visiting m v st0 (set (required m v)) st" and st: "sc_stack st = T @ v # sc_stack st0"
    and T: "set T \<inter> insert v (seen st0) = {}" using assms by (auto simp: scc_finished_def)
  show "v \<in> seen st" "v \<notin> seen st0" using vis by (auto simp: visiting_def)
  show "stacked st0 \<subseteq> seen st0" using shape by (simp add: scc_shape_def)
  then show "insert v (set T) \<inter> stacked st0 = {}" using T \<open>v \<notin> seen st0\<close> by auto
  show "G \<subseteq> stacked st0" using shape by (simp add: scc_open_def)
  show "stacked st = insert v (set T) \<union> stacked st0" using st by auto
  show "ix st u = ix st0 u \<and> u \<in> seen st" if "u \<in> seen st0" for u
    using visiting_frame [OF vis that] by (auto intro: at_cong)
  show "ix st u < ix st v" if "u \<in> stacked st0" for u
    using shape(2) that st by (auto simp: scc_shape_def sorted_wrt_append)
  show "ix st v < ix st u" if "u \<in> set T" for u
    using shape(2) that st by (auto simp: scc_shape_def sorted_wrt_append)
qed

text \<open>The dependencies of what is above the root have been seen, and reach no lower than its low link.\<close>

lemma finished_arcs:
  assumes fin: "scc_finished m G v st0 T st" and arc: "(a, b) \<in> arc m" "a \<in> insert v (set T)"
  shows "b \<in> seen st" "b \<in> stacked st0 \<Longrightarrow> low st v \<le> ix st b"
proof -
  note f = finished_facts [OF fin]
  have vis: "visiting m v st0 (set (required m v)) st" and op: "scc_open m (insert v G) st"
    using fin by (auto simp: scc_finished_def scc_inv_def)
  have v: "b \<in> seen st \<and> (b \<in> stacked st0 \<longrightarrow> low st v \<le> ix st b)" if "a = v"
    using vis arc that by (auto simp: visiting_def arc_def)
  have T: "b \<in> seen st" if "a \<noteq> v"
    using scc_open_arc [OF op arc(1)] arc(2) that f(4,5,6) by blast
  obtain T' where "sc_stack st = T' @ v # sc_stack st0" "\<forall>(a, b) \<in> arc m. a \<in> set T' \<longrightarrow> b \<in> stacked st0 \<longrightarrow> low st v \<le> ix st b"
    using vis by (auto simp: visiting_def)
  moreover from this fin have "T' = T" by (simp add: scc_finished_def)
  ultimately have "b \<in> stacked st0 \<longrightarrow> low st v \<le> ix st b" if "a \<noteq> v" using arc that by auto
  with v T show "b \<in> seen st" "b \<in> stacked st0 \<Longrightarrow> low st v \<le> ix st b" by auto
qed

lemma done_closed:
  assumes "scc_done m st" "(a, b) \<in> (arc m)\<^sup>*" "a \<in> seen st - stacked st"
  shows "b \<in> seen st - stacked st"
  using assms(2,3) by induction (use assms(1) in \<open>auto simp: scc_done_def\<close>)

text \<open>The low link shows a claim below: the root is left on the stack.\<close>

lemma leave_below:
  assumes fin: "scc_finished m G v st0 T st" and low: "low st v \<noteq> ix st v"
  shows "scc_inv m G st" "visited m v st0 st"
proof -
  note f = finished_facts [OF fin]
  have vis: "visiting m v st0 (set (required m v)) st" and op: "scc_open m (insert v G) st"
    using fin by (auto simp: scc_finished_def scc_inv_def)
  have less: "low st v < ix st v" using vis low by (auto simp: visiting_def)
  obtain z where z: "z \<in> stacked st0" "ix st z = low st v" "(v, z) \<in> (arc m)\<^sup>*"
    using vis less by (auto simp: visiting_def)
  have "\<exists>a \<in> G. ix st a \<le> ix st b \<and> (b, a) \<in> (arc m)\<^sup>*" if "b \<in> stacked st" for b
  proof -
    obtain a where a: "a \<in> insert v G" "ix st a \<le> ix st b" "(b, a) \<in> (arc m)\<^sup>*"
      using scc_open_below [OF op] \<open>b \<in> stacked st\<close> by blast
    have "z \<in> stacked st" using z(1) f(6) by blast
    then obtain y where y: "y \<in> insert v G" "ix st y \<le> ix st z" "(z, y) \<in> (arc m)\<^sup>*"
      using scc_open_below [OF op] by blast
    have "y \<in> G" using y(1,2) z(2) less by auto
    show ?thesis
    proof (cases "a = v")
      case True
      then have "(b, y) \<in> (arc m)\<^sup>*" "ix st y \<le> ix st b"
        using a(2,3) y(2,3) z(2,3) less by (auto intro: rtrancl_trans)
      with \<open>y \<in> G\<close> show ?thesis by blast
    qed (use a in blast)
  qed
  moreover have "b \<in> seen st" if "(a, b) \<in> arc m" "a \<in> stacked st - G" for a b
    using finished_arcs(1) [OF fin that(1)] scc_open_arc [OF op that(1)] that(2) by (cases "a = v") auto
  moreover have "(a, b) \<in> (arc m)\<^sup>*" if "a \<in> G" "b \<in> stacked st" "ix st a \<le> ix st b" for a b
    using scc_open_reach [OF op _ that(2,3)] that(1) by simp
  moreover have "G \<subseteq> stacked st" using f(4,6) by blast
  ultimately have "scc_open m G st" unfolding scc_open_def by auto
  then show "scc_inv m G st" using fin by (simp add: scc_finished_def scc_inv_def)
  have "set (T @ [v]) \<inter> seen st0 = {}" using fin f(2) by (auto simp: scc_finished_def)
  moreover have "sc_stack st = (T @ [v]) @ sc_stack st0" using fin by (simp add: scc_finished_def)
  moreover have "scc_ext st0 st" using vis visiting_frame [OF vis] by (auto simp: scc_ext_def visiting_def)
  moreover have "\<forall>(a, b) \<in> arc m. a \<in> set (T @ [v]) \<longrightarrow> b \<in> stacked st0 \<longrightarrow> low st v \<le> ix st0 b"
    using finished_arcs(2) [OF fin] f(3,7) by fastforce
  moreover have "ix st0 z = low st v" using z(1,2) f(3,7) by auto
  ultimately show "visited m v st0 st"
    using less f(1) z(1,3) unfolding visited_def by (intro conjI exI [of _ "T @ [v]"]) auto
qed

text \<open>The low link is the root's own number: what is on top of the stack is a component.\<close>

lemma root_class:
  assumes fin: "scc_finished m G v st0 T st" and low: "low st v = ix st v" and a: "a \<in> insert v (set T)"
  shows "(a, b) \<in> arc m \<Longrightarrow> b \<in> insert v (set T) \<or> b \<in> seen st - stacked st"
    "(a, b) \<in> (arc m)\<^sup>* \<Longrightarrow> b \<in> insert v (set T) \<or> b \<in> seen st - stacked st"
    "(v, a) \<in> (arc m)\<^sup>*" "(a, v) \<in> (arc m)\<^sup>*"
proof -
  note f = finished_facts [OF fin]
  have op: "scc_open m (insert v G) st" and dn: "scc_done m st" using fin by (auto simp: scc_finished_def scc_inv_def)
  have arcs: "b \<in> insert v (set T) \<or> b \<in> seen st - stacked st" if "(a, b) \<in> arc m" "a \<in> insert v (set T)" for a b
    using finished_arcs [OF fin that] low f(8) [of b] f(6) by fastforce
  have star: "b \<in> insert v (set T) \<or> b \<in> seen st - stacked st" if "(a, b) \<in> (arc m)\<^sup>*" "a \<in> insert v (set T)" for a b
    using that
  proof induction
    case (step b c)
    then show ?case using arcs [of b c] done_closed [OF dn, of b c] by blast
  qed simp
  show "(a, b) \<in> arc m \<Longrightarrow> b \<in> insert v (set T) \<or> b \<in> seen st - stacked st" using arcs a by blast
  show "(a, b) \<in> (arc m)\<^sup>* \<Longrightarrow> b \<in> insert v (set T) \<or> b \<in> seen st - stacked st" using star a by blast
  have stacked: "a \<in> stacked st" using a f(6) by blast
  have "ix st v \<le> ix st a" using a f(9) [of a] by auto
  then show "(v, a) \<in> (arc m)\<^sup>*" using scc_open_reach [OF op _ stacked] by blast
  obtain x where x: "x \<in> insert v G" "(a, x) \<in> (arc m)\<^sup>*" using scc_open_below [OF op stacked] by blast
  have "x \<in> stacked st" using x(1) f(4,6) by blast
  then have "x \<in> insert v (set T)" using star [OF x(2) a] by blast
  then have "x = v" using x(1) f(4,5) by blast
  with x show "(a, v) \<in> (arc m)\<^sup>*" by simp
qed

lemma leave_root:
  assumes fin: "scc_finished m G v st0 T st" and low: "low st v = ix st v"
  defines "st1 \<equiv> st\<lparr>sc_stack := sc_stack st0, sc_onStack := (\<lambda>x. x \<notin> set (T @ [v]) \<and> sc_onStack st x),
    sc_sccs := sc_sccs st @ [sort (T @ [v])]\<rparr>"
  shows "scc_inv m G st1" "visited m v st0 st1"
proof -
  note f = finished_facts [OF fin]
  have op: "scc_open m (insert v G) st" and dn: "scc_done m st" and shape: "scc_shape m st"
    and vis: "visiting m v st0 (set (required m v)) st" and st: "sc_stack st = T @ v # sc_stack st0"
    and op0: "scc_open m G st0"
    using fin by (auto simp: scc_finished_def scc_inv_def)
  have same [simp]: "seen st1 = seen st" "sc_indices st1 = sc_indices st" "sc_lowlink st1 = sc_lowlink st" "sc_stack st1 = sc_stack st0"
    "sc_index st1 = sc_index st" "sc_sccs st1 = sc_sccs st @ [sort (T @ [v])]"
    "sc_onStack st1 x = (x \<notin> set (T @ [v]) \<and> sc_onStack st x)" for x
    by (simp_all add: st1_def seen_def)
  have gone: "seen st - stacked st0 = (seen st - stacked st) \<union> insert v (set T)"
    using f(1,5,6) shape by (auto simp: scc_shape_def)
  have "scc_shape m st1"
    using shape f(3,5,6,7) st by (auto simp: scc_shape_def sorted_wrt_append)
  moreover have "scc_done m st1"
  proof -
    have "b \<in> seen st - stacked st0" if "(a, b) \<in> arc m" "a \<in> seen st - stacked st0" for a b
      using root_class(1) [OF fin low _ that(1)] done_closed [OF dn r_into_rtrancl [OF that(1)]] that(2)
      unfolding gone by blast
    then have closed: "\<forall>(a, b) \<in> arc m. a \<in> seen st1 - stacked st1 \<longrightarrow> b \<in> seen st1 - stacked st1" by auto
    have mutual: "b \<in> insert v (set T) \<longleftrightarrow> (a, b) \<in> (arc m)\<^sup>* \<and> (b, a) \<in> (arc m)\<^sup>*" if "a \<in> insert v (set T)" for a b
    proof
      assume "b \<in> insert v (set T)"
      then show "(a, b) \<in> (arc m)\<^sup>* \<and> (b, a) \<in> (arc m)\<^sup>*"
        using root_class(3,4) [OF fin low] that by (blast intro: rtrancl_trans)
    next
      assume "(a, b) \<in> (arc m)\<^sup>* \<and> (b, a) \<in> (arc m)\<^sup>*"
      then show "b \<in> insert v (set T)"
        using root_class(2) [OF fin low that, of b] done_closed [OF dn, of b a] that f(6) by blast
    qed
    have root: "set (sort (T @ [v])) = insert v (set T)" by simp
    have "(\<Union>C \<in> set (sc_sccs st1). set C) = seen st1 - stacked st1"
      using dn unfolding same gone scc_done_def by auto
    moreover have "sorted C \<and> distinct C \<and> C \<noteq> [] \<and> (\<forall>a \<in> set C. \<forall>b. b \<in> set C \<longleftrightarrow> (a, b) \<in> (arc m)\<^sup>* \<and> (b, a) \<in> (arc m)\<^sup>*)"
      if "C \<in> set (sc_sccs st1)" for C
    proof (cases "C \<in> set (sc_sccs st)")
      case True
      then show ?thesis using dn by (auto simp: scc_done_def)
    next
      case False
      then have C: "C = sort (T @ [v])" using that by simp
      moreover have "C \<noteq> []" by (metis C empty_iff insertI1 list.set(1) root)
      moreover have "distinct (T @ [v])"
        using shape st f(9) sorted_wrt_less_distinct [of "\<lambda>a b. ix st b < ix st a" T] by (auto simp: scc_shape_def sorted_wrt_append)
      ultimately show ?thesis using mutual unfolding C root by auto
    qed
    ultimately show ?thesis using closed by (simp add: scc_done_def)
  qed
  moreover have "scc_open m G st1"
  proof -
    have "\<exists>a \<in> G. ix st a \<le> ix st b \<and> (b, a) \<in> (arc m)\<^sup>*" if b: "b \<in> stacked st0" for b
      using scc_open_below [OF op, of b] f(6) f(8) [OF b] b by auto
    moreover have "(a, b) \<in> (arc m)\<^sup>*" if "a \<in> G" "b \<in> stacked st0" "ix st a \<le> ix st b" for a b
      using scc_open_reach [OF op _ _ that(3)] that f(6) by blast
    moreover have "b \<in> seen st" if "(a, b) \<in> arc m" "a \<in> stacked st0 - G" for a b
      using scc_open_arc [OF op that(1)] that f(5,6) by blast
    ultimately show ?thesis using f(4) unfolding scc_open_def by auto
  qed
  ultimately show "scc_inv m G st1" by (simp add: scc_inv_def)
  have "scc_ext st0 st1" using vis visiting_frame [OF vis] by (auto simp: scc_ext_def visiting_def)
  moreover have "sc_index st0 \<le> low st v" using vis low by (simp add: visiting_def)
  ultimately show "visited m v st0 st1" using f(1) low unfolding visited_def by (intro conjI exI [of _ "[]"]) auto
qed

section \<open>Every component, and nothing but components\<close>

lemma leave_ok:
  assumes "scc_inv m G st0" "scc_inv m (insert v G) st" "visiting m v st0 (set (required m v)) st"
  shows "\<exists>st1. scc_leave v st = Some st1 \<and> scc_inv m G st1 \<and> visited m v st0 st1"
proof -
  obtain T where T: "sc_stack st = T @ v # sc_stack st0" "set T \<inter> insert v (seen st0) = {}"
    using assms(3) by (auto simp: visiting_def)
  with assms have fin: "scc_finished m G v st0 T st" by (simp add: scc_finished_def)
  show ?thesis
  proof (cases "low st v = ix st v")
    case True
    have "scc_pop v (sc_stack st) (sc_onStack st) [] = Some (T @ [v], \<lambda>x. x \<notin> set (T @ [v]) \<and> sc_onStack st x, sc_stack st0)"
      unfolding T(1) using T(2) by (subst scc_pop_split) auto
    with leave_root [OF fin True] True show ?thesis by (simp add: scc_leave_def)
  next
    case False
    with leave_below [OF fin False] show ?thesis by (simp add: scc_leave_def)
  qed
qed

lemma visiting_reach:
  assumes inv0: "scc_inv m G st0" and inv: "scc_inv m (insert v G) st" and vis: "visiting m v st0 D st" and a: "a \<in> insert v G"
  shows "(a, v) \<in> (arc m)\<^sup>*"
proof (cases "a = v")
  case False
  obtain T where T: "sc_stack st = T @ v # sc_stack st0" using vis by (auto simp: visiting_def)
  have "a \<in> stacked st0" using a False inv0 by (auto simp: scc_inv_def scc_open_def)
  then have "ix st a < ix st v" using inv T by (auto simp: scc_inv_def scc_shape_def sorted_wrt_append)
  moreover have "scc_open m (insert v G) st" using inv by (simp add: scc_inv_def)
  ultimately show ?thesis using scc_open_reach [of m "insert v G" st a v] a T by simp
qed simp

definition visits :: "claim gomap \<Rightarrow> nat \<Rightarrow> bool" where
  "visits m n \<longleftrightarrow> (\<forall>w st G. scc_inv m G st \<longrightarrow> w \<in> known m \<longrightarrow> w \<notin> seen st \<longrightarrow> (\<forall>a \<in> G. (a, w) \<in> (arc m)\<^sup>*) \<longrightarrow>
     card (known m - seen st) \<le> n \<longrightarrow>
     (\<exists>st1. strongconnect m n w st = Some st1 \<and> scc_inv m G st1 \<and> visited m w st st1))"

lemma visits_step:
  assumes "visits m n" "scc_inv m G st" "w \<in> known m" "w \<notin> seen st" "\<And>a. a \<in> G \<Longrightarrow> (a, w) \<in> (arc m)\<^sup>*"
    "card (known m - seen st) \<le> n"
  obtains st1 where "strongconnect m n w st = Some st1" "scc_inv m G st1" "visited m w st st1"
    "card (known m - seen st1) \<le> n" "seen st \<subseteq> seen st1"
proof -
  obtain st1 where st1: "strongconnect m n w st = Some st1" "scc_inv m G st1" "visited m w st st1"
    using assms unfolding visits_def by blast
  have sub: "seen st \<subseteq> seen st1" using st1(3) scc_ext_seen by (auto simp: visited_def)
  then have "card (known m - seen st1) \<le> card (known m - seen st)" by (intro card_mono) auto
  with that [OF st1 _ sub] assms(6) show ?thesis by simp
qed

lemma connect_ok:
  assumes visits: "visits m n" and inv0: "scc_inv m G st0" and v: "v \<in> known m"
  shows "scc_inv m (insert v G) st \<Longrightarrow> visiting m v st0 D st \<Longrightarrow> card (known m - seen st) \<le> n \<Longrightarrow>
    set ws \<subseteq> set (required m v) \<Longrightarrow>
    \<exists>st1. connect_deps m n v ws st = Some st1 \<and> scc_inv m (insert v G) st1 \<and> visiting m v st0 (D \<union> set ws) st1"
proof (induction ws arbitrary: st D)
  case (Cons w ws)
  have sub: "stacked st0 \<subseteq> seen st0" using inv0 by (simp add: scc_inv_def scc_shape_def)
  have skip: "visiting m v st0 (insert w D) st" if "(v, w) \<in> arc m \<Longrightarrow> w \<in> seen st \<and> w \<notin> stacked st0"
    using Cons.prems(2) that by (auto simp: visiting_def)
  show ?case
  proof (cases "w \<in> known m")
    case False
    then have "visiting m v st0 (insert w D) st" using skip by (auto simp: arc_def)
    from Cons.IH [OF Cons.prems(1) this Cons.prems(3)] Cons.prems(4) False show ?thesis by (auto simp: known_iff)
  next
    case True
    then have arc: "(v, w) \<in> arc m" using v Cons.prems(4) by (simp add: arc_def)
    show ?thesis
    proof (cases "w \<in> seen st")
      case seen: True
      let ?st = "if sc_onStack st w then scc_lower v (ix st w) st else st"
      have "visiting m v st0 (insert w D) ?st" by (rule seen_step [OF Cons.prems(1,2) arc seen])
      moreover have "scc_inv m (insert v G) ?st" "card (known m - seen ?st) \<le> n" using Cons.prems(1,3) by auto
      moreover have "connect_deps m n v (w # ws) st = connect_deps m n v ws ?st" using True seen by (auto simp: known_iff seen_def)
      ultimately show ?thesis using Cons.IH [of ?st "insert w D"] Cons.prems(4) by auto
    next
      case fresh: False
      obtain st1 where st1: "strongconnect m n w st = Some st1" "scc_inv m (insert v G) st1" "visited m w st st1"
        "card (known m - seen st1) \<le> n"
        by (rule visits_step [OF visits Cons.prems(1) True fresh _ Cons.prems(3)])
          (use visiting_reach [OF inv0 Cons.prems(1,2)] arc in \<open>auto intro: rtrancl_into_rtrancl\<close>)
      let ?st = "scc_lower v (low st1 w) st1"
      have "visiting m v st0 (insert w D) ?st"
        by (rule fresh_step [OF Cons.prems(1,2) sub arc fresh st1(2,3)])
      moreover have "connect_deps m n v (w # ws) st = connect_deps m n v ws ?st"
        using True fresh st1(1) by (auto simp: known_iff seen_def)
      ultimately show ?thesis using Cons.IH [of ?st "insert w D"] st1(2,4) Cons.prems(4) by auto
    qed
  qed
qed simp

lemma strongconnect_ok: "visits m n"
proof (induction n)
  case 0
  show ?case by (auto simp: visits_def)
next
  case (Suc n)
  show ?case
    unfolding visits_def
  proof (intro allI impI)
    fix v st G
    assume inv: "scc_inv m G st" and v: "v \<in> known m" "v \<notin> seen st" and reach: "\<forall>a \<in> G. (a, v) \<in> (arc m)\<^sup>*"
      and card: "card (known m - seen st) \<le> Suc n"
    have "known m - seen (scc_enter v st) = (known m - seen st) - {v}" by auto
    then have left: "card (known m - seen (scc_enter v st)) \<le> n" using card v by simp
    note start = enter_step [OF inv v reach]
    from connect_ok [OF Suc inv v(1) start left, of "required m v"] obtain st1
      where "connect_deps m n v (required m v) (scc_enter v st) = Some st1" "scc_inv m (insert v G) st1"
        "visiting m v st (set (required m v)) st1" by auto
    with leave_ok [OF inv] show "\<exists>st1. strongconnect m (Suc n) v st = Some st1 \<and> scc_inv m G st1 \<and> visited m v st st1"
      by auto
  qed
qed

lemma connect_all_ok:
  "scc_inv m {} st \<Longrightarrow> set vs \<subseteq> known m \<Longrightarrow> card (known m - seen st) \<le> n \<Longrightarrow>
   \<exists>st1. connect_all m n vs st = Some st1 \<and> scc_inv m {} st1 \<and> seen st \<union> set vs \<subseteq> seen st1"
proof (induction vs arbitrary: st)
  case (Cons v vs)
  show ?case
  proof (cases "v \<in> seen st")
    case True
    then have "connect_all m n (v # vs) st = connect_all m n vs st" by (simp add: seen_def)
    with Cons.IH [of st] Cons.prems True show ?thesis by auto
  next
    case False
    obtain st1 where st1: "strongconnect m n v st = Some st1" "scc_inv m {} st1" "visited m v st st1"
      "card (known m - seen st1) \<le> n" "seen st \<subseteq> seen st1"
      by (rule visits_step [OF strongconnect_ok Cons.prems(1) _ False _ Cons.prems(3)]) (use Cons.prems(2) in auto)
    moreover have "v \<in> seen st1" using st1(3) by (simp add: visited_def)
    moreover have "connect_all m n (v # vs) st = connect_all m n vs st1" using False st1(1) by (simp add: seen_def)
    ultimately show ?thesis using Cons.IH [of st1] Cons.prems(2) by auto
  qed
qed simp

lemma findSCCs_components:
  obtains sccs where "findSCCs m = Some sccs" "(\<Union>C \<in> set sccs. set C) = known m"
    "\<And>C. C \<in> set sccs \<Longrightarrow> sorted C \<and> distinct C \<and> C \<noteq> []"
    "\<And>C a b. C \<in> set sccs \<Longrightarrow> a \<in> set C \<Longrightarrow> b \<in> set C \<longleftrightarrow> (a, b) \<in> (arc m)\<^sup>* \<and> (b, a) \<in> (arc m)\<^sup>*"
proof -
  have start: "scc_inv m {} scc_start"
    by (simp add: scc_inv_def scc_shape_def scc_done_def scc_open_def scc_start_def seen_def)
  have "card (known m - seen scc_start) \<le> card (known m)" by (rule card_mono) auto
  also have "\<dots> \<le> length m" unfolding known_def by (metis card_length length_map set_map)
  finally have "card (known m - seen scc_start) \<le> length m" .
  with connect_all_ok [OF start, of "sort (map fst m)" "length m"] obtain st
    where st: "connect_all m (length m) (sort (map fst m)) scc_start = Some st" "scc_inv m {} st" "known m \<subseteq> seen st"
    by (auto simp: known_def)
  have "stacked st = {}"
  proof (rule equals0I)
    fix b assume "b \<in> stacked st"
    with st(2) scc_open_below [of m "{}" st b] show False by (simp add: scc_inv_def)
  qed
  moreover have "seen st = known m" using st(2,3) by (auto simp: scc_inv_def scc_shape_def)
  moreover have "scc_done m st" using st(2) by (simp add: scc_inv_def)
  ultimately show ?thesis
    by (intro that [of "sc_sccs st"]) (auto simp: findSCCs_def st(1) scc_done_def)
qed

text \<open>
  C18. Tarjan's algorithm as written returns, without running out of fuel or popping an empty stack, and
  finds the strongly connected components: every claim of the map is in a component, and the component
  of a claim holds exactly the claims it reaches and is reached by, each once and in ascending order.
\<close>
theorem findSCCs_spec:
  "\<exists>sccs. findSCCs m = Some sccs \<and> (\<Union>C \<in> set sccs. set C) = known m \<and>
    (\<forall>C \<in> set sccs. sorted C \<and> distinct C \<and> C \<noteq> [] \<and>
       (\<forall>a \<in> set C. \<forall>b. b \<in> set C \<longleftrightarrow> (a, b) \<in> (arc m)\<^sup>* \<and> (b, a) \<in> (arc m)\<^sup>*))"
  by (rule findSCCs_components [of m]) metis

definition ring :: "claim gomap" where
  "ring = [(''a'', zero_claim\<lparr>cl_RestsOn := zero_rests_on\<lparr>ro_IDs := [''b'', ''c'']\<rparr>\<rparr>),
           (''b'', zero_claim\<lparr>cl_RestsOn := zero_rests_on\<lparr>ro_IDs := [''a'']\<rparr>\<rparr>), (''c'', zero_claim)]"

theorem findSCCs_spec_witness:
  "findSCCs ring = Some [[''c''], [''a'', ''b'']] \<and> (''b'', ''a'') \<in> (arc ring)\<^sup>*"
proof -
  have "findSCCs ring = Some [[''c''], [''a'', ''b'']]" by code_simp
  with findSCCs_spec [of ring] show ?thesis by auto
qed

end
