(* ===== verification/Readiness_Paths.thy ===== *)
theory Readiness_Paths
  imports Strong_Components
begin

text \<open>
  The two breadth-first searches of \<^verbatim>\<open>internal/readiness/readiness.go\<close>: the level-by-level search of
  \<^verbatim>\<open>Compute\<close>, which gives every claim a representative path to each claim it requires, and
  \<^verbatim>\<open>getShortestCycle\<close>. The lemmas show that the representative path is the least of the shortest
  paths, and that the cycle is a cycle.
\<close>

section \<open>Paths\<close>

fun pathLess :: "string list \<Rightarrow> string list \<Rightarrow> bool" where
  "pathLess (a # as) (b # bs) = (if a \<noteq> b then a < b else pathLess as bs)"
| "pathLess as bs = (length as < length bs)"

lemma Nil_less_iff: "([] :: string list) < bs \<longleftrightarrow> bs \<noteq> []"
  by (cases bs) auto

lemma pathLess_iff [simp]: "pathLess a b \<longleftrightarrow> a < b"
  by (induction a b rule: pathLess.induct) (auto simp: Nil_less_iff)

section \<open>The levels of the search\<close>

text \<open>What one level collects: the next level, the best parents, and what the whole search collects.\<close>

record bfs_level =
  bl_nextLevel :: "string list"
  bl_bestParent :: "string gomap"
  bl_bestMissing :: "string list gomap"
  bl_invalidRoot :: "string list option"

text \<open>A path shorter than the one held, or as long and less in its prefix.\<close>

definition better :: "string list \<Rightarrow> string list option \<Rightarrow> bool" where
  "better uPath held =
     (case held of
        None \<Rightarrow> True
      | Some p \<Rightarrow> length uPath + 1 < length p \<or> length uPath + 1 = length p \<and> pathLess uPath (butlast p))"

definition bfs_dep ::
  "claim gomap \<Rightarrow> claim gomap \<Rightarrow> string \<Rightarrow> (string \<rightharpoonup> nat) \<Rightarrow> string list gomap \<Rightarrow> string \<Rightarrow> string \<Rightarrow> bfs_level \<Rightarrow> bfs_level" where
  "bfs_dep byID eligible i dist paths u dep l =
     (let uPath = the (gm_get paths u) in
      if gm_get byID dep = None then
        (if better uPath (gm_get (bl_bestMissing l) dep)
         then l\<lparr>bl_bestMissing := gm_put dep (uPath @ [dep]) (bl_bestMissing l)\<rparr> else l)
      else
        let l1 = (if dep = i \<and> gm_get eligible i = None \<and> better uPath (bl_invalidRoot l)
                  then l\<lparr>bl_invalidRoot := Some (uPath @ [i])\<rparr> else l)
        in if dist dep \<noteq> None then l1
           else
             let l2 = (case gm_get (bl_bestParent l1) dep of
                         None \<Rightarrow> l1\<lparr>bl_bestParent := gm_put dep u (bl_bestParent l1)\<rparr>
                       | Some prev \<Rightarrow>
                           if pathLess uPath (the (gm_get paths prev)) then l1\<lparr>bl_bestParent := gm_put dep u (bl_bestParent l1)\<rparr>
                           else l1)
             in if gm_get eligible dep \<noteq> None \<and> dep \<notin> set (bl_nextLevel l2)
                then l2\<lparr>bl_nextLevel := bl_nextLevel l2 @ [dep]\<rparr> else l2)"

definition bfs_claim ::
  "claim gomap \<Rightarrow> claim gomap \<Rightarrow> string \<Rightarrow> (string \<rightharpoonup> nat) \<Rightarrow> string list gomap \<Rightarrow> string \<Rightarrow> bfs_level \<Rightarrow> bfs_level" where
  "bfs_claim byID eligible i dist paths u l = fold (bfs_dep byID eligible i dist paths u) (required byID u) l"

text \<open>The paths of the claims found on a level, from their best parents.\<close>

definition extend_dist :: "string gomap \<Rightarrow> (string \<rightharpoonup> nat) \<Rightarrow> (string \<rightharpoonup> nat)" where
  "extend_dist best dist = fold (\<lambda>(dep, p) d. d(dep \<mapsto> the (dist p) + 1)) best dist"

definition extend_paths :: "string gomap \<Rightarrow> string list gomap \<Rightarrow> string list gomap" where
  "extend_paths best paths = fold (\<lambda>(dep, p) ps. gm_put dep (the (gm_get paths p) @ [dep]) ps) best paths"

record bfs_result =
  br_paths :: "string list gomap"
  br_bestMissing :: "string list gomap"
  br_invalidRoot :: "string list option"

text \<open>What one edge does to each part of the level.\<close>

lemma bfs_dep_nextLevel:
  "bl_nextLevel (bfs_dep byID el i dist paths u dep l) =
   (if dep \<in> known byID \<and> dist dep = None \<and> dep \<in> known el \<and> dep \<notin> set (bl_nextLevel l)
    then bl_nextLevel l @ [dep] else bl_nextLevel l)"
  by (cases "gm_get byID dep"; cases "gm_get (bl_bestParent l) dep") (auto simp: bfs_dep_def Let_def known_iff)

lemma bfs_dep_bestParent:
  "gm_get (bl_bestParent (bfs_dep byID el i dist paths u dep l)) d =
   (if d = dep \<and> dep \<in> known byID \<and> dist dep = None then
      Some (case gm_get (bl_bestParent l) d of
              None \<Rightarrow> u
            | Some prev \<Rightarrow> if the (gm_get paths u) < the (gm_get paths prev) then u else prev)
    else gm_get (bl_bestParent l) d)"
  by (cases "gm_get byID dep"; cases "gm_get (bl_bestParent l) dep") (auto simp: bfs_dep_def Let_def known_iff)

lemma bfs_dep_bestMissing:
  "gm_get (bl_bestMissing (bfs_dep byID el i dist paths u dep l)) d =
   (if d = dep \<and> dep \<notin> known byID \<and> better (the (gm_get paths u)) (gm_get (bl_bestMissing l) d)
    then Some (the (gm_get paths u) @ [dep]) else gm_get (bl_bestMissing l) d)"
  by (cases "gm_get byID dep"; cases "gm_get (bl_bestParent l) dep") (auto simp: bfs_dep_def Let_def known_iff)

lemma bfs_dep_invalidRoot:
  "bl_invalidRoot (bfs_dep byID el i dist paths u dep l) =
   (if dep = i \<and> i \<in> known byID \<and> i \<notin> known el \<and> better (the (gm_get paths u)) (bl_invalidRoot l)
    then Some (the (gm_get paths u) @ [i]) else bl_invalidRoot l)"
  by (cases "gm_get byID dep"; cases "gm_get (bl_bestParent l) dep") (auto simp: bfs_dep_def Let_def known_iff)

text \<open>A level as the list of its edges.\<close>

definition level_edges :: "claim gomap \<Rightarrow> string list \<Rightarrow> (string \<times> string) list" where
  "level_edges byID level = concat (map (\<lambda>u. map (Pair u) (required byID u)) level)"

lemma set_level_edges [simp]: "(u, d) \<in> set (level_edges byID level) \<longleftrightarrow> u \<in> set level \<and> d \<in> set (required byID u)"
  by (auto simp: level_edges_def)

lemma fold_bfs_claim:
  "fold (bfs_claim byID el i dist paths) level l =
   fold (\<lambda>(u, dep). bfs_dep byID el i dist paths u dep) (level_edges byID level) l"
  by (induction level arbitrary: l) (simp_all add: level_edges_def bfs_claim_def fold_map comp_def)

lemma fold_nextLevel:
  "set (bl_nextLevel (fold (\<lambda>(u, dep). bfs_dep byID el i dist paths u dep) es l)) =
   set (bl_nextLevel l) \<union> {d \<in> snd ` set es. d \<in> known byID \<and> dist d = None \<and> d \<in> known el}"
  by (induction es arbitrary: l) (auto simp: bfs_dep_nextLevel split: if_splits)

text \<open>The two folds that choose: of the parents by their paths, of the paths by length and prefix.\<close>

definition pick :: "(string \<Rightarrow> string list) \<Rightarrow> string \<Rightarrow> string option \<Rightarrow> string option" where
  "pick P u held = Some (case held of None \<Rightarrow> u | Some v \<Rightarrow> if P u < P v then u else v)"

definition hold :: "string \<Rightarrow> string list \<Rightarrow> string list option \<Rightarrow> string list option" where
  "hold d uPath held = (if better uPath held then Some (uPath @ [d]) else held)"

definition parents :: "string \<Rightarrow> (string \<times> string) list \<Rightarrow> string list" where
  "parents d es = map fst (filter (\<lambda>e. snd e = d) es)"

lemma parents_simps [simp]:
  "parents d [] = []" "parents d ((u, e) # es) = (if e = d then u # parents d es else parents d es)"
  "u \<in> set (parents d es) \<longleftrightarrow> (u, d) \<in> set es"
  by (auto simp: parents_def image_iff)

lemma fold_bestParent:
  "gm_get (bl_bestParent (fold (\<lambda>(u, dep). bfs_dep byID el i dist paths u dep) es l)) d =
   (if d \<in> known byID \<and> dist d = None
    then fold (pick (\<lambda>u. the (gm_get paths u))) (parents d es) (gm_get (bl_bestParent l) d)
    else gm_get (bl_bestParent l) d)"
  by (induction es arbitrary: l) (auto simp: bfs_dep_bestParent pick_def)

lemma fold_bestMissing:
  "gm_get (bl_bestMissing (fold (\<lambda>(u, dep). bfs_dep byID el i dist paths u dep) es l)) d =
   (if d \<notin> known byID then fold (\<lambda>u. hold d (the (gm_get paths u))) (parents d es) (gm_get (bl_bestMissing l) d)
    else gm_get (bl_bestMissing l) d)"
  by (induction es arbitrary: l) (auto simp: bfs_dep_bestMissing hold_def)

lemma fold_invalidRoot:
  "bl_invalidRoot (fold (\<lambda>(u, dep). bfs_dep byID el i dist paths u dep) es l) =
   (if i \<in> known byID \<and> i \<notin> known el then fold (\<lambda>u. hold i (the (gm_get paths u))) (parents i es) (bl_invalidRoot l)
    else bl_invalidRoot l)"
  by (induction es arbitrary: l) (auto simp: bfs_dep_invalidRoot hold_def)

lemma fold_pick:
  "fold (pick P) us held = None \<longleftrightarrow> us = [] \<and> held = None"
  "fold (pick P) us held = Some u \<Longrightarrow> (u \<in> set us \<or> held = Some u) \<and>
     (\<forall>v. v \<in> set us \<or> held = Some v \<longrightarrow> P u \<le> P v)"
proof (induction us arbitrary: held)
  case (Cons v us)
  {
    case 1
    show ?case using Cons.IH(1) [of "pick P v held"] by (auto simp: pick_def)
  next
    case 2
    then have f: "fold (pick P) us (pick P v held) = Some u" by simp
    show ?case
    proof (cases held)
      case None
      with Cons.IH(2) [OF f] show ?thesis by (auto simp: pick_def)
    next
      case (Some h)
      with Cons.IH(2) [OF f] show ?thesis by (auto simp: pick_def split: if_splits dest: order_trans less_imp_le)
    qed
  }
qed auto

text \<open>Shorter paths first, and paths of one length in their order.\<close>

definition ahead :: "string list \<Rightarrow> string list \<Rightarrow> bool" where
  "ahead p q \<longleftrightarrow> length p < length q \<or> length p = length q \<and> p \<le> q"

lemma ahead_refl [simp]: "ahead p p"
  by (simp add: ahead_def)

lemma ahead_trans: "ahead p q \<Longrightarrow> ahead q r \<Longrightarrow> ahead p r"
  by (auto simp: ahead_def)

lemma ahead_linear: "ahead p q \<or> ahead q p"
  by (auto simp: ahead_def)

lemma ahead_antisym: "ahead p q \<Longrightarrow> ahead q p \<Longrightarrow> p = q"
  by (auto simp: ahead_def)

lemma snoc_less: "length p = length q \<Longrightarrow> p @ [d] < q @ [d] \<longleftrightarrow> p < (q :: string list)"
  by (induction p q rule: list_induct2) auto

lemma snoc_le: "length p = length q \<Longrightarrow> p @ [d] \<le> q @ [d] \<longleftrightarrow> p \<le> (q :: string list)"
  using snoc_less [of p q d] by (auto simp: le_less)

lemma ahead_snoc: "ahead (p @ [d]) (q @ [d]) \<longleftrightarrow> ahead p q"
  by (auto simp: ahead_def snoc_le)

lemma better_snoc: "better p (Some (q @ [d])) \<longleftrightarrow> \<not> ahead (q @ [d]) (p @ [d])"
  by (auto simp: better_def ahead_snoc) (auto simp: ahead_def not_le)

lemma fold_hold:
  assumes "held = None \<or> (\<exists>q. held = Some (q @ [d]))"
  shows "fold (\<lambda>u. hold d (P u)) us held = None \<longleftrightarrow> us = [] \<and> held = None"
    "fold (\<lambda>u. hold d (P u)) us held = Some p \<Longrightarrow>
       (p \<in> (\<lambda>u. P u @ [d]) ` set us \<or> held = Some p) \<and>
       (\<forall>q. q \<in> (\<lambda>u. P u @ [d]) ` set us \<or> held = Some q \<longrightarrow> ahead p q)"
proof -
  show "fold (\<lambda>u. hold d (P u)) us held = None \<longleftrightarrow> us = [] \<and> held = None"
    using assms
  proof (induction us arbitrary: held)
    case (Cons u us)
    have "hold d (P u) held \<noteq> None" using Cons.prems by (auto simp: hold_def better_def)
    moreover have "hold d (P u) held = None \<or> (\<exists>q. hold d (P u) held = Some (q @ [d]))"
      using Cons.prems by (auto simp: hold_def)
    ultimately show ?case using Cons.IH by simp
  qed simp
  show "(p \<in> (\<lambda>u. P u @ [d]) ` set us \<or> held = Some p) \<and>
       (\<forall>q. q \<in> (\<lambda>u. P u @ [d]) ` set us \<or> held = Some q \<longrightarrow> ahead p q)"
    if "fold (\<lambda>u. hold d (P u)) us held = Some p"
    using that assms
  proof (induction us arbitrary: held)
    case (Cons u us)
    let ?h = "hold d (P u) held"
    have "?h = None \<or> (\<exists>q. ?h = Some (q @ [d]))" using Cons.prems by (auto simp: hold_def)
    from Cons.IH [OF _ this] Cons.prems(1)
    have IH: "p \<in> (\<lambda>u. P u @ [d]) ` set us \<or> ?h = Some p"
      "\<forall>q. q \<in> (\<lambda>u. P u @ [d]) ` set us \<or> ?h = Some q \<longrightarrow> ahead p q" by auto
    show ?case
    proof (cases held)
      case None
      then have "?h = Some (P u @ [d])" by (simp add: hold_def better_def)
      with IH None show ?thesis by auto
    next
      case (Some h)
      then obtain q where q: "held = Some (q @ [d])" using Cons.prems(2) by auto
      then have h: "?h = Some (if ahead (q @ [d]) (P u @ [d]) then q @ [d] else P u @ [d])"
        by (simp add: hold_def better_snoc)
      show ?thesis
      proof (cases "ahead (q @ [d]) (P u @ [d])")
        case True
        with h have "?h = Some (q @ [d])" by simp
        with IH have "ahead p (q @ [d])" "p \<in> (\<lambda>u. P u @ [d]) ` set us \<or> p = q @ [d]" by auto
        moreover from this(1) True have "ahead p (P u @ [d])" by (rule ahead_trans)
        ultimately show ?thesis using IH(2) q by auto
      next
        case False
        with h have "?h = Some (P u @ [d])" by simp
        with IH have "ahead p (P u @ [d])" "p \<in> (\<lambda>u. P u @ [d]) ` set us \<or> p = P u @ [d]" by auto
        moreover from this(1) have "ahead p (q @ [d])" by (rule ahead_trans) (use False ahead_linear in blast)
        ultimately show ?thesis using IH(2) q by auto
      qed
    qed
  qed auto
qed

lemma bestParent_wf:
  "gm_wf (bl_bestParent l) \<Longrightarrow> gm_wf (bl_bestParent (fold (\<lambda>(u, dep). bfs_dep byID el i dist paths u dep) es l))"
proof (induction es arbitrary: l)
  case (Cons e es)
  obtain u dep where e: "e = (u, dep)" by (cases e)
  have "gm_wf (bl_bestParent (bfs_dep byID el i dist paths u dep l))"
    using Cons.prems by (cases "gm_get byID dep"; cases "gm_get (bl_bestParent l) dep") (auto simp: bfs_dep_def Let_def)
  then show ?case using Cons.IH e by simp
qed simp

lemma extend_dist_get:
  "gm_wf best \<Longrightarrow> extend_dist best dist d =
   (case gm_get best d of None \<Rightarrow> dist d | Some p \<Rightarrow> Some (the (dist p) + 1))"
proof -
  have "gm_wf best \<Longrightarrow> fold (\<lambda>(dep, p) f. f(dep \<mapsto> g p)) best f d = (case gm_get best d of None \<Rightarrow> f d | Some p \<Rightarrow> Some (g p))"
    for f :: "string \<rightharpoonup> nat" and g
    by (induction best arbitrary: f) (auto split: option.splits simp: map_of_eq_None_iff dest!: map_of_SomeD, force+)
  then show "gm_wf best \<Longrightarrow> extend_dist best dist d =
   (case gm_get best d of None \<Rightarrow> dist d | Some p \<Rightarrow> Some (the (dist p) + 1))" by (simp add: extend_dist_def split: option.split)
qed

lemma extend_paths_get:
  "gm_wf best \<Longrightarrow> gm_get (extend_paths best paths) d =
   (case gm_get best d of None \<Rightarrow> gm_get paths d | Some p \<Rightarrow> Some (the (gm_get paths p) @ [d]))"
proof -
  have "gm_wf best \<Longrightarrow> gm_get (fold (\<lambda>(dep, p) ps. gm_put dep (g dep p) ps) best ps) d =
      (case gm_get best d of None \<Rightarrow> gm_get ps d | Some p \<Rightarrow> Some (g d p))" for ps :: "string list gomap" and g
    by (induction best arbitrary: ps) (auto split: option.splits simp: map_of_eq_None_iff dest!: map_of_SomeD, force+)
  then show "gm_wf best \<Longrightarrow> gm_get (extend_paths best paths) d =
   (case gm_get best d of None \<Rightarrow> gm_get paths d | Some p \<Rightarrow> Some (the (gm_get paths p) @ [d]))" by (simp add: extend_paths_def)
qed

section \<open>The search\<close>

definition run_level ::
  "claim gomap \<Rightarrow> claim gomap \<Rightarrow> string \<Rightarrow> (string \<rightharpoonup> nat) \<Rightarrow> string list gomap \<Rightarrow> string list gomap \<Rightarrow>
   string list option \<Rightarrow> string list \<Rightarrow> bfs_level" where
  "run_level byID eligible i dist paths missing invalid level =
     fold (bfs_claim byID eligible i dist paths) level
       \<lparr>bl_nextLevel = [], bl_bestParent = [], bl_bestMissing = missing, bl_invalidRoot = invalid\<rparr>"

lemma run_level_parts:
  fixes byID el i dist paths missing invalid level
  defines "l \<equiv> run_level byID el i dist paths missing invalid level" and "es \<equiv> level_edges byID level"
  shows "set (bl_nextLevel l) = {d \<in> snd ` set es. d \<in> known byID \<and> dist d = None \<and> d \<in> known el}"
    "gm_get (bl_bestParent l) d =
       (if d \<in> known byID \<and> dist d = None then fold (pick (\<lambda>u. the (gm_get paths u))) (parents d es) None else None)"
    "gm_get (bl_bestMissing l) d =
       (if d \<notin> known byID then fold (\<lambda>u. hold d (the (gm_get paths u))) (parents d es) (gm_get missing d) else gm_get missing d)"
    "bl_invalidRoot l =
       (if i \<in> known byID \<and> i \<notin> known el then fold (\<lambda>u. hold i (the (gm_get paths u))) (parents i es) invalid else invalid)"
    "gm_wf (bl_bestParent l)"
  unfolding l_def es_def run_level_def fold_bfs_claim
  by (simp_all add: fold_nextLevel fold_bestParent fold_bestMissing fold_invalidRoot bestParent_wf)

definition unfound :: "claim gomap \<Rightarrow> (string \<rightharpoonup> nat) \<Rightarrow> nat" where
  "unfound el dist = card {d \<in> known el. dist d = None}"

lemma unfound_less:
  fixes byID el i dist paths missing invalid level
  defines "l \<equiv> run_level byID el i dist paths missing invalid level"
  shows "unfound el (extend_dist (bl_bestParent l) dist) \<le> unfound el dist"
    "bl_nextLevel l \<noteq> [] \<Longrightarrow> unfound el (extend_dist (bl_bestParent l) dist) < unfound el dist"
proof -
  note parts = run_level_parts [of byID el i dist paths missing invalid level, folded l_def]
  have get: "extend_dist (bl_bestParent l) dist d = None \<longleftrightarrow> dist d = None \<and> gm_get (bl_bestParent l) d = None" for d
    using extend_dist_get [OF parts(5), of dist d] by (auto split: option.splits)
  then have sub: "{d \<in> known el. extend_dist (bl_bestParent l) dist d = None} \<subseteq> {d \<in> known el. dist d = None}" by auto
  then show "unfound el (extend_dist (bl_bestParent l) dist) \<le> unfound el dist"
    unfolding unfound_def by (intro card_mono) auto
  assume "bl_nextLevel l \<noteq> []"
  then obtain d where d: "d \<in> set (bl_nextLevel l)" by fastforce
  then obtain u where u: "(u, d) \<in> set (level_edges byID level)" "d \<in> known byID" "dist d = None" "d \<in> known el"
    unfolding parts(1) by auto
  then have "parents d (level_edges byID level) \<noteq> []" using parents_simps(3) by (metis empty_iff empty_set)
  then have "gm_get (bl_bestParent l) d \<noteq> None" using u by (simp add: parts(2) fold_pick(1))
  then show "unfound el (extend_dist (bl_bestParent l) dist) < unfound el dist"
    unfolding unfound_def
  proof (intro psubset_card_mono psubsetI notI)
    assume parent: "gm_get (bl_bestParent l) d \<noteq> None"
      and eq: "{d \<in> known el. extend_dist (bl_bestParent l) dist d = None} = {d \<in> known el. dist d = None}"
    have "d \<in> {d \<in> known el. dist d = None}" "d \<notin> {d \<in> known el. extend_dist (bl_bestParent l) dist d = None}"
      using parent u get [of d] by auto
    with eq show False by blast
  qed (use sub in auto)
qed

function bfs_loop ::
  "claim gomap \<Rightarrow> claim gomap \<Rightarrow> string \<Rightarrow> (string \<rightharpoonup> nat) \<Rightarrow> string list gomap \<Rightarrow> string list gomap \<Rightarrow>
   string list option \<Rightarrow> string list \<Rightarrow> bfs_result" where
  "bfs_loop byID eligible i dist paths missing invalid level =
     (if level = [] then \<lparr>br_paths = paths, br_bestMissing = missing, br_invalidRoot = invalid\<rparr>
      else
        let l = run_level byID eligible i dist paths missing invalid level
        in bfs_loop byID eligible i (extend_dist (bl_bestParent l) dist) (extend_paths (bl_bestParent l) paths)
             (bl_bestMissing l) (bl_invalidRoot l) (bl_nextLevel l))"
  by pat_completeness auto

termination
proof (relation "measures [\<lambda>(byID, el, i, dist, paths, missing, invalid, level). unfound el dist,
    \<lambda>(byID, el, i, dist, paths, missing, invalid, level). length level]", goal_cases)
  case 1
  show ?case by simp
next
  case (2 byID el i dist paths missing invalid level l)
  then show ?case
    using unfound_less [where byID = byID and el = el and i = i and dist = dist and paths = paths and missing = missing and
      invalid = invalid and level = level] by (cases "bl_nextLevel l") (auto simp: le_less)
qed

declare bfs_loop.simps [simp del]

definition bfs :: "claim gomap \<Rightarrow> claim gomap \<Rightarrow> string \<Rightarrow> bfs_result" where
  "bfs byID eligible i = bfs_loop byID eligible i [i \<mapsto> 0] [(i, [i])] [] None [i]"

section \<open>Representative paths are least among the shortest\<close>

text \<open>A path from \<open>i\<close> along declared dependencies, each claim after the first being one that can be consumed.\<close>

inductive route :: "claim gomap \<Rightarrow> claim gomap \<Rightarrow> string \<Rightarrow> string list \<Rightarrow> bool" for byID el i where
  start: "route byID el i [i]"
| extend: "route byID el i p \<Longrightarrow> p = [i] \<or> last p \<in> known el \<Longrightarrow> d \<in> set (required byID (last p)) \<Longrightarrow>
    route byID el i (p @ [d])"

definition shortest :: "claim gomap \<Rightarrow> claim gomap \<Rightarrow> string \<Rightarrow> string \<Rightarrow> string list \<Rightarrow> bool" where
  "shortest byID el i d p \<longleftrightarrow> route byID el i p \<and> last p = d \<and> length p > 1 \<and>
     (\<forall>q. route byID el i q \<longrightarrow> last q = d \<longrightarrow> length q > 1 \<longrightarrow> ahead p q)"

lemma route_hd: "route byID el i p \<Longrightarrow> p \<noteq> [] \<and> hd p = i"
  by (induction rule: route.induct) auto

lemma route_steps: "route byID el i p \<Longrightarrow> successively (\<lambda>a b. b \<in> set (required byID a)) p"
  by (induction rule: route.induct) (auto simp: successively_append_iff dest: route_hd)

lemma route_length1: "route byID el i p \<Longrightarrow> length p \<le> 1 \<Longrightarrow> p = [i]"
  by (cases rule: route.cases) (auto dest: route_hd)

lemma route_snoc:
  assumes "route byID el i q" "length q > 1"
  obtains p where "q = p @ [last q]" "route byID el i p" "p = [i] \<or> last p \<in> known el" "last q \<in> set (required byID (last p))"
  using assms by (cases rule: route.cases) auto

lemma required_known: "d \<in> set (required byID u) \<Longrightarrow> u \<in> known byID"
  by (cases "gm_get byID u") (auto simp: required_def known_iff)

lemma route_known: "route byID el i p \<Longrightarrow> i \<in> known byID \<Longrightarrow> last p \<in> known byID \<Longrightarrow> set p \<subseteq> known byID"
  by (induction rule: route.induct) (auto dest: required_known)

lemma shortest_unique: "shortest byID el i d p \<Longrightarrow> shortest byID el i d q \<Longrightarrow> p = q"
  by (auto simp: shortest_def intro: ahead_antisym)

text \<open>The state before level \<open>k\<close>: everything no further than \<open>k\<close> steps away has been found.\<close>

definition best :: "claim gomap \<Rightarrow> claim gomap \<Rightarrow> string \<Rightarrow> nat \<Rightarrow> string \<Rightarrow> string list option \<Rightarrow> bool" where
  "best byID el i k d held \<longleftrightarrow>
     (\<forall>p. held = Some p \<longrightarrow> shortest byID el i d p) \<and>
     (\<forall>q. route byID el i q \<longrightarrow> last q = d \<longrightarrow> 1 < length q \<longrightarrow> length q \<le> k + 1 \<longrightarrow> held \<noteq> None)"

definition bfs_inv ::
  "claim gomap \<Rightarrow> claim gomap \<Rightarrow> string \<Rightarrow> nat \<Rightarrow> (string \<rightharpoonup> nat) \<Rightarrow> string list gomap \<Rightarrow> string list gomap \<Rightarrow>
   string list option \<Rightarrow> string list \<Rightarrow> bool" where
  "bfs_inv byID el i k dist paths missing invalid level \<longleftrightarrow>
     gm_wf paths \<and> (\<forall>d. dist d \<noteq> None \<longleftrightarrow> gm_get paths d \<noteq> None) \<and> gm_get paths i = Some [i] \<and>
     (\<forall>d \<in> known byID - {i}. best byID el i k d (gm_get paths d)) \<and>
     (\<forall>d. d \<notin> known byID \<longrightarrow> gm_get paths d = None) \<and>
     (\<forall>d p. gm_get paths d = Some p \<longrightarrow> length p \<le> k + 1) \<and>
     (\<forall>d. d \<in> set level \<longleftrightarrow> (\<exists>p. gm_get paths d = Some p \<and> length p = k + 1 \<and> (d \<in> known el \<or> k = 0))) \<and>
     (\<forall>d. d \<notin> known byID \<longrightarrow> best byID el i k d (gm_get missing d)) \<and>
     (\<forall>d. d \<in> known byID \<longrightarrow> gm_get missing d = None) \<and>
     (i \<notin> known el \<longrightarrow> best byID el i k i invalid) \<and> (i \<in> known el \<longrightarrow> invalid = None)"

lemma bfs_inv_path:
  assumes "bfs_inv byID el i k dist paths missing invalid level" "gm_get paths u = Some p"
  shows "route byID el i p" "last p = u" "u \<in> known byID" "\<And>q. route byID el i q \<Longrightarrow> last q = u \<Longrightarrow> ahead p q"
proof -
  show u: "u \<in> known byID" using assms by (cases "u \<in> known byID") (auto simp: bfs_inv_def)
  have *: "route byID el i p \<and> last p = u \<and> (\<forall>q. route byID el i q \<longrightarrow> last q = u \<longrightarrow> ahead p q)"
  proof (cases "u = i")
    case True
    then have p: "p = [i]" using assms by (simp add: bfs_inv_def)
    have "ahead [i] q" if "route byID el i q" for q
      using route_length1 [OF that] route_hd [OF that] by (cases "length q \<le> 1") (auto simp: ahead_def)
    with p True show ?thesis by (auto intro: route.start)
  next
    case False
    then have "shortest byID el i u p" using assms u by (auto simp: bfs_inv_def best_def)
    moreover have "length q > 1" if "route byID el i q" "last q = u" for q
      using route_length1 [OF that(1)] that(2) False by (cases "length q \<le> 1") auto
    ultimately show ?thesis by (auto simp: shortest_def)
  qed
  then show "route byID el i p" "last p = u" "\<And>q. route byID el i q \<Longrightarrow> last q = u \<Longrightarrow> ahead p q" by auto
qed

lemma bfs_inv_length: "bfs_inv byID el i k dist paths missing invalid level \<Longrightarrow> gm_get paths d = Some p \<Longrightarrow> length p \<le> k + 1"
  by (simp add: bfs_inv_def)

lemma bfs_inv_level:
  "bfs_inv byID el i k dist paths missing invalid level \<Longrightarrow> gm_get paths d = Some p \<Longrightarrow> length p = k + 1 \<Longrightarrow>
   d \<in> known el \<or> k = 0 \<Longrightarrow> d \<in> set level"
  by (simp add: bfs_inv_def)

text \<open>Of a path one step longer than what has been found, the last step leaves the current level.\<close>

lemma parent_on_level:
  assumes inv: "bfs_inv byID el i k dist paths missing invalid level"
    and q: "route byID el i q" "length q = k + 2"
    and far: "\<And>r. route byID el i r \<Longrightarrow> last r = last q \<Longrightarrow> length r > 1 \<Longrightarrow> k + 2 \<le> length r"
  shows "\<exists>u. (u, last q) \<in> set (level_edges byID level) \<and> ahead (the (gm_get paths u) @ [last q]) q"
proof -
  from q obtain p where p: "q = p @ [last q]" "route byID el i p" "p = [i] \<or> last p \<in> known el"
    "last q \<in> set (required byID (last p))" using route_snoc [OF q(1)] by auto
  let ?u = "last p"
  have len: "length p = k + 1" using p(1) q(2) by (metis add_2_eq_Suc' diff_Suc_1 length_append_singleton Suc_eq_plus1)
  have u: "?u \<in> known byID" using p(4) by (rule required_known)
  have "gm_get paths ?u \<noteq> None"
  proof (cases "?u = i")
    case True
    then show ?thesis using inv by (simp add: bfs_inv_def)
  next
    case False
    then have "best byID el i k ?u (gm_get paths ?u)" using inv u by (simp add: bfs_inv_def)
    moreover have "length p > 1" using route_length1 [OF p(2)] False by (cases "length p \<le> 1") auto
    ultimately show ?thesis using p(2) len by (simp add: best_def)
  qed
  then obtain P where P: "gm_get paths ?u = Some P" by blast
  note bp = bfs_inv_path [OF inv P]
  have ah: "ahead P p" by (rule bp(4) [OF p(2) refl])
  have root: "P = [i] \<or> last P \<in> known el"
    using p(3) bp(2) inv P by (auto simp: bfs_inv_def)
  then have "route byID el i (P @ [last q])" using bp(1,2) p(4) by (intro route.extend) auto
  from far [OF this] have "k + 1 \<le> length P" using route_hd [OF bp(1)] by (cases P) auto
  moreover have "length P \<le> length p" using ah by (auto simp: ahead_def)
  ultimately have lenP: "length P = k + 1" using len by simp
  have "?u \<in> set level"
    using inv P lenP p(3) len by (auto simp: bfs_inv_def)
  moreover have "ahead (P @ [last q]) q" using ah p(1) ahead_snoc by metis
  ultimately show ?thesis using p(4) P by (intro exI [of _ ?u]) auto
qed

lemma best_found:
  "best byID el i k d held \<Longrightarrow> route byID el i q \<Longrightarrow> last q = d \<Longrightarrow> 1 < length q \<Longrightarrow> length q \<le> k + 1 \<Longrightarrow> held \<noteq> None"
  by (auto simp: best_def)

lemma best_far: "best byID el i k d None \<Longrightarrow> route byID el i r \<Longrightarrow> last r = d \<Longrightarrow> length r > 1 \<Longrightarrow> k + 2 \<le> length r"
  by (fastforce simp: best_def)

text \<open>A level chooses a least shortest path for every claim it can be first to reach.\<close>

lemma level_best:
  assumes inv: "bfs_inv byID el i k dist paths missing invalid level"
    and held: "best byID el i k d held" "held = None \<or> (\<exists>q. held = Some (q @ [d]))"
  shows "best byID el i (k + 1) d (fold (\<lambda>u. hold d (the (gm_get paths u))) (parents d (level_edges byID level)) held)"
    (is "best byID el i (k + 1) d ?h")
proof -
  let ?P = "\<lambda>u. the (gm_get paths u)" and ?us = "parents d (level_edges byID level)"
  note chosen = fold_hold [OF held(2), where P = ?P and us = ?us]
  have step: "route byID el i (?P u @ [d]) \<and> length (?P u @ [d]) = k + 2" if "u \<in> set ?us" for u
  proof -
    have u: "u \<in> set level" "d \<in> set (required byID u)" using that by auto
    then obtain p where p: "gm_get paths u = Some p" "length p = k + 1" "u \<in> known el \<or> k = 0"
      using inv by (auto simp: bfs_inv_def)
    note bp = bfs_inv_path [OF inv p(1)]
    have "p = [i] \<or> last p \<in> known el" using p bp(1,2) route_length1 [OF bp(1)] by auto
    then show ?thesis using bp(1,2) u(2) p(1,2) by (auto intro: route.extend)
  qed
  have far: "\<exists>u. u \<in> set ?us \<and> ahead (?P u @ [d]) q"
    if "held = None" "route byID el i q" "last q = d" "length q = k + 2" for q
    using parent_on_level [OF inv that(2,4)] best_far [of byID el i k d] held(1) that(1,3) by auto
  show ?thesis
    unfolding best_def
  proof (intro conjI allI impI)
    fix q assume q: "route byID el i q" "last q = d" "1 < length q" "length q \<le> k + 1 + 1"
    show "?h \<noteq> None"
    proof (cases "length q \<le> k + 1")
      case True
      then have "held \<noteq> None" using held(1) q by (auto simp: best_def)
      then show ?thesis using chosen(1) by simp
    next
      case False
      have "?us \<noteq> []" if "held = None"
      proof -
        note far1 = far [OF that q(1,2)]
        have "length q = k + 2" using False q(4) by simp
        with far1 obtain u where "u \<in> set ?us" by blast
        then show ?thesis by (metis empty_iff empty_set)
      qed
      then show ?thesis using chosen(1) by blast
    qed
  next
    fix p assume h: "?h = Some p"
    note c = chosen(2) [OF h]
    show "shortest byID el i d p"
    proof (cases held)
      case (Some s)
      then have s: "shortest byID el i d s" using held(1) by (simp add: best_def)
      have "ahead p s" using c Some by blast
      moreover have "ahead s p" using c s step Some by (auto simp: shortest_def)
      ultimately show ?thesis using s ahead_antisym by metis
    next
      case None
      then obtain u where u: "u \<in> set ?us" "p = ?P u @ [d]" using c by auto
      have "ahead p q" if q: "route byID el i q" "last q = d" "length q > 1" for q
      proof (cases "length q = k + 2")
        case True
        then obtain v where "v \<in> set ?us" "ahead (?P v @ [d]) q" using far [OF None q(1,2)] by blast
        then show ?thesis using c ahead_trans by blast
      next
        case False
        then have "k + 2 < length q" using best_far [of byID el i k d q] held(1) None q by auto
        then show ?thesis using step [OF u(1)] u(2) by (simp add: ahead_def)
      qed
      then show ?thesis using step [OF u(1)] u(2) by (auto simp: shortest_def)
    qed
  qed
qed

text \<open>The best parent gives the path that holding the parents' paths would.\<close>

lemma pick_hold:
  assumes len: "\<And>u. u \<in> set us \<Longrightarrow> length (P u) = n"
  shows "map_option (\<lambda>u. P u @ [d]) (fold (pick P) us None) = fold (\<lambda>u. hold d (P u)) us None"
proof (cases "us = []")
  case False
  then obtain u where u: "fold (pick P) us None = Some u" using fold_pick(1) by (metis not_Some_eq)
  from False obtain p where p: "fold (\<lambda>u. hold d (P u)) us None = Some p" using fold_hold(1) [of None] by (metis not_Some_eq)
  have pu: "u \<in> set us" "\<forall>v \<in> set us. P u \<le> P v" using fold_pick(2) [OF u] by auto
  have "p \<in> (\<lambda>u. P u @ [d]) ` set us" "\<forall>v \<in> set us. ahead p (P v @ [d])" using fold_hold(2) [OF _ p] by auto
  moreover have "ahead (P u @ [d]) (P v @ [d])" if "v \<in> set us" for v
    unfolding ahead_snoc using pu len that by (simp add: ahead_def)
  ultimately show ?thesis using u p pu(1) ahead_antisym by auto
qed simp

lemma best_snoc: "best byID el i k d held \<Longrightarrow> held = None \<or> (\<exists>q. held = Some (q @ [d]))"
proof (cases held)
  case (Some p)
  moreover assume "best byID el i k d held"
  ultimately have "p \<noteq> []" "last p = d" by (auto simp: best_def shortest_def)
  with Some show ?thesis by (metis append_butlast_last_id)
qed simp

lemma best_mono: "best byID el i k d held \<Longrightarrow> held \<noteq> None \<Longrightarrow> best byID el i k' d held"
  by (auto simp: best_def)

lemma extend_paths_wf: "gm_wf paths \<Longrightarrow> gm_wf (extend_paths bp paths)"
proof -
  have "gm_wf ps \<Longrightarrow> gm_wf (fold (\<lambda>(dep, p) ps. gm_put dep (f dep p) ps) bp ps)" for f and ps :: "string list gomap"
    by (induction bp arbitrary: ps) auto
  then show "gm_wf paths \<Longrightarrow> gm_wf (extend_paths bp paths)" by (simp add: extend_paths_def)
qed

lemma level_step:
  assumes inv: "bfs_inv byID el i k dist paths missing invalid level" and sub: "known el \<subseteq> known byID" and i: "i \<in> known byID"
  defines "l \<equiv> run_level byID el i dist paths missing invalid level"
  shows "bfs_inv byID el i (k + 1) (extend_dist (bl_bestParent l) dist) (extend_paths (bl_bestParent l) paths)
    (bl_bestMissing l) (bl_invalidRoot l) (bl_nextLevel l)"
proof -
  let ?P = "\<lambda>u. the (gm_get paths u)" and ?es = "level_edges byID level"
  note parts = run_level_parts [of byID el i dist paths missing invalid level, folded l_def]
  let ?ps = "extend_paths (bl_bestParent l) paths"
  have I: "\<And>d. dist d \<noteq> None \<longleftrightarrow> gm_get paths d \<noteq> None" "gm_get paths i = Some [i]" "gm_wf paths"
    "\<And>d. d \<in> known byID \<Longrightarrow> d \<noteq> i \<Longrightarrow> best byID el i k d (gm_get paths d)"
    "\<And>d. d \<notin> known byID \<Longrightarrow> gm_get paths d = None" "\<And>d p. gm_get paths d = Some p \<Longrightarrow> length p \<le> k + 1"
    "\<And>u. u \<in> set level \<Longrightarrow> length (?P u) = k + 1"
    "\<And>d. d \<notin> known byID \<Longrightarrow> best byID el i k d (gm_get missing d)" "\<And>d. d \<in> known byID \<Longrightarrow> gm_get missing d = None"
    "i \<notin> known el \<Longrightarrow> best byID el i k i invalid" "i \<in> known el \<Longrightarrow> invalid = None"
    using inv by (auto simp: bfs_inv_def)
  have new: "gm_get ?ps d = (if d \<in> known byID \<and> dist d = None then fold (\<lambda>u. hold d (?P u)) (parents d ?es) None else gm_get paths d)" for d
  proof -
    have "map_option (\<lambda>u. ?P u @ [d]) (fold (pick ?P) (parents d ?es) None) = fold (\<lambda>u. hold d (?P u)) (parents d ?es) None"
      by (rule pick_hold) (use I(7) in auto)
    then show ?thesis
      using I(1) [of d] unfolding extend_paths_get [OF parts(5)] parts(2) by (auto split: option.splits)
  qed
  have dist: "extend_dist (bl_bestParent l) dist d \<noteq> None \<longleftrightarrow> gm_get ?ps d \<noteq> None" for d
    using I(1) [of d] extend_dist_get [OF parts(5), of dist d] extend_paths_get [OF parts(5), of paths d]
    by (auto split: option.splits)
  have known: "best byID el i (k + 1) d (gm_get ?ps d)" if "d \<in> known byID" "d \<noteq> i" for d
  proof (cases "dist d = None")
    case True
    then have "best byID el i k d None" using I(1) [of d] I(4) [OF that] by simp
    then show ?thesis using level_best [OF inv, of d None] True that by (simp add: new)
  next
    case False
    then show ?thesis using I(1) [of d] best_mono [OF I(4) [OF that]] by (auto simp: new)
  qed
  have fresh: "length p = k + 2" if "gm_get ?ps d = Some p" "dist d = None" for d p
  proof -
    have "fold (\<lambda>u. hold d (?P u)) (parents d ?es) None = Some p" using that I(1) [of d] by (auto simp: new split: if_splits)
    from fold_hold(2) [OF disjI1 [OF refl] this] have "p \<in> (\<lambda>u. ?P u @ [d]) ` set (parents d ?es)" by simp
    then show ?thesis using I(7) by auto
  qed
  have len: "length p \<le> k + 1 + 1" if "gm_get ?ps d = Some p" for d p
    using fresh [OF that] I(6) [of d p] that by (cases "dist d") (auto simp: new)
  have level: "d \<in> set (bl_nextLevel l) \<longleftrightarrow> (\<exists>p. gm_get ?ps d = Some p \<and> length p = k + 1 + 1 \<and> (d \<in> known el \<or> k + 1 = 0))" for d
  proof
    assume "d \<in> set (bl_nextLevel l)"
    then obtain u where u: "(u, d) \<in> set ?es" "d \<in> known byID" "dist d = None" "d \<in> known el" unfolding parts(1) by auto
    then have "parents d ?es \<noteq> []" by (metis empty_iff empty_set parents_simps(3))
    then have "fold (\<lambda>u. hold d (?P u)) (parents d ?es) None \<noteq> None" by (subst fold_hold(1)) auto
    then obtain p where "gm_get ?ps d = Some p" using u by (auto simp: new)
    with fresh [OF this u(3)] u(4) show "\<exists>p. gm_get ?ps d = Some p \<and> length p = k + 1 + 1 \<and> (d \<in> known el \<or> k + 1 = 0)" by auto
  next
    assume "\<exists>p. gm_get ?ps d = Some p \<and> length p = k + 1 + 1 \<and> (d \<in> known el \<or> k + 1 = 0)"
    then obtain p where p: "gm_get ?ps d = Some p" "length p = k + 2" "d \<in> known el" by auto
    then have un: "dist d = None" using I(1) [of d] I(6) [of d p] by (cases "dist d") (auto simp: new)
    then have "fold (\<lambda>u. hold d (?P u)) (parents d ?es) None = Some p" using p I(1) [of d] by (auto simp: new split: if_splits)
    then have "parents d ?es \<noteq> []" by auto
    then obtain u where "(u, d) \<in> set ?es" by (metis list.set_sel(1) parents_simps(3))
    then have "d \<in> snd ` set ?es" by (rule image_eqI [rotated]) simp
    then show "d \<in> set (bl_nextLevel l)" using un p(3) sub unfolding parts(1) by blast
  qed
  have miss: "best byID el i (k + 1) d (gm_get (bl_bestMissing l) d)" if "d \<notin> known byID" for d
    using level_best [OF inv I(8) [OF that] best_snoc [OF I(8) [OF that]]] that by (simp add: parts(3))
  have root: "best byID el i (k + 1) i (bl_invalidRoot l)" if "i \<notin> known el"
    using level_best [OF inv I(10) [OF that] best_snoc [OF I(10) [OF that]]] that i by (simp add: parts(4))
  have "dist i \<noteq> None" using I(1) [of i] I(2) by simp
  then show ?thesis
    using dist known len level miss root I(2,3,5,9,11) extend_paths_wf
    unfolding bfs_inv_def by (intro conjI) (auto simp: new parts(3,4))
qed

lemma bfs_loop_simps:
  "bfs_loop byID el i dist paths missing invalid [] = \<lparr>br_paths = paths, br_bestMissing = missing, br_invalidRoot = invalid\<rparr>"
  "level \<noteq> [] \<Longrightarrow> bfs_loop byID el i dist paths missing invalid level =
     (let l = run_level byID el i dist paths missing invalid level
      in bfs_loop byID el i (extend_dist (bl_bestParent l) dist) (extend_paths (bl_bestParent l) paths)
           (bl_bestMissing l) (bl_invalidRoot l) (bl_nextLevel l))"
  by (subst bfs_loop.simps, simp)+

lemma bfs_loop_inv:
  "bfs_inv byID el i k dist paths missing invalid level \<Longrightarrow> known el \<subseteq> known byID \<Longrightarrow> i \<in> known byID \<Longrightarrow>
   bfs_loop byID el i dist paths missing invalid level = r \<Longrightarrow>
   \<exists>k d. bfs_inv byID el i k d (br_paths r) (br_bestMissing r) (br_invalidRoot r) []"
proof (induction byID el i dist paths missing invalid level arbitrary: k rule: bfs_loop.induct)
  case (1 byID el i dist paths missing invalid level)
  show ?case
  proof (cases "level = []")
    case True
    with 1(2,5) have "bfs_inv byID el i k dist (br_paths r) (br_bestMissing r) (br_invalidRoot r) []"
      by (auto simp: bfs_loop_simps(1))
    then show ?thesis by blast
  next
    case False
    from level_step [OF 1(2-4)] 1(1) [OF False refl _ 1(3,4)] 1(5) False show ?thesis
      by (simp add: bfs_loop_simps(2) Let_def)
  qed
qed

text \<open>When a level is empty, everything there is a path to has been found.\<close>

lemma all_found:
  assumes inv: "bfs_inv byID el i k dist paths missing invalid []" and i: "i \<in> known byID"
    and q: "route byID el i q"
  shows "last q \<noteq> i \<Longrightarrow> last q \<in> known byID \<Longrightarrow> gm_get paths (last q) \<noteq> None"
    "last q \<notin> known byID \<Longrightarrow> gm_get missing (last q) \<noteq> None"
    "last q = i \<Longrightarrow> i \<notin> known el \<Longrightarrow> length q > 1 \<Longrightarrow> invalid \<noteq> None"
proof -
  have "(last q \<in> known byID \<longrightarrow> gm_get paths (last q) \<noteq> None) \<and>
      (last q \<notin> known byID \<longrightarrow> gm_get missing (last q) \<noteq> None) \<and>
      (last q = i \<longrightarrow> i \<notin> known el \<longrightarrow> length q > 1 \<longrightarrow> invalid \<noteq> None)"
    using q
  proof induction
    case start
    then show ?case using inv i by (simp add: bfs_inv_def)
  next
    case (extend p d)
    then have "last p \<in> known byID" using required_known by blast
    with extend.IH obtain P where P: "gm_get paths (last p) = Some P" by auto
    note bp = bfs_inv_path [OF inv P]
    have root: "P = [i] \<or> last P \<in> known el" using extend.hyps(2) bp(2) inv P by (auto simp: bfs_inv_def)
    then have r: "route byID el i (P @ [d])" using bp(1,2) extend.hyps(3) by (intro route.extend) auto
    have "length P \<noteq> k + 1"
      using bfs_inv_level [OF inv P] root bp(2) by auto
    with bfs_inv_length [OF inv P] have "length P \<le> k" by linarith
    then have "1 < length (P @ [d])" "length (P @ [d]) \<le> k + 1" using route_hd [OF bp(1)] by (auto simp: neq_Nil_conv)
    then have found: "held \<noteq> None" if "best byID el i k d held" for held
      using best_found [OF that r] by simp
    have "d \<in> known byID \<Longrightarrow> d \<noteq> i \<Longrightarrow> gm_get paths d \<noteq> None" using inv found [of "gm_get paths d"] by (simp add: bfs_inv_def)
    moreover have "gm_get paths i \<noteq> None" using inv by (simp add: bfs_inv_def)
    moreover have "d \<notin> known byID \<Longrightarrow> gm_get missing d \<noteq> None" using inv found [of "gm_get missing d"] by (simp add: bfs_inv_def)
    moreover have "d = i \<Longrightarrow> i \<notin> known el \<Longrightarrow> invalid \<noteq> None" using inv found [of invalid] by (simp add: bfs_inv_def)
    ultimately show ?case by (cases "d = i") auto
  qed
  then show "last q \<noteq> i \<Longrightarrow> last q \<in> known byID \<Longrightarrow> gm_get paths (last q) \<noteq> None"
    "last q \<notin> known byID \<Longrightarrow> gm_get missing (last q) \<noteq> None"
    "last q = i \<Longrightarrow> i \<notin> known el \<Longrightarrow> length q > 1 \<Longrightarrow> invalid \<noteq> None" by auto
qed

lemma bfs_final:
  assumes "known el \<subseteq> known byID" "i \<in> known byID"
  obtains k dist where "bfs_inv byID el i k dist (br_paths (bfs byID el i)) (br_bestMissing (bfs byID el i)) (br_invalidRoot (bfs byID el i)) []"
proof -
  have "bfs_inv byID el i 0 [i \<mapsto> 0] [(i, [i])] [] None [i]"
    using assms(2) by (auto simp: bfs_inv_def best_def dest: route_length1)
  from bfs_loop_inv [OF this assms refl, folded bfs_def] that show ?thesis by blast
qed

lemma bfs_finds:
  assumes "known el \<subseteq> known byID" "i \<in> known byID" "route byID el i q"
  shows "last q \<in> known byID \<Longrightarrow> gm_get (br_paths (bfs byID el i)) (last q) \<noteq> None"
    "last q \<notin> known byID \<Longrightarrow> gm_get (br_bestMissing (bfs byID el i)) (last q) \<noteq> None"
proof -
  obtain k dist where inv: "bfs_inv byID el i k dist (br_paths (bfs byID el i)) (br_bestMissing (bfs byID el i))
      (br_invalidRoot (bfs byID el i)) []" by (rule bfs_final [OF assms(1,2)])
  show "last q \<notin> known byID \<Longrightarrow> gm_get (br_bestMissing (bfs byID el i)) (last q) \<noteq> None"
    by (rule all_found(2) [OF inv assms(2,3)])
  show "last q \<in> known byID \<Longrightarrow> gm_get (br_paths (bfs byID el i)) (last q) \<noteq> None"
    using all_found(1) [OF inv assms(2,3)] inv by (cases "last q = i") (auto simp: bfs_inv_def)
qed

lemma bfs_shortest_paths:
  assumes sub: "known el \<subseteq> known byID" and i: "i \<in> known byID"
  defines "r \<equiv> bfs byID el i"
  shows "gm_get (br_paths r) i = Some [i]" "gm_wf (br_paths r)"
    "d \<in> known byID \<Longrightarrow> d \<noteq> i \<Longrightarrow> gm_get (br_paths r) d = Some p \<longleftrightarrow> shortest byID el i d p"
    "d \<notin> known byID \<Longrightarrow> gm_get (br_paths r) d = None"
    "gm_get (br_bestMissing r) d = Some p \<longleftrightarrow> d \<notin> known byID \<and> shortest byID el i d p"
    "br_invalidRoot r = Some p \<longleftrightarrow> i \<notin> known el \<and> shortest byID el i i p"
proof -
  obtain k dist where inv: "bfs_inv byID el i k dist (br_paths r) (br_bestMissing r) (br_invalidRoot r) []"
    unfolding r_def by (rule bfs_final [OF sub i])
  show "gm_get (br_paths r) i = Some [i]" "gm_wf (br_paths r)" "d \<notin> known byID \<Longrightarrow> gm_get (br_paths r) d = None"
    using inv by (auto simp: bfs_inv_def)
  have both: "held = Some p \<longleftrightarrow> shortest byID el i d p"
    if "best byID el i k d held" "\<And>q. route byID el i q \<Longrightarrow> last q = d \<Longrightarrow> length q > 1 \<Longrightarrow> held \<noteq> None" for held d
  proof
    show "held = Some p \<Longrightarrow> shortest byID el i d p" using that(1) by (simp add: best_def)
    assume s: "shortest byID el i d p"
    then have "held \<noteq> None" using that(2) by (auto simp: shortest_def)
    with that(1) s show "held = Some p" by (auto simp: best_def dest: shortest_unique)
  qed
  note found = all_found [OF inv i]
  show "gm_get (br_paths r) d = Some p \<longleftrightarrow> shortest byID el i d p" if "d \<in> known byID" "d \<noteq> i"
    by (rule both) (use inv that found(1) in \<open>auto simp: bfs_inv_def\<close>)
  show "gm_get (br_bestMissing r) d = Some p \<longleftrightarrow> d \<notin> known byID \<and> shortest byID el i d p"
  proof (cases "d \<in> known byID")
    case False
    have "gm_get (br_bestMissing r) d = Some p \<longleftrightarrow> shortest byID el i d p"
      by (rule both) (use inv False found(2) in \<open>auto simp: bfs_inv_def\<close>)
    with False show ?thesis by simp
  qed (use inv in \<open>auto simp: bfs_inv_def\<close>)
  show "br_invalidRoot r = Some p \<longleftrightarrow> i \<notin> known el \<and> shortest byID el i i p"
  proof (cases "i \<in> known el")
    case False
    have "br_invalidRoot r = Some p \<longleftrightarrow> shortest byID el i i p"
      by (rule both) (use inv False found(3) in \<open>auto simp: bfs_inv_def\<close>)
    with False show ?thesis by simp
  qed (use inv in \<open>auto simp: bfs_inv_def\<close>)
qed

section \<open>The witness of a cycle\<close>

text \<open>\<open>foundLen\<close> is the length of the best cycle, so it is not carried.\<close>

definition shorter :: "string list \<Rightarrow> string list option \<Rightarrow> bool" where
  "shorter cand held =
     (case held of None \<Rightarrow> True | Some b \<Rightarrow> length cand < length b \<or> length cand = length b \<and> pathLess cand b)"

fun cycle_neighbours ::
  "string list \<Rightarrow> string \<Rightarrow> string list \<Rightarrow> string list \<Rightarrow>
   (string \<times> string list) list \<times> string list \<times> string list option \<Rightarrow>
   (string \<times> string list) list \<times> string list \<times> string list option" where
  "cycle_neighbours nodes start path [] s = s"
| "cycle_neighbours nodes start path (n # ns) (queue, marks, cyc) =
     (if n \<notin> set nodes then cycle_neighbours nodes start path ns (queue, marks, cyc)
      else if n = start then
        let cand = path @ [start]
        in cycle_neighbours nodes start path ns (queue, marks, if shorter cand cyc then Some cand else cyc)
      else if cyc \<noteq> None then cycle_neighbours nodes start path ns (queue, marks, cyc)
      else if n \<notin> set marks then cycle_neighbours nodes start path ns (queue @ [(n, path @ [n])], n # marks, cyc)
      else cycle_neighbours nodes start path ns (queue, marks, cyc))"

lemma neighbours_grow:
  "cycle_neighbours nodes start path ns (queue, marks, b) = (queue', marks', b') \<Longrightarrow>
   set marks \<subseteq> set marks' \<and>
   (queue' = queue \<and> marks' = marks \<or> card (set nodes - set marks') < card (set nodes - set marks))"
proof (induction nodes start path ns "(queue, marks, b)" arbitrary: queue marks b rule: cycle_neighbours.induct)
  case (2 nodes start path n ns queue marks b)
  show ?case
  proof (cases "n \<in> set nodes \<and> n \<noteq> start \<and> b = None \<and> n \<notin> set marks")
    case True
    then have "cycle_neighbours nodes start path ns (queue @ [(n, path @ [n])], n # marks, b) = (queue', marks', b')"
      using 2(6) by simp
    with True 2(4) have IH: "set (n # marks) \<subseteq> set marks'"
      "card (set nodes - set marks') \<le> card (set nodes - set (n # marks))" by (auto intro: less_imp_le)
    have "card (set nodes - set (n # marks)) < card (set nodes - set marks)"
      using True by (intro psubset_card_mono) auto
    with IH show ?thesis by auto
  next
    case False
    with 2 show ?thesis by (auto simp: Let_def split: if_splits)
  qed
qed simp

function cycle_search ::
  "claim gomap \<Rightarrow> string list \<Rightarrow> string \<Rightarrow> (string \<times> string list) list \<Rightarrow> string list \<Rightarrow> string list option \<Rightarrow>
   string list option" where
  "cycle_search byID nodes start [] marks cyc = cyc"
| "cycle_search byID nodes start ((node, path) # queue) marks cyc =
     (if (case cyc of None \<Rightarrow> False | Some b \<Rightarrow> length path \<ge> length b) then cyc
      else if gm_get byID node = None then cycle_search byID nodes start queue marks cyc
      else (case cycle_neighbours nodes start path (required byID node) (queue, marks, cyc) of
              (queue', marks', cyc') \<Rightarrow> cycle_search byID nodes start queue' marks' cyc'))"
  by pat_completeness auto

termination
proof (relation "measures [\<lambda>(byID, nodes, start, queue, marks, b). card (set nodes - set marks),
    \<lambda>(byID, nodes, start, queue, marks, b). length queue]", goal_cases)
  case 3
  from neighbours_grow [OF 3(3) [symmetric, unfolded 3(4) [symmetric]]] show ?case by auto
qed auto

definition getShortestCycle :: "string \<Rightarrow> string list \<Rightarrow> claim gomap \<Rightarrow> string list" where
  "getShortestCycle start nodes byID =
     (if gm_get byID start = None then [start, start]
      else if start \<in> set (required byID start) then [start, start]
      else
        let first = filter (\<lambda>d. d \<in> set nodes) (required byID start)
        in case cycle_search byID nodes start (map (\<lambda>d. (d, [start, d])) first) (start # first) None of
             None \<Rightarrow> [start, start]
           | Some c \<Rightarrow> c)"

text \<open>A closed walk over the component, along declared dependencies.\<close>

definition walk :: "claim gomap \<Rightarrow> string list \<Rightarrow> string \<Rightarrow> string list \<Rightarrow> bool" where
  "walk byID nodes start p \<longleftrightarrow> p \<noteq> [] \<and> hd p = start \<and> set p \<subseteq> set nodes \<and>
     successively (\<lambda>a b. b \<in> set (required byID a)) p"

definition closed_walk :: "claim gomap \<Rightarrow> string list \<Rightarrow> string \<Rightarrow> string list \<Rightarrow> bool" where
  "closed_walk byID nodes start p \<longleftrightarrow> walk byID nodes start p \<and> last p = start \<and> 2 \<le> length p"

lemma walk_snoc:
  "walk byID nodes start p \<Longrightarrow> d \<in> set (required byID (last p)) \<Longrightarrow> d \<in> set nodes \<Longrightarrow> walk byID nodes start (p @ [d])"
  by (auto simp: walk_def successively_append_iff)

definition queue_ok :: "claim gomap \<Rightarrow> string list \<Rightarrow> string \<Rightarrow> (string \<times> string list) list \<Rightarrow> string list option \<Rightarrow> bool" where
  "queue_ok byID nodes start queue cyc \<longleftrightarrow>
     (\<forall>(n, p) \<in> set queue. walk byID nodes start p \<and> last p = n) \<and> (\<forall>c. cyc = Some c \<longrightarrow> closed_walk byID nodes start c)"

text \<open>Without a cycle so far, every marked claim is in the queue or has its dependencies marked.\<close>

definition marks_ok :: "claim gomap \<Rightarrow> string list \<Rightarrow> string \<Rightarrow> string set \<Rightarrow> string list \<Rightarrow> bool" where
  "marks_ok byID nodes start waiting marks \<longleftrightarrow>
     (\<forall>n \<in> set marks - {start} - waiting. \<forall>d \<in> set (required byID n) \<inter> set nodes. d \<noteq> start \<and> d \<in> set marks)"

lemma neighbours_ok:
  assumes "cycle_neighbours nodes start path ns (queue, marks, cyc) = (queue', marks', cyc')"
    "walk byID nodes start path" "set ns \<subseteq> set (required byID (last path))" "start \<in> set nodes"
    "queue_ok byID nodes start queue cyc"
  shows "queue_ok byID nodes start queue' cyc'"
  using assms
proof (induction nodes start path ns "(queue, marks, cyc)" arbitrary: queue marks cyc rule: cycle_neighbours.induct)
  case (2 nodes start path n ns queue marks cyc)
  have w: "walk byID nodes start (path @ [n])" if "n \<in> set nodes"
    using walk_snoc [OF 2(7) _ that] 2(8) by simp
  have len: "path \<noteq> []" using 2(7) by (simp add: walk_def)
  consider "n \<notin> set nodes" | "n \<in> set nodes" "n = start" | "n \<in> set nodes" "n \<noteq> start" "cyc \<noteq> None"
    | "n \<in> set nodes" "n \<noteq> start" "cyc = None" "n \<notin> set marks" | "n \<in> set nodes" "n \<noteq> start" "cyc = None" "n \<in> set marks"
    by blast
  then show ?case
  proof cases
    case 1
    with 2 show ?thesis by simp
  next
    case case2: 2
    let ?c = "if shorter (path @ [start]) cyc then Some (path @ [start]) else cyc"
    have "closed_walk byID nodes start (path @ [start])"
      using w case2 len by (auto simp: closed_walk_def Suc_le_eq)
    then have "queue_ok byID nodes start queue ?c" using 2(10) by (auto simp: queue_ok_def)
    with 2(2) [OF _ case2(2) refl _ 2(7) _ 2(9)] 2(6,8) case2 show ?thesis by (simp add: Let_def)
  next
    case 3
    with 2(3) [OF _ _ _ _ 2(7) _ 2(9,10)] 2(6,8) show ?thesis by simp
  next
    case 4
    then have "queue_ok byID nodes start (queue @ [(n, path @ [n])]) cyc" using 2(10) w by (auto simp: queue_ok_def)
    with 2(4) [OF _ _ _ _ _ 2(7) _ 2(9)] 2(6,8) 4 show ?thesis by simp
  next
    case 5
    with 2(5) [OF _ _ _ _ _ 2(7) _ 2(9,10)] 2(6,8) show ?thesis by simp
  qed
qed simp

lemma neighbours_keep:
  "cycle_neighbours nodes start path ns (queue, marks, cyc) = (queue', marks', cyc') \<Longrightarrow> cyc \<noteq> None \<Longrightarrow> cyc' \<noteq> None"
  by (induction nodes start path ns "(queue, marks, cyc)" arbitrary: queue marks cyc rule: cycle_neighbours.induct)
    (auto simp: Let_def split: if_splits)

lemma neighbours_marks:
  "cycle_neighbours nodes start path ns (queue, marks, None) = (queue', marks', None) \<Longrightarrow>
   set marks \<subseteq> set marks' \<and> (\<forall>d \<in> set ns \<inter> set nodes. d \<noteq> start \<and> d \<in> set marks') \<and>
   fst ` set queue \<union> (set marks' - set marks) \<subseteq> fst ` set queue'"
proof (induction ns arbitrary: queue marks)
  case (Cons n ns)
  have "n \<notin> set nodes \<or> n \<noteq> start"
    using Cons.prems neighbours_keep [of nodes start path ns queue marks "Some (path @ [start])"]
    by (cases "n \<in> set nodes \<and> n = start") (auto simp: shorter_def)
  then consider "n \<notin> set nodes" | "n \<in> set nodes" "n \<noteq> start" "n \<notin> set marks" | "n \<in> set nodes" "n \<noteq> start" "n \<in> set marks" by blast
  then show ?case
  proof cases
    case 1
    with Cons show ?thesis by auto
  next
    case 2
    with Cons.prems have "cycle_neighbours nodes start path ns (queue @ [(n, path @ [n])], n # marks, None) = (queue', marks', None)"
      by simp
    from Cons.IH [OF this] 2 show ?thesis by auto
  next
    case 3
    with Cons.prems have "cycle_neighbours nodes start path ns (queue, marks, None) = (queue', marks', None)" by simp
    from Cons.IH [OF this] 3 show ?thesis by auto
  qed
qed simp

lemma search_closed:
  "cycle_search byID nodes start queue marks cyc = Some c \<Longrightarrow> start \<in> set nodes \<Longrightarrow> queue_ok byID nodes start queue cyc \<Longrightarrow>
   closed_walk byID nodes start c"
proof (induction byID nodes start queue marks cyc rule: cycle_search.induct)
  case (2 byID nodes start node path queue marks cyc)
  show ?case
  proof (cases "(case cyc of None \<Rightarrow> False | Some b \<Rightarrow> length path \<ge> length b)")
    case True
    then show ?thesis using 2(3,5) by (auto simp: queue_ok_def)
  next
    case go: False
    have walk: "walk byID nodes start path" "last path = node" and q: "queue_ok byID nodes start queue cyc"
      using 2(5) by (auto simp: queue_ok_def)
    show ?thesis
    proof (cases "gm_get byID node = None")
      case True
      with 2(1) [OF go True _ 2(4) q] 2(3) go show ?thesis by simp
    next
      case False
      obtain queue' marks' cyc' where n: "cycle_neighbours nodes start path (required byID node) (queue, marks, cyc) = (queue', marks', cyc')"
        by (metis prod_cases3)
      have "queue_ok byID nodes start queue' cyc'"
        by (rule neighbours_ok [OF n walk(1) _ 2(4) q]) (simp add: walk(2))
      with 2(2) [OF go False n [symmetric] refl _ 2(4)] 2(3) go False n show ?thesis by simp
    qed
  qed
qed (auto simp: queue_ok_def)

lemma neighbours_nodes:
  "cycle_neighbours nodes start path ns (queue, marks, cyc) = (queue', marks', cyc') \<Longrightarrow>
   fst ` set queue' \<subseteq> fst ` set queue \<union> set nodes"
proof (induction ns arbitrary: queue marks cyc)
  case (Cons n ns)
  obtain q m c where "cycle_neighbours nodes start path ns (q, m, c) = (queue', marks', cyc')"
    "fst ` set q \<subseteq> fst ` set queue \<union> set nodes"
    using Cons.prems by (auto simp: Let_def split: if_splits)
  with Cons.IH [of q m c] show ?case by blast
qed simp

lemma search_keep: "cycle_search byID nodes start queue marks cyc = None \<Longrightarrow> cyc = None"
proof (induction byID nodes start queue marks cyc rule: cycle_search.induct)
  case (2 byID nodes start node path queue marks cyc)
  show ?case
  proof (rule ccontr)
    assume "cyc \<noteq> None"
    moreover have go: "\<not> (case cyc of None \<Rightarrow> False | Some b \<Rightarrow> length path \<ge> length b)"
      using 2(3) by (auto split: option.splits if_splits)
    moreover obtain queue' marks' cyc'
      where n: "cycle_neighbours nodes start path (required byID node) (queue, marks, cyc) = (queue', marks', cyc')"
      by (metis prod_cases3)
    ultimately show False
      using 2(1) [OF go] 2(2) [OF go _ n [symmetric] refl] 2(3) neighbours_keep [OF n]
      by (cases "gm_get byID node") auto
  qed
qed simp

lemma search_none:
  "cycle_search byID nodes start queue marks cyc = None \<Longrightarrow> set nodes \<subseteq> known byID \<Longrightarrow>
   fst ` set queue \<subseteq> set nodes \<Longrightarrow> marks_ok byID nodes start (fst ` set queue) marks \<Longrightarrow>
   \<exists>marks'. set marks \<subseteq> set marks' \<and> marks_ok byID nodes start {} marks'"
proof (induction byID nodes start queue marks cyc rule: cycle_search.induct)
  case (2 byID nodes start node path queue marks cyc)
  have cyc: "cyc = None" by (rule search_keep [OF 2(3)])
  have go: "\<not> (case cyc of None \<Rightarrow> False | Some b \<Rightarrow> length path \<ge> length b)" by (simp add: cyc)
  have "node \<in> known byID" using 2(4,5) by auto
  then have known: "gm_get byID node \<noteq> None" by (simp add: known_iff)
  obtain queue' marks' cyc' where n: "cycle_neighbours nodes start path (required byID node) (queue, marks, cyc) = (queue', marks', cyc')"
    by (metis prod_cases3)
  have search: "cycle_search byID nodes start queue' marks' cyc' = None" using 2(3) go known n by simp
  from search_keep [OF this] n cyc
  have marks: "set marks \<subseteq> set marks'" "\<forall>d \<in> set (required byID node) \<inter> set nodes. d \<noteq> start \<and> d \<in> set marks'"
    "fst ` set queue \<union> (set marks' - set marks) \<subseteq> fst ` set queue'" using neighbours_marks by auto
  have "fst ` set queue' \<subseteq> set nodes" using neighbours_nodes [OF n] 2(5) by auto
  moreover have "marks_ok byID nodes start (fst ` set queue') marks'"
    unfolding marks_ok_def
  proof
    fix x assume x: "x \<in> set marks' - {start} - fst ` set queue'"
    show "\<forall>d \<in> set (required byID x) \<inter> set nodes. d \<noteq> start \<and> d \<in> set marks'"
    proof (cases "x = node")
      case False
      then have "x \<in> set marks - {start} - fst ` set ((node, path) # queue)" using x marks(3) by auto
      with 2(6) marks(1) show ?thesis unfolding marks_ok_def by blast
    qed (use marks(2) in simp)
  qed
  ultimately show ?case using 2(2) [OF go known n [symmetric] refl search 2(4)] marks(1) by blast
qed auto

text \<open>On a component with a cycle through \<open>start\<close> the witness is a closed walk of the component.\<close>

lemma getShortestCycle_closed:
  assumes nodes: "set nodes = {b. (start, b) \<in> (arc m)\<^sup>* \<and> (b, start) \<in> (arc m)\<^sup>*}" and cycle: "(start, start) \<in> (arc m)\<^sup>+"
  shows "closed_walk m nodes start (getShortestCycle start nodes m)"
proof -
  have start: "start \<in> set nodes" by (simp add: nodes)
  have known: "set nodes \<subseteq> known m" 
  proof
    fix b assume "b \<in> set nodes"
    then have "(start, b) \<in> (arc m)\<^sup>*" by (simp add: nodes)
    moreover have "start \<in> known m" using cycle by (auto elim: converse_tranclE simp: arc_def)
    ultimately show "b \<in> known m" by (cases rule: rtranclE) (auto simp: arc_def)
  qed
  let ?first = "filter (\<lambda>d. d \<in> set nodes) (required m start)"
  let ?run = "cycle_search m nodes start (map (\<lambda>d. (d, [start, d])) ?first) (start # ?first) None"
  show ?thesis
  proof (cases "start \<in> set (required m start)")
    case True
    then have "getShortestCycle start nodes m = [start, start]" by (simp add: getShortestCycle_def)
    with True start show ?thesis by (simp add: closed_walk_def walk_def)
  next
    case False
    have "?run \<noteq> None"
    proof
      assume none: "?run = None"
      have firsts: "fst ` set (map (\<lambda>d. (d, [start, d])) ?first) = set ?first" by (simp add: image_comp comp_def)
      have "marks_ok m nodes start (fst ` set (map (\<lambda>d. (d, [start, d])) ?first)) (start # ?first)"
        unfolding firsts by (auto simp: marks_ok_def)
      moreover have "fst ` set (map (\<lambda>d. (d, [start, d])) ?first) \<subseteq> set nodes" unfolding firsts by auto
      ultimately obtain marks where marks: "set ?first \<subseteq> set marks" "marks_ok m nodes start {} marks"
        using search_none [OF none known] by auto
      obtain d where d: "(start, d) \<in> arc m" "(d, start) \<in> (arc m)\<^sup>*" using cycle by (metis tranclD)
      have "x \<in> set marks \<and> x \<noteq> start" if "(d, x) \<in> (arc m)\<^sup>*" "(x, start) \<in> (arc m)\<^sup>*" for x
        using that
      proof induction
        case base
        have "d \<in> set nodes" using d by (auto simp: nodes)
        with d(1) False marks(1) show ?case by (auto simp: arc_def)
      next
        case (step x y)
        have "(x, start) \<in> (arc m)\<^sup>*" using step.hyps(2) step.prems by (rule converse_rtrancl_into_rtrancl)
        with step.IH have x: "x \<in> set marks" "x \<noteq> start" by auto
        have "(start, y) \<in> (arc m)\<^sup>*" using d(1) step.hyps by (meson converse_rtrancl_into_rtrancl rtrancl_into_rtrancl)
        then have "y \<in> set nodes" using step.prems by (simp add: nodes)
        moreover have "y \<in> set (required m x)" using step.hyps(2) by (simp add: arc_def)
        ultimately show ?case using marks(2) x unfolding marks_ok_def by blast
      qed
      from this [OF d(2)] show False by simp
    qed
    then obtain c where c: "?run = Some c" by blast
    have "queue_ok m nodes start (map (\<lambda>d. (d, [start, d])) ?first) None" using start by (auto simp: queue_ok_def walk_def)
    from search_closed [OF c start this] show ?thesis
      using False start known c known_iff [of start m] by (auto simp: getShortestCycle_def Let_def)
  qed
qed

end
