(* ===== verification/Readiness.thy ===== *)
theory Readiness
  imports Readiness_Paths Ledger Reaudit
begin

text \<open>
  Readiness (\<^verbatim>\<open>internal/readiness/readiness.go\<close>): for every claim, whether it is approved itself, and
  what in the chain of claims it requires is missing, unapproved, changed, under review or circular,
  each with a path that shows how it is reached. Causes and conditions are records, the maps that
  collect them by key are lists of entries, and Go's iteration over a map is the order of the list.
  The lemmas show what \<open>Ready\<close> means, and that every reported path is a path.
\<close>

section \<open>Causes and conditions\<close>

definition CauseDirectDependencyChange :: string where
  "CauseDirectDependencyChange = ''direct_dependency_change''"

definition CauseUpstreamDependencyReview :: string where
  "CauseUpstreamDependencyReview = ''upstream_dependency_review''"

definition CauseOwnThread :: string where
  "CauseOwnThread = ''own_thread''"

definition CauseOwnFlag :: string where
  "CauseOwnFlag = ''own_flag''"

definition CauseApprovalContentDrift :: string where
  "CauseApprovalContentDrift = ''approval_content_drift''"

definition CauseApprovalMissing :: string where
  "CauseApprovalMissing = ''approval_missing''"

definition CauseApprovalReleased :: string where
  "CauseApprovalReleased = ''approval_released''"

definition CauseApprovalUnknown :: string where
  "CauseApprovalUnknown = ''approval_unknown''"

definition CauseUnapprovedEdit :: string where
  "CauseUnapprovedEdit = ''unapproved_edit''"

definition ConditionDependencyUnapproved :: string where
  "ConditionDependencyUnapproved = ''dependency_unapproved''"

definition ConditionMissingDependency :: string where
  "ConditionMissingDependency = ''missing_dependency''"

definition ConditionUnreadableDependency :: string where
  "ConditionUnreadableDependency = ''unreadable_dependency''"

definition ConditionRetiredDependency :: string where
  "ConditionRetiredDependency = ''retired_dependency''"

definition ConditionUnknownHistoricalBaseline :: string where
  "ConditionUnknownHistoricalBaseline = ''unknown_historical_baseline''"

definition ConditionDependencyCycle :: string where
  "ConditionDependencyCycle = ''dependency_cycle''"

lemmas readiness_kinds =
  CauseDirectDependencyChange_def CauseUpstreamDependencyReview_def CauseOwnThread_def CauseOwnFlag_def
  CauseApprovalContentDrift_def CauseApprovalMissing_def CauseApprovalReleased_def CauseApprovalUnknown_def
  CauseUnapprovedEdit_def ConditionDependencyUnapproved_def ConditionMissingDependency_def
  ConditionUnreadableDependency_def ConditionRetiredDependency_def ConditionUnknownHistoricalBaseline_def
  ConditionDependencyCycle_def

record review_cause =
  cs_Kind :: string
  cs_SourceKind :: string
  cs_DependencyID :: string
  cs_Path :: "string list"
  cs_Detail :: string
  cs_Direct :: bool
  cs_Inherited :: bool

record chain_condition =
  dc_Kind :: string
  dc_DependencyID :: string
  dc_Path :: "string list"
  dc_Detail :: string

record assessment =
  as_ClaimID :: string
  as_PolicyVersion :: int
  as_LocalApproved :: bool
  as_LocallyApproved :: bool
  as_DependencyReady :: bool
  as_Ready :: bool
  as_ReviewPending :: bool
  as_DependencyConditions :: "chain_condition list"
  as_Conditions :: "chain_condition list"
  as_ReviewCauses :: "review_cause list"
  as_Causes :: "review_cause list"
  as_LocalReasons :: "string list"
  as_LocalApprovalIssue :: string

section \<open>What a claim owns\<close>

record approval_check =
  ac_valid :: bool
  ac_kind :: string
  ac_detail :: string

definition not_approved :: "claim \<Rightarrow> string" where
  "not_approved c = ''claim status '' @ go_quote (cl_Status c) @ '' is not locally approved''"

definition localReasons :: "claim \<Rightarrow> string list" where
  "localReasons c = (if cl_Status c = StatusLocked then [] else [not_approved c])"

definition approvalState :: "(string \<Rightarrow> string) \<Rightarrow> claim \<Rightarrow> store option \<Rightarrow> approval_check" where
  "approvalState sha c so =
     (if cl_Status c \<noteq> StatusLocked then \<lparr>ac_valid = False, ac_kind = [], ac_detail = not_approved c\<rparr>
      else
        (case so of
           None \<Rightarrow> \<lparr>ac_valid = False, ac_kind = CauseApprovalUnknown,
                    ac_detail = ''no lock store is available to establish a standing approval''\<rparr>
         | Some s \<Rightarrow>
             (case st_Record s (cl_ID c) of
                None \<Rightarrow> \<lparr>ac_valid = False, ac_kind = CauseApprovalMissing,
                         ac_detail = ''no standing lock-ledger approval exists for this locked claim''\<rparr>
              | Some r \<Rightarrow>
                  if lr_Subject r \<noteq> SubjectClaim then
                    \<lparr>ac_valid = False, ac_kind = CauseApprovalUnknown,
                     ac_detail = ''the lock-ledger record is not a claim approval''\<rparr>
                  else if Released r then
                    \<lparr>ac_valid = False, ac_kind = CauseApprovalReleased,
                     ac_detail = ''the lock-ledger approval was released and is not standing''\<rparr>
                  else if lr_Hash r = [] \<or> lr_Hash r \<noteq> LockedClaimHash sha c then
                    \<lparr>ac_valid = False, ac_kind = CauseApprovalContentDrift,
                     ac_detail = ''current claim content differs from its standing lock approval''\<rparr>
                  else \<lparr>ac_valid = True, ac_kind = [], ac_detail = []\<rparr>)))"

definition baseline_hash :: "store option \<Rightarrow> string \<Rightarrow> string \<Rightarrow> string option" where
  "baseline_hash so dependent dependency =
     (case so of
        None \<Rightarrow> None
      | Some s \<Rightarrow>
          (case Baseline s dependent dependency of
             Some h \<Rightarrow> Some h
           | None \<Rightarrow>
               (case Receipt s dependent dependency of
                  None \<Rightarrow> None
                | Some r \<Rightarrow> if rc_Hash r \<noteq> [] then Some (rc_Hash r) else None)))"

text \<open>The empty string where a dependency can be consumed.\<close>

definition dependencyState :: "claim \<Rightarrow> string" where
  "dependencyState c =
     (let s = to_lower (trim_space (cl_Status c)) in
      if s = ''retired'' then ConditionRetiredDependency
      else if s = ''draft'' \<or> s = ''locked'' \<or> s = [] then []
      else ConditionUnreadableDependency)"

definition own_cause :: "string \<Rightarrow> claim \<Rightarrow> string \<Rightarrow> review_cause" where
  "own_cause kind c detail =
     \<lparr>cs_Kind = kind, cs_SourceKind = kind, cs_DependencyID = [], cs_Path = [cl_ID c], cs_Detail = detail,
      cs_Direct = True, cs_Inherited = False\<rparr>"

definition unapprovedEdit :: "(string \<Rightarrow> string) \<Rightarrow> claim \<Rightarrow> store option \<Rightarrow> review_cause option" where
  "unapprovedEdit sha c so =
     (case (case so of None \<Rightarrow> None | Some s \<Rightarrow> EditedSinceApproval sha c s) of
        None \<Rightarrow> None
      | Some _ \<Rightarrow> Some (own_cause CauseUnapprovedEdit c
          ''this claim was approved, then unlocked and rewritten; what is written differs from what was approved''))"

record claim_summary =
  sm_conditions :: "chain_condition list"
  sm_causes :: "review_cause list"

definition add_cause :: "review_cause \<Rightarrow> claim_summary \<Rightarrow> claim_summary" where
  "add_cause x sm = sm\<lparr>sm_causes := sm_causes sm @ [x]\<rparr>"

definition add_condition :: "chain_condition \<Rightarrow> claim_summary \<Rightarrow> claim_summary" where
  "add_condition x sm = sm\<lparr>sm_conditions := sm_conditions sm @ [x]\<rparr>"

definition summary_dep ::
  "(string \<Rightarrow> string) \<Rightarrow> store option \<Rightarrow> claim gomap \<Rightarrow> claim \<Rightarrow> string \<Rightarrow> claim_summary \<Rightarrow> claim_summary" where
  "summary_dep sha so index c depID out =
     (let cond = (\<lambda>kind detail. \<lparr>dc_Kind = kind, dc_DependencyID = depID, dc_Path = [cl_ID c, depID], dc_Detail = detail\<rparr>) in
      case gm_get index depID of
        None \<Rightarrow> add_condition (cond ConditionMissingDependency ''required dependency is missing'') out
      | Some dep \<Rightarrow>
          let state = dependencyState dep;
              out1 = (if state = ConditionRetiredDependency then add_condition (cond state ''required dependency is retired'') out
                      else if state = ConditionUnreadableDependency
                        then add_condition (cond state ''required dependency is unreadable'') out
                      else out)
          in if state \<noteq> [] then out1
             else
               (case baseline_hash so (cl_ID c) depID of
                  None \<Rightarrow> add_condition (cond ConditionUnknownHistoricalBaseline ''no historical content baseline is available'') out1
                | Some stored \<Rightarrow>
                    if stored \<noteq> ContentHash sha dep then
                      add_cause \<lparr>cs_Kind = CauseDirectDependencyChange, cs_SourceKind = CauseDirectDependencyChange,
                        cs_DependencyID = depID, cs_Path = [cl_ID c, depID],
                        cs_Detail = ''dependency content differs from the reviewed baseline'',
                        cs_Direct = True, cs_Inherited = False\<rparr> out1
                    else out1))"

definition localSummary ::
  "(string \<Rightarrow> string) \<Rightarrow> claim \<Rightarrow> store option \<Rightarrow> flag_store option \<Rightarrow> claim gomap \<Rightarrow> approval_check \<Rightarrow> claim_summary" where
  "localSummary sha c so flags index approval =
     (let out0 = \<lparr>sm_conditions = [], sm_causes = []\<rparr>;
          out1 = (if cl_Status c = StatusLocked \<and> \<not> ac_valid approval
                  then add_cause (own_cause (ac_kind approval) c (ac_detail approval)) out0 else out0);
          out2 = (if HasOpenThreads c then add_cause (own_cause CauseOwnThread c (join_str '','' (OpenThreadIDs c))) out1 else out1);
          out3 = (case (case flags of None \<Rightarrow> None | Some fs \<Rightarrow> gm_get (fs_Flags fs) (cl_ID c)) of
                    None \<Rightarrow> out2
                  | Some flag \<Rightarrow> add_cause (own_cause CauseOwnFlag c (pf_Reason flag)) out2)
      in if cl_Status c \<noteq> StatusLocked then
           (case unapprovedEdit sha c so of None \<Rightarrow> out3 | Some x \<Rightarrow> add_cause x out3)
         else fold (summary_dep sha so index c) (BaselineDependencyIDs c) out3)"

section \<open>What a claim inherits\<close>

text \<open>The keys under which causes and conditions are collected, their parts separated by a zero byte.\<close>

definition key2 :: "string \<Rightarrow> string \<Rightarrow> string" where
  "key2 a b = a @ CHR 0x00 # b"

definition key3 :: "string \<Rightarrow> string \<Rightarrow> string \<Rightarrow> string" where
  "key3 a b c = a @ CHR 0x00 # b @ CHR 0x00 # c"

definition put_new :: "string \<Rightarrow> 'a \<Rightarrow> 'a gomap \<Rightarrow> 'a gomap" where
  "put_new k v m = (if gm_get m k = None then gm_put k v m else m)"

record collected =
  co_conditions :: "chain_condition gomap"
  co_causes :: "review_cause gomap"

definition collect_condition :: "string \<Rightarrow> chain_condition \<Rightarrow> collected \<Rightarrow> collected" where
  "collect_condition k x co = co\<lparr>co_conditions := put_new k x (co_conditions co)\<rparr>"

definition collect_cause :: "string \<Rightarrow> review_cause \<Rightarrow> collected \<Rightarrow> collected" where
  "collect_cause k x co = co\<lparr>co_causes := put_new k x (co_causes co)\<rparr>"

text \<open>The claim's own facts come first.\<close>

definition collect_own :: "string \<Rightarrow> claim_summary \<Rightarrow> collected" where
  "collect_own i local =
     \<lparr>co_conditions = fold (\<lambda>x. gm_put (if dc_Kind x = ConditionUnknownHistoricalBaseline
          then key3 (dc_Kind x) i (dc_DependencyID x) else key2 (dc_Kind x) (dc_DependencyID x)) x) (sm_conditions local) [],
      co_causes = fold (\<lambda>x. gm_put (key3 (cs_SourceKind x) i (cs_DependencyID x)) x) (sm_causes local) []\<rparr>"

text \<open>A path to a claim, continued by the path of what the claim reports.\<close>

definition inherit_path :: "string list \<Rightarrow> string list \<Rightarrow> string list" where
  "inherit_path p own = (if length own > 1 then p @ tl own else p)"

definition inherit_cause :: "string \<Rightarrow> string list \<Rightarrow> review_cause \<Rightarrow> collected \<Rightarrow> collected" where
  "inherit_cause u p x =
     (let sourceKind = (if cs_SourceKind x = [] then cs_Kind x else cs_SourceKind x)
      in collect_cause (key3 sourceKind u (cs_DependencyID x))
           \<lparr>cs_Kind = CauseUpstreamDependencyReview, cs_SourceKind = sourceKind, cs_DependencyID = cs_DependencyID x,
            cs_Path = inherit_path p (cs_Path x), cs_Detail = cs_Detail x, cs_Direct = False, cs_Inherited = True\<rparr>)"

definition inherit_condition :: "string \<Rightarrow> string list \<Rightarrow> chain_condition \<Rightarrow> collected \<Rightarrow> collected" where
  "inherit_condition u p x co =
     (if dc_Kind x \<noteq> ConditionUnknownHistoricalBaseline then co
      else collect_condition (key3 (dc_Kind x) u (dc_DependencyID x))
             \<lparr>dc_Kind = dc_Kind x, dc_DependencyID = dc_DependencyID x, dc_Path = inherit_path p (dc_Path x),
              dc_Detail = dc_Detail x\<rparr> co)"

text \<open>What is known of a claim before any other is assessed.\<close>

record known_facts =
  rf_byID :: "claim gomap"
  rf_eligible :: "claim gomap"
  rf_approval :: "string \<Rightarrow> approval_check"
  rf_local :: "string \<Rightarrow> claim_summary"
  rf_sccs :: "string list list"

definition collect_reached :: "known_facts \<Rightarrow> string \<Rightarrow> string list \<Rightarrow> collected \<Rightarrow> collected" where
  "collect_reached F u p co =
     (case gm_get (rf_byID F) u of
        None \<Rightarrow> co
      | Some dep \<Rightarrow>
          let state = dependencyState dep in
          if gm_get (rf_eligible F) u = None then
            collect_condition (key2 state u)
              \<lparr>dc_Kind = state, dc_DependencyID = u, dc_Path = p,
               dc_Detail = (if length p = 2 then
                              (if state = ConditionRetiredDependency then ''required dependency is retired''
                               else ''required dependency is unreadable'')
                            else ''required dependency cannot be consumed'')\<rparr> co
          else
            let unapproved = (\<lambda>detail. collect_condition (key2 ConditionDependencyUnapproved u)
                  \<lparr>dc_Kind = ConditionDependencyUnapproved, dc_DependencyID = u, dc_Path = p, dc_Detail = detail\<rparr>);
                co1 = (if cl_Status dep \<noteq> StatusLocked then unapproved ''required dependency is not locally approved'' co
                       else if \<not> ac_valid (rf_approval F u)
                         then unapproved ''required dependency has no valid standing approval'' co
                       else co);
                co2 = fold (inherit_cause u p) (sm_causes (rf_local F u)) co1
            in fold (inherit_condition u p) (sm_conditions (rf_local F u)) co2)"

definition collect_missing :: "string \<Rightarrow> string list \<Rightarrow> collected \<Rightarrow> collected" where
  "collect_missing i p =
     collect_condition (key2 ConditionMissingDependency i)
       \<lparr>dc_Kind = ConditionMissingDependency, dc_DependencyID = i, dc_Path = p, dc_Detail = ''required dependency is missing''\<rparr>"

definition cyclic :: "claim gomap \<Rightarrow> string list \<Rightarrow> bool" where
  "cyclic eligible scc \<longleftrightarrow>
     length scc > 1 \<or>
     length scc = 1 \<and> (case gm_get eligible (hd scc) of None \<Rightarrow> False | Some c \<Rightarrow> hd scc \<in> set (ro_IDs (cl_RestsOn c)))"

text \<open>The best witness of a component, over the claims of it that are reached: the entry and the path.\<close>

definition cycle_entry ::
  "claim gomap \<Rightarrow> string list gomap \<Rightarrow> string \<Rightarrow> string list \<Rightarrow> string \<Rightarrow> (string \<times> string list) option \<Rightarrow>
   (string \<times> string list) option" where
  "cycle_entry eligible paths i scc entry held =
     (case gm_get paths entry of
        None \<Rightarrow> held
      | Some p \<Rightarrow>
          let cyc = getShortestCycle entry scc eligible;
              cand = (if entry = i then cyc else if length cyc > 1 then p @ tl cyc else p)
          in if (case held of None \<Rightarrow> True
                 | Some (_, w) \<Rightarrow> length cand < length w \<or> length cand = length w \<and> pathLess cand w)
             then Some (entry, cand) else held)"

definition collect_cycle :: "known_facts \<Rightarrow> string list gomap \<Rightarrow> string \<Rightarrow> string list \<Rightarrow> collected \<Rightarrow> collected" where
  "collect_cycle F paths i scc co =
     (if \<not> cyclic (rf_eligible F) scc then co
      else
        (case fold (cycle_entry (rf_eligible F) paths i scc) scc None of
           None \<Rightarrow> co
         | Some (entry, witness) \<Rightarrow>
             collect_condition (key2 ConditionDependencyCycle (hd scc))
               \<lparr>dc_Kind = ConditionDependencyCycle, dc_DependencyID = entry, dc_Path = witness,
                dc_Detail = ''required dependency cycle''\<rparr> co))"

section \<open>Sorting\<close>

definition pathString :: "string list \<Rightarrow> string" where
  "pathString path = join_str [CHR 0x00] path"

text \<open>The first of the values under each key, in order.\<close>

fun dedupe_by :: "('a \<Rightarrow> string) \<Rightarrow> string list \<Rightarrow> 'a list \<Rightarrow> 'a list" where
  "dedupe_by key had [] = []"
| "dedupe_by key had (x # xs) =
     (if key x \<in> set had then dedupe_by key had xs else x # dedupe_by key (key x # had) xs)"

definition dedupeConditions :: "chain_condition list \<Rightarrow> chain_condition list" where
  "dedupeConditions values =
     dedupe_by (\<lambda>x. join_str [CHR 0x00] [dc_Kind x, dc_DependencyID x, pathString (dc_Path x), dc_Detail x]) [] values"

definition dedupeCauses :: "review_cause list \<Rightarrow> review_cause list" where
  "dedupeCauses values =
     dedupe_by (\<lambda>x. join_str [CHR 0x00] [cs_Kind x, cs_SourceKind x, cs_DependencyID x, pathString (cs_Path x), cs_Detail x]) [] values"

definition sortConditions :: "chain_condition list \<Rightarrow> chain_condition list" where
  "sortConditions values =
     sort_key (\<lambda>x. (dc_Kind x, dc_DependencyID x, pathString (dc_Path x), dc_Detail x)) (dedupeConditions values)"

definition sortCauses :: "review_cause list \<Rightarrow> review_cause list" where
  "sortCauses values =
     sort_key (\<lambda>x. (cs_Kind x, cs_SourceKind x, cs_DependencyID x, pathString (cs_Path x), cs_Detail x)) (dedupeCauses values)"

section \<open>The assessment of every claim\<close>

text \<open>The map of the claims by id: of two claims with one id the first is kept.\<close>

definition index_claims :: "claim list \<Rightarrow> claim gomap" where
  "index_claims claims = fold (\<lambda>c. put_new (cl_ID c) c) claims []"

definition eligible_claims :: "claim gomap \<Rightarrow> claim gomap" where
  "eligible_claims index = filter (\<lambda>(i, c). dependencyState c = []) index"

definition collect_all :: "known_facts \<Rightarrow> string \<Rightarrow> collected" where
  "collect_all F i =
     (let r = bfs (rf_byID F) (rf_eligible F) i;
          own = collect_own i (rf_local F i);
          reached = fold (\<lambda>(u, p) co.
            if u \<noteq> i then collect_reached F u p co
            else (case br_invalidRoot r of None \<Rightarrow> co | Some q \<Rightarrow> collect_reached F u q co)) (br_paths r) own;
          missing = fold (\<lambda>(d, p). collect_missing d p) (br_bestMissing r) reached
      in fold (collect_cycle F (br_paths r) i) (rf_sccs F) missing)"

definition assess :: "known_facts \<Rightarrow> string \<Rightarrow> claim \<Rightarrow> assessment" where
  "assess F i c =
     (let approval = rf_approval F i;
          localApproved = (cl_Status c = StatusLocked \<and> ac_valid approval);
          reasons = localReasons c @ (if cl_Status c = StatusLocked \<and> \<not> ac_valid approval then [ac_detail approval] else []);
          co = collect_all F i;
          conditions = sortConditions (map snd (co_conditions co));
          causes = sortCauses (map snd (co_causes co));
          dependencyReady = (length conditions = 0);
          reviewPending = (length causes > 0)
      in \<lparr>as_ClaimID = i, as_PolicyVersion = PolicyLocalApprovalV1, as_LocalApproved = localApproved,
          as_LocallyApproved = localApproved, as_DependencyReady = dependencyReady,
          as_Ready = (localApproved \<and> dependencyReady \<and> \<not> reviewPending), as_ReviewPending = reviewPending,
          as_DependencyConditions = conditions, as_Conditions = conditions, as_ReviewCauses = causes, as_Causes = causes,
          as_LocalReasons = reasons, as_LocalApprovalIssue = ac_detail approval\<rparr>)"

definition readiness_facts ::
  "(string \<Rightarrow> string) \<Rightarrow> claim gomap \<Rightarrow> store option \<Rightarrow> flag_store option \<Rightarrow> string list list \<Rightarrow> known_facts" where
  "readiness_facts sha index so flags sccs =
     (let claim = (\<lambda>i. case gm_get index i of None \<Rightarrow> zero_claim | Some c \<Rightarrow> c);
          approval = (\<lambda>i. approvalState sha (claim i) so)
      in \<lparr>rf_byID = index, rf_eligible = eligible_claims index, rf_approval = approval,
          rf_local = (\<lambda>i. localSummary sha (claim i) so flags index (approval i)), rf_sccs = sccs\<rparr>)"

text \<open>\<open>None\<close> where the search for components does not return, which \<open>Compute_get\<close> excludes.\<close>

definition Compute ::
  "(string \<Rightarrow> string) \<Rightarrow> claim list \<Rightarrow> store option \<Rightarrow> flag_store option \<Rightarrow> assessment gomap option" where
  "Compute sha claims so flags =
     (let index = index_claims claims in
      case findSCCs (eligible_claims index) of
        None \<Rightarrow> None
      | Some sccs \<Rightarrow>
          let F = readiness_facts sha index so flags sccs
          in Some (map (\<lambda>(i, c). (i, assess F i c)) index))"

section \<open>When nothing is collected\<close>

lemma put_new_ne [simp]: "put_new k v m \<noteq> []"
proof -
  have "AList.update k v m \<noteq> []" by (cases m) auto
  then show ?thesis by (auto simp: put_new_def)
qed

lemma gm_put_ne: "gm_put k v m \<noteq> []"
  by (cases m) auto

lemma collect_parts [simp]:
  "co_conditions (collect_condition k x co) \<noteq> []" "co_causes (collect_condition k x co) = co_causes co"
  "co_causes (collect_cause k y co) \<noteq> []" "co_conditions (collect_cause k y co) = co_conditions co"
  by (simp_all add: collect_condition_def collect_cause_def)

lemma fold_put_nil: "fold (\<lambda>x. gm_put (f x) x) xs m = [] \<longleftrightarrow> m = [] \<and> xs = []"
  by (induction xs arbitrary: m) (auto simp: gm_put_ne)

lemma collect_own_nil:
  "co_conditions (collect_own i sm) = [] \<longleftrightarrow> sm_conditions sm = []"
  "co_causes (collect_own i sm) = [] \<longleftrightarrow> sm_causes sm = []"
  unfolding collect_own_def collected.simps fold_put_nil by simp_all

lemma fold_nil:
  assumes "\<And>x co. Q (f x co) \<longleftrightarrow> Q co \<and> P x"
  shows "Q (fold f xs co) \<longleftrightarrow> Q co \<and> (\<forall>x \<in> set xs. P x)"
  by (induction xs arbitrary: co) (auto simp: assms)

text \<open>Nothing was collected so far.\<close>

definition clear :: "collected \<Rightarrow> bool" where
  "clear co \<longleftrightarrow> co_conditions co = [] \<and> co_causes co = []"

lemma clear_collect [simp]: "\<not> clear (collect_condition k x co)" "\<not> clear (collect_cause k y co)"
  by (simp_all add: clear_def)

lemma clear_inherit_cause [simp]: "\<not> clear (inherit_cause u p x co)"
  by (simp add: inherit_cause_def Let_def)

lemma clear_inherit_condition: "clear (inherit_condition u p x co) \<longleftrightarrow> clear co \<and> dc_Kind x \<noteq> ConditionUnknownHistoricalBaseline"
  by (simp add: inherit_condition_def)

text \<open>A claim that gives its dependents nothing to report.\<close>

definition quiet :: "known_facts \<Rightarrow> string \<Rightarrow> bool" where
  "quiet F u \<longleftrightarrow> (case gm_get (rf_byID F) u of
     None \<Rightarrow> True
   | Some c \<Rightarrow> u \<in> known (rf_eligible F) \<and> cl_Status c = StatusLocked \<and> ac_valid (rf_approval F u) \<and>
       sm_causes (rf_local F u) = [] \<and>
       (\<forall>x \<in> set (sm_conditions (rf_local F u)). dc_Kind x \<noteq> ConditionUnknownHistoricalBaseline))"

lemma clear_reached: "clear (collect_reached F u p co) \<longleftrightarrow> clear co \<and> quiet F u"
proof -
  have causes: "clear (fold (inherit_cause u p) xs co) \<longleftrightarrow> clear co \<and> xs = []" for xs co
    using fold_nil [of clear "inherit_cause u p" "\<lambda>_. False" xs co] by (cases xs) auto
  have conds: "clear (fold (inherit_condition u p) xs co) \<longleftrightarrow>
      clear co \<and> (\<forall>x \<in> set xs. dc_Kind x \<noteq> ConditionUnknownHistoricalBaseline)" for xs co
    by (rule fold_nil) (rule clear_inherit_condition)
  show ?thesis
    by (auto simp: collect_reached_def quiet_def Let_def known_iff causes conds split: option.splits)
qed

lemma cycle_entry_none: "fold (cycle_entry el paths i scc) es held = None \<longleftrightarrow> held = None \<and> (\<forall>e \<in> set es. gm_get paths e = None)"
proof (induction es arbitrary: held)
  case (Cons e es)
  have "cycle_entry el paths i scc e held = None \<longleftrightarrow> held = None \<and> gm_get paths e = None"
    by (cases held) (auto simp: cycle_entry_def Let_def split: option.splits)
  with Cons show ?case by auto
qed simp

lemma clear_cycle:
  "clear (collect_cycle F paths i scc co) \<longleftrightarrow>
   clear co \<and> (cyclic (rf_eligible F) scc \<longrightarrow> (\<forall>e \<in> set scc. gm_get paths e = None))"
  by (auto simp: collect_cycle_def cycle_entry_none split: option.split prod.split)
    (use cycle_entry_none [of "rf_eligible F" paths i scc scc None] in auto)

lemma collect_all_clear:
  fixes F i
  defines "r \<equiv> bfs (rf_byID F) (rf_eligible F) i"
  shows "clear (collect_all F i) \<longleftrightarrow>
    sm_conditions (rf_local F i) = [] \<and> sm_causes (rf_local F i) = [] \<and>
    (\<forall>u p. (u, p) \<in> set (br_paths r) \<longrightarrow> (if u \<noteq> i then quiet F u else br_invalidRoot r \<noteq> None \<longrightarrow> quiet F i)) \<and>
    br_bestMissing r = [] \<and>
    (\<forall>scc \<in> set (rf_sccs F). cyclic (rf_eligible F) scc \<longrightarrow> (\<forall>e \<in> set scc. gm_get (br_paths r) e = None))"
proof -
  let ?reach = "\<lambda>(u, p) co. if u \<noteq> i then collect_reached F u p co
    else (case br_invalidRoot r of None \<Rightarrow> co | Some q \<Rightarrow> collect_reached F u q co)"
  have reach: "clear (fold ?reach ps co) \<longleftrightarrow> clear co \<and>
      (\<forall>x \<in> set ps. if fst x \<noteq> i then quiet F (fst x) else br_invalidRoot r \<noteq> None \<longrightarrow> quiet F i)" for ps co
    by (rule fold_nil) (auto simp: clear_reached split: option.splits)
  have miss: "clear (fold (\<lambda>(d, p). collect_missing d p) ms co) \<longleftrightarrow> clear co \<and> ms = []" for ms co
    by (induction ms arbitrary: co) (auto simp: collect_missing_def)
  have cycles: "clear (fold (collect_cycle F (br_paths r) i) cs co) \<longleftrightarrow> clear co \<and>
      (\<forall>scc \<in> set cs. cyclic (rf_eligible F) scc \<longrightarrow> (\<forall>e \<in> set scc. gm_get (br_paths r) e = None))" for cs co
    by (rule fold_nil) (rule clear_cycle)
  show ?thesis
    unfolding collect_all_def Let_def r_def [symmetric] cycles miss reach
    by (auto simp: clear_def collect_own_nil)
qed

section \<open>What ready means\<close>

text \<open>The dependency graph, over the first claim under each id.\<close>

definition requires :: "claim list \<Rightarrow> (string \<times> string) set" where
  "requires claims = {(a, b). \<exists>c. findByID claims a = Some c \<and> b \<in> set (ro_IDs (cl_RestsOn c))}"

text \<open>
  A claim is settled when it is locked under a standing approval of exactly what it says, nothing
  about it awaits review, and each dependency is there as it was when the claim was last reviewed: the
  ledger has a claim record for it that was not released and whose hash, not empty, is that of the claim;
  no thread is open and no flag is filed; and the baseline of each dependency, or the receipt's hash where
  no baseline was ever written, is the hash of that dependency.
\<close>

definition reviewed_hash :: "store \<Rightarrow> string \<Rightarrow> string \<Rightarrow> string \<Rightarrow> bool" where
  "reviewed_hash s i d h \<longleftrightarrow>
     (\<exists>m. gm_get (st_Hashes s) i = Some m \<and> gm_get m d = Some h) \<or>
     (\<not> (\<exists>m h. gm_get (st_Hashes s) i = Some m \<and> gm_get m d = Some h) \<and>
      (\<exists>m r. gm_get (st_Receipts s) i = Some m \<and> gm_get m d = Some r \<and> rc_Hash r = h \<and> h \<noteq> []))"

definition well_settled ::
  "(string \<Rightarrow> string) \<Rightarrow> claim list \<Rightarrow> store option \<Rightarrow> flag_store option \<Rightarrow> string \<Rightarrow> bool" where
  "well_settled sha claims so flags i \<longleftrightarrow> (\<exists>c s r. findByID claims i = Some c \<and> so = Some s \<and>
     cl_Status c = ''locked'' \<and>
     gm_get (st_Ledger s) i = Some r \<and> lr_Subject r = ''claim'' \<and> lr_ReleasedAt r = [] \<and>
     lr_Hash r = LockedClaimHash sha c \<and> lr_Hash r \<noteq> [] \<and>
     (\<forall>cm \<in> set (cl_Comments c). cm_Status cm \<noteq> ''open'') \<and>
     (\<forall>fs. flags = Some fs \<longrightarrow> gm_get (fs_Flags fs) i = None) \<and>
     (\<forall>d \<in> set (ro_IDs (cl_RestsOn c)). \<exists>dep. findByID claims d = Some dep \<and>
        reviewed_hash s i d (ContentHash sha dep)))"

text \<open>The same through the checks the program makes.\<close>

definition checks_pass ::
  "(string \<Rightarrow> string) \<Rightarrow> claim list \<Rightarrow> store option \<Rightarrow> flag_store option \<Rightarrow> string \<Rightarrow> bool" where
  "checks_pass sha claims so flags i \<longleftrightarrow> (\<exists>c. findByID claims i = Some c \<and>
     cl_Status c = StatusLocked \<and> ac_valid (approvalState sha c so) \<and> \<not> HasOpenThreads c \<and>
     (case flags of None \<Rightarrow> True | Some fs \<Rightarrow> gm_get (fs_Flags fs) i = None) \<and>
     (\<forall>d \<in> set (ro_IDs (cl_RestsOn c)). \<exists>dep. findByID claims d = Some dep \<and>
        baseline_hash so i d = Some (ContentHash sha dep)))"

lemma index_claims_get: "gm_get (index_claims claims) i = findByID claims i" "gm_wf (index_claims claims)"
proof -
  have "gm_get (fold (\<lambda>c. put_new (cl_ID c) c) claims m) i = (case gm_get m i of None \<Rightarrow> findByID claims i | Some c \<Rightarrow> Some c)"
    for m by (induction claims arbitrary: m) (auto simp: put_new_def split: option.split)
  then show "gm_get (index_claims claims) i = findByID claims i" by (simp add: index_claims_def)
  have "gm_wf m \<Longrightarrow> gm_wf (fold (\<lambda>c. put_new (cl_ID c) c) claims m)" for m :: "claim gomap"
    by (induction claims arbitrary: m) (auto simp: put_new_def)
  then show "gm_wf (index_claims claims)" by (simp add: index_claims_def)
qed

lemma eligible_get:
  "gm_wf index \<Longrightarrow> gm_get (eligible_claims index) i =
   (case gm_get index i of None \<Rightarrow> None | Some c \<Rightarrow> if dependencyState c = [] then Some c else None)"
  unfolding eligible_claims_def
  by (induction index) (auto split: option.split simp: map_of_eq_None_iff image_iff dest: map_of_SomeD)

lemma locked_state: "cl_Status c = StatusLocked \<Longrightarrow> dependencyState c = []"
proof -
  have "to_lower (trim_space StatusLocked) = ''locked''" by code_simp
  then show "cl_Status c = StatusLocked \<Longrightarrow> dependencyState c = []" by (simp add: dependencyState_def)
qed

lemma sortConditions_nil [simp]: "sortConditions xs = [] \<longleftrightarrow> xs = []"
proof -
  have "dedupe_by k [] xs = [] \<longleftrightarrow> xs = []" for k :: "chain_condition \<Rightarrow> string" by (cases xs) auto
  then show ?thesis by (simp add: sortConditions_def dedupeConditions_def)
qed

lemma sortCauses_nil [simp]: "sortCauses xs = [] \<longleftrightarrow> xs = []"
proof -
  have "dedupe_by k [] xs = [] \<longleftrightarrow> xs = []" for k :: "review_cause \<Rightarrow> string" by (cases xs) auto
  then show ?thesis by (simp add: sortCauses_def dedupeCauses_def)
qed

lemma assess_ready:
  "as_Ready (assess F i c) \<longleftrightarrow> cl_Status c = StatusLocked \<and> ac_valid (rf_approval F i) \<and> clear (collect_all F i)"
  by (auto simp: assess_def Let_def clear_def)

lemma summary_dep_nil:
  "sm_conditions (summary_dep sha so index c d out) = [] \<and> sm_causes (summary_dep sha so index c d out) = [] \<longleftrightarrow>
   (sm_conditions out = [] \<and> sm_causes out = []) \<and>
   (\<exists>dep. gm_get index d = Some dep \<and> dependencyState dep = [] \<and> baseline_hash so (cl_ID c) d = Some (ContentHash sha dep))"
  by (auto simp: summary_dep_def Let_def add_condition_def add_cause_def dependencyState_def readiness_kinds split: option.splits)

lemma summary_dep_quiet:
  "sm_causes (summary_dep sha so index c d out) = [] \<and>
     (\<forall>x \<in> set (sm_conditions (summary_dep sha so index c d out)). dc_Kind x \<noteq> ConditionUnknownHistoricalBaseline) \<longleftrightarrow>
   (sm_causes out = [] \<and> (\<forall>x \<in> set (sm_conditions out). dc_Kind x \<noteq> ConditionUnknownHistoricalBaseline)) \<and>
   (\<forall>dep. gm_get index d = Some dep \<longrightarrow> dependencyState dep = [] \<longrightarrow> baseline_hash so (cl_ID c) d = Some (ContentHash sha dep))"
  by (auto simp: summary_dep_def Let_def add_condition_def add_cause_def dependencyState_def readiness_kinds split: option.splits)

definition undisturbed :: "claim \<Rightarrow> flag_store option \<Rightarrow> bool" where
  "undisturbed c flags \<longleftrightarrow> \<not> HasOpenThreads c \<and> (case flags of None \<Rightarrow> True | Some fs \<Rightarrow> gm_get (fs_Flags fs) (cl_ID c) = None)"

lemma localSummary_locked:
  assumes "cl_Status c = StatusLocked" "ac_valid approval"
  shows "sm_conditions (localSummary sha c so flags index approval) = [] \<and> sm_causes (localSummary sha c so flags index approval) = [] \<longleftrightarrow>
      undisturbed c flags \<and> (\<forall>d \<in> set (ro_IDs (cl_RestsOn c)). \<exists>dep. gm_get index d = Some dep \<and> dependencyState dep = [] \<and>
        baseline_hash so (cl_ID c) d = Some (ContentHash sha dep))"
    "sm_causes (localSummary sha c so flags index approval) = [] \<and>
       (\<forall>x \<in> set (sm_conditions (localSummary sha c so flags index approval)). dc_Kind x \<noteq> ConditionUnknownHistoricalBaseline) \<longleftrightarrow>
      undisturbed c flags \<and> (\<forall>d \<in> set (ro_IDs (cl_RestsOn c)). \<forall>dep. gm_get index d = Some dep \<longrightarrow> dependencyState dep = [] \<longrightarrow>
        baseline_hash so (cl_ID c) d = Some (ContentHash sha dep))"
proof -
  define out where "out = (let out2 = (if HasOpenThreads c then add_cause (own_cause CauseOwnThread c (join_str '','' (OpenThreadIDs c)))
        \<lparr>sm_conditions = [], sm_causes = []\<rparr> else \<lparr>sm_conditions = [], sm_causes = []\<rparr>)
     in case (case flags of None \<Rightarrow> None | Some fs \<Rightarrow> gm_get (fs_Flags fs) (cl_ID c)) of
          None \<Rightarrow> out2 | Some flag \<Rightarrow> add_cause (own_cause CauseOwnFlag c (pf_Reason flag)) out2)"
  have out: "sm_conditions out = []" "sm_causes out = [] \<longleftrightarrow> undisturbed c flags"
    by (auto simp: out_def Let_def add_cause_def undisturbed_def split: option.splits)
  have eq: "localSummary sha c so flags index approval = fold (summary_dep sha so index c) (BaselineDependencyIDs c) out"
    using assms by (simp add: localSummary_def Let_def out_def)
  show "sm_conditions (localSummary sha c so flags index approval) = [] \<and> sm_causes (localSummary sha c so flags index approval) = [] \<longleftrightarrow>
      undisturbed c flags \<and> (\<forall>d \<in> set (ro_IDs (cl_RestsOn c)). \<exists>dep. gm_get index d = Some dep \<and> dependencyState dep = [] \<and>
        baseline_hash so (cl_ID c) d = Some (ContentHash sha dep))"
    unfolding eq using fold_nil [where Q = "\<lambda>out. sm_conditions out = [] \<and> sm_causes out = []"
        and f = "summary_dep sha so index c" and xs = "BaselineDependencyIDs c" and co = out, OF summary_dep_nil] out by simp
  show "sm_causes (localSummary sha c so flags index approval) = [] \<and>
       (\<forall>x \<in> set (sm_conditions (localSummary sha c so flags index approval)). dc_Kind x \<noteq> ConditionUnknownHistoricalBaseline) \<longleftrightarrow>
      undisturbed c flags \<and> (\<forall>d \<in> set (ro_IDs (cl_RestsOn c)). \<forall>dep. gm_get index d = Some dep \<longrightarrow> dependencyState dep = [] \<longrightarrow>
        baseline_hash so (cl_ID c) d = Some (ContentHash sha dep))"
    unfolding eq using fold_nil [where Q = "\<lambda>out. sm_causes out = [] \<and> (\<forall>x \<in> set (sm_conditions out). dc_Kind x \<noteq> ConditionUnknownHistoricalBaseline)"
        and f = "summary_dep sha so index c" and xs = "BaselineDependencyIDs c" and co = out, OF summary_dep_quiet] out by simp
qed

text \<open>The graph of the claims that can be consumed is the graph of the claims, where all of them can.\<close>

lemma required_index: "set (required (index_claims claims) u) = {d. (u, d) \<in> requires claims}"
  by (cases "findByID claims u") (auto simp: required_def index_claims_get requires_def)

lemma known_index: "u \<in> known (index_claims claims) \<longleftrightarrow> (\<exists>c. findByID claims u = Some c)"
  by (auto simp: known_iff index_claims_get)

lemma known_eligible: "u \<in> known (eligible_claims (index_claims claims)) \<longleftrightarrow> (\<exists>c. findByID claims u = Some c \<and> dependencyState c = [])"
  by (auto simp: known_iff eligible_get [OF index_claims_get(2)] index_claims_get(1) split: option.splits if_splits)

lemma required_eligible:
  "set (required (eligible_claims (index_claims claims)) u) =
   (if u \<in> known (eligible_claims (index_claims claims)) then {d. (u, d) \<in> requires claims} else {})"
  by (cases "findByID claims u")
    (auto simp: required_def known_iff eligible_get [OF index_claims_get(2)] index_claims_get(1) requires_def)

lemma route_reaches:
  assumes "route (index_claims claims) el i p"
  shows "(i, last p) \<in> (requires claims)\<^sup>*"
  using assms by induction (auto simp: required_index intro: rtrancl_into_rtrancl)

lemma eligible_known: "known (eligible_claims (index_claims claims)) \<subseteq> known (index_claims claims)"
  by (auto simp: known_index known_eligible)

text \<open>The facts \<open>Compute\<close> works with.\<close>

lemma quiet_claim:
  fixes sha claims so flags sccs
  defines "F \<equiv> readiness_facts sha (index_claims claims) so flags sccs"
  assumes "findByID claims u = Some c"
  shows "quiet F u \<longleftrightarrow> cl_Status c = StatusLocked \<and> ac_valid (approvalState sha c so) \<and> undisturbed c flags \<and>
    (\<forall>d \<in> set (ro_IDs (cl_RestsOn c)). \<forall>dep. findByID claims d = Some dep \<longrightarrow> dependencyState dep = [] \<longrightarrow>
       baseline_hash so u d = Some (ContentHash sha dep))"
proof (cases "cl_Status c = StatusLocked \<and> ac_valid (approvalState sha c so)")
  case True
  have "u \<in> known (eligible_claims (index_claims claims))" using assms(2) True locked_state by (auto simp: known_eligible)
  then show ?thesis
    using True assms(2) localSummary_locked(2) [of c "approvalState sha c so" sha so flags "index_claims claims"] findByID_ID [OF assms(2)]
    by (simp add: quiet_def F_def readiness_facts_def Let_def index_claims_get)
qed (use assms(2) in \<open>auto simp: quiet_def F_def readiness_facts_def Let_def index_claims_get\<close>)

lemma ready_claim:
  fixes sha claims so flags sccs
  defines "F \<equiv> readiness_facts sha (index_claims claims) so flags sccs"
  assumes c: "findByID claims i = Some c" and ok: "cl_Status c = StatusLocked" "ac_valid (approvalState sha c so)"
  shows "sm_conditions (rf_local F i) = [] \<and> sm_causes (rf_local F i) = [] \<longleftrightarrow> undisturbed c flags \<and>
    (\<forall>d \<in> set (ro_IDs (cl_RestsOn c)). \<exists>dep. findByID claims d = Some dep \<and> dependencyState dep = [] \<and>
       baseline_hash so i d = Some (ContentHash sha dep))"
  using localSummary_locked(1) [OF ok, of sha so flags "index_claims claims"] findByID_ID [OF c] c
  by (simp add: F_def readiness_facts_def Let_def index_claims_get)

lemma settled_undisturbed:
  "findByID claims i = Some c \<Longrightarrow> checks_pass sha claims so flags i \<longleftrightarrow>
     cl_Status c = StatusLocked \<and> ac_valid (approvalState sha c so) \<and> undisturbed c flags \<and>
     (\<forall>d \<in> set (ro_IDs (cl_RestsOn c)). \<exists>dep. findByID claims d = Some dep \<and> baseline_hash so i d = Some (ContentHash sha dep))"
  using findByID_ID [of claims i c] by (auto simp: checks_pass_def undisturbed_def)

abbreviation elig :: "claim list \<Rightarrow> claim gomap" where
  "elig claims \<equiv> eligible_claims (index_claims claims)"

text \<open>A clear collection: every claim that is reached is settled, by induction along the dependencies.\<close>

lemma clear_settled:
  fixes sha claims so flags sccs
  defines "F \<equiv> readiness_facts sha (index_claims claims) so flags sccs"
  assumes c: "findByID claims i = Some c" "cl_Status c = StatusLocked" "ac_valid (approvalState sha c so)"
    and clear: "clear (collect_all F i)" and u: "(i, u) \<in> (requires claims)\<^sup>*"
  shows "checks_pass sha claims so flags u \<and> u \<in> known (elig claims) \<and>
    (\<exists>q. route (index_claims claims) (elig claims) i q \<and> last q = u)"
proof -
  let ?m = "index_claims claims"
  let ?r = "bfs ?m (elig claims) i"
  have i: "i \<in> known ?m" using c by (simp add: known_index)
  have F: "rf_byID F = ?m" "rf_eligible F = elig claims" by (simp_all add: F_def readiness_facts_def Let_def)
  have nil: "sm_conditions (rf_local F i) = []" "sm_causes (rf_local F i) = []" "br_bestMissing ?r = []"
    "\<And>v p. gm_get (br_paths ?r) v = Some p \<Longrightarrow> v \<noteq> i \<Longrightarrow> quiet F v"
    using clear unfolding collect_all_clear F by (auto dest!: map_of_SomeD split: if_splits)
  have own: "checks_pass sha claims so flags i"
    and deps: "\<And>d. d \<in> set (ro_IDs (cl_RestsOn c)) \<Longrightarrow> d \<in> known (elig claims)"
    using ready_claim [OF c, of flags sccs] nil(1,2) c by (auto simp: settled_undisturbed F_def known_eligible)
  have el: "i \<in> known (elig claims)" using c locked_state by (auto simp: known_eligible)
  note finds = bfs_finds [OF eligible_known i]
  have exists: "last q \<in> known ?m" if "route ?m (elig claims) i q" for q
    using finds(2) [OF that] nil(3) by (cases "last q \<in> known ?m") auto
  have quiet: "quiet F (last q)" if "route ?m (elig claims) i q" "last q \<noteq> i" for q
    using finds(1) [OF that(1) exists [OF that(1)]] nil(4) [OF _ that(2)] by auto
  have eligible: "last q \<in> known (elig claims)" if "route ?m (elig claims) i q" for q
    using quiet [OF that] exists [OF that] el by (cases "last q = i") (auto simp: quiet_def F known_iff split: option.splits)
  have checks_pass: "checks_pass sha claims so flags (last q)" if q: "route ?m (elig claims) i q" for q
  proof (cases "last q = i")
    case False
    obtain x where x: "findByID claims (last q) = Some x" using exists [OF q] by (auto simp: known_index)
    have "\<exists>dep. findByID claims d = Some dep \<and> dependencyState dep = []" if "d \<in> set (ro_IDs (cl_RestsOn x))" for d
    proof -
      have "route ?m (elig claims) i (q @ [d])"
        using q eligible [OF q] that x by (intro route.extend) (auto simp: required_index requires_def)
      from eligible [OF this] show ?thesis by (simp add: known_eligible)
    qed
    then show ?thesis
      using quiet [OF q False] x unfolding F_def quiet_claim [OF x] settled_undisturbed [OF x] by metis
  qed (use own in simp)
  from u show ?thesis
  proof induction
    case base
    then show ?case using own el by (auto intro!: exI [of _ "[i]"] route.start)
  next
    case (step u d)
    then obtain q where q: "route ?m (elig claims) i q" "last q = u" "u \<in> known (elig claims)" by auto
    then have "route ?m (elig claims) i (q @ [d])"
      using step.hyps by (intro route.extend) (auto simp: required_index)
    from checks_pass [OF this] eligible [OF this] this show ?case by (metis last_snoc)
  qed
qed

text \<open>Where all that is reached can be consumed, the two graphs agree on it.\<close>

lemma arc_requires: "arc (elig claims) \<subseteq> requires claims"
  by (auto simp: arc_def required_eligible)

lemma requires_arc:
  assumes "(u, v) \<in> (requires claims)\<^sup>+" "\<And>w. (u, w) \<in> (requires claims)\<^sup>* \<Longrightarrow> w \<in> known (elig claims)"
  shows "(u, v) \<in> (arc (elig claims))\<^sup>+"
proof -
  have arc: "(x, y) \<in> arc (elig claims)" if "(u, x) \<in> (requires claims)\<^sup>*" "(x, y) \<in> requires claims" for x y
    using that assms(2) [OF that(1)] assms(2) [of y] by (auto simp: arc_def required_eligible intro: rtrancl_into_rtrancl)
  show ?thesis
    using assms(1)
  proof induction
    case (base y)
    then show ?case using arc by auto
  next
    case (step y z)
    then show ?case using arc [of y z] by (meson trancl_into_trancl trancl_into_rtrancl)
  qed
qed

text \<open>A component is cyclic exactly when its members are on a cycle.\<close>

lemma cyclic_iff:
  assumes "findSCCs m = Some sccs" "C \<in> set sccs" "a \<in> set C"
  shows "cyclic m C \<longleftrightarrow> (a, a) \<in> (arc m)\<^sup>+"
proof -
  obtain sccs' where s: "findSCCs m = Some sccs'" "(\<Union>C \<in> set sccs'. set C) = known m"
    "\<And>C. C \<in> set sccs' \<Longrightarrow> sorted C \<and> distinct C \<and> C \<noteq> []"
    "\<And>C a b. C \<in> set sccs' \<Longrightarrow> a \<in> set C \<Longrightarrow> b \<in> set C \<longleftrightarrow> (a, b) \<in> (arc m)\<^sup>* \<and> (b, a) \<in> (arc m)\<^sup>*"
    using findSCCs_components [of m] by blast
  have C: "C \<in> set sccs'" using assms s(1) by simp
  note mutual = s(4) [OF C assms(3)]
  have a: "a \<in> known m" using s(2) C assms(3) by auto
  show ?thesis
  proof
    assume "cyclic m C"
    then consider "length C > 1" | "length C = 1" "hd C \<in> set (required m (hd C))"
      by (auto simp: cyclic_def required_def split: option.splits)
    then show "(a, a) \<in> (arc m)\<^sup>+"
    proof cases
      case 1
      have "\<not> set C \<subseteq> {a}"
      proof
        assume "set C \<subseteq> {a}"
        then have "card (set C) \<le> 1" using card_mono [of "{a}" "set C"] by simp
        then show False using 1 s(3) [OF C] distinct_card [of C] by simp
      qed
      then obtain b where b: "b \<in> set C" "b \<noteq> a" by blast
      with mutual [of b] show ?thesis by (meson rtrancl_eq_or_trancl rtrancl_trancl_trancl)
    next
      case 2
      then have "hd C = a" using assms(3) by (cases C) auto
      with 2 a show ?thesis by (auto simp: arc_def)
    qed
  next
    assume "(a, a) \<in> (arc m)\<^sup>+"
    then obtain b where b: "(a, b) \<in> arc m" "(b, a) \<in> (arc m)\<^sup>*" by (metis tranclD)
    then have "b \<in> set C" using mutual [of b] by auto
    show "cyclic m C"
    proof (cases "b = a")
      case True
      then have "a \<in> set (required m a)" using b by (simp add: arc_def)
      then show ?thesis using assms(3) by (cases C) (auto simp: cyclic_def required_def split: option.splits)
    next
      case False
      then have "card {a, b} \<le> card (set C)" using \<open>b \<in> set C\<close> assms(3) by (intro card_mono) auto
      then have "length C > 1" using False card_length [of C] by simp
      then show ?thesis by (simp add: cyclic_def)
    qed
  qed
qed

lemma settled_clear:
  fixes sha claims so flags sccs
  defines "F \<equiv> readiness_facts sha (index_claims claims) so flags sccs"
  assumes sccs: "findSCCs (elig claims) = Some sccs"
    and all: "\<And>u. (i, u) \<in> (requires claims)\<^sup>* \<Longrightarrow> checks_pass sha claims so flags u"
    and acyclic: "\<And>u. (i, u) \<in> (requires claims)\<^sup>* \<Longrightarrow> (u, u) \<notin> (requires claims)\<^sup>+"
  shows "clear (collect_all F i)"
proof -
  let ?m = "index_claims claims"
  let ?r = "bfs ?m (elig claims) i"
  have F: "rf_byID F = ?m" "rf_eligible F = elig claims" "rf_sccs F = sccs" by (simp_all add: F_def readiness_facts_def Let_def)
  obtain c where c: "findByID claims i = Some c" using all [of i] by (auto simp: checks_pass_def)
  have el: "u \<in> known (elig claims)" "u \<in> known ?m" if "(i, u) \<in> (requires claims)\<^sup>*" for u
    using all [OF that] locked_state by (auto simp: checks_pass_def known_eligible known_index)
  have i: "i \<in> known ?m" by (rule el(2)) simp
  note paths = bfs_shortest_paths [OF eligible_known i]
  have quiet: "quiet F u" if "(i, u) \<in> (requires claims)\<^sup>*" for u
  proof -
    have s: "checks_pass sha claims so flags u" by (rule all [OF that])
    then obtain x where x: "findByID claims u = Some x" by (auto simp: checks_pass_def)
    show ?thesis unfolding F_def quiet_claim [OF x] using s unfolding settled_undisturbed [OF x] by fastforce
  qed
  have reached: "(i, u) \<in> (requires claims)\<^sup>*" if "gm_get (br_paths ?r) u = Some p" for u p
  proof (cases "u = i")
    case False
    have "u \<in> known ?m" using paths(4) [of u] that by (cases "u \<in> known ?m") auto
    then show ?thesis using paths(3) [of u p] that False route_reaches by (auto simp: shortest_def)
  qed simp
  have dep: "\<exists>dep. findByID claims d = Some dep \<and> dependencyState dep = [] \<and> baseline_hash so i d = Some (ContentHash sha dep)"
    if d: "d \<in> set (ro_IDs (cl_RestsOn c))" for d
  proof -
    have "(i, d) \<in> requires claims" using c d by (simp add: requires_def)
    then have e: "d \<in> known (elig claims)" by (intro el(1) r_into_rtrancl)
    have "\<exists>dep. findByID claims d = Some dep \<and> baseline_hash so i d = Some (ContentHash sha dep)"
      using all [of i] d unfolding settled_undisturbed [OF c] by blast
    then obtain dep where "findByID claims d = Some dep" "baseline_hash so i d = Some (ContentHash sha dep)" by blast
    with e show ?thesis by (simp add: known_eligible)
  qed
  have own: "cl_Status c = StatusLocked" "ac_valid (approvalState sha c so)" "undisturbed c flags"
    using all [of i] unfolding settled_undisturbed [OF c] by blast+
  have "sm_conditions (rf_local F i) = [] \<and> sm_causes (rf_local F i) = []"
    unfolding F_def ready_claim [OF c own(1,2)] by (intro conjI ballI) (erule dep | rule own(3))+
  moreover have "if u \<noteq> i then quiet F u else br_invalidRoot ?r \<noteq> None \<longrightarrow> quiet F i" if "(u, p) \<in> set (br_paths ?r)" for u p
      proof -
    have "gm_get (br_paths ?r) u = Some p" using that by (simp add: gm_get_mem [OF paths(2)])
    then have "quiet F u" by (intro quiet reached)
    moreover have "quiet F i" by (rule quiet) simp
    ultimately show ?thesis by simp
  qed
  moreover have "br_bestMissing ?r = []"
  proof (rule ccontr)
    assume "br_bestMissing ?r \<noteq> []"
    then obtain d p where "gm_get (br_bestMissing ?r) d = Some p" by (cases "br_bestMissing ?r") (fastforce split: if_splits)+
    then have "d \<notin> known ?m" "(i, d) \<in> (requires claims)\<^sup>*" using paths(5) [of d p] route_reaches by (auto simp: shortest_def)
    with el(2) show False by blast
  qed
  moreover have "gm_get (br_paths ?r) e = None" if C: "C \<in> set sccs" "cyclic (elig claims) C" "e \<in> set C" for C e
  proof (rule ccontr)
    assume "gm_get (br_paths ?r) e \<noteq> None"
    then have "(i, e) \<in> (requires claims)\<^sup>*" using reached by blast
    moreover have "(e, e) \<in> (requires claims)\<^sup>+"
      using cyclic_iff [OF sccs C(1,3)] C(2) trancl_mono [OF _ arc_requires] by blast
    ultimately show False using acyclic by blast
  qed
  ultimately show ?thesis unfolding collect_all_clear F by blast
qed

lemma Compute_get:
  obtains sccs A where "findSCCs (elig claims) = Some sccs" "Compute sha claims so flags = Some A"
    "\<And>i. gm_get A i = map_option (assess (readiness_facts sha (index_claims claims) so flags sccs) i) (findByID claims i)"
proof -
  obtain sccs where s: "findSCCs (elig claims) = Some sccs" by (rule findSCCs_components)
  have get: "gm_get (map (\<lambda>(i, c). (i, f i c)) m) i = map_option (f i) (gm_get m i)" for f :: "string \<Rightarrow> claim \<Rightarrow> assessment" and m i
  proof (induction m)
    case (Cons x m)
    then show ?case by (cases x) simp
  qed simp
  define F where "F = readiness_facts sha (index_claims claims) so flags sccs"
  have "Compute sha claims so flags = Some (map (\<lambda>(i, c). (i, assess F i c)) (index_claims claims))"
    unfolding Compute_def Let_def s option.case F_def by (rule refl)
  moreover have "gm_get (map (\<lambda>(i, c). (i, assess F i c)) (index_claims claims)) i = map_option (assess F i) (findByID claims i)" for i
    unfolding get index_claims_get(1) by (rule refl)
  ultimately show ?thesis by (rule that [OF s, folded F_def])
qed

lemma ready_settled:
  assumes "Compute sha claims so flags = Some A" "gm_get A i = Some a"
  shows "as_Ready a \<longleftrightarrow>
    (\<forall>u. (i, u) \<in> (requires claims)\<^sup>* \<longrightarrow> checks_pass sha claims so flags u \<and> (u, u) \<notin> (requires claims)\<^sup>+)"
proof -
  obtain sccs A' where s: "findSCCs (elig claims) = Some sccs" "Compute sha claims so flags = Some A'"
    "\<And>i. gm_get A' i = map_option (assess (readiness_facts sha (index_claims claims) so flags sccs) i) (findByID claims i)"
    using Compute_get [of claims sha so flags] by blast
  let ?F = "readiness_facts sha (index_claims claims) so flags sccs"
  obtain c where c: "findByID claims i = Some c" "a = assess ?F i c" using assms s by auto
  have ready: "as_Ready a \<longleftrightarrow> cl_Status c = StatusLocked \<and> ac_valid (approvalState sha c so) \<and> clear (collect_all ?F i)"
    unfolding c(2) assess_ready using c(1) by (simp add: readiness_facts_def Let_def index_claims_get)
  show ?thesis
  proof
    assume "as_Ready a"
    with ready have r: "cl_Status c = StatusLocked" "ac_valid (approvalState sha c so)" "clear (collect_all ?F i)" by auto
    note reach = clear_settled [OF c(1) r]
    have "(u, u) \<notin> (requires claims)\<^sup>+" if u: "(i, u) \<in> (requires claims)\<^sup>*" for u
    proof
      assume loop: "(u, u) \<in> (requires claims)\<^sup>+"
      have "(u, u) \<in> (arc (elig claims))\<^sup>+"
        by (rule requires_arc [OF loop]) (use reach u in \<open>auto intro: rtrancl_trans\<close>)
      moreover have "u \<in> known (elig claims)" using reach [OF u] by simp
      then obtain C where C: "C \<in> set sccs" "u \<in> set C" using findSCCs_components [of "elig claims"] s(1) by (metis UN_E option.inject)
      ultimately have "cyclic (elig claims) C" using cyclic_iff [OF s(1) C] by simp
      then have "gm_get (br_paths (bfs (index_claims claims) (elig claims) i)) u = None"
        using r(3) C unfolding collect_all_clear by (simp add: readiness_facts_def Let_def)
      moreover obtain q where q: "route (index_claims claims) (elig claims) i q" "last q = u" using reach [OF u] by blast
      moreover have "u \<in> known (index_claims claims)" "i \<in> known (index_claims claims)"
        using reach [OF u] eligible_known [of claims] c(1) by (auto simp: known_index checks_pass_def)
      ultimately show False using bfs_finds(1) [OF eligible_known _ q(1)] by simp
    qed
    with reach show "\<forall>u. (i, u) \<in> (requires claims)\<^sup>* \<longrightarrow> checks_pass sha claims so flags u \<and> (u, u) \<notin> (requires claims)\<^sup>+" by blast
  next
    assume all: "\<forall>u. (i, u) \<in> (requires claims)\<^sup>* \<longrightarrow> checks_pass sha claims so flags u \<and> (u, u) \<notin> (requires claims)\<^sup>+"
    then have "checks_pass sha claims so flags i" by blast
    then show "as_Ready a" unfolding ready using settled_clear [OF s(1)] all c(1) by (auto simp: checks_pass_def)
  qed
qed

lemma well_settled_checks: "well_settled sha claims so flags i \<longleftrightarrow> checks_pass sha claims so flags i"
proof (cases so)
  case None
  then show ?thesis by (auto simp: well_settled_def checks_pass_def approvalState_def)
next
  case (Some s)
  have base: "baseline_hash so i d = Some h \<longleftrightarrow> reviewed_hash s i d h" for i d h
    by (auto simp: Some baseline_hash_def reviewed_hash_def Baseline_def Receipt_def split: option.splits)
  have appr: "cl_Status c = StatusLocked \<and> ac_valid (approvalState sha c so) \<longleftrightarrow> cl_Status c = ''locked'' \<and>
      (\<exists>r. gm_get (st_Ledger s) (cl_ID c) = Some r \<and> lr_Subject r = ''claim'' \<and> lr_ReleasedAt r = [] \<and>
        lr_Hash r = LockedClaimHash sha c \<and> lr_Hash r \<noteq> [])" for c
    by (auto simp: Some approvalState_def StatusLocked_def SubjectClaim_def Released_def st_Record_def split: option.splits)
  have quiet: "\<not> HasOpenThreads c \<longleftrightarrow> (\<forall>cm \<in> set (cl_Comments c). cm_Status cm \<noteq> ''open'')" for c
    by (auto simp: HasOpenThreads_iff CommentStatusOpen_def)
  have flag: "(case flags of None \<Rightarrow> True | Some fs \<Rightarrow> gm_get (fs_Flags fs) i = None) \<longleftrightarrow>
      (\<forall>fs. flags = Some fs \<longrightarrow> gm_get (fs_Flags fs) i = None)" by (auto split: option.split)
  show ?thesis
    unfolding checks_pass_def well_settled_def base quiet flag
    using appr findByID_ID by (auto simp: Some) (metis appr findByID_ID)+
qed

end
