(* ===== verification/Readiness_Trails.thy ===== *)
theory Readiness_Trails
  imports Readiness
begin

text \<open>
  The paths an assessment reports (\<^verbatim>\<open>internal/readiness/readiness.go\<close>). Each is a trail: it starts at the
  claim that is assessed and follows declared dependencies up to what it reports. The invariant of the
  collection is that all its paths are trails, and every step of the collection keeps it.
\<close>

section \<open>Trails\<close>

definition trail :: "claim list \<Rightarrow> string \<Rightarrow> string list \<Rightarrow> bool" where
  "trail claims i p \<longleftrightarrow> p \<noteq> [] \<and> hd p = i \<and> successively (\<lambda>a b. (a, b) \<in> requires claims) p"

definition real_condition :: "claim list \<Rightarrow> string \<Rightarrow> chain_condition \<Rightarrow> bool" where
  "real_condition claims i x \<longleftrightarrow> trail claims i (dc_Path x) \<and> last (dc_Path x) = dc_DependencyID x"

definition real_cause :: "claim list \<Rightarrow> string \<Rightarrow> review_cause \<Rightarrow> bool" where
  "real_cause claims i x \<longleftrightarrow> trail claims i (cs_Path x) \<and> (cs_DependencyID x \<noteq> [] \<longrightarrow> last (cs_Path x) = cs_DependencyID x)"

lemma trail_single [simp]: "trail claims i [i]"
  by (simp add: trail_def)

lemma trail_pair: "(i, d) \<in> requires claims \<Longrightarrow> trail claims i [i, d]"
  by (simp add: trail_def)

lemma trail_inherit:
  assumes p: "trail claims i p" "last p = u" and q: "trail claims u q"
  shows "trail claims i (inherit_path p q)" "last (inherit_path p q) = last q"
proof -
  obtain r where q': "q = u # r" using q by (cases q) (auto simp: trail_def)
  have "p \<noteq> []" using p by (simp add: trail_def)
  then show "trail claims i (inherit_path p q)" "last (inherit_path p q) = last q"
    using p q unfolding q' by (cases r; auto simp: trail_def inherit_path_def successively_append_iff successively_Cons)+
qed

lemma route_trail:
  assumes "route (index_claims claims) el i p"
  shows "trail claims i p"
  using assms
proof induction
  case (extend p d)
  then show ?case by (auto simp: trail_def required_index successively_append_iff)
qed simp

lemma closed_walk_trail:
  assumes "closed_walk (elig claims) nodes i p"
  shows "trail claims i p \<and> last p = i \<and> length p > 1"
proof -
  have "successively (\<lambda>a b. b \<in> set (required (elig claims) a)) p" "p \<noteq> []" "hd p = i" "last p = i" "2 \<le> length p"
    using assms by (auto simp: closed_walk_def walk_def)
  moreover have "successively (\<lambda>a b. (a, b) \<in> requires claims) p"
    by (rule successively_mono [OF calculation(1)]) (auto simp: required_eligible split: if_splits)
  ultimately show ?thesis by (simp add: trail_def)
qed

section \<open>Summaries\<close>

definition real_summary :: "claim list \<Rightarrow> string \<Rightarrow> claim_summary \<Rightarrow> bool" where
  "real_summary claims i sm \<longleftrightarrow>
     (\<forall>x \<in> set (sm_conditions sm). real_condition claims i x) \<and> (\<forall>x \<in> set (sm_causes sm). real_cause claims i x)"

lemma real_summary_add [simp]:
  "real_summary claims i (add_cause x sm) \<longleftrightarrow> real_summary claims i sm \<and> real_cause claims i x"
  "real_summary claims i (add_condition y sm) \<longleftrightarrow> real_summary claims i sm \<and> real_condition claims i y"
  by (auto simp: real_summary_def add_cause_def add_condition_def)

lemma real_own_cause: "cl_ID c = i \<Longrightarrow> real_cause claims i (own_cause kind c detail)"
  by (simp add: own_cause_def real_cause_def)

lemma real_summary_dep:
  assumes "cl_ID c = i" "(i, d) \<in> requires claims" "real_summary claims i out"
  shows "real_summary claims i (summary_dep sha so index c d out)"
  using assms trail_pair [OF assms(2)]
  by (auto simp: summary_dep_def Let_def real_condition_def real_cause_def split: option.splits)

lemma real_localSummary:
  assumes c: "findByID claims i = Some c"
  shows "real_summary claims i (localSummary sha c so flags index approval)"
proof -
  have i: "cl_ID c = i" using findByID_ID [OF c] by simp
  have base: "real_summary claims i \<lparr>sm_conditions = [], sm_causes = []\<rparr>" by (simp add: real_summary_def)
  have deps: "real_summary claims i (fold (summary_dep sha so index c) (BaselineDependencyIDs c) out)"
    if "real_summary claims i out" for so out
  proof (rule fold_invariant [where Q = "\<lambda>d. (i, d) \<in> requires claims"])
    show "(i, d) \<in> requires claims" if "d \<in> set (BaselineDependencyIDs c)" for d
      using that c by (simp add: requires_def)
  qed (use that real_summary_dep [OF i] in auto)
  show ?thesis
    unfolding localSummary_def Let_def unapprovedEdit_def
    by (auto simp: base real_own_cause [OF i] intro!: deps split: option.splits)
qed

section \<open>Collections\<close>

definition real_collected :: "claim list \<Rightarrow> string \<Rightarrow> collected \<Rightarrow> bool" where
  "real_collected claims i co \<longleftrightarrow>
     (\<forall>x \<in> snd ` set (co_conditions co). real_condition claims i x) \<and> (\<forall>x \<in> snd ` set (co_causes co). real_cause claims i x)"

lemma snd_put: "snd ` set (gm_put k v m) \<subseteq> insert v (snd ` set m)"
  by (induction m) auto

lemma snd_put_new: "snd ` set (put_new k v m) \<subseteq> insert v (snd ` set m)"
  using snd_put [of k v m] by (auto simp: put_new_def)

lemma real_collect:
  assumes "real_collected claims i co"
  shows "real_condition claims i x \<Longrightarrow> real_collected claims i (collect_condition k x co)"
    "real_cause claims i y \<Longrightarrow> real_collected claims i (collect_cause k y co)"
proof -
  show "real_condition claims i x \<Longrightarrow> real_collected claims i (collect_condition k x co)"
    "real_cause claims i y \<Longrightarrow> real_collected claims i (collect_cause k y co)"
    using assms snd_put_new [of k x "co_conditions co"] snd_put_new [of k y "co_causes co"]
    unfolding real_collected_def by (auto 0 3 simp: collect_condition_def collect_cause_def simp del: image_iff dest!: subsetD)
qed

lemma fold_put_values: "snd ` set (fold (\<lambda>x. gm_put (f x) x) xs m) \<subseteq> snd ` set m \<union> set xs"
proof (induction xs arbitrary: m)
  case (Cons x xs)
  from Cons [of "gm_put (f x) x m"] snd_put [of "f x" x m] show ?case by auto
qed simp

lemma real_collect_own:
  assumes "real_summary claims i sm"
  shows "real_collected claims i (collect_own i sm)"
proof -
  let ?conditions = "snd ` set (co_conditions (collect_own i sm))" and ?causes = "snd ` set (co_causes (collect_own i sm))"
  have "?conditions \<subseteq> set (sm_conditions sm)" "?causes \<subseteq> set (sm_causes sm)"
    unfolding collect_own_def collected.simps by (rule fold_put_values [where m = "[]", simplified])+
  then show ?thesis
    using assms unfolding real_summary_def real_collected_def by blast
qed

lemma real_inherit:
  assumes p: "trail claims i p" "last p = u" and co: "real_collected claims i co"
  shows "real_cause claims u x \<Longrightarrow> real_collected claims i (inherit_cause u p x co)"
    "real_condition claims u y \<Longrightarrow> real_collected claims i (inherit_condition u p y co)"
  using co trail_inherit [OF p]
  by (auto simp: inherit_cause_def inherit_condition_def Let_def real_cause_def real_condition_def intro!: real_collect)

lemma real_reached:
  fixes sha claims so flags sccs
  defines "F \<equiv> readiness_facts sha (index_claims claims) so flags sccs"
  assumes p: "trail claims i p" "last p = u" and co: "real_collected claims i co"
  shows "real_collected claims i (collect_reached F u p co)"
proof (cases "findByID claims u")
  case (Some dep)
  have F: "rf_byID F = index_claims claims" "rf_local F u = localSummary sha dep so flags (index_claims claims) (rf_approval F u)"
    using Some by (simp_all add: F_def readiness_facts_def Let_def index_claims_get)
  have sm: "real_summary claims u (rf_local F u)" unfolding F(2) by (rule real_localSummary [OF Some])
  have at_u: "real_condition claims i \<lparr>dc_Kind = k, dc_DependencyID = u, dc_Path = p, dc_Detail = t\<rparr>" for k t
    using p by (simp add: real_condition_def)
  have causes: "real_collected claims i (fold (inherit_cause u p) (sm_causes (rf_local F u)) co')"
    if "real_collected claims i co'" for co'
    by (rule fold_invariant [where Q = "real_cause claims u"]) (use sm that real_inherit(1) [OF p] in \<open>auto simp: real_summary_def\<close>)
  have conditions: "real_collected claims i (fold (inherit_condition u p) (sm_conditions (rf_local F u)) co')"
    if "real_collected claims i co'" for co'
    by (rule fold_invariant [where Q = "real_condition claims u"]) (use sm that real_inherit(2) [OF p] in \<open>auto simp: real_summary_def\<close>)
  show ?thesis
    unfolding collect_reached_def F(1) index_claims_get(1) Some option.case Let_def
    by (auto intro!: conditions causes real_collect(1) co at_u)
qed (use co in \<open>simp add: collect_reached_def F_def readiness_facts_def Let_def index_claims_get\<close>)


lemma real_cycle:
  fixes sha claims so flags sccs
  defines "F \<equiv> readiness_facts sha (index_claims claims) so flags sccs"
  assumes sccs: "findSCCs (elig claims) = Some sccs" and C: "C \<in> set sccs"
    and paths: "\<And>u p. gm_get paths u = Some p \<Longrightarrow> trail claims i p \<and> last p = u"
    and co: "real_collected claims i co"
  shows "real_collected claims i (collect_cycle F paths i C co)"
proof (cases "cyclic (elig claims) C")
  case True
  have F: "rf_eligible F = elig claims" by (simp add: F_def readiness_facts_def Let_def)
  define witness where "witness held \<longleftrightarrow> (\<forall>e w. held = Some (e, w) \<longrightarrow> trail claims i w \<and> last w = e)"
    for held :: "(string \<times> string list) option"
  have closed: "trail claims e (getShortestCycle e C (elig claims))" "last (getShortestCycle e C (elig claims)) = e"
    if e: "e \<in> set C" for e
  proof -
    have "set C = {b. (e, b) \<in> (arc (elig claims))\<^sup>* \<and> (b, e) \<in> (arc (elig claims))\<^sup>*}"
    proof (rule findSCCs_components [of "elig claims"])
      fix sccs'
      assume "findSCCs (elig claims) = Some sccs'" "\<And>C a b. C \<in> set sccs' \<Longrightarrow> a \<in> set C \<Longrightarrow>
        b \<in> set C \<longleftrightarrow> (a, b) \<in> (arc (elig claims))\<^sup>* \<and> (b, a) \<in> (arc (elig claims))\<^sup>*"
      with sccs C e show ?thesis by auto
    qed
    with getShortestCycle_closed [of C e "elig claims"] cyclic_iff [OF sccs C e] True
    have "closed_walk (elig claims) C e (getShortestCycle e C (elig claims))" by simp
    then show "trail claims e (getShortestCycle e C (elig claims))" "last (getShortestCycle e C (elig claims)) = e"
      using closed_walk_trail by blast+
  qed
  have "witness (fold (cycle_entry (elig claims) paths i C) C None)"
  proof (rule fold_invariant [where Q = "\<lambda>e. e \<in> set C"])
    show "witness (cycle_entry (elig claims) paths i C e held)" if e: "e \<in> set C" and w: "witness held" for e held
    proof (cases "gm_get paths e")
      case (Some p)
      note p = paths [OF Some]
      have "trail claims i (inherit_path p (getShortestCycle e C (elig claims)))"
        "last (inherit_path p (getShortestCycle e C (elig claims))) = e"
        using trail_inherit [of claims i p e, OF _ _ closed(1) [OF e]] p closed(2) [OF e] by auto
      then show ?thesis
        using closed [OF e] w Some unfolding cycle_entry_def inherit_path_def witness_def Let_def
        by (auto split: if_splits)
    qed (use w in \<open>simp add: cycle_entry_def\<close>)
  qed (simp_all add: witness_def)
  then show ?thesis
    unfolding collect_cycle_def F using True co
    by (auto simp: witness_def real_condition_def intro!: real_collect(1) split: option.split)
qed (use co in \<open>simp add: collect_cycle_def F_def readiness_facts_def Let_def\<close>)

lemma missing_wf:
  assumes "gm_wf missing"
  shows "gm_wf (br_bestMissing (bfs_loop m el i dist paths missing invalid level))"
  using assms
proof (induction m el i dist paths missing invalid level rule: bfs_loop.induct)
  case (1 m el i dist paths missing invalid level)
  have dep: "gm_wf (bl_bestMissing (bfs_dep m el i dist paths u d l))" if "gm_wf (bl_bestMissing l)" for u d l
    using that by (cases "gm_get m d"; cases "gm_get (bl_bestParent l) d") (auto simp: bfs_dep_def Let_def)
  have claim: "gm_wf (bl_bestMissing (bfs_claim m el i dist paths u l))" if "gm_wf (bl_bestMissing l)" for u l
    unfolding bfs_claim_def by (rule fold_invariant [where Q = "\<lambda>_. True"]) (auto simp: that dep)
  have "gm_wf (bl_bestMissing (run_level m el i dist paths missing invalid level))"
    unfolding run_level_def by (rule fold_invariant [where Q = "\<lambda>_. True"]) (auto simp: claim 1(2))
  with 1 show ?case by (cases "level = []") (simp_all add: bfs_loop_simps Let_def)
qed

lemma real_collect_all:
  fixes sha claims so flags sccs
  defines "F \<equiv> readiness_facts sha (index_claims claims) so flags sccs"
  assumes sccs: "findSCCs (elig claims) = Some sccs" and c: "findByID claims i = Some c"
  shows "real_collected claims i (collect_all F i)"
proof -
  let ?m = "index_claims claims"
  define r where "r = bfs ?m (elig claims) i"
  have wf: "gm_wf (br_bestMissing r)" unfolding r_def bfs_def by (rule missing_wf) simp
  have F: "rf_byID F = ?m" "rf_eligible F = elig claims" "rf_sccs F = sccs"
      "rf_local F i = localSummary sha c so flags ?m (rf_approval F i)"
    using c by (simp_all add: F_def readiness_facts_def Let_def index_claims_get)
  have i: "i \<in> known ?m" using c by (simp add: known_index)
  note bfs = bfs_shortest_paths [OF eligible_known i, folded r_def]
  have short: "trail claims i p \<and> last p = d" if "shortest ?m (elig claims) i d p" for d p
    using that route_trail by (auto simp: shortest_def)
  have paths: "trail claims i p \<and> last p = u" if "gm_get (br_paths r) u = Some p" for u p
    using that bfs(1) bfs(3) [of u p] bfs(4) [of u] short [of u p] by (cases "u = i"; cases "u \<in> known ?m") auto
  define reached where "reached = fold (\<lambda>(u, p) co. if u \<noteq> i then collect_reached F u p co
    else (case br_invalidRoot r of None \<Rightarrow> co | Some q \<Rightarrow> collect_reached F u q co)) (br_paths r) (collect_own i (rf_local F i))"
  have own: "real_collected claims i (collect_own i (rf_local F i))"
    unfolding F(4) by (intro real_collect_own real_localSummary c)
  have step: "real_collected claims i (collect_reached F u p co)" if "trail claims i p" "last p = u" "real_collected claims i co" for u p co
    using real_reached [of claims i p u] that unfolding F_def by blast
  have again: "real_collected claims i (collect_reached F i p co)" if "br_invalidRoot r = Some p" "real_collected claims i co" for p co
    using that bfs(6) short [of i p] by (intro step) auto
  have reached: "real_collected claims i reached"
    unfolding reached_def
  proof (rule fold_invariant [where Q = "\<lambda>(u, p). trail claims i p \<and> last p = u"])
    show "case x of (u, p) \<Rightarrow> trail claims i p \<and> last p = u" if "x \<in> set (br_paths r)" for x
      using that paths gm_get_mem [OF bfs(2)] by (cases x) auto
    show "real_collected claims i ((\<lambda>(u, p) co. if u \<noteq> i then collect_reached F u p co
        else (case br_invalidRoot r of None \<Rightarrow> co | Some q \<Rightarrow> collect_reached F u q co)) x co)"
      if "case x of (u, p) \<Rightarrow> trail claims i p \<and> last p = u" "real_collected claims i co" for x co
      using that step [of "snd x" "fst x" co] again [of _ co] by (cases x) (auto split: option.split)
  qed (rule own)
  have missing: "real_collected claims i (fold (\<lambda>(d, p). collect_missing d p) (br_bestMissing r) reached)"
  proof (rule fold_invariant [where Q = "\<lambda>(d, p). trail claims i p \<and> last p = d"])
    show "case x of (d, p) \<Rightarrow> trail claims i p \<and> last p = d" if "x \<in> set (br_bestMissing r)" for x
    proof (cases x)
      case (Pair d p)
      with that have "gm_get (br_bestMissing r) d = Some p" by (simp add: gm_get_mem [OF wf])
      then have "shortest ?m (elig claims) i d p" using bfs(5) by simp
      then show ?thesis using short Pair by simp
    qed
  qed (auto simp: collect_missing_def real_condition_def intro!: reached real_collect(1))
  show ?thesis
    unfolding collect_all_def Let_def F(1,2,3) r_def [symmetric] reached_def [symmetric]
    by (rule fold_invariant [where Q = "\<lambda>C. C \<in> set sccs"])
      (use missing real_cycle [OF sccs _ paths] in \<open>auto simp: F_def\<close>)
qed


lemma dedupe_by_subset: "set (dedupe_by key had xs) \<subseteq> set xs"
  by (induction xs arbitrary: had) auto

lemma sorted_subset: "set (sortConditions xs) \<subseteq> set xs" "set (sortCauses ys) \<subseteq> set ys"
  unfolding sortConditions_def sortCauses_def dedupeConditions_def dedupeCauses_def set_sort by (rule dedupe_by_subset)+

lemma assessed_paths:
  assumes "Compute sha claims so flags = Some A" "gm_get A i = Some a"
  shows "x \<in> set (as_Conditions a) \<Longrightarrow> real_condition claims i x" "y \<in> set (as_Causes a) \<Longrightarrow> real_cause claims i y"
proof -
  obtain sccs A' where s: "findSCCs (elig claims) = Some sccs" "Compute sha claims so flags = Some A'"
    "\<And>i. gm_get A' i = map_option (assess (readiness_facts sha (index_claims claims) so flags sccs) i) (findByID claims i)"
    using Compute_get [of claims sha so flags] by blast
  let ?F = "readiness_facts sha (index_claims claims) so flags sccs"
  obtain c where c: "findByID claims i = Some c" "a = assess ?F i c" using assms s by auto
  have "real_collected claims i (collect_all ?F i)" by (rule real_collect_all [OF s(1) c(1)])
  moreover have "as_Conditions a = sortConditions (map snd (co_conditions (collect_all ?F i)))"
    "as_Causes a = sortCauses (map snd (co_causes (collect_all ?F i)))"
    unfolding c(2) by (simp_all add: assess_def Let_def)
  ultimately show "x \<in> set (as_Conditions a) \<Longrightarrow> real_condition claims i x" "y \<in> set (as_Causes a) \<Longrightarrow> real_cause claims i y"
    using sorted_subset(1) [of "map snd (co_conditions (collect_all ?F i))"] sorted_subset(2) [of "map snd (co_causes (collect_all ?F i))"]
    unfolding real_collected_def by (auto simp: subset_iff)
qed

section \<open>The length of a path\<close>

lemma route_prefix: "route m el i (q @ r) \<Longrightarrow> q \<noteq> [] \<Longrightarrow> route m el i q"
proof (induction r rule: rev_induct)
  case (snoc d r)
  from snoc(2) have "route m el i (q @ r)"
    by (cases rule: route.cases) (use snoc(3) in \<open>auto simp flip: append_assoc\<close>)
  with snoc show ?case by blast
qed simp

lemma route_last_step: "route m el i (p @ [d]) \<Longrightarrow> p \<noteq> [] \<Longrightarrow> (p = [i] \<or> last p \<in> known el) \<and> d \<in> set (required m (last p))"
  by (cases rule: route.cases) auto

text \<open>The way to a claim can be replaced by any other way to it.\<close>

lemma route_reroute:
  assumes "route m el i (q @ r)" "length q > 1" "route m el i q'" "last q' = last q"
  shows "route m el i (q' @ r)"
  using assms(1)
proof (induction r rule: rev_induct)
  case (snoc d r)
  have ne: "q @ r \<noteq> []" "q' \<noteq> []" "q \<noteq> []" using assms(2) route_hd [OF assms(3)] by auto
  have step: "last (q @ r) \<in> known el" "d \<in> set (required m (last (q @ r)))"
    using route_last_step [of m el i "q @ r" d] snoc(2) ne assms(2) by (auto simp: append_eq_Cons_conv)
  have "last (q' @ r) = last (q @ r)" using assms(4) ne by (simp add: last_append)
  moreover have "route m el i (q' @ r)" using snoc.IH route_prefix [of m el i "q @ r" "[d]"] snoc(2) ne by simp
  ultimately show ?case using step route.extend [of m el i "q' @ r" d] by simp
qed (use assms(3) in simp)

lemma shortest_distinct:
  assumes "shortest m el i d p"
  shows "distinct (butlast p)"
proof (rule ccontr)
  assume "\<not> distinct (butlast p)"
  then obtain xs ys zs y where cut: "butlast p = xs @ [y] @ ys @ [y] @ zs" using not_distinct_decomp by blast
  have p: "route m el i p" "last p = d" "p \<noteq> []" using assms by (auto simp: shortest_def)
  then have p': "p = (xs @ [y] @ ys @ [y]) @ zs @ [d]" using cut append_butlast_last_id [of p] by simp
  have "route m el i (xs @ [y])" using route_prefix [of m el i "xs @ [y]" "ys @ [y] @ zs @ [d]"] p(1) p' by simp
  then have "route m el i ((xs @ [y]) @ zs @ [d])" by (intro route_reroute [OF p(1) [unfolded p']]) auto
  then have "ahead p ((xs @ [y]) @ zs @ [d])" using assms unfolding shortest_def by (elim conjE allE impE) auto
  then show False by (auto simp: p' ahead_def)
qed

lemma shortest_bound:
  assumes "shortest m el i d p"
  shows "length p \<le> length m + 1"
proof -
  have "set (butlast p) \<subseteq> known m" if "route m el i p" for p
    using that
  proof induction
    case (extend p d)
    have "last p \<in> known m" using extend(3) by (cases "gm_get m (last p)") (auto simp: required_def known_iff)
    moreover have "set p \<subseteq> insert (last p) (set (butlast p))"
      using route_hd [OF extend(1)] by (metis append_butlast_last_id list.set(2) set_append Un_insert_right list.set(1) sup_bot.right_neutral subset_refl)
    ultimately show ?case using extend.IH by auto
  qed simp
  then have "set (butlast p) \<subseteq> known m" using assms by (simp add: shortest_def)
  then have "card (set (butlast p)) \<le> card (known m)" by (intro card_mono) (auto simp: known_def)
  also have "\<dots> \<le> length m" unfolding known_def by (metis card_length length_map set_map)
  finally show ?thesis using distinct_card [OF shortest_distinct [OF assms]] by simp
qed


section \<open>The properties of an assessment\<close>

text \<open>A claim that requires another, both locked and reviewed, and a circle with a missing claim behind it.\<close>

definition stamp :: "string \<Rightarrow> string" where
  "stamp s = CHR 0x23 # s"

definition base_claim :: claim where
  "base_claim = zero_claim\<lparr>cl_ID := ''base'', cl_Status := StatusLocked\<rparr>"

definition top_claim :: claim where
  "top_claim = zero_claim\<lparr>cl_ID := ''top'', cl_Status := StatusLocked, cl_RestsOn := zero_rests_on\<lparr>ro_IDs := [''base'']\<rparr>\<rparr>"

definition circle :: "claim list" where
  "circle = [zero_claim\<lparr>cl_ID := ''a'', cl_RestsOn := zero_rests_on\<lparr>ro_IDs := [''b'']\<rparr>\<rparr>,
     zero_claim\<lparr>cl_ID := ''b'', cl_RestsOn := zero_rests_on\<lparr>ro_IDs := [''a'', ''gone'']\<rparr>\<rparr>]"

definition reviewed_store :: store where
  "reviewed_store = recordBaseline ''top'' ''base'' (ContentHash stamp base_claim)
     (fold (\<lambda>c. putRecord (cl_ID c) (approval_record stamp ''t'' c \<lparr>ap_Actor = ''me'', ap_Reason = ''ok''\<rparr>)) [base_claim, top_claim]
       (emptyStore ''s''))"

definition circle_facts :: known_facts where
  "circle_facts = readiness_facts stamp (index_claims circle) None None [[''a'', ''b'']]"

lemma top_settled:
  assumes "(''top'', u) \<in> (requires [base_claim, top_claim])\<^sup>*"
  shows "checks_pass stamp [base_claim, top_claim] (Some reviewed_store) None u \<and> (u, u) \<notin> (requires [base_claim, top_claim])\<^sup>+"
proof -
  let ?claims = "[base_claim, top_claim]"
  have found: "findByID ?claims ''base'' = Some base_claim" "findByID ?claims ''top'' = Some top_claim"
    by (simp_all add: base_claim_def top_claim_def)
  have ids: "ro_IDs (cl_RestsOn base_claim) = []" "ro_IDs (cl_RestsOn top_claim) = [''base'']"
    by (simp_all add: base_claim_def top_claim_def zero_claim_def zero_rests_on_def)
  have "requires ?claims = {(''top'', ''base'')}"
    by (auto simp: requires_def ids found base_claim_def top_claim_def zero_claim_def zero_rests_on_def split: if_splits)
  then have reach: "u = ''top'' \<or> u = ''base''" "(u, u) \<notin> (requires ?claims)\<^sup>+" using assms by (auto elim: rtranclE tranclE)
  have records: "st_Record reviewed_store ''base'' = Some (approval_record stamp ''t'' base_claim \<lparr>ap_Actor = ''me'', ap_Reason = ''ok''\<rparr>)"
    "st_Record reviewed_store ''top'' = Some (approval_record stamp ''t'' top_claim \<lparr>ap_Actor = ''me'', ap_Reason = ''ok''\<rparr>)"
    "Baseline reviewed_store ''top'' ''base'' = Some (ContentHash stamp base_claim)"
    by (simp_all add: reviewed_store_def base_claim_def top_claim_def)
  have "LockedClaimHash stamp c \<noteq> []" for c
    by (simp add: LockedClaimHash_def stamp_def hex_encode_def hex_byte_def)
  then have "ac_valid (approvalState stamp base_claim (Some reviewed_store))" "ac_valid (approvalState stamp top_claim (Some reviewed_store))"
    using records by (simp_all add: approvalState_def approval_record_def Released_def base_claim_def top_claim_def)
  then show ?thesis
    using reach records(3) by (auto simp: checks_pass_def found ids baseline_hash_def) (simp_all add: base_claim_def top_claim_def zero_claim_def HasOpenThreads_def)
qed

text \<open>
  C17. Readiness is the declarative condition: a claim is assessed ready exactly when every claim on its
  dependency chain, itself included, is there, locked under a standing approval of what it says, has no
  open thread and no flag and was reviewed against its dependencies as they are, and none of them is
  part of a dependency cycle. The computation decides this with one breadth-first search per claim and
  one search for components.
\<close>
theorem Ready_iff:
  assumes "Compute sha claims so flags = Some A" "gm_get A i = Some a"
  shows "as_Ready a \<longleftrightarrow>
    (\<forall>u. (i, u) \<in> (requires claims)\<^sup>* \<longrightarrow> well_settled sha claims so flags u \<and> (u, u) \<notin> (requires claims)\<^sup>+)"
  unfolding well_settled_checks by (rule ready_settled [OF assms])

theorem Ready_iff_witness:
  "\<exists>A a. Compute stamp [base_claim, top_claim] (Some reviewed_store) None = Some A \<and> gm_get A ''top'' = Some a \<and> as_Ready a"
proof -
  let ?claims = "[base_claim, top_claim]"
  obtain sccs A where A: "findSCCs (elig ?claims) = Some sccs" "Compute stamp ?claims (Some reviewed_store) None = Some A"
    "\<And>i. gm_get A i = map_option (assess (readiness_facts stamp (index_claims ?claims) (Some reviewed_store) None sccs) i) (findByID ?claims i)"
    by (rule Compute_get [of ?claims stamp "Some reviewed_store" None]) (rule that)
  obtain a where a: "gm_get A ''top'' = Some a" using A(3) [of "''top''"] by (simp add: base_claim_def top_claim_def)
  have "as_Ready a" unfolding Ready_iff [OF A(2) a] well_settled_checks using top_settled by blast
  with A(2) a show ?thesis by blast
qed

lemma circle_assessed:
  obtains a where "gm_get (the (Compute stamp circle None None)) ''a'' = Some a"
    "map dc_Path (as_Conditions a) = [[''a'', ''b'', ''a''], [''a'', ''b''], [''a'', ''b'', ''gone'']]"
proof -
  obtain sccs A where A: "findSCCs (elig circle) = Some sccs" "Compute stamp circle None None = Some A"
    "\<And>i. gm_get A i = map_option (assess (readiness_facts stamp (index_claims circle) None None sccs) i) (findByID circle i)"
    by (rule Compute_get [of circle stamp None None]) (rule that)
  have "findSCCs (elig circle) = Some [[''a'', ''b'']]" by code_simp
  then have sccs: "sccs = [[''a'', ''b'']]" using A(1) by simp
  have c: "findByID circle ''a'' = Some (hd circle)" by (simp add: circle_def)
  have "map dc_Path (sortConditions (map snd (co_conditions (collect_all circle_facts ''a'')))) =
      [[''a'', ''b'', ''a''], [''a'', ''b''], [''a'', ''b'', ''gone'']]" by code_simp
  then have "map dc_Path (as_Conditions (assess circle_facts ''a'' (hd circle))) = [[''a'', ''b'', ''a''], [''a'', ''b''], [''a'', ''b'', ''gone'']]"
    by (simp add: assess_def Let_def)
  with A(2) A(3) [of "''a''"] c show ?thesis by (intro that) (simp_all add: sccs circle_facts_def)
qed

text \<open>
  C19. An assessment is always produced, for exactly the claims of the project, and every path in it is
  evidence: the path of a condition or review cause starts at the claim that is assessed, follows
  declared dependencies, and ends at the claim the condition or cause names.
\<close>
theorem reported_paths:
  assumes "gm_get (the (Compute sha claims so flags)) i = Some a"
  shows "(\<forall>x \<in> set (as_Conditions a). real_condition claims i x) \<and> (\<forall>y \<in> set (as_Causes a). real_cause claims i y) \<and>
    findByID claims i \<noteq> None"
proof -
  obtain sccs A where A: "findSCCs (elig claims) = Some sccs" "Compute sha claims so flags = Some A"
    "\<And>i. gm_get A i = map_option (assess (readiness_facts sha (index_claims claims) so flags sccs) i) (findByID claims i)"
    using Compute_get [of claims sha so flags] by blast
  with assms have "gm_get A i = Some a" by simp
  moreover from this A(3) [of i] have "findByID claims i \<noteq> None" by (cases "findByID claims i") auto
  ultimately show ?thesis using assessed_paths [OF A(2)] by blast
qed

theorem reported_paths_witness:
  "\<exists>a. gm_get (the (Compute stamp circle None None)) ''a'' = Some a \<and>
     map dc_Path (as_Conditions a) = [[''a'', ''b'', ''a''], [''a'', ''b''], [''a'', ''b'', ''gone'']] \<and>
     (''b'', ''gone'') \<in> requires circle"
proof -
  obtain a where a: "gm_get (the (Compute stamp circle None None)) ''a'' = Some a"
      "map dc_Path (as_Conditions a) = [[''a'', ''b'', ''a''], [''a'', ''b''], [''a'', ''b'', ''gone'']]"
    by (rule circle_assessed)
  then have "[''a'', ''b'', ''gone''] \<in> set (map dc_Path (as_Conditions a))" by simp
  then obtain x where x: "x \<in> set (as_Conditions a)" "dc_Path x = [''a'', ''b'', ''gone'']" unfolding set_map image_iff by metis
  have "\<forall>x \<in> set (as_Conditions a). real_condition circle ''a'' x" by (rule reported_paths [OF a(1), THEN conjunct1])
  with x have "trail circle ''a'' [''a'', ''b'', ''gone'']" by (metis real_condition_def)
  then have "(''b'', ''gone'') \<in> requires circle" by (simp add: trail_def)
  then show ?thesis by (intro exI [of _ a] conjI a)
qed

text \<open>
  C20. The work of an assessment is bounded: the search keeps one path per claim, which is the least of
  the shortest ones along claims that can be consumed, visits no claim twice on the way, and so is at
  most one longer than the number of claims, however many routes there are.
\<close>
theorem bfs_bounds:
  assumes "known el \<subseteq> known m" "i \<in> known m" "d \<noteq> i"
    and "gm_get (br_paths (bfs m el i)) d = Some p \<or> gm_get (br_bestMissing (bfs m el i)) d = Some p"
  shows "shortest m el i d p \<and> distinct (butlast p) \<and> length p \<le> length m + 1"
proof -
  note bfs = bfs_shortest_paths [OF assms(1,2)]
  have "shortest m el i d p"
    using assms(3,4) bfs(3) [of d p] bfs(4) [of d] bfs(5) [of d p] by (cases "d \<in> known m") auto
  then show ?thesis using shortest_distinct shortest_bound by blast
qed

theorem bfs_bounds_witness:
  "shortest ring ring ''a'' ''c'' [''a'', ''c''] \<and> length [''a'', ''c''] \<le> length ring + 1"
proof -
  have "gm_get (br_paths (bfs ring ring ''a'')) ''c'' = Some [''a'', ''c'']" by code_simp
  moreover have "''a'' \<in> known ring" by (simp add: known_def ring_def)
  ultimately show ?thesis using bfs_bounds [of ring ring "''a''" "''c''" "[''a'', ''c'']"] by simp
qed

end
