(* ===== verification/Text_Diff.thy ===== *)
theory Text_Diff
  imports Lint_Rules "HOL-Library.Word" "HOL-Library.Sublist"
begin

text \<open>
  Differences of prose (\<^verbatim>\<open>internal/textdiff/textdiff.go\<close>, \<^verbatim>\<open>markwords.go\<close>): a body is cut into passages,
  two bodies are compared passage by passage by the table of longest common subsequences, and a passage
  that was replaced is compared word by word with its replacement. The cells of the table are 16 bits
  wide, as in the code. The lemmas show that both versions can be read back from the difference byte for
  byte, that it keeps as many passages as any difference could, and that no cell overflows.
\<close>

section \<open>Hunks\<close>

datatype op = OpEqual | OpRemove | OpAdd

record part =
  pt_Op :: op
  pt_Text :: string

record hunk =
  hk_Op :: op
  hk_Text :: string
  hk_Parts :: "part list"

definition MaxBlocks :: nat where
  "MaxBlocks = 400"

definition MaxMarkWords :: nat where
  "MaxMarkWords = 1500"

section \<open>Passages\<close>

text \<open>The state of the loop: the passages so far, the lines of the current one, and whether a blank line was seen in it.\<close>

fun split_loop :: "string list \<Rightarrow> string list \<Rightarrow> string list \<Rightarrow> bool \<Rightarrow> string list" where
  "split_loop [] out cur inBlank = (if length cur > 0 then out @ [join_str [CHR 0x0A] cur] else out)"
| "split_loop (line # lines) out cur inBlank =
     (if trim_space line = [] then split_loop lines out (cur @ [line]) True
      else if inBlank \<and> length cur > 0 then split_loop lines (out @ [join_str [CHR 0x0A] cur @ [CHR 0x0A]]) [line] False
      else split_loop lines out (cur @ [line]) inBlank)"

definition splitBlocks :: "string \<Rightarrow> string list" where
  "splitBlocks s = (if s = [] then [] else split_loop (split_on (CHR 0x0A) s) [] [] False)"

lemma join_str_append: "xs \<noteq> [] \<Longrightarrow> ys \<noteq> [] \<Longrightarrow> join_str sep (xs @ ys) = join_str sep xs @ sep @ join_str sep ys"
proof (induction xs)
  case (Cons x xs)
  then show ?case by (cases xs; cases ys) auto
qed simp

lemma concat_split_loop:
  "cur \<noteq> [] \<or> lines \<noteq> [] \<Longrightarrow> concat (split_loop lines out cur inBlank) = concat out @ join_str [CHR 0x0A] (cur @ lines)"
proof (induction lines out cur inBlank rule: split_loop.induct)
  case (2 line lines out cur inBlank)
  then show ?case using join_str_append [of cur "line # lines" "[CHR 0x0A]"] by auto
qed auto

lemma concat_splitBlocks: "concat (splitBlocks s) = s"
  by (simp add: splitBlocks_def concat_split_loop join_split_on)

section \<open>The table\<close>

text \<open>
  A row of the table is computed from the row below it, from its end, the last row first; \<open>lcs ! i ! j\<close> is
  the cell of the suffixes from \<open>i\<close> and \<open>j\<close>.
\<close>

fun lcs_row :: "'a \<Rightarrow> 'a list \<Rightarrow> 16 word list \<Rightarrow> 16 word list" where
  "lcs_row x [] below = [0]"
| "lcs_row x (y # ys) below =
     (let row = lcs_row x ys (tl below); down = hd below; right = hd row
      in (if x = y then hd (tl below) + 1 else if right \<le>s down then down else right) # row)"

fun lcs_table :: "'a list \<Rightarrow> 'a list \<Rightarrow> 16 word list list" where
  "lcs_table [] ys = [replicate (length ys + 1) 0]"
| "lcs_table (x # xs) ys = (let t = lcs_table xs ys in lcs_row x ys (hd t) # t)"

text \<open>The length of a longest common subsequence.\<close>

fun lcs_len :: "'a list \<Rightarrow> 'a list \<Rightarrow> nat" where
  "lcs_len [] ys = 0"
| "lcs_len (x # xs) [] = 0"
| "lcs_len (x # xs) (y # ys) =
     (if x = y then lcs_len xs ys + 1 else max (lcs_len xs (y # ys)) (lcs_len (x # xs) ys))"

lemma lcs_len_Nil [simp]: "lcs_len xs [] = 0"
  by (cases xs) auto

lemma lcs_len_bound: "lcs_len xs ys \<le> length xs"
  by (induction xs ys rule: lcs_len.induct) auto

lemma lcs_len_upper: "subseq zs xs \<Longrightarrow> subseq zs ys \<Longrightarrow> length zs \<le> lcs_len xs ys"
proof (induction xs ys arbitrary: zs rule: lcs_len.induct)
  case (3 x xs y ys)
  show ?case
  proof (cases zs)
    case (Cons z zs')
    show ?thesis
    proof (cases "x = y")
      case True
      have "subseq zs' xs" "subseq zs' ys" using 3(4,5) Cons by (auto split: if_splits dest: subseq_Cons')
      with 3(1) [OF True] True Cons show ?thesis by simp
    next
      case False
      then have "subseq zs xs \<or> subseq zs ys" using 3(4,5) Cons by (auto split: if_splits)
      then show ?thesis using 3(2,3) [OF False] 3(4,5) False by fastforce
    qed
  qed simp
qed auto

text \<open>A row holds the lengths for every suffix, as long as they fit a cell.\<close>

fun row_ok :: "'a list \<Rightarrow> 'a list \<Rightarrow> 16 word list \<Rightarrow> bool" where
  "row_ok xs ys [] \<longleftrightarrow> False"
| "row_ok xs [] (c # row) \<longleftrightarrow> c = 0 \<and> row = []"
| "row_ok xs (y # ys) (c # row) \<longleftrightarrow> sint c = int (lcs_len xs (y # ys)) \<and> row_ok xs ys row"

lemma row_hd: "row_ok xs ys row \<Longrightarrow> row \<noteq> [] \<and> sint (hd row) = int (lcs_len xs ys)"
  by (cases "(xs, ys, row)" rule: row_ok.cases) auto

lemma row_nth: "row_ok xs ys row \<Longrightarrow> j \<le> length ys \<Longrightarrow> sint (row ! j) = int (lcs_len xs (drop j ys))"
proof (induction xs ys row arbitrary: j rule: row_ok.induct)
  case (3 xs y ys c row)
  then show ?case by (cases j) auto
qed auto

lemma sint_succ: "sint c = int n \<Longrightarrow> n < 32767 \<Longrightarrow> sint (c + 1 :: 16 word) = int n + 1"
  by (simp add: sint_word_ariths signed_take_bit_int_eq_self)

lemma row_ok_step: "row_ok xs ys below \<Longrightarrow> length xs < 32767 \<Longrightarrow> row_ok (x # xs) ys (lcs_row x ys below)"
proof (induction ys arbitrary: below)
  case Nil
  then show ?case by simp
next
  case (Cons y ys)
  then obtain c row where below: "below = c # row" "sint c = int (lcs_len xs (y # ys))" "row_ok xs ys row" by (cases below) auto
  have row: "row_ok (x # xs) ys (lcs_row x ys row)" by (rule Cons.IH [OF below(3) Cons.prems(2)])
  have "lcs_len xs ys < 32767" using lcs_len_bound [of xs ys] Cons.prems(2) by simp
  then have "sint (hd row + 1) = int (lcs_len xs ys) + 1" using row_hd [OF below(3)] by (intro sint_succ) auto
  with row row_hd [OF row] below show ?case by (auto simp: Let_def word_sle_eq max_def)
qed

lemma row_ok_zero: "row_ok [] ys (replicate (length ys + 1) 0)"
  by (induction ys) auto

lemma lcs_table_rows: "length xs < 32768 \<Longrightarrow> i \<le> length xs \<Longrightarrow> row_ok (drop i xs) ys (lcs_table xs ys ! i)"
proof (induction xs arbitrary: i)
  case (Cons x xs)
  have hd0: "hd (lcs_table xs ys) = lcs_table xs ys ! 0" by (cases xs) (auto simp: Let_def)
  show ?case
  proof (cases i)
    case 0
    then show ?thesis using row_ok_step [of xs ys "hd (lcs_table xs ys)" x] Cons.IH [of 0] Cons.prems by (simp add: hd0 Let_def)
  next
    case (Suc k)
    then show ?thesis using Cons.IH [of k] Cons.prems by (simp add: Let_def)
  qed
qed (use row_ok_zero [of ys] in simp)

lemma lcs_table_cell:
  "length xs < 32768 \<Longrightarrow> i \<le> length xs \<Longrightarrow> j \<le> length ys \<Longrightarrow> sint (lcs_table xs ys ! i ! j) = int (lcs_len (drop i xs) (drop j ys))"
  using row_nth [OF lcs_table_rows] .


section \<open>The difference by passages\<close>

text \<open>A step names its passage: of the first version where it is kept or removed, of the second where it is added.\<close>

function script_walk :: "'a list \<Rightarrow> 'a list \<Rightarrow> 16 word list list \<Rightarrow> nat \<Rightarrow> nat \<Rightarrow> (op \<times> nat) list" where
  "script_walk a b lcs i j =
     (if i < length a \<and> j < length b then
        if a ! i = b ! j then (OpEqual, i) # script_walk a b lcs (i + 1) (j + 1)
        else if lcs ! i ! (j + 1) \<le>s lcs ! (i + 1) ! j then (OpRemove, i) # script_walk a b lcs (i + 1) j
        else (OpAdd, j) # script_walk a b lcs i (j + 1)
      else map (Pair OpRemove) [i..<length a] @ map (Pair OpAdd) [j..<length b])"
  by pat_completeness auto

termination
  by (relation "measure (\<lambda>(a, b, lcs, i, j). length a - i + (length b - j))") auto

declare script_walk.simps [simp del]

definition script :: "'a list \<Rightarrow> 'a list \<Rightarrow> (op \<times> nat) list" where
  "script a b = script_walk a b (lcs_table a b) 0 0"

definition merge_steps :: "(op \<times> nat) list \<Rightarrow> string list \<Rightarrow> string list \<Rightarrow> hunk list" where
  "merge_steps steps a b =
     map (\<lambda>(op, i). \<lparr>hk_Op = op, hk_Text = (if op = OpAdd then b ! i else a ! i), hk_Parts = []\<rparr>) steps"

definition coarse :: "string \<Rightarrow> string \<Rightarrow> hunk list" where
  "coarse before after =
     (if before \<noteq> [] then [\<lparr>hk_Op = OpRemove, hk_Text = before, hk_Parts = []\<rparr>] else []) @
     (if after \<noteq> [] then [\<lparr>hk_Op = OpAdd, hk_Text = after, hk_Parts = []\<rparr>] else [])"

definition Blocks :: "string \<Rightarrow> string \<Rightarrow> hunk list" where
  "Blocks before after =
     (if before = after then if before = [] then [] else [\<lparr>hk_Op = OpEqual, hk_Text = before, hk_Parts = []\<rparr>]
      else
        let a = splitBlocks before; b = splitBlocks after
        in if length a > MaxBlocks \<or> length b > MaxBlocks then coarse before after
           else merge_steps (script a b) a b)"

text \<open>What a script keeps of each side, and how much it keeps of both.\<close>

definition side :: "op \<Rightarrow> (op \<times> nat) list \<Rightarrow> 'a list \<Rightarrow> 'a list \<Rightarrow> 'a list" where
  "side out steps a b = map (\<lambda>(op, i). if op = OpAdd then b ! i else a ! i) (filter (\<lambda>(op, i). op \<noteq> out) steps)"

lemma side_simps [simp]:
  "side out [] a b = []" "side out (xs @ ys) a b = side out xs a b @ side out ys a b"
  "side out ((p, i) # xs) a b = (if p \<noteq> out then (if p = OpAdd then b ! i else a ! i) # side out xs a b else side out xs a b)"
  by (auto simp: side_def)

lemma map_nth_drop: "map ((!) xs) [i..<length xs] = drop i xs"
  by (metis add_0 drop_map drop_upt map_nth)

lemma side_rest:
  "side OpAdd (map (Pair OpRemove) [i..<length a]) a b = drop i a" "side OpAdd (map (Pair OpAdd) js) a b = []"
  "side OpRemove (map (Pair OpAdd) [j..<length b]) a b = drop j b" "side OpRemove (map (Pair OpRemove) js) a b = []"
  by (simp_all add: side_def filter_map comp_def map_nth_drop)

lemma walk_sides:
  "i \<le> length a \<Longrightarrow> j \<le> length b \<Longrightarrow>
   side OpAdd (script_walk a b lcs i j) a b = drop i a \<and> side OpRemove (script_walk a b lcs i j) a b = drop j b"
proof (induction a b lcs i j rule: script_walk.induct)
  case (1 a b lcs i j)
  show ?case
  proof (cases "i < length a \<and> j < length b")
    case True
    then show ?thesis using 1 by (subst (1 2) script_walk.simps) (auto simp flip: Cons_nth_drop_Suc)
  next
    case False
    then have "drop i a = [] \<or> drop j b = []" using 1(4,5) by auto
    with False show ?thesis by (subst (1 2) script_walk.simps) (auto simp: side_rest)
  qed
qed

definition kept_count :: "(op \<times> nat) list \<Rightarrow> nat" where
  "kept_count steps = length (filter (\<lambda>(op, i). op = OpEqual) steps)"

lemma kept_count_simps [simp]: "kept_count [] = 0" "kept_count ((p, i) # xs) = (if p = OpEqual then kept_count xs + 1 else kept_count xs)"
  by (simp_all add: kept_count_def)

lemma walk_kept:
  assumes "length a < 32768"
  shows "i \<le> length a \<Longrightarrow> j \<le> length b \<Longrightarrow> kept_count (script_walk a b (lcs_table a b) i j) = lcs_len (drop i a) (drop j b)"
  using assms
proof (induction a b "lcs_table a b" i j rule: script_walk.induct)
  case (1 a b i j)
  show ?case
  proof (cases "i < length a \<and> j < length b")
    case True
    have cells: "sint (lcs_table a b ! i ! (j + 1)) = int (lcs_len (drop i a) (drop (j + 1) b))"
      "sint (lcs_table a b ! (i + 1) ! j) = int (lcs_len (drop (i + 1) a) (drop j b))"
      using True 1(6) by (auto intro!: lcs_table_cell)
    have suffixes: "drop i a = a ! i # drop (i + 1) a" "drop j b = b ! j # drop (j + 1) b"
      using True by (simp_all add: Cons_nth_drop_Suc)
    show ?thesis
      using True 1 cells by (subst script_walk.simps) (auto simp: suffixes word_sle_eq max_def)
  next
    case False
    then have "drop i a = [] \<or> drop j b = []" using 1(4,5) by auto
    with False show ?thesis by (subst script_walk.simps) (auto simp: kept_count_def filter_map comp_def)
  qed
qed


section \<open>The words of a passage\<close>

text \<open>A word with the white space that follows it, and the word alone, which is what is compared.\<close>

record token =
  tk_text :: string
  tk_word :: string

definition isSpace :: "char \<Rightarrow> bool" where
  "isSpace b \<longleftrightarrow> b = CHR '' '' \<or> b = CHR 0x09 \<or> b = CHR 0x0A \<or> b = CHR 0x0D"

lemma tokenize_shrinks:
  assumes "s \<noteq> []"
  shows "length (dropWhile isSpace (dropWhile (\<lambda>c. \<not> isSpace c) s)) < length s"
proof -
  obtain c r where s: "s = c # r" using assms by (cases s) auto
  have "length (dropWhile P r) \<le> length r" "length (dropWhile P (dropWhile Q r)) \<le> length r" for P Q
    using length_dropWhile_le le_trans by blast+
  then show ?thesis by (auto simp: s less_Suc_eq_le)
qed

function tokenize_loop :: "string \<Rightarrow> token list \<Rightarrow> token list" where
  "tokenize_loop s out =
     (if s = [] then out
      else
        let word = takeWhile (\<lambda>c. \<not> isSpace c) s;
            gap = takeWhile isSpace (dropWhile (\<lambda>c. \<not> isSpace c) s);
            rest = dropWhile isSpace (dropWhile (\<lambda>c. \<not> isSpace c) s)
        in if word = [] then
             tokenize_loop rest
               (if length out > 0 then butlast out @ [(last out)\<lparr>tk_text := tk_text (last out) @ word @ gap\<rparr>]
                else out @ [\<lparr>tk_text = word @ gap, tk_word = []\<rparr>])
           else tokenize_loop rest (out @ [\<lparr>tk_text = word @ gap, tk_word = word\<rparr>]))"
  by pat_completeness auto

termination
  by (relation "measure (\<lambda>(s, out). length s)") (auto intro: tokenize_shrinks)

declare tokenize_loop.simps [simp del]

definition tokenize :: "string \<Rightarrow> token list" where
  "tokenize s = tokenize_loop s []"

definition push :: "op \<Rightarrow> string \<Rightarrow> part list \<Rightarrow> part list" where
  "push op text parts =
     (if text = [] then parts
      else if parts \<noteq> [] \<and> pt_Op (last parts) = op
        then butlast parts @ [(last parts)\<lparr>pt_Text := pt_Text (last parts) @ text\<rparr>]
      else parts @ [\<lparr>pt_Op = op, pt_Text = text\<rparr>])"

function mark_walk ::
  "token list \<Rightarrow> token list \<Rightarrow> 16 word list list \<Rightarrow> nat \<Rightarrow> nat \<Rightarrow> part list \<Rightarrow> part list \<Rightarrow> part list \<times> part list" where
  "mark_walk a b lcs i j before after =
     (if i < length a \<and> j < length b then
        if tk_word (a ! i) = tk_word (b ! j) then
          mark_walk a b lcs (i + 1) (j + 1) (push OpEqual (tk_text (a ! i)) before) (push OpEqual (tk_text (b ! j)) after)
        else if lcs ! i ! (j + 1) \<le>s lcs ! (i + 1) ! j then
          mark_walk a b lcs (i + 1) j (push OpRemove (tk_text (a ! i)) before) after
        else mark_walk a b lcs i (j + 1) before (push OpAdd (tk_text (b ! j)) after)
      else (fold (\<lambda>t. push OpRemove (tk_text t)) (drop i a) before, fold (\<lambda>t. push OpAdd (tk_text t)) (drop j b) after))"
  by pat_completeness auto

termination
  by (relation "measure (\<lambda>(a, b, lcs, i, j, before, after). length a - i + (length b - j))") auto

declare mark_walk.simps [simp del]

text \<open>
  The product of a 64-bit float with \<open>0.34\<close>, in units of \<open>2 ^ 54\<close>: the float nearest to 0.34 has the
  53 bits of \<open>similarity_bits\<close>, and the product is rounded to 53 bits, a tie to the even neighbour.
\<close>

definition similarity_bits :: nat where
  "similarity_bits = 6124895493223875"

fun bit_count :: "nat \<Rightarrow> nat" where
  "bit_count n = (if n = 0 then 0 else bit_count (n div 2) + 1)"

declare bit_count.simps [simp del]

definition round53 :: "nat \<Rightarrow> nat" where
  "round53 n =
     (let e = bit_count n - 53; q = n div 2 ^ e; r = n mod 2 ^ e
      in (if 2 * r > 2 ^ e \<or> 2 * r = 2 ^ e \<and> odd q then q + 1 else q) * 2 ^ e)"

definition too_different :: "nat \<Rightarrow> nat \<Rightarrow> bool" where
  "too_different common larger \<longleftrightarrow> common * 2 ^ 54 < round53 (similarity_bits * larger)"

definition markPair :: "string \<Rightarrow> string \<Rightarrow> (part list \<times> part list) option" where
  "markPair before after =
     (let a = tokenize before; b = tokenize after in
      if length a = 0 \<or> length b = 0 \<or> length a > MaxMarkWords \<or> length b > MaxMarkWords then None
      else
        let lcs = lcs_table (map tk_word a) (map tk_word b)
        in if too_different (nat (sint (lcs ! 0 ! 0))) (max (length a) (length b)) then None
           else Some (mark_walk a b lcs 0 0 [] []))"

fun mark_from :: "nat \<Rightarrow> nat \<Rightarrow> hunk list \<Rightarrow> hunk list" where
  "mark_from 0 i out = out"
| "mark_from (Suc n) i out =
     (if hk_Op (out ! i) \<noteq> OpRemove \<or> hk_Op (out ! (i + 1)) \<noteq> OpAdd then mark_from n (i + 1) out
      else
        (case markPair (hk_Text (out ! i)) (hk_Text (out ! (i + 1))) of
           None \<Rightarrow> mark_from n (i + 1) out
         | Some (before, after) \<Rightarrow>
             mark_from n (i + 1)
               (out[i := (out ! i)\<lparr>hk_Parts := before\<rparr>, i + 1 := (out ! (i + 1))\<lparr>hk_Parts := after\<rparr>])))"

definition MarkWords :: "hunk list \<Rightarrow> hunk list" where
  "MarkWords hunks = mark_from (length hunks - 1) 0 hunks"

section \<open>Nothing is lost\<close>

lemma concat_butlast: "xs \<noteq> [] \<Longrightarrow> concat (map f xs) = concat (map f (butlast xs)) @ f (last xs)"
  by (induction xs) auto

lemma tokenize_text: "concat (map tk_text (tokenize_loop s out)) = concat (map tk_text out) @ s"
proof (induction s out rule: tokenize_loop.induct)
  case (1 s out)
  show ?case
  proof (cases "s = []")
    case True
    then show ?thesis by (simp add: tokenize_loop.simps)
  next
    case False
    define word rest0 where "word = takeWhile (\<lambda>c. \<not> isSpace c) s" and "rest0 = dropWhile (\<lambda>c. \<not> isSpace c) s"
    have s: "s = word @ takeWhile isSpace rest0 @ dropWhile isSpace rest0" by (simp add: word_def rest0_def)
    define gap where "gap = takeWhile isSpace rest0"
    note IH = 1 [OF False word_def [unfolded word_def] refl refl, folded word_def rest0_def]
    have eq: "tokenize_loop s out = (if word = [] then tokenize_loop (dropWhile isSpace rest0)
        (if length out > 0 then butlast out @ [(last out)\<lparr>tk_text := tk_text (last out) @ word @ gap\<rparr>]
         else out @ [\<lparr>tk_text = word @ gap, tk_word = []\<rparr>])
      else tokenize_loop (dropWhile isSpace rest0) (out @ [\<lparr>tk_text = word @ gap, tk_word = word\<rparr>]))"
      by (subst tokenize_loop.simps) (simp add: False Let_def word_def rest0_def gap_def)
    show ?thesis
    proof (cases "word = []")
      case True
      then show ?thesis
        unfolding eq using IH(1) [OF True] concat_butlast [of out tk_text] s by (auto simp flip: gap_def)
    next
      case False': False
      then show ?thesis unfolding eq using IH(2) [OF False'] s by (simp flip: gap_def)
    qed
  qed
qed

lemma push_text [simp]: "concat (map pt_Text (push op t parts)) = concat (map pt_Text parts) @ t"
  using concat_butlast [of parts pt_Text] by (auto simp: push_def)

lemma fold_push_text: "concat (map pt_Text (fold (\<lambda>t. push op (tk_text t)) ts parts)) = concat (map pt_Text parts) @ concat (map tk_text ts)"
  by (induction ts arbitrary: parts) auto

lemma mark_walk_text:
  "i \<le> length a \<Longrightarrow> j \<le> length b \<Longrightarrow> mark_walk a b lcs i j before after = (p, q) \<Longrightarrow>
   concat (map pt_Text p) = concat (map pt_Text before) @ concat (map tk_text (drop i a)) \<and>
   concat (map pt_Text q) = concat (map pt_Text after) @ concat (map tk_text (drop j b))"
proof (induction a b lcs i j before after arbitrary: p q rule: mark_walk.induct)
  case (1 a b lcs i j before after)
  show ?case
  proof (cases "i < length a \<and> j < length b")
    case True
    have suffixes: "drop i a = a ! i # drop (i + 1) a" "drop j b = b ! j # drop (j + 1) b"
      using True by (simp_all add: Cons_nth_drop_Suc)
    show ?thesis
    proof (cases "tk_word (a ! i) = tk_word (b ! j)")
      case eq: True
      then show ?thesis using 1(1) [OF True eq] 1(6) True unfolding suffixes by (simp add: mark_walk.simps [of a b lcs i j])
    next
      case ne: False
      show ?thesis
        using 1(2,3) [OF True ne] 1(4-6) True ne unfolding mark_walk.simps [of a b lcs i j]
        by (simp only: if_True if_False simp_thms split: if_splits) (simp_all add: suffixes)
    qed
  next
    case False
    with 1(6) show ?thesis by (subst (asm) mark_walk.simps) (auto simp: fold_push_text)
  qed
qed

definition parts_ok :: "hunk \<Rightarrow> bool" where
  "parts_ok h \<longleftrightarrow> hk_Parts h = [] \<or> concat (map pt_Text (hk_Parts h)) = hk_Text h"

lemma markPair_text:
  "markPair x y = Some (p, q) \<Longrightarrow> concat (map pt_Text p) = x \<and> concat (map pt_Text q) = y"
  using mark_walk_text [of 0 "tokenize x" 0 "tokenize y" _ "[]" "[]" p q] tokenize_text [of x "[]"] tokenize_text [of y "[]"]
  by (auto simp: markPair_def Let_def tokenize_def split: if_splits)

lemma mark_from_ok:
  "i + n < length out \<or> n = 0 \<Longrightarrow> list_all parts_ok out \<Longrightarrow>
   list_all parts_ok (mark_from n i out) \<and> map hk_Text (mark_from n i out) = map hk_Text out \<and> map hk_Op (mark_from n i out) = map hk_Op out"
proof (induction n i out rule: mark_from.induct)
  case (2 n i out)
  show ?case
  proof (cases "hk_Op (out ! i) \<noteq> OpRemove \<or> hk_Op (out ! (i + 1)) \<noteq> OpAdd \<or> markPair (hk_Text (out ! i)) (hk_Text (out ! (i + 1))) = None")
    case True
    with 2 show ?thesis by (auto split: option.split)
  next
    case False
    then obtain p q where m: "markPair (hk_Text (out ! i)) (hk_Text (out ! (i + 1))) = Some (p, q)" by auto
    let ?out = "out[i := (out ! i)\<lparr>hk_Parts := p\<rparr>, i + 1 := (out ! (i + 1))\<lparr>hk_Parts := q\<rparr>]"
    have i: "i < length out" "Suc i < length out" using 2(4) by auto
    have "parts_ok (?out ! k)" if "k < length out" for k
      using markPair_text [OF m] 2(5) that i by (cases "k = Suc i"; cases "k = i") (auto simp: parts_ok_def list_all_length)
    then have "list_all parts_ok ?out" by (simp add: list_all_length)
    moreover have "map hk_Text ?out = map hk_Text out" "map hk_Op ?out = map hk_Op out" "length ?out = length out"
      using i by (simp_all add: map_update) (metis Suc_lessD list_update_id nth_map)+
    ultimately show ?thesis using False m 2(3) [of "(p, q)" p q] 2(4) by auto
  qed
qed simp


text \<open>Either version, read back from the hunks.\<close>

definition read_back :: "op \<Rightarrow> hunk list \<Rightarrow> string" where
  "read_back out hs = concat (map hk_Text (filter (\<lambda>h. hk_Op h \<noteq> out) hs))"

lemma read_back_cong:
  assumes "map hk_Text hs = map hk_Text hs'" "map hk_Op hs = map hk_Op hs'"
  shows "read_back out hs = read_back out hs'"
proof -
  have "length hs = length hs'" using assms(1) map_eq_imp_length_eq by blast
  then show ?thesis using assms by (induction hs hs' rule: list_induct2) (auto simp: read_back_def)
qed

lemma read_back_merge: "read_back out (merge_steps steps a b) = concat (side out steps a b)"
  by (induction steps) (auto simp: read_back_def merge_steps_def side_def)

lemma script_sides: "side OpAdd (script a b) a b = a" "side OpRemove (script a b) a b = b"
  using walk_sides [of 0 a 0 b "lcs_table a b"] by (simp_all add: script_def)

lemma Blocks_read_back: "read_back OpAdd (Blocks x y) = x" "read_back OpRemove (Blocks x y) = y"
  unfolding Blocks_def Let_def
  by (auto simp: read_back_merge script_sides concat_splitBlocks) (auto simp: read_back_def coarse_def)

lemma Blocks_parts: "list_all parts_ok (Blocks x y)"
  by (auto simp: Blocks_def Let_def coarse_def merge_steps_def parts_ok_def list_all_iff)

lemma MarkWords_ok:
  assumes "list_all parts_ok hs"
  shows "list_all parts_ok (MarkWords hs)" "map hk_Text (MarkWords hs) = map hk_Text hs" "map hk_Op (MarkWords hs) = map hk_Op hs"
  using mark_from_ok [of 0 "length hs - 1" hs] assms by (cases hs; auto simp: MarkWords_def)+

lemma subseq_filter_weaker: "(\<And>x. P x \<Longrightarrow> Q x) \<Longrightarrow> subseq (filter P xs) (filter Q xs)"
  by (induction xs) auto

lemma script_kept: "length a < 32768 \<Longrightarrow> kept_count (script a b) = lcs_len a b"
  using walk_kept [of a 0 0 b] by (simp add: script_def)

definition kept_texts :: "hunk list \<Rightarrow> string list" where
  "kept_texts hs = map hk_Text (filter (\<lambda>h. hk_Op h = OpEqual) hs)"

lemma kept_texts_merge:
  "subseq (kept_texts (merge_steps steps a b)) (side OpAdd steps a b)"
  "subseq (kept_texts (merge_steps steps a b)) (side OpRemove steps a b)"
  "length (kept_texts (merge_steps steps a b)) = kept_count steps"
proof -
  have eq: "kept_texts (merge_steps steps a b) = map (\<lambda>(op, i). if op = OpAdd then b ! i else a ! i) (filter (\<lambda>(op, i). op = OpEqual) steps)"
    by (induction steps) (auto simp: kept_texts_def merge_steps_def)
  show "subseq (kept_texts (merge_steps steps a b)) (side OpAdd steps a b)"
    "subseq (kept_texts (merge_steps steps a b)) (side OpRemove steps a b)"
    "length (kept_texts (merge_steps steps a b)) = kept_count steps"
    unfolding eq side_def kept_count_def by (auto intro!: subseq_map subseq_filter_weaker)
qed

text \<open>
  C32. Nothing is lost in a difference: without what was added it spells the approved text and without
  what was removed the current one, byte for byte, also after the words are marked, and the marked words
  of a passage spell the passage.
\<close>
theorem difference_roundtrip:
  "read_back OpAdd (MarkWords (Blocks x y)) = x \<and> read_back OpRemove (MarkWords (Blocks x y)) = y \<and>
   list_all parts_ok (MarkWords (Blocks x y))"
  using MarkWords_ok [OF Blocks_parts, of x y] read_back_cong [of "MarkWords (Blocks x y)" "Blocks x y"] Blocks_read_back
  by simp

definition diff_before :: string where
  "diff_before = ''one two'' @ [CHR 0x0A, CHR 0x0A] @ ''kept''"

definition diff_after :: string where
  "diff_after = ''one six'' @ [CHR 0x0A, CHR 0x0A] @ ''kept''"

theorem difference_roundtrip_witness:
  "map hk_Op (Blocks diff_before diff_after) = [OpRemove, OpAdd, OpEqual] \<and>
   read_back OpAdd (MarkWords (Blocks diff_before diff_after)) = diff_before"
proof
  show "map hk_Op (Blocks diff_before diff_after) = [OpRemove, OpAdd, OpEqual]" by code_simp
  show "read_back OpAdd (MarkWords (Blocks diff_before diff_after)) = diff_before" by (rule difference_roundtrip [THEN conjunct1])
qed

text \<open>The rounding of the product shows: 51 is 0.34 of 150, and yet 51 words in common of 150 are too few.\<close>

lemma too_different_rounds: "too_different 51 150 \<and> \<not> too_different 17 50"
  by (simp add: too_different_def similarity_bits_def round53_def Let_def bit_count.simps)

text \<open>
  A difference is minimal: within the size limit the passages it keeps are a longest common
  subsequence of the passages of both versions, the 16 bits of a cell being enough. No difference of the
  two texts strikes fewer passages.
\<close>
theorem difference_minimal:
  assumes "x \<noteq> y" "length (splitBlocks x) \<le> MaxBlocks" "length (splitBlocks y) \<le> MaxBlocks"
  shows "subseq (kept_texts (Blocks x y)) (splitBlocks x) \<and> subseq (kept_texts (Blocks x y)) (splitBlocks y) \<and>
    (\<forall>zs. subseq zs (splitBlocks x) \<longrightarrow> subseq zs (splitBlocks y) \<longrightarrow> length zs \<le> length (kept_texts (Blocks x y)))"
proof -
  let ?a = "splitBlocks x" and ?b = "splitBlocks y"
  have eq: "Blocks x y = merge_steps (script ?a ?b) ?a ?b" using assms by (auto simp: Blocks_def Let_def)
  have "length (kept_texts (Blocks x y)) = lcs_len ?a ?b"
    unfolding eq kept_texts_merge(3) using assms(2) by (intro script_kept) (simp add: MaxBlocks_def)
  then show ?thesis
    using kept_texts_merge(1,2) [of "script ?a ?b" ?a ?b] lcs_len_upper [of _ ?a ?b] by (auto simp: script_sides eq)
qed

theorem difference_minimal_witness:
  "kept_texts (Blocks diff_before diff_after) = [''kept''] \<and>
   subseq [''kept''] (splitBlocks diff_before) \<and> length [''kept''] \<le> length (kept_texts (Blocks diff_before diff_after))"
proof -
  have k: "kept_texts (Blocks diff_before diff_after) = [''kept'']" by code_simp
  have "diff_before \<noteq> diff_after" "length (splitBlocks diff_before) \<le> MaxBlocks" "length (splitBlocks diff_after) \<le> MaxBlocks" by code_simp+
  from difference_minimal [OF this] k show ?thesis by simp
qed

end
