(* ===== verification/Url_Gates.thy ===== *)
theory Url_Gates
  imports Reaudit Lint_Rules
begin

text \<open>
  What a URL in authored text may be (\<^verbatim>\<open>internal/urlsafe/urlsafe.go\<close>, and the gate of image sources
  \<^verbatim>\<open>ImageSrc\<close> of \<^verbatim>\<open>internal/render/markdown/markdown_images.go\<close>). A browser drops control bytes and
  spaces before it reads a URL and takes a backslash for a slash, so the gates decide on the stripped
  bytes. The lemmas state the decisions against the grammar of schemes, and show that an accepted image
  source is canonical and resolves inside the assets directory of its claim.
\<close>

section \<open>Bytes\<close>

definition StripCtrlAndSpace :: "string \<Rightarrow> string" where
  "StripCtrlAndSpace s = filter (\<lambda>c. (of_char c :: nat) > 0x20 \<and> (of_char c :: nat) \<noteq> 0x7F) s"

definition isSlashByte :: "char \<Rightarrow> bool" where
  "isSlashByte c \<longleftrightarrow> c = CHR ''/'' \<or> c = CHR 0x5C"

definition isSchemeAlpha :: "char \<Rightarrow> bool" where
  "isSchemeAlpha c \<longleftrightarrow> c \<ge> CHR ''a'' \<and> c \<le> CHR ''z'' \<or> c \<ge> CHR ''A'' \<and> c \<le> CHR ''Z''"

definition isDigit :: "char \<Rightarrow> bool" where
  "isDigit c \<longleftrightarrow> c \<ge> CHR ''0'' \<and> c \<le> CHR ''9''"

section \<open>Schemes\<close>

text \<open>The loop over the stripped bytes, with what was read so far.\<close>

fun scheme_loop :: "string \<Rightarrow> string \<Rightarrow> string option" where
  "scheme_loop pre [] = None"
| "scheme_loop pre (c # s) =
     (if c = CHR '':'' then if pre = [] then None else Some (to_lower pre)
      else if isSchemeAlpha c then scheme_loop (pre @ [c]) s
      else if pre \<noteq> [] \<and> (isDigit c \<or> c = CHR ''+'' \<or> c = CHR ''-'' \<or> c = CHR ''.'') then scheme_loop (pre @ [c]) s
      else None)"

definition SchemeOf :: "string \<Rightarrow> string option" where
  "SchemeOf url = scheme_loop [] (StripCtrlAndSpace url)"

definition IsNetworkPath :: "string \<Rightarrow> bool" where
  "IsNetworkPath url \<longleftrightarrow>
     (case StripCtrlAndSpace url of c # d # s \<Rightarrow> isSlashByte c \<and> isSlashByte d | _ \<Rightarrow> False)"

definition IsAllowedHref :: "string \<Rightarrow> bool" where
  "IsAllowedHref url \<longleftrightarrow>
     (case SchemeOf url of
        None \<Rightarrow> \<not> IsNetworkPath url
      | Some scheme \<Rightarrow> scheme = ''http'' \<or> scheme = ''https'' \<or> scheme = ''mailto'')"

definition IsOffOrigin :: "(string \<Rightarrow> string option) \<Rightarrow> string \<Rightarrow> bool" where
  "IsOffOrigin entity raw \<longleftrightarrow>
     (let s = StripCtrlAndSpace (UnescapeString entity raw) in
      if s = [] then True
      else if \<exists>c \<in> set s. c = CHR ''#'' \<or> c = CHR ''?'' then True
      else if SchemeOf s \<noteq> None then True
      else isSlashByte (hd s))"

text \<open>\<^verbatim>\<open>strings.FieldsFunc\<close> with both slash bytes: the nonempty parts between them.\<close>

definition slash_fields :: "string \<Rightarrow> string list" where
  "slash_fields s = filter (\<lambda>p. p \<noteq> []) (split_on (CHR ''/'') (map (\<lambda>c. if isSlashByte c then CHR ''/'' else c) s))"

definition IsRelativePath :: "(string \<Rightarrow> string option) \<Rightarrow> string \<Rightarrow> bool" where
  "IsRelativePath entity raw \<longleftrightarrow>
     (if IsOffOrigin entity raw then False
      else list_all (\<lambda>seg. seg \<noteq> ''..'') (slash_fields (StripCtrlAndSpace (UnescapeString entity raw))))"

section \<open>Image sources\<close>

definition AssetDirName :: string where
  "AssetDirName = ''assets''"

definition maxAssetSrcBytes :: nat where
  "maxAssetSrcBytes = 512"

definition assetExtensions :: "string list" where
  "assetExtensions = [''.png'', ''.jpg'', ''.jpeg'', ''.gif'', ''.webp'', ''.svg'']"

definition asset_char :: "char \<Rightarrow> bool" where
  "asset_char c \<longleftrightarrow> isSchemeAlpha c \<or> isDigit c \<or> c = CHR ''.'' \<or> c = CHR ''_'' \<or> c = CHR ''-''"

definition assetSegment :: "string \<Rightarrow> bool" where
  "assetSegment seg \<longleftrightarrow> (if seg = [] \<or> hd seg = CHR ''.'' then False else list_all asset_char seg)"

text \<open>\<^verbatim>\<open>path.Ext\<close> of a name without a slash.\<close>

definition path_Ext :: "string \<Rightarrow> string" where
  "path_Ext name = (if CHR ''.'' \<in> set name then CHR ''.'' # rev (takeWhile (\<lambda>c. c \<noteq> CHR ''.'') (rev name)) else [])"

fun asset_segments :: "string list \<Rightarrow> string list option" where
  "asset_segments [] = Some []"
| "asset_segments (seg # segs) =
     (if seg = ''.'' then asset_segments segs
      else if \<not> assetSegment seg then None
      else map_option ((#) seg) (asset_segments segs))"

definition ImageSrc :: "(string \<Rightarrow> string option) \<Rightarrow> string \<Rightarrow> string option" where
  "ImageSrc entity raw =
     (if \<not> IsRelativePath entity raw then None
      else
        let s = UnescapeString entity raw in
        if s = [] \<or> length s > maxAssetSrcBytes then None
        else if StripCtrlAndSpace s \<noteq> s then None
        else
          (case asset_segments (split_on (CHR ''/'') s) of
             None \<Rightarrow> None
           | Some out \<Rightarrow>
               if length out < 2 \<or> out ! 0 \<noteq> AssetDirName then None
               else if to_lower (path_Ext (last out)) \<notin> set assetExtensions then None
               else Some (join_str ''/'' out)))"

section \<open>The grammar of schemes\<close>

text \<open>What a browser reads as the scheme of the stripped bytes, in lower case.\<close>

definition schemed :: "string \<Rightarrow> string \<Rightarrow> bool" where
  "schemed s scheme \<longleftrightarrow> (\<exists>c pre rest. s = c # pre @ CHR '':'' # rest \<and> isSchemeAlpha c \<and>
     list_all (\<lambda>d. isSchemeAlpha d \<or> isDigit d \<or> d = CHR ''+'' \<or> d = CHR ''-'' \<or> d = CHR ''.'') pre \<and>
     scheme = to_lower (c # pre))"

lemma colon_no_scheme [simp]: "\<not> isSchemeAlpha (CHR '':'')" "\<not> isDigit (CHR '':'')"
  by (simp_all add: isSchemeAlpha_def isDigit_def less_eq_char_def)

lemma scheme_loop_more:
  "pre \<noteq> [] \<Longrightarrow> scheme_loop pre s = Some scheme \<longleftrightarrow> (\<exists>more rest. s = more @ CHR '':'' # rest \<and>
     list_all (\<lambda>d. isSchemeAlpha d \<or> isDigit d \<or> d = CHR ''+'' \<or> d = CHR ''-'' \<or> d = CHR ''.'') more \<and>
     scheme = to_lower (pre @ more))"
proof (induction pre s rule: scheme_loop.induct)
  case (2 pre c s)
  let ?ok = "\<lambda>d. isSchemeAlpha d \<or> isDigit d \<or> d = CHR ''+'' \<or> d = CHR ''-'' \<or> d = CHR ''.''"
  have split: "(\<exists>more rest. c # s = more @ CHR '':'' # rest \<and> list_all ?ok more \<and> scheme = to_lower (pre @ more)) \<longleftrightarrow>
      c = CHR '':'' \<and> scheme = to_lower pre \<or>
      ?ok c \<and> (\<exists>more rest. s = more @ CHR '':'' # rest \<and> list_all ?ok more \<and> scheme = to_lower ((pre @ [c]) @ more))"
    (is "?L \<longleftrightarrow> ?R")
  proof
    assume ?L
    then obtain more rest where m: "c # s = more @ CHR '':'' # rest" "list_all ?ok more" "scheme = to_lower (pre @ more)" by blast
    then show ?R by (cases more) auto
  next
    assume ?R
    then show ?L
    proof
      assume "c = CHR '':'' \<and> scheme = to_lower pre"
      then show ?L by (intro exI [of _ "[]"] exI [of _ s]) auto
    next
      assume "?ok c \<and> (\<exists>more rest. s = more @ CHR '':'' # rest \<and> list_all ?ok more \<and> scheme = to_lower ((pre @ [c]) @ more))"
      then obtain more rest where "?ok c" "s = more @ CHR '':'' # rest" "list_all ?ok more" "scheme = to_lower ((pre @ [c]) @ more)" by blast
      then show ?L by (intro exI [of _ "c # more"] exI [of _ rest]) auto
    qed
  qed
  show ?case unfolding split using 2 by (cases "c = CHR '':''"; cases "isSchemeAlpha c") auto
qed auto

lemma SchemeOf_schemed: "SchemeOf url = Some scheme \<longleftrightarrow> schemed (StripCtrlAndSpace url) scheme"
proof (cases "StripCtrlAndSpace url")
  case Nil
  then show ?thesis by (simp add: SchemeOf_def schemed_def)
next
  case (Cons c s)
  then show ?thesis using scheme_loop_more [of "[c]" s scheme] by (auto simp: SchemeOf_def schemed_def)
qed


text \<open>
  The browser's side of a link, by the codes of its bytes: control bytes, blanks and DEL are dropped; a
  scheme is a letter, then letters, digits, plus, minus and dots up to a colon.
\<close>

definition browser_bytes :: "string \<Rightarrow> string" where
  "browser_bytes url = [c \<leftarrow> url. (of_char c :: nat) \<notin> {0..32} \<union> {127}]"

definition letter :: "char \<Rightarrow> bool" where
  "letter c \<longleftrightarrow> (of_char c :: nat) \<in> {65..90} \<union> {97..122}"

definition uri_scheme :: "string \<Rightarrow> string \<Rightarrow> bool" where
  "uri_scheme s scheme \<longleftrightarrow> (\<exists>c pre rest. s = c # pre @ CHR '':'' # rest \<and> letter c \<and>
     (\<forall>d \<in> set pre. letter d \<or> (of_char d :: nat) \<in> {48..57} \<or> d \<in> set ''+-.'') \<and> scheme = to_lower (c # pre))"

lemma browser_bytes_eq: "browser_bytes url = StripCtrlAndSpace url"
  unfolding browser_bytes_def StripCtrlAndSpace_def by (rule filter_cong) (auto simp: not_le)

lemma uri_scheme_eq: "uri_scheme s scheme \<longleftrightarrow> schemed s scheme"
proof -
  have "letter c \<longleftrightarrow> isSchemeAlpha c" "isDigit c \<longleftrightarrow> (of_char c :: nat) \<in> {48..57}" for c
    by (auto simp: letter_def isSchemeAlpha_def isDigit_def less_eq_char_def)
  then show ?thesis by (simp add: uri_scheme_def schemed_def list_all_iff)
qed

text \<open>
  C25. The gate of links is exactly a rule about what the browser reads. Of the bytes the browser keeps:
  with a scheme, in whatever case and with whatever control bytes or spaces between its letters, only
  http, https and mailto pass, so that no spelling of another scheme does; without one, everything passes
  but a path whose first two bytes are slashes or backslashes.
\<close>
theorem IsAllowedHref_iff:
  "IsAllowedHref url \<longleftrightarrow>
     (if \<exists>scheme. uri_scheme (browser_bytes url) scheme
      then \<exists>scheme \<in> {''http'', ''https'', ''mailto''}. uri_scheme (browser_bytes url) scheme
      else \<nexists>c d s. browser_bytes url = c # d # s \<and> {c, d} \<subseteq> {CHR ''/'', CHR 0x5C})"
proof (cases "SchemeOf url")
  case None
  then have "\<nexists>scheme. uri_scheme (browser_bytes url) scheme"
    by (metis SchemeOf_schemed browser_bytes_eq uri_scheme_eq option.distinct(1))
  with None show ?thesis
    by (auto simp: IsAllowedHref_def IsNetworkPath_def browser_bytes_eq isSlashByte_def split: list.split)
next
  case (Some scheme)
  then have "uri_scheme (browser_bytes url) sch \<longleftrightarrow> sch = scheme" for sch
    by (metis SchemeOf_schemed browser_bytes_eq uri_scheme_eq option.inject)
  with Some show ?thesis by (auto simp: IsAllowedHref_def)
qed

definition spread_script :: string where
  "spread_script = '' jaVa'' @ CHR 0x09 # ''Script:x''"

theorem IsAllowedHref_iff_witness:
  "uri_scheme (browser_bytes spread_script) ''javascript'' \<and> \<not> IsAllowedHref spread_script"
proof -
  have "SchemeOf spread_script = Some ''javascript''" by code_simp
  then have s: "uri_scheme (browser_bytes spread_script) sch \<longleftrightarrow> sch = ''javascript''" for sch
    using SchemeOf_schemed [of spread_script sch] by (auto simp: browser_bytes_eq uri_scheme_eq)
  then show ?thesis unfolding IsAllowedHref_iff by simp
qed

section \<open>An accepted image source stays in its directory\<close>

text \<open>
  How a browser resolves a relative path against a directory: a backslash is a slash, and the dot
  segments are also recognised when they are percent-encoded.
\<close>

definition single_dot :: "string \<Rightarrow> bool" where
  "single_dot seg \<longleftrightarrow> seg = ''.'' \<or> to_lower seg = ''%2e''"

definition double_dot :: "string \<Rightarrow> bool" where
  "double_dot seg \<longleftrightarrow> seg = ''..'' \<or> to_lower seg = ''.%2e'' \<or> to_lower seg = ''%2e.'' \<or> to_lower seg = ''%2e%2e''"

definition browser_resolve :: "string list \<Rightarrow> string \<Rightarrow> string list" where
  "browser_resolve dir ref =
     fold (\<lambda>seg d. if double_dot seg then butlast d else if single_dot seg then d else d @ [seg])
       (split_on (CHR ''/'') (map (\<lambda>c. if isSlashByte c then CHR ''/'' else c) ref)) dir"

lemma split_on_join: "ps \<noteq> [] \<Longrightarrow> (\<And>p. p \<in> set ps \<Longrightarrow> d \<notin> set p) \<Longrightarrow> split_on d (join_str [d] ps) = ps"
proof (induction ps)
  case (Cons x ps)
  have plain: "d \<notin> set x \<Longrightarrow> split_on d x = [x]" by (induction x) auto
  have more: "d \<notin> set x \<Longrightarrow> split_on d (x @ d # s) = x # split_on d s" for s by (induction x) auto
  from Cons plain more show ?case by (cases ps) auto
qed simp

lemma UnescapeString_plain: "CHR ''&'' \<notin> set s \<Longrightarrow> UnescapeString entity s = s"
  by (induction s) auto

lemma asset_segments_Some:
  "asset_segments segs = Some out \<Longrightarrow> list_all assetSegment out \<and> out = filter (\<lambda>seg. seg \<noteq> ''.'') segs"
  by (induction segs arbitrary: out) (auto split: if_splits)

lemma asset_segments_id: "list_all assetSegment out \<Longrightarrow> asset_segments out = Some out"
  by (induction out) (auto simp: assetSegment_def)

lemma asset_char_plain:
  assumes "asset_char c \<or> c = CHR ''/''"
  shows "(of_char c :: nat) > 0x20 \<and> (of_char c :: nat) \<noteq> 0x7F" "c \<noteq> CHR ''&''" "c \<noteq> CHR ''#''" "c \<noteq> CHR ''?''"
    "c \<noteq> CHR '':''" "c \<noteq> CHR ''%''" "c \<noteq> CHR 0x5C"
  using assms by (auto simp: asset_char_def isSchemeAlpha_def isDigit_def less_eq_char_def)

lemma asset_char_slash: "\<not> asset_char (CHR ''/'')"
  by (auto simp: asset_char_def isSchemeAlpha_def isDigit_def less_eq_char_def)

lemma set_join_str: "set (join_str sep ps) \<subseteq> set sep \<union> \<Union> (set ` set ps)"
  by (induction sep ps rule: join_str.induct) auto

lemma length_join_filter: "length (join_str [d] (filter P ps)) \<le> length (join_str [d] ps)"
proof (induction ps)
  case (Cons p ps)
  have "length (join_str [d] (p # qs)) = length p + (if qs = [] then 0 else 1 + length (join_str [d] qs))" for p qs
    by (cases qs) auto
  with Cons show ?case by auto
qed simp

lemma lower_byte_percent: "lower_byte c = CHR ''%'' \<longleftrightarrow> c = CHR ''%''"
proof
  assume l: "lower_byte c = CHR ''%''"
  show "c = CHR ''%''"
  proof (rule ccontr)
    assume "c \<noteq> CHR ''%''"
    with l have n: "65 \<le> (of_char c :: nat)" "(of_char c :: nat) \<le> 90" "char_of ((of_char c :: nat) + 32) = CHR ''%''"
      by (auto simp: lower_byte_def Let_def split: if_splits)
    have "of_char (char_of ((of_char c :: nat) + 32) :: char) = (of_char c :: nat) + 32" using n(2) by simp
    with n show False by simp
  qed
qed (simp add: lower_byte_def)

lemma lower_percent: "CHR ''%'' \<in> set (to_lower s) \<Longrightarrow> CHR ''%'' \<in> set s"
  using lower_byte_percent lower_byte_percent [THEN eq_iff_swap] by (induction s rule: to_lower.induct) (auto split: if_splits)

lemma asset_segment_no_dot: "assetSegment seg \<Longrightarrow> \<not> single_dot seg \<and> \<not> double_dot seg"
proof -
  assume a: "assetSegment seg"
  then have "CHR ''%'' \<notin> set seg" using asset_char_plain(6) by (auto simp: assetSegment_def list_all_iff split: if_splits)
  then have "CHR ''%'' \<notin> set (to_lower seg)" using lower_percent by blast
  then have "to_lower seg \<noteq> ''%2e''" "to_lower seg \<noteq> ''.%2e''" "to_lower seg \<noteq> ''%2e.''" "to_lower seg \<noteq> ''%2e%2e''" by auto
  moreover have "seg \<noteq> ''.''" "seg \<noteq> ''..''" using a by (auto simp: assetSegment_def)
  ultimately show ?thesis by (simp add: single_dot_def double_dot_def)
qed

lemma resolve_segments:
  assumes "\<And>seg. seg \<in> set segs \<Longrightarrow> seg = ''.'' \<or> assetSegment seg"
  shows "fold (\<lambda>seg d. if double_dot seg then butlast d else if single_dot seg then d else d @ [seg]) segs dir =
    dir @ filter (\<lambda>seg. seg \<noteq> ''.'') segs"
  using assms
proof (induction segs arbitrary: dir)
  case (Cons seg segs)
  have "single_dot ''.''" "\<not> double_dot ''.''" by (simp_all add: single_dot_def double_dot_def)
  with Cons asset_segment_no_dot [of seg] show ?case by (cases "seg = ''.''") auto
qed simp

text \<open>The accepted names, and what holds of the source that spells them.\<close>

lemma accepted_names:
  assumes "list_all assetSegment names" "names \<noteq> []"
  defines "rel \<equiv> join_str ''/'' names"
  shows "split_on (CHR ''/'') rel = names" "\<And>c. c \<in> set rel \<Longrightarrow> asset_char c \<or> c = CHR ''/''" "rel \<noteq> []"
    "hd rel = hd (hd names)" "map (\<lambda>c. if isSlashByte c then CHR ''/'' else c) rel = rel"
proof -
  have parts: "asset_char c" if "p \<in> set names" "c \<in> set p" for p c
    using assms(1) that by (auto simp: list_all_iff assetSegment_def split: if_splits)
  show "split_on (CHR ''/'') rel = names"
    unfolding rel_def using parts asset_char_slash by (intro split_on_join assms(2)) blast
  show chars: "asset_char c \<or> c = CHR ''/''" if "c \<in> set rel" for c
    using set_join_str [of "''/''" names] that parts unfolding rel_def by auto
  obtain n ns where n: "names = n # ns" using assms(2) by (cases names) auto
  then have "n \<noteq> []" using assms(1) by (auto simp: assetSegment_def)
  then show "rel \<noteq> []" "hd rel = hd (hd names)" unfolding rel_def n by (cases ns; simp)+
  show "map (\<lambda>c. if isSlashByte c then CHR ''/'' else c) rel = rel"
    using chars asset_char_plain(7) by (intro map_idI) (auto simp: isSlashByte_def)
qed

lemma accepted_legal:
  assumes "list_all assetSegment names" "names \<noteq> []"
  shows "IsRelativePath entity (join_str ''/'' names)" "UnescapeString entity (join_str ''/'' names) = join_str ''/'' names"
    "StripCtrlAndSpace (join_str ''/'' names) = join_str ''/'' names"
proof -
  let ?rel = "join_str ''/'' names"
  note rel = accepted_names [OF assms]
  have plain: "P c" if "c \<in> set ?rel" "\<And>c. asset_char c \<or> c = CHR ''/'' \<Longrightarrow> P c" for c P using rel(2) that by blast
  show unescaped: "UnescapeString entity ?rel = ?rel"
    by (rule UnescapeString_plain) (use rel(2) asset_char_plain(2) in blast)
  show stripped: "StripCtrlAndSpace ?rel = ?rel"
    unfolding StripCtrlAndSpace_def by (rule filter_True) (use rel(2) asset_char_plain(1) in blast)
  have "SchemeOf ?rel = None"
  proof (rule ccontr)
    assume "SchemeOf ?rel \<noteq> None"
    then obtain sch where "schemed ?rel sch" using SchemeOf_schemed [of ?rel] by (auto simp: stripped)
    then have "CHR '':'' \<in> set ?rel" by (auto simp: schemed_def)
    then show False using rel(2) asset_char_plain(5) by blast
  qed
  moreover have "c \<noteq> CHR ''#'' \<and> c \<noteq> CHR ''?''" if "c \<in> set ?rel" for c using rel(2) [OF that] asset_char_plain(3,4) by blast
  moreover from this have "\<not> (\<exists>c \<in> set ?rel. c = CHR ''#'' \<or> c = CHR ''?'')" by blast
  moreover have "\<not> isSlashByte (hd ?rel)"
  proof -
    have "hd names \<in> set names" using assms(2) by simp
    then have "assetSegment (hd names)" using assms(1) by (simp add: list_all_iff)
    then have "asset_char (hd (hd names))" by (cases "hd names") (auto simp: assetSegment_def split: if_splits)
    then have "hd (hd names) \<noteq> CHR ''/''" "hd (hd names) \<noteq> CHR 0x5C"
      using asset_char_slash asset_char_plain(7) [of "hd (hd names)"] by metis+
    then show ?thesis unfolding rel(4) by (simp add: isSlashByte_def)
  qed
  ultimately have "\<not> IsOffOrigin entity ?rel" by (simp add: IsOffOrigin_def Let_def unescaped stripped rel(3))
  moreover have "slash_fields ?rel = names"
    unfolding slash_fields_def rel(5) rel(1) by (rule filter_True) (use assms(1) in \<open>auto simp: list_all_iff assetSegment_def\<close>)
  moreover have "list_all (\<lambda>seg. seg \<noteq> ''..'') names"
    using assms(1) by (auto simp: list_all_iff assetSegment_def)
  ultimately show "IsRelativePath entity ?rel" by (simp add: IsRelativePath_def unescaped stripped)
qed

text \<open>
  C24. An image source that is accepted is canonical and stays in its directory: the gate accepts its own
  answer and answers the same, the names of the answer start with \<open>assets\<close>, and against any directory a
  browser resolves both the answer and what the author wrote to that directory followed by the names,
  also where it reads percent-encoded dots as dots.
\<close>
theorem ImageSrc_stays:
  assumes "ImageSrc entity raw = Some rel"
  shows "ImageSrc entity rel = Some rel \<and>
    (\<exists>names. hd names = AssetDirName \<and> length names \<ge> 2 \<and> (\<forall>dir. browser_resolve dir rel = dir @ names \<and>
       browser_resolve dir (UnescapeString entity raw) = dir @ names))"
proof -
  define s where "s = UnescapeString entity raw"
  from assms obtain out where out: "length s \<le> maxAssetSrcBytes" "asset_segments (split_on (CHR ''/'') s) = Some out" "2 \<le> length out"
      "out ! 0 = AssetDirName" "to_lower (path_Ext (last out)) \<in> set assetExtensions" "rel = join_str ''/'' out"
    by (auto simp: ImageSrc_def Let_def s_def split: if_splits option.splits)
  note segs = asset_segments_Some [OF out(2)]
  have ne: "out \<noteq> []" using out(3) by auto
  have ok: "list_all assetSegment out" by (rule segs [THEN conjunct1])
  note rel = accepted_names [OF ok ne, folded out(6)] and legal = accepted_legal [OF ok ne, folded out(6)]
  have "length rel \<le> length (join_str ''/'' (split_on (CHR ''/'') s))"
    unfolding out(6) using segs length_join_filter by simp
  then have "length rel \<le> maxAssetSrcBytes" using out(1) by (simp add: join_split_on)
  then have "ImageSrc entity rel = Some rel"
    using out rel legal asset_segments_id [OF ok] by (simp add: ImageSrc_def)
  moreover have "hd out = AssetDirName" using out(4) ne by (simp add: hd_conv_nth)
  moreover have "browser_resolve dir rel = dir @ out" for dir
  proof -
    have "filter (\<lambda>seg. seg \<noteq> ''.'') out = out" using ok by (auto simp: list_all_iff assetSegment_def intro!: filter_True)
    then show ?thesis unfolding browser_resolve_def rel(5) rel(1) using ok by (subst resolve_segments) (auto simp: list_all_iff)
  qed
  moreover have "browser_resolve dir s = dir @ out" for dir
  proof -
    have seg: "seg = ''.'' \<or> assetSegment seg" if "seg \<in> set (split_on (CHR ''/'') s)" for seg
      using segs that by (auto simp: list_all_iff)
    have "c \<noteq> CHR 0x5C" if "c \<in> set s" for c
    proof -
      have "c \<in> set (join_str ''/'' (split_on (CHR ''/'') s))" using that by (simp add: join_split_on)
      then have "c = CHR ''/'' \<or> (\<exists>seg \<in> set (split_on (CHR ''/'') s). c \<in> set seg)" using set_join_str [of "''/''"] by fastforce
      then show ?thesis
        using seg asset_char_plain(7) by (fastforce simp: assetSegment_def list_all_iff split: if_splits)
    qed
    then have "map (\<lambda>c. if isSlashByte c then CHR ''/'' else c) s = s" by (intro map_idI) (auto simp: isSlashByte_def)
    then show ?thesis unfolding browser_resolve_def using resolve_segments [OF seg] segs by simp
  qed
  ultimately show ?thesis using out(3) unfolding s_def by blast
qed

theorem ImageSrc_stays_witness:
  "ImageSrc (\<lambda>_. None) ''./assets/./a.png'' = Some ''assets/a.png'' \<and> ImageSrc (\<lambda>_. None) ''assets/a.png'' = Some ''assets/a.png''"
proof -
  have "ImageSrc (\<lambda>_. None) ''./assets/./a.png'' = Some ''assets/a.png''" by code_simp
  with ImageSrc_stays [OF this] show ?thesis by simp
qed

end
