(* ===== verification/Asset_Route.thy ===== *)
theory Asset_Route
  imports Url_Gates
begin

text \<open>
  The one route that sends a file (\<^verbatim>\<open>internal/serve/claim_assets.go\<close>, with the URL keys of
  \<^verbatim>\<open>internal/render/components/images.go\<close>). The set of paths it answers is computed from the loaded
  claims, kept for a bounded time and checked again at the request. File paths are lists of names under the
  canonical root. Parameters are the scan of the tree, the loading of the claims, what the Markdown passes
  recognise as image references, and the resolution of links by the operating system.
\<close>

section \<open>The keys of the index\<close>

definition AssetRoutePrefix :: string where
  "AssetRoutePrefix = ''/claim-assets/''"

definition maxRoutableIDBytes :: nat where
  "maxRoutableIDBytes = 256"

definition routableClaimID :: "string \<Rightarrow> bool" where
  "routableClaimID i \<longleftrightarrow> \<not> (i = [] \<or> hd i = CHR ''.'' \<or> length i > maxRoutableIDBytes) \<and> list_all asset_char i"

definition ClaimAssetURLPrefix :: "claim \<Rightarrow> string option" where
  "ClaimAssetURLPrefix c = (if routableClaimID (cl_ID c) then Some (AssetRoutePrefix @ cl_ID c @ ''/'') else None)"

text \<open>The fields of a claim whose partial renders images.\<close>

definition ClaimImageSurfaces :: "claim \<Rightarrow> string list" where
  "ClaimImageSurfaces c =
     (if cl_Layout c \<in> {''card'', ''table'', ''list'', ''banner'', ''mockup''} then [cl_Body c]
      else if cl_Layout c = ''steps'' then cl_Body c # cl_Steps c
      else [])"

type_synonym path = "string list"

text \<open>Clean absolute paths: one lies inside another when its names start with the other's.\<close>

definition isInsideDir :: "path \<Rightarrow> path \<Rightarrow> bool" where
  "isInsideDir dir p \<longleftrightarrow> take (length dir) p = dir"

record asset_index =
  ai_root :: path
  ai_paths :: "path gomap"
  ai_fp :: "(int \<times> int) gomap"

definition empty_index :: asset_index where
  "empty_index = \<lparr>ai_root = [], ai_paths = [], ai_fp = []\<rparr>"

text \<open>What the loaded tree and the passes that read it answer.\<close>

record asset_site =
  as_root :: "path option"
  as_claims :: "claim list option"
  as_relDir :: "claim \<Rightarrow> path option"
  as_refs :: "string \<Rightarrow> string list"
  as_entity :: "string \<Rightarrow> string option"

definition ClaimBodyImages :: "asset_site \<Rightarrow> string \<Rightarrow> string list" where
  "ClaimBodyImages S text = List.map_filter (ImageSrc (as_entity S)) (as_refs S text)"

definition duplicateClaimIDs :: "claim list \<Rightarrow> string \<Rightarrow> bool" where
  "duplicateClaimIDs claims i \<longleftrightarrow> length (filter (\<lambda>c. cl_ID c = i) claims) > 1"

definition add_asset :: "string \<Rightarrow> path \<Rightarrow> string \<Rightarrow> asset_index \<Rightarrow> asset_index" where
  "add_asset pre base rel idx =
     (let urlPath = pre @ rel; file = base @ split_on (CHR ''/'') rel in
      if gm_get (ai_paths idx) urlPath \<noteq> None then idx
      else if \<not> isInsideDir (ai_root idx) file then idx
      else idx\<lparr>ai_paths := gm_put urlPath file (ai_paths idx)\<rparr>)"

definition indexClaimAssets :: "asset_site \<Rightarrow> claim \<Rightarrow> asset_index \<Rightarrow> asset_index" where
  "indexClaimAssets S c idx =
     (case ClaimAssetURLPrefix c of
        None \<Rightarrow> idx
      | Some pre \<Rightarrow>
          if cl_SourcePath c = [] then idx
          else
            (case as_relDir S c of
               None \<Rightarrow> idx
             | Some relDir \<Rightarrow>
                 fold (add_asset pre (ai_root idx @ relDir)) (concat (map (ClaimBodyImages S) (ClaimImageSurfaces c))) idx))"

definition buildAssetIndex :: "asset_site \<Rightarrow> (int \<times> int) gomap \<Rightarrow> asset_index option" where
  "buildAssetIndex S fp =
     (case as_root S of
        None \<Rightarrow> None
      | Some root \<Rightarrow>
          (case as_claims S of
             None \<Rightarrow> None
           | Some claims \<Rightarrow>
               Some (fold (\<lambda>c idx. if duplicateClaimIDs claims (cl_ID c) then idx else indexClaimAssets S c idx) claims
                 \<lparr>ai_root = root, ai_paths = [], ai_fp = fp\<rparr>)))"

section \<open>How long an index is trusted\<close>

definition fingerprintsEqual :: "(int \<times> int) gomap \<Rightarrow> (int \<times> int) gomap \<Rightarrow> bool" where
  "fingerprintsEqual a b \<longleftrightarrow>
     length a = length b \<and> list_all (\<lambda>(p, sa). case gm_get b p of None \<Rightarrow> False | Some sb \<Rightarrow> sa = sb) a"

text \<open>Nanoseconds; a clock that was never set is \<open>None\<close>, the zero time, which lies centuries back.\<close>

definition assetKeepGrace :: int where
  "assetKeepGrace = 2000000000"

record asset_clocks =
  ac_assets :: "asset_index option"
  ac_checkedAt :: "int option"
  ac_confirmedAt :: "int option"

definition keepAssets :: "int \<Rightarrow> asset_clocks \<Rightarrow> asset_index \<times> asset_clocks" where
  "keepAssets now st =
     (case (ac_assets st, ac_confirmedAt st) of
        (Some idx, Some t) \<Rightarrow> if now - t \<le> assetKeepGrace then (idx, st) else (empty_index, st\<lparr>ac_assets := Some empty_index\<rparr>)
      | _ \<Rightarrow> (empty_index, st\<lparr>ac_assets := Some empty_index\<rparr>))"

text \<open>
  The answer at a request: \<open>since\<close> and \<open>now\<close> are its two readings of the clock, \<open>scan\<close> the stamps of the tree
  and \<open>build\<close> the index from them, \<open>None\<close> where the tree cannot be read or loaded.
\<close>

definition claimAssets ::
  "int \<Rightarrow> int \<Rightarrow> int \<Rightarrow> (int \<times> int) gomap option \<Rightarrow> ((int \<times> int) gomap \<Rightarrow> asset_index option) \<Rightarrow> asset_clocks \<Rightarrow>
   asset_index \<times> asset_clocks" where
  "claimAssets window since now scan build st =
     (case (ac_assets st, case ac_checkedAt st of None \<Rightarrow> False | Some c \<Rightarrow> since - c < window) of
        (Some idx, True) \<Rightarrow> (idx, st)
      | _ \<Rightarrow>
          let st1 = st\<lparr>ac_checkedAt := Some now\<rparr> in
          (case scan of
             None \<Rightarrow> keepAssets now st1
           | Some fp \<Rightarrow>
               (case (ac_assets st1, case ac_assets st1 of None \<Rightarrow> False | Some idx \<Rightarrow> fingerprintsEqual (ai_fp idx) fp) of
                  (Some idx, True) \<Rightarrow> (idx, st1\<lparr>ac_confirmedAt := Some now\<rparr>)
                | _ \<Rightarrow>
                    (case build fp of
                       None \<Rightarrow> keepAssets now st1
                     | Some idx \<Rightarrow> (idx, st1\<lparr>ac_assets := Some idx, ac_confirmedAt := Some now\<rparr>)))))"

section \<open>A request\<close>

definition assetContentTypes :: "string \<Rightarrow> string option" where
  "assetContentTypes ext = map_of
     [(''.png'', ''image/png''), (''.jpg'', ''image/jpeg''), (''.jpeg'', ''image/jpeg''), (''.gif'', ''image/gif''),
      (''.webp'', ''image/webp''), (''.svg'', ''image/svg+xml'')] ext"

text \<open>\<open>None\<close> is the bare 404 of every refusal, \<open>resolve\<close> follows links, \<open>regular\<close> opens a regular file.\<close>

definition handleClaimAsset ::
  "(path \<Rightarrow> path option) \<Rightarrow> (path \<Rightarrow> bool) \<Rightarrow> asset_index \<Rightarrow> string \<Rightarrow> string \<Rightarrow> (string \<times> path) option" where
  "handleClaimAsset resolve regular idx escapedPath path =
     (if escapedPath \<noteq> path then None
      else
        (case gm_get (ai_paths idx) path of
           None \<Rightarrow> None
         | Some file \<Rightarrow>
             (case assetContentTypes (to_lower (path_Ext (last file))) of
                None \<Rightarrow> None
              | Some ctype \<Rightarrow>
                  (case resolve file of
                     None \<Rightarrow> None
                   | Some resolved \<Rightarrow>
                       if resolved \<noteq> file \<or> \<not> isInsideDir (ai_root idx) resolved then None
                       else if \<not> regular resolved then None
                       else Some (ctype, resolved)))))"

section \<open>What can be in an index\<close>

text \<open>A path of the index: the image a claim with an id of its own references, in its own directory.\<close>

definition allowed_asset :: "asset_site \<Rightarrow> string \<Rightarrow> path \<Rightarrow> bool" where
  "allowed_asset S url file \<longleftrightarrow>
     (\<exists>root claims c relDir text raw rel. as_root S = Some root \<and> as_claims S = Some claims \<and>
        filter (\<lambda>x. cl_ID x = cl_ID c) claims = [c] \<and> text \<in> set (ClaimImageSurfaces c) \<and> raw \<in> set (as_refs S text) \<and>
        ImageSrc (as_entity S) raw = Some rel \<and> as_relDir S c = Some relDir \<and>
        url = AssetRoutePrefix @ cl_ID c @ ''/'' @ rel \<and> file = root @ relDir @ split_on (CHR ''/'') rel)"

definition index_ok :: "asset_site \<Rightarrow> path \<Rightarrow> asset_index \<Rightarrow> bool" where
  "index_ok S root idx \<longleftrightarrow> ai_root idx = root \<and> (\<forall>url file. gm_get (ai_paths idx) url = Some file \<longrightarrow> allowed_asset S url file)"

lemma index_ok_claim:
  assumes ok: "index_ok S root idx" and site: "as_root S = Some root" "as_claims S = Some claims"
    and c: "c \<in> set claims" "\<not> duplicateClaimIDs claims (cl_ID c)"
  shows "index_ok S root (indexClaimAssets S c idx)"
proof (cases "ClaimAssetURLPrefix c = None \<or> cl_SourcePath c = [] \<or> as_relDir S c = None")
  case True
  then show ?thesis using ok by (auto simp: indexClaimAssets_def split: option.split)
next
  case False
  then obtain pre relDir where pre: "ClaimAssetURLPrefix c = Some pre" "pre = AssetRoutePrefix @ cl_ID c @ ''/''"
    and dir: "as_relDir S c = Some relDir" "cl_SourcePath c \<noteq> []" by (auto simp: ClaimAssetURLPrefix_def split: if_splits)
  have own: "filter (\<lambda>x. cl_ID x = cl_ID c) claims = [c]"
  proof -
    have "c \<in> set (filter (\<lambda>x. cl_ID x = cl_ID c) claims)" using c(1) by simp
    with c(2) show ?thesis
      by (cases "filter (\<lambda>x. cl_ID x = cl_ID c) claims") (auto simp: duplicateClaimIDs_def)
  qed
  have "index_ok S root (fold (add_asset pre (ai_root idx @ relDir)) (concat (map (ClaimBodyImages S) (ClaimImageSurfaces c))) idx)"
  proof (rule fold_invariant [where Q = "\<lambda>rel. \<exists>text \<in> set (ClaimImageSurfaces c). \<exists>raw \<in> set (as_refs S text). ImageSrc (as_entity S) raw = Some rel"])
    fix rel idx'
    assume rel: "\<exists>text \<in> set (ClaimImageSurfaces c). \<exists>raw \<in> set (as_refs S text). ImageSrc (as_entity S) raw = Some rel"
      and ok': "index_ok S root idx'"
    have "allowed_asset S (pre @ rel) (ai_root idx @ relDir @ split_on (CHR ''/'') rel)"
      using rel site own dir ok unfolding allowed_asset_def index_ok_def pre(2) by fastforce
    then show "index_ok S root (add_asset pre (ai_root idx @ relDir) rel idx')"
      using ok' by (auto simp: add_asset_def Let_def index_ok_def)
  next
    show "\<exists>text \<in> set (ClaimImageSurfaces c). \<exists>raw \<in> set (as_refs S text). ImageSrc (as_entity S) raw = Some rel"
      if "rel \<in> set (concat (map (ClaimBodyImages S) (ClaimImageSurfaces c)))" for rel
      using that by (fastforce simp: ClaimBodyImages_def map_filter_def)
  qed (rule ok)
  then show ?thesis using pre(1) dir by (simp add: indexClaimAssets_def)
qed

lemma buildAssetIndex_ok:
  assumes "buildAssetIndex S fp = Some idx" "gm_get (ai_paths idx) url = Some file"
  shows "allowed_asset S url file"
proof -
  obtain root claims where site: "as_root S = Some root" "as_claims S = Some claims"
    using assms(1) by (auto simp: buildAssetIndex_def split: option.splits)
  have "index_ok S root (fold (\<lambda>c idx. if duplicateClaimIDs claims (cl_ID c) then idx else indexClaimAssets S c idx) claims
      \<lparr>ai_root = root, ai_paths = [], ai_fp = fp\<rparr>)"
  proof (rule fold_invariant [where Q = "\<lambda>c. c \<in> set claims"])
    show "index_ok S root (if duplicateClaimIDs claims (cl_ID c) then idx else indexClaimAssets S c idx)"
      if "c \<in> set claims" "index_ok S root idx" for c idx
      using index_ok_claim [OF that(2) site that(1)] that(2) by auto
  qed (auto simp: index_ok_def)
  then show ?thesis using assms site by (auto simp: buildAssetIndex_def index_ok_def)
qed


lemma add_asset_fp [simp]: "ai_fp (add_asset pre base rel idx) = ai_fp idx"
  by (simp add: add_asset_def Let_def)

lemma index_fp [simp]: "ai_fp (indexClaimAssets S c idx) = ai_fp idx"
proof -
  have "ai_fp (fold (add_asset pre base) rels idx) = ai_fp idx" for pre base rels
    by (induction rels arbitrary: idx) auto
  then show ?thesis by (auto simp: indexClaimAssets_def split: option.split)
qed

lemma buildAssetIndex_fp: "buildAssetIndex S fp = Some idx \<Longrightarrow> ai_fp idx = fp"
proof -
  have "ai_fp (fold (\<lambda>c idx. if P c then idx else indexClaimAssets S c idx) claims idx) = ai_fp idx" for P claims idx
    by (induction claims arbitrary: idx) auto
  then show "buildAssetIndex S fp = Some idx \<Longrightarrow> ai_fp idx = fp" by (auto simp: buildAssetIndex_def split: option.splits)
qed

section \<open>The staleness of an answer\<close>

text \<open>The requests of a server over a tree that changes with time.\<close>

inductive asset_run :: "int \<Rightarrow> (int \<Rightarrow> (int \<times> int) gomap option) \<Rightarrow> (int \<Rightarrow> asset_site) \<Rightarrow> int \<Rightarrow> asset_clocks \<Rightarrow> bool"
  for window scan site where
  start: "asset_run window scan site t \<lparr>ac_assets = None, ac_checkedAt = None, ac_confirmedAt = None\<rparr>"
| request: "asset_run window scan site t st \<Longrightarrow> t \<le> since \<Longrightarrow> since \<le> now \<Longrightarrow>
    asset_run window scan site now (snd (claimAssets window since now (scan now) (buildAssetIndex (site now)) st))"

text \<open>The index was built from the stamps of time \<open>b\<close>, and the stamps of time \<open>v\<close> were the same.\<close>

definition vouched :: "(int \<Rightarrow> (int \<times> int) gomap option) \<Rightarrow> (int \<Rightarrow> asset_site) \<Rightarrow> int \<Rightarrow> int \<Rightarrow> asset_index \<Rightarrow> bool" where
  "vouched scan site b v idx \<longleftrightarrow> b \<le> v \<and> scan b = Some (ai_fp idx) \<and> buildAssetIndex (site b) (ai_fp idx) = Some idx \<and>
     (v = b \<or> (\<exists>fp. scan v = Some fp \<and> fingerprintsEqual (ai_fp idx) fp))"

definition trusted :: "(int \<Rightarrow> (int \<times> int) gomap option) \<Rightarrow> (int \<Rightarrow> asset_site) \<Rightarrow> int \<Rightarrow> asset_clocks \<Rightarrow> bool" where
  "trusted scan site t st \<longleftrightarrow>
     (\<forall>idx. ac_assets st = Some idx \<longrightarrow> idx = empty_index \<or>
        (\<exists>b v c. ac_confirmedAt st = Some v \<and> ac_checkedAt st = Some c \<and> v \<le> c \<and> c \<le> t \<and> c - v \<le> assetKeepGrace \<and>
           vouched scan site b v idx))"

lemma keepAssets_trusted:
  assumes "trusted scan site t st" "t \<le> now" "keepAssets now (st\<lparr>ac_checkedAt := Some now\<rparr>) = (idx, st')"
  shows "trusted scan site now st' \<and> ac_assets st' = Some idx \<and> (ac_checkedAt st' = Some now \<or> idx = empty_index)"
  using assms by (auto simp: keepAssets_def trusted_def split: option.splits if_splits)

lemma claimAssets_trusted:
  assumes t: "trusted scan site t st" "t \<le> since" "since \<le> now"
    and eq: "claimAssets window since now (scan now) (buildAssetIndex (site now)) st = (idx, st')"
  shows "trusted scan site now st' \<and> ac_assets st' = Some idx \<and>
    (idx = empty_index \<or> (\<exists>c. ac_checkedAt st' = Some c \<and> (since - c < window \<or> c = now)))"
proof (cases "ac_assets st \<noteq> None \<and> (case ac_checkedAt st of None \<Rightarrow> False | Some c \<Rightarrow> since - c < window)")
  case True
  then have "idx = the (ac_assets st)" "st' = st" using eq by (auto simp: claimAssets_def split: option.splits)
  with True t show ?thesis by (auto simp: trusted_def split: option.splits)
next
  case False
  have t': "t \<le> now" using t by simp
  let ?st = "st\<lparr>ac_checkedAt := Some now\<rparr>"
  have eq': "(case scan now of
             None \<Rightarrow> keepAssets now ?st
           | Some fp \<Rightarrow>
               (case (ac_assets st, case ac_assets st of None \<Rightarrow> False | Some idx \<Rightarrow> fingerprintsEqual (ai_fp idx) fp) of
                  (Some idx, True) \<Rightarrow> (idx, ?st\<lparr>ac_confirmedAt := Some now\<rparr>)
                | _ \<Rightarrow>
                    (case buildAssetIndex (site now) fp of
                       None \<Rightarrow> keepAssets now ?st
                     | Some idx \<Rightarrow> (idx, ?st\<lparr>ac_assets := Some idx, ac_confirmedAt := Some now\<rparr>)))) = (idx, st')"
    using False eq by (auto simp: claimAssets_def Let_def split: option.splits bool.splits)
  have grace: "0 \<le> assetKeepGrace" by (simp add: assetKeepGrace_def)
  show ?thesis
  proof (cases "scan now")
    case None
    then show ?thesis using eq' keepAssets_trusted [OF t(1) t'] by auto
  next
    case (Some fp)
    show ?thesis
    proof (cases "\<exists>held. ac_assets st = Some held \<and> fingerprintsEqual (ai_fp held) fp")
      case True
      then have held: "ac_assets st = Some idx" "fingerprintsEqual (ai_fp idx) fp" "st' = ?st\<lparr>ac_confirmedAt := Some now\<rparr>"
        using eq' Some by auto
      have "idx = empty_index \<or> (\<exists>b. vouched scan site b now idx)"
      proof (cases "idx = empty_index")
        case False
        then obtain b v c where v: "ac_checkedAt st = Some c" "v \<le> c" "c \<le> t" "vouched scan site b v idx"
          using t(1) held(1) by (auto simp: trusted_def)
        then have "b \<le> now" using t' by (auto simp: vouched_def)
        then show ?thesis using v(4) Some held(2) by (auto simp: vouched_def)
      qed simp
      then show ?thesis using held grace by (auto simp: trusted_def)
    next
      case False
      then have eq2: "(case buildAssetIndex (site now) fp of
          None \<Rightarrow> keepAssets now ?st
        | Some idx \<Rightarrow> (idx, ?st\<lparr>ac_assets := Some idx, ac_confirmedAt := Some now\<rparr>)) = (idx, st')"
        using eq' Some by (auto split: option.splits bool.splits)
      show ?thesis
      proof (cases "buildAssetIndex (site now) fp")
        case None
        then show ?thesis using eq2 keepAssets_trusted [OF t(1) t'] by auto
      next
        case built: (Some new)
        then have "vouched scan site now now idx" using eq2 Some buildAssetIndex_fp [OF built] by (auto simp: vouched_def)
        then show ?thesis using eq2 built grace by (auto simp: trusted_def)
      qed
    qed
  qed
qed

lemma asset_run_trusted: "asset_run window scan site t st \<Longrightarrow> trusted scan site t st"
proof (induction rule: asset_run.induct)
  case (request t st since now)
  then show ?case using claimAssets_trusted [OF request(4,2,3)] by (metis prod.collapse)
qed (simp add: trusted_def)


text \<open>
  C23. A file is only ever sent because the claims ask for it: the request names a path the page emits,
  for an image that a claim with an id of its own referenced when the index was built, in the directory of
  that claim and reached through no link. The stamps of the tree were the same less than the freshness
  window and the grace before the request, also when every later check failed, so an image that is no
  longer referenced is unreachable after that time.
\<close>
theorem served_asset:
  assumes "asset_run window scan site t st" "t \<le> since" "since \<le> now" "0 < window"
    and "claimAssets window since now (scan now) (buildAssetIndex (site now)) st = (idx, st')"
    and "handleClaimAsset resolve regular idx escapedPath url = Some (ctype, file)"
  shows "\<exists>b v. vouched scan site b v idx \<and> v \<le> now \<and> since - v < window + assetKeepGrace \<and>
    allowed_asset (site b) url file \<and> escapedPath = url \<and> resolve file = Some file \<and> regular file \<and> isInsideDir (ai_root idx) file"
proof -
  have served: "gm_get (ai_paths idx) url = Some file" "escapedPath = url" "resolve file = Some file" "regular file"
      "isInsideDir (ai_root idx) file"
    using assms(6) by (auto simp: handleClaimAsset_def split: if_splits option.splits)
  then have "idx \<noteq> empty_index" by (auto simp: empty_index_def)
  moreover note claimAssets_trusted [OF asset_run_trusted [OF assms(1)] assms(2,3,5)]
  ultimately obtain b v c where v: "v \<le> c" "c \<le> now" "c - v \<le> assetKeepGrace" "vouched scan site b v idx" "since - c < window \<or> c = now"
    unfolding trusted_def by (metis option.inject)
  then have "since - v < window + assetKeepGrace" using assms(3,4) by auto
  moreover have "allowed_asset (site b) url file" using v(4) served(1) buildAssetIndex_ok by (auto simp: vouched_def)
  ultimately show ?thesis using v served by (intro exI [of _ b] exI [of _ v]) auto
qed

definition picture_claim :: claim where
  "picture_claim = zero_claim\<lparr>cl_ID := ''m.contract.a'', cl_Layout := ''card'', cl_Body := ''see'', cl_SourcePath := ''a.yaml''\<rparr>"

definition picture_site :: asset_site where
  "picture_site = \<lparr>as_root = Some [''claims''], as_claims = Some [picture_claim], as_relDir = (\<lambda>_. Some [''m'']),
     as_refs = (\<lambda>text. if text = ''see'' then [''assets/p.png''] else []), as_entity = (\<lambda>_. None)\<rparr>"

theorem served_asset_witness:
  "\<exists>file. snd (the (handleClaimAsset Some (\<lambda>_. True)
      (fst (claimAssets 500000000 7 8 (Some []) (buildAssetIndex picture_site) \<lparr>ac_assets = None, ac_checkedAt = None, ac_confirmedAt = None\<rparr>))
      ''/claim-assets/m.contract.a/assets/p.png'' ''/claim-assets/m.contract.a/assets/p.png'')) = file \<and>
    allowed_asset picture_site ''/claim-assets/m.contract.a/assets/p.png'' file"
proof -
  let ?url = "''/claim-assets/m.contract.a/assets/p.png''"
  let ?st = "\<lparr>ac_assets = None, ac_checkedAt = None, ac_confirmedAt = None\<rparr>"
  let ?r = "claimAssets 500000000 7 8 (Some []) (buildAssetIndex picture_site) ?st"
  have h: "handleClaimAsset Some (\<lambda>_. True) (fst ?r) ?url ?url = Some (''image/png'', [''claims'', ''m'', ''assets'', ''p.png''])"
    by code_simp
  have run: "asset_run 500000000 (\<lambda>_. Some []) (\<lambda>_. picture_site) 0 ?st" by (rule asset_run.start)
  from served_asset [OF run, of 7 8 "fst ?r" "snd ?r", OF _ _ _ _ h]
  have "allowed_asset picture_site ?url [''claims'', ''m'', ''assets'', ''p.png'']" by auto
  then show ?thesis by (simp add: h)
qed

end
