(* ===== verification/Serve_Loop.thy ===== *)
theory Serve_Loop
  imports Asset_Route
begin

text \<open>
  The moving parts of the server: the pipeline that shares renders between requests
  (\<^verbatim>\<open>internal/serve/pipeline.go\<close>), the watcher that turns changes of the tree into notifications
  (\<^verbatim>\<open>internal/serve/watcher.go\<close>), and the admission of requests (\<^verbatim>\<open>internal/serve/middleware.go\<close>). The
  pipeline is a step relation over the calls of requests, the start and the end of a render, and the edits
  of the tree in between, in any order.
\<close>

section \<open>Renders are shared and never stale\<close>

text \<open>
  A batch is a number; \<open>pl_res\<close> holds its result from when its channel is closed. What a render returns
  is the version of the tree it read. \<open>pl_drain\<close> is the state of the goroutine that runs the batches.
\<close>

datatype drain = Idle | Ready nat | Running nat nat

record pipeline =
  pl_inflight :: "nat option"
  pl_queued :: "nat option"
  pl_made :: nat
  pl_res :: "nat \<Rightarrow> nat option"
  pl_runs :: nat
  pl_drain :: drain

definition new_pipeline :: pipeline where
  "new_pipeline = \<lparr>pl_inflight = None, pl_queued = None, pl_made = 0, pl_res = (\<lambda>_. None), pl_runs = 0, pl_drain = Idle\<rparr>"

text \<open>The part of \<^verbatim>\<open>get\<close> under the mutex: the batch the caller waits for.\<close>

definition pl_get :: "pipeline \<Rightarrow> nat \<times> pipeline" where
  "pl_get p =
     (case pl_inflight p of
        None \<Rightarrow> (pl_made p, p\<lparr>pl_inflight := Some (pl_made p), pl_made := pl_made p + 1, pl_drain := Ready (pl_made p)\<rparr>)
      | Some _ \<Rightarrow>
          (case pl_queued p of
             None \<Rightarrow> (pl_made p, p\<lparr>pl_queued := Some (pl_made p), pl_made := pl_made p + 1\<rparr>)
           | Some b \<Rightarrow> (b, p)))"

text \<open>The two halves of the loop of \<^verbatim>\<open>drain\<close>: a render starts, and a render ends and the queue moves up.\<close>

definition drain_start :: "nat \<Rightarrow> pipeline \<Rightarrow> pipeline" where
  "drain_start version p =
     (case pl_drain p of Ready b \<Rightarrow> p\<lparr>pl_runs := pl_runs p + 1, pl_drain := Running b version\<rparr> | _ \<Rightarrow> p)"

definition drain_finish :: "nat \<Rightarrow> pipeline \<Rightarrow> pipeline" where
  "drain_finish result p =
     (case pl_drain p of
        Running b _ \<Rightarrow> p\<lparr>pl_res := (pl_res p)(b := Some result), pl_inflight := pl_queued p, pl_queued := None,
          pl_drain := (case pl_queued p of None \<Rightarrow> Idle | Some q \<Rightarrow> Ready q)\<rparr>
      | _ \<Rightarrow> p)"

text \<open>
  The server: the pipeline, the version of the tree, the callers with the batch they wait for and the
  version at their call, the number of renders that ended, and whether a call came after one.
\<close>

record server =
  sv_pipe :: pipeline
  sv_version :: nat
  sv_calls :: "(nat \<times> nat) list"
  sv_ended :: nat
  sv_late :: bool

inductive serve_step :: "server \<Rightarrow> server \<Rightarrow> bool" where
  edit: "serve_step s (s\<lparr>sv_version := sv_version s + 1\<rparr>)"
| call: "pl_get (sv_pipe s) = (b, p) \<Longrightarrow>
    serve_step s (s\<lparr>sv_pipe := p, sv_calls := (b, sv_version s) # sv_calls s, sv_late := (sv_late s \<or> sv_ended s > 0)\<rparr>)"
| render: "pl_drain (sv_pipe s) = Ready b \<Longrightarrow> serve_step s (s\<lparr>sv_pipe := drain_start (sv_version s) (sv_pipe s)\<rparr>)"
| finish: "pl_drain (sv_pipe s) = Running b v0 \<Longrightarrow> v0 \<le> v \<Longrightarrow> v \<le> sv_version s \<Longrightarrow>
    serve_step s (s\<lparr>sv_pipe := drain_finish v (sv_pipe s), sv_ended := sv_ended s + 1\<rparr>)"

inductive_cases serve_stepE: "serve_step s s'"

inductive served :: "server \<Rightarrow> bool" where
  start: "served \<lparr>sv_pipe = new_pipeline, sv_version = 0, sv_calls = [], sv_ended = 0, sv_late = False\<rparr>"
| step: "served s \<Longrightarrow> serve_step s s' \<Longrightarrow> served s'"

text \<open>Who a batch belongs to, and what its callers may rely on.\<close>

definition drain_ok :: "pipeline \<Rightarrow> bool" where
  "drain_ok p \<longleftrightarrow>
     (case pl_drain p of
        Idle \<Rightarrow> pl_inflight p = None \<and> pl_queued p = None
      | Ready b \<Rightarrow> pl_inflight p = Some b \<and> pl_res p b = None
      | Running b _ \<Rightarrow> pl_inflight p = Some b \<and> pl_res p b = None) \<and>
     (\<forall>b. pl_inflight p = Some b \<longrightarrow> b < pl_made p) \<and>
     (\<forall>q. pl_queued p = Some q \<longrightarrow> q < pl_made p \<and> pl_inflight p \<noteq> Some q \<and> pl_res p q = None) \<and>
     (\<forall>b \<ge> pl_made p. pl_res p b = None)"

definition call_ok :: "pipeline \<Rightarrow> nat \<Rightarrow> nat \<times> nat \<Rightarrow> bool" where
  "call_ok p version x \<longleftrightarrow> snd x \<le> version \<and>
     (case pl_res p (fst x) of
        Some r \<Rightarrow> snd x \<le> r
      | None \<Rightarrow> pl_queued p = Some (fst x) \<or> pl_drain p = Ready (fst x) \<or>
          (\<exists>v0. pl_drain p = Running (fst x) v0 \<and> snd x \<le> v0))"

definition renders_ok :: "server \<Rightarrow> bool" where
  "renders_ok s \<longleftrightarrow> sv_late s \<or>
     pl_runs (sv_pipe s) = sv_ended s + (case pl_drain (sv_pipe s) of Running _ _ \<Rightarrow> 1 | _ \<Rightarrow> 0) \<and>
     (sv_ended s > 0 \<longrightarrow> pl_queued (sv_pipe s) = None) \<and>
     sv_ended s + (if pl_inflight (sv_pipe s) = None then 0 else 1) \<le> 2"

definition server_ok :: "server \<Rightarrow> bool" where
  "server_ok s \<longleftrightarrow> drain_ok (sv_pipe s) \<and> list_all (call_ok (sv_pipe s) (sv_version s)) (sv_calls s) \<and> renders_ok s"

lemma drain_ok_get: "drain_ok p \<Longrightarrow> drain_ok (snd (pl_get p))"
  by (cases "pl_drain p"; cases "pl_queued p") (auto simp: drain_ok_def pl_get_def split: option.split)

lemma drain_ok_start: "drain_ok p \<Longrightarrow> drain_ok (drain_start v p)"
  by (cases "pl_drain p") (auto simp: drain_ok_def drain_start_def)

lemma drain_ok_finish: "drain_ok p \<Longrightarrow> drain_ok (drain_finish v p)"
  by (cases "pl_drain p"; cases "pl_queued p") (auto simp: drain_ok_def drain_finish_def)

lemma call_ok_get: "drain_ok p \<Longrightarrow> call_ok p v x \<Longrightarrow> call_ok (snd (pl_get p)) v x"
  by (cases "pl_drain p"; cases "pl_queued p") (auto simp: drain_ok_def call_ok_def pl_get_def split: option.split)

lemma call_ok_got: "drain_ok p \<Longrightarrow> call_ok (snd (pl_get p)) v (fst (pl_get p), v)"
  by (cases "pl_drain p"; cases "pl_queued p") (auto simp: drain_ok_def call_ok_def pl_get_def split: option.split)

lemma call_ok_start: "drain_ok p \<Longrightarrow> call_ok p v x \<Longrightarrow> call_ok (drain_start v p) v x"
  by (cases "pl_drain p") (auto simp: drain_ok_def call_ok_def drain_start_def split: option.splits)

lemma call_ok_finish:
  assumes "drain_ok p" "call_ok p v x" "pl_drain p = Running b v0" "v0 \<le> r" "r \<le> v"
  shows "call_ok (drain_finish r p) v x"
  using assms by (cases "pl_queued p") (auto simp: drain_ok_def call_ok_def drain_finish_def split: option.splits)

lemma renders_ok_get:
  assumes "drain_ok (sv_pipe s)" "renders_ok s"
  shows "renders_ok (s\<lparr>sv_pipe := snd (pl_get (sv_pipe s)), sv_calls := cs, sv_late := (sv_late s \<or> sv_ended s > 0)\<rparr>)"
  using assms by (cases "pl_drain (sv_pipe s)"; cases "pl_queued (sv_pipe s)")
    (auto simp: drain_ok_def renders_ok_def pl_get_def split: option.split)

lemma renders_ok_finish:
  assumes "drain_ok (sv_pipe s)" "renders_ok s" "pl_drain (sv_pipe s) = Running b v0"
  shows "renders_ok (s\<lparr>sv_pipe := drain_finish v (sv_pipe s), sv_ended := sv_ended s + 1\<rparr>)"
  using assms by (cases "pl_queued (sv_pipe s)") (auto simp: drain_ok_def renders_ok_def drain_finish_def)

lemma server_ok_step:
  assumes "server_ok s" "serve_step s s'"
  shows "server_ok s'"
proof -
  have ok: "drain_ok (sv_pipe s)" "list_all (call_ok (sv_pipe s) (sv_version s)) (sv_calls s)" "renders_ok s"
    using assms(1) by (simp_all add: server_ok_def)
  show ?thesis using assms(2)
  proof cases
    case edit
    with ok show ?thesis by (auto simp: server_ok_def list_all_iff call_ok_def renders_ok_def split: option.splits)
  next
    case (call b p)
    have p: "p = snd (pl_get (sv_pipe s))" "b = fst (pl_get (sv_pipe s))" using call(2) by simp_all
    show ?thesis
      using drain_ok_get [OF ok(1)] call_ok_get [OF ok(1)] call_ok_got [OF ok(1)] renders_ok_get [OF ok(1,3)] ok(2)
      by (simp add: call(1) server_ok_def p list_all_iff)
  next
    case (render b)
    have "renders_ok s'" using ok(3) render by (auto simp: renders_ok_def drain_start_def)
    then show ?thesis using drain_ok_start [OF ok(1)] call_ok_start [OF ok(1)] ok(2)
      by (simp add: render(1) server_ok_def list_all_iff)
  next
    case (finish b v0 v)
    show ?thesis
      using drain_ok_finish [OF ok(1)] call_ok_finish [OF ok(1) _ finish(2-4)] renders_ok_finish [OF ok(1,3) finish(2)] ok(2)
      by (simp add: finish(1) server_ok_def list_all_iff)
  qed
qed

lemma served_ok: "served s \<Longrightarrow> server_ok s"
proof (induction rule: served.induct)
  case start
  show ?case by (simp add: server_ok_def drain_ok_def new_pipeline_def renders_ok_def)
qed (rule server_ok_step)


text \<open>The goroutine left alone: its next step, with the tree at one version.\<close>

definition drive :: "nat \<Rightarrow> pipeline \<Rightarrow> pipeline" where
  "drive version p =
     (case pl_drain p of Idle \<Rightarrow> p | Ready _ \<Rightarrow> drain_start version p | Running _ _ \<Rightarrow> drain_finish version p)"

lemma drive_answers:
  assumes "drain_ok p" "call_ok p version (b, v)" "pl_res p b = None"
  shows "\<exists>r. pl_res ((drive version ^^ 4) p) b = Some r \<and> v \<le> r"
proof -
  have v: "v \<le> version" and b: "pl_queued p = Some b \<or> pl_drain p = Ready b \<or> (\<exists>v0. pl_drain p = Running b v0)"
    using assms(2,3) by (auto simp: call_ok_def)
  have four: "(drive version ^^ 4) p = drive version (drive version (drive version (drive version p)))"
    by (simp add: numeral_eq_Suc)
  show ?thesis
  proof (cases "pl_drain p")
    case Idle
    then show ?thesis using assms(1) b by (auto simp: drain_ok_def)
  next
    case (Ready i)
    then show ?thesis using assms(1) b v unfolding four
      by (cases "pl_queued p") (auto simp: drive_def drain_start_def drain_finish_def drain_ok_def)
  next
    case (Running i w)
    then show ?thesis using assms(1) b v unfolding four
      by (cases "pl_queued p") (auto simp: drive_def drain_start_def drain_finish_def drain_ok_def)
  qed
qed

text \<open>
  C21. In every interleaving of calls, renders and edits, what a caller gets was read from the tree at its
  call or later, never earlier; a caller that still waits is answered within the next two renders, with
  such a result; and any number of calls that all come before the first render ends costs at most two
  renders.
\<close>
theorem renders_fresh:
  assumes "served s" "(b, v) \<in> set (sv_calls s)"
  shows "(case pl_res (sv_pipe s) b of
       Some r \<Rightarrow> v \<le> r
     | None \<Rightarrow> \<exists>r. pl_res ((drive (sv_version s) ^^ 4) (sv_pipe s)) b = Some r \<and> v \<le> r) \<and>
    (\<not> sv_late s \<longrightarrow> pl_runs (sv_pipe s) \<le> 2)"
proof -
  have ok: "drain_ok (sv_pipe s)" "call_ok (sv_pipe s) (sv_version s) (b, v)" "renders_ok s"
    using served_ok [OF assms(1)] assms(2) by (auto simp: server_ok_def list_all_iff)
  have "\<not> sv_late s \<longrightarrow> pl_runs (sv_pipe s) \<le> 2"
    using ok(1,3) by (auto simp: renders_ok_def drain_ok_def split: drain.splits if_splits)
  then show ?thesis using ok(2) drive_answers [OF ok(1,2)] by (auto simp: call_ok_def split: option.split)
qed

definition two_calls :: server where
  "two_calls =
     \<lparr>sv_pipe = \<lparr>pl_inflight = Some 0, pl_queued = Some 1, pl_made = 2, pl_res = (\<lambda>_. None), pl_runs = 1, pl_drain = Running 0 0\<rparr>,
      sv_version = 1, sv_calls = [(1, 1), (0, 0)], sv_ended = 0, sv_late = False\<rparr>"

lemma two_calls_served: "served two_calls"
proof -
  let ?s0 = "\<lparr>sv_pipe = new_pipeline, sv_version = 0, sv_calls = [], sv_ended = 0, sv_late = False\<rparr>"
  let ?p1 = "\<lparr>pl_inflight = Some 0, pl_queued = None, pl_made = 1, pl_res = (\<lambda>_. None), pl_runs = 0, pl_drain = Ready 0\<rparr>"
  let ?s1 = "?s0\<lparr>sv_pipe := ?p1, sv_calls := [(0, 0)]\<rparr>"
  have "serve_step ?s0 ?s1" using serve_step.call [of ?s0 0 ?p1] by (simp add: pl_get_def new_pipeline_def)
  then have "served ?s1" using served.start served.step by blast
  moreover have "serve_step ?s1 (?s1\<lparr>sv_pipe := drain_start 0 ?p1\<rparr>)" using serve_step.render [of ?s1 0] by simp
  ultimately have "served (?s1\<lparr>sv_pipe := drain_start 0 ?p1\<rparr>)" by (rule served.step)
  moreover have "serve_step (?s1\<lparr>sv_pipe := drain_start 0 ?p1\<rparr>) (?s1\<lparr>sv_pipe := drain_start 0 ?p1, sv_version := 1\<rparr>)"
    using serve_step.edit [of "?s1\<lparr>sv_pipe := drain_start 0 ?p1\<rparr>"] by simp
  ultimately have "served (?s1\<lparr>sv_pipe := drain_start 0 ?p1, sv_version := 1\<rparr>)" by (rule served.step)
  moreover have "serve_step (?s1\<lparr>sv_pipe := drain_start 0 ?p1, sv_version := 1\<rparr>) two_calls"
    using serve_step.call [of "?s1\<lparr>sv_pipe := drain_start 0 ?p1, sv_version := 1\<rparr>" 1 "sv_pipe two_calls"]
    by (simp add: pl_get_def drain_start_def two_calls_def)
  ultimately show ?thesis by (rule served.step)
qed

theorem renders_fresh_witness:
  "(1, 1) \<in> set (sv_calls two_calls) \<and> (\<exists>r. pl_res ((drive 1 ^^ 4) (sv_pipe two_calls)) 1 = Some r \<and> 1 \<le> r)"
proof -
  have "(1, 1) \<in> set (sv_calls two_calls)" "pl_res (sv_pipe two_calls) 1 = None" "sv_version two_calls = 1" by (simp_all add: two_calls_def)
  with renders_fresh [OF two_calls_served, of 1 1] show ?thesis by simp
qed

section \<open>No change is lost\<close>

text \<open>
  The state of the loop, with the fingerprint of the last notification, or of the start. A tick comes with
  the scan of the tree; the timer of the quiet time fires when it is armed.
\<close>

record watch =
  wa_prev :: "(int \<times> int) gomap"
  wa_armed :: bool
  wa_told :: "(int \<times> int) gomap"
  wa_fired :: nat

definition watch_tick :: "(int \<times> int) gomap option \<Rightarrow> watch \<Rightarrow> watch" where
  "watch_tick scan w =
     (case scan of
        None \<Rightarrow> w
      | Some cur \<Rightarrow> if \<not> fingerprintsEqual (wa_prev w) cur then w\<lparr>wa_prev := cur, wa_armed := True\<rparr> else w)"

definition watch_fire :: "watch \<Rightarrow> watch" where
  "watch_fire w = (if wa_armed w then w\<lparr>wa_armed := False, wa_told := wa_prev w, wa_fired := wa_fired w + 1\<rparr> else w)"

datatype watch_event = Tick "(int \<times> int) gomap option" | Fire

fun watch_run :: "watch_event list \<Rightarrow> watch \<Rightarrow> watch" where
  "watch_run [] w = w"
| "watch_run (Tick scan # es) w = watch_run es (watch_tick scan w)"
| "watch_run (Fire # es) w = watch_run es (watch_fire w)"

lemma fingerprintsEqual_iff:
  assumes "gm_wf a" "gm_wf b"
  shows "fingerprintsEqual a b \<longleftrightarrow> (\<forall>p. gm_get a p = gm_get b p)"
proof
  assume eq: "fingerprintsEqual a b"
  have len: "length a = length b" and all: "\<And>p x. (p, x) \<in> set a \<Longrightarrow> gm_get b p = Some x"
    using eq by (auto simp: fingerprintsEqual_def list_all_iff split: option.splits)
  have sub: "dom (map_of a) \<subseteq> dom (map_of b)" using all by (force dest: map_of_SomeD)
  have "card (dom (map_of a)) = length a" "card (dom (map_of b)) = length b"
    using distinct_card [OF assms(1)] distinct_card [OF assms(2)] by (simp_all add: dom_map_of_conv_image_fst)
  then have keys: "dom (map_of a) = dom (map_of b)" using sub len by (intro card_subset_eq) (simp_all add: finite_dom_map_of)
  show "\<forall>p. gm_get a p = gm_get b p"
  proof
    fix p
    show "gm_get a p = gm_get b p"
    proof (cases "map_of a p")
      case None
      then have "p \<notin> dom (map_of b)" unfolding keys [symmetric] by (simp only: domIff not_not)
      then show ?thesis using None by (simp only: domIff not_not)
    next
      case (Some x)
      then show ?thesis using all [of p x] map_of_SomeD [OF Some] by simp
    qed
  qed
next
  assume eq: "\<forall>p. gm_get a p = gm_get b p"
  then have same: "map_of a = map_of b" by (simp add: fun_eq_iff)
  have "card (dom (map_of a)) = length a" "card (dom (map_of b)) = length b"
    using distinct_card [OF assms(1)] distinct_card [OF assms(2)] by (simp_all add: dom_map_of_conv_image_fst)
  then have "length a = length b" using same by simp
  moreover have "map_of b p = Some x" if "(p, x) \<in> set a" for p x
    using map_of_is_SomeI [OF assms(1) that] same by simp
  ultimately show "fingerprintsEqual a b" by (auto simp: fingerprintsEqual_def list_all_iff)
qed

lemma watch_told:
  assumes "wa_armed w \<or> wa_told w = wa_prev w"
  shows "wa_armed (watch_run es w) \<or> wa_told (watch_run es w) = wa_prev (watch_run es w)"
  using assms
proof (induction es w rule: watch_run.induct)
  case (2 scan es w)
  then show ?case by (auto simp: watch_tick_def split: option.splits)
next
  case (3 es w)
  then show ?case by (auto simp: watch_fire_def)
qed simp

lemma watch_run_append: "watch_run (es @ fs) w = watch_run fs (watch_run es w)"
  by (induction es w rule: watch_run.induct) simp_all

lemma watch_run_unread:
  assumes "\<forall>e\<in>set es. e = Fire \<or> e = Tick None"
  shows "wa_prev (watch_run es w) = wa_prev w"
  using assms by (induction es w rule: watch_run.induct) (auto simp: watch_tick_def watch_fire_def)

lemma watch_run_wf:
  assumes "gm_wf (wa_prev w)" "\<And>m. Tick (Some m) \<in> set es \<Longrightarrow> gm_wf m"
  shows "gm_wf (wa_prev (watch_run es w))"
  using assms
proof (induction es w rule: watch_run.induct)
  case (2 scan es w)
  then show ?case by (cases scan) (auto simp: watch_tick_def)
next
  case (3 es w)
  then show ?case by (auto simp: watch_fire_def)
qed simp

lemma watch_tick_sees:
  assumes "gm_wf (wa_prev w)" "gm_wf cur"
  shows "gm_get (wa_prev (watch_tick (Some cur) w)) p = gm_get cur p"
  using fingerprintsEqual_iff [OF assms] by (simp add: watch_tick_def)

text \<open>
  However scans, failed scans and timers interleave, when the timer of the quiet time next fires, the
  watcher has told its listener of exactly the files, sizes and times of the last scan that could be read,
  with no change before it lost.
\<close>
theorem watch_told_latest:
  assumes "\<not> wa_armed w" "wa_told w = wa_prev w" "gm_wf (wa_prev w)"
    and "\<And>m. Tick (Some m) \<in> set (es @ Tick (Some cur) # fs) \<Longrightarrow> gm_wf m"
    and "\<forall>e\<in>set fs. e = Fire \<or> e = Tick None"
  shows "gm_get (wa_told (watch_fire (watch_run (es @ Tick (Some cur) # fs) w))) p = gm_get cur p"
proof -
  let ?w = "watch_run (es @ Tick (Some cur) # fs) w"
  have "gm_wf (wa_prev (watch_run es w))" using assms(3,4) by (intro watch_run_wf) auto
  then have "gm_get (wa_prev ?w) p = gm_get cur p"
    using watch_run_unread [OF assms(5)] watch_tick_sees assms(4) by (simp add: watch_run_append)
  moreover have "wa_told (watch_fire ?w) = wa_prev ?w"
    using watch_told [of w "es @ Tick (Some cur) # fs"] assms(2) by (auto simp: watch_fire_def)
  ultimately show ?thesis by simp
qed

theorem watch_told_latest_witness:
  "gm_get (wa_told (watch_fire (watch_run ([Tick (Some [(''a'', (1, 2))])] @ Tick (Some [(''a'', (1, 3))]) # [Tick None])
     \<lparr>wa_prev = [], wa_armed = False, wa_told = [], wa_fired = 0\<rparr>))) ''a'' = Some (1, 3)"
  by (subst watch_told_latest) auto

section \<open>Admission\<close>

text \<open>\<^verbatim>\<open>net.SplitHostPort\<close>: the parts around the last colon, with the brackets of an IPv6 host taken off.\<close>

definition index_byte :: "char \<Rightarrow> string \<Rightarrow> nat option" where
  "index_byte c s = (if c \<in> set s then Some (length (takeWhile (\<lambda>d. d \<noteq> c) s)) else None)"

definition last_index_byte :: "char \<Rightarrow> string \<Rightarrow> nat option" where
  "last_index_byte c s = (if c \<in> set s then Some (length s - 1 - length (takeWhile (\<lambda>d. d \<noteq> c) (rev s))) else None)"

definition SplitHostPort :: "string \<Rightarrow> (string \<times> string) option" where
  "SplitHostPort hostport =
     (case last_index_byte (CHR '':'') hostport of
        None \<Rightarrow> None
      | Some i \<Rightarrow>
          let brackets = (\<lambda>host j k. if CHR ''['' \<in> set (drop j hostport) \<or> CHR '']'' \<in> set (drop k hostport) then None
                                   else Some (host, drop (i + 1) hostport))
          in if hd hostport = CHR ''['' then
               (case index_byte (CHR '']'') hostport of
                  None \<Rightarrow> None
                | Some e \<Rightarrow> if e + 1 \<noteq> i then None else brackets (take (e - 1) (drop 1 hostport)) 1 (e + 1))
             else if CHR '':'' \<in> set (take i hostport) then None
             else brackets (take i hostport) 0 0)"

record request =
  rq_Method :: string
  rq_Host :: string
  rq_SecFetchSite :: string
  rq_Origin :: string
  rq_ContentType :: string

datatype admission = Admitted | Misdirected | Forbidden | UnsupportedMedia

definition isMutating :: "string \<Rightarrow> bool" where
  "isMutating method \<longleftrightarrow> method = ''POST'' \<or> method = ''PATCH'' \<or> method = ''DELETE''"

definition hostAllowed :: "nat \<Rightarrow> string \<Rightarrow> bool" where
  "hostAllowed port host \<longleftrightarrow>
     (case SplitHostPort host of
        None \<Rightarrow> False
      | Some (h, p) \<Rightarrow> if p \<noteq> itoa port then False else h = ''127.0.0.1'' \<or> h = ''localhost'')"

definition originAllowed :: "nat \<Rightarrow> string \<Rightarrow> bool" where
  "originAllowed port origin \<longleftrightarrow>
     origin = ''http://127.0.0.1:'' @ itoa port \<or> origin = ''http://localhost:'' @ itoa port"

text \<open>\<open>media\<close> is \<^verbatim>\<open>mime.ParseMediaType\<close>: the media type, or nothing where it returns an error.\<close>

definition isJSONContentType :: "(string \<Rightarrow> string option) \<Rightarrow> string \<Rightarrow> bool" where
  "isJSONContentType media ct \<longleftrightarrow> media ct = Some ''application/json''"

definition admit :: "(string \<Rightarrow> string option) \<Rightarrow> nat \<Rightarrow> request \<Rightarrow> admission" where
  "admit media port r =
     (if \<not> hostAllowed port (rq_Host r) then Misdirected
      else if rq_SecFetchSite r \<noteq> [] \<and> rq_SecFetchSite r \<noteq> ''same-origin'' \<and> rq_SecFetchSite r \<noteq> ''none'' then Forbidden
      else if isMutating (rq_Method r) then
        if \<not> originAllowed port (rq_Origin r) then Forbidden
        else if (rq_Method r = ''POST'' \<or> rq_Method r = ''PATCH'') \<and> \<not> isJSONContentType media (rq_ContentType r)
          then UnsupportedMedia
        else Admitted
      else Admitted)"

lemma last_index_byte_append: "c \<notin> set b \<Longrightarrow> last_index_byte c (a @ c # b) = Some (length a)"
proof -
  assume "c \<notin> set b"
  then have "takeWhile (\<lambda>d. d \<noteq> c) (rev (a @ c # b)) = rev b" by (simp add: takeWhile_append)
  then show ?thesis by (simp add: last_index_byte_def)
qed

lemma index_byte_append: "c \<notin> set a \<Longrightarrow> index_byte c (a @ c # b) = Some (length a)"
  by (auto simp: index_byte_def takeWhile_append)

lemma SplitHostPort_SomeD:
  assumes "SplitHostPort s = Some (h, p)"
  shows "s = h @ '':'' @ p \<or> s = ''['' @ h @ '']:'' @ p"
proof -
  have "CHR '':'' \<in> set s" using assms by (simp add: SplitHostPort_def last_index_byte_def split: if_splits)
  then obtain a b where s: "s = a @ CHR '':'' # b" and b: "CHR '':'' \<notin> set b" using split_list_last by metis
  have i: "last_index_byte (CHR '':'') s = Some (length a)" using last_index_byte_append [OF b] s by simp
  show ?thesis
  proof (cases "hd s = CHR ''[''")
    case False
    then show ?thesis using assms i s by (simp add: SplitHostPort_def Let_def split: if_splits)
  next
    case True
    then have br: "CHR '']'' \<in> set s" using assms i by (simp add: SplitHostPort_def index_byte_def split: if_splits)
    then obtain x y where x: "s = x @ CHR '']'' # y" "CHR '']'' \<notin> set x" using split_list_first by metis
    have e: "index_byte (CHR '']'') s = Some (length x)" using index_byte_append [OF x(2)] x(1) by simp
    obtain z where z: "x = CHR ''['' # z" using True x(1) by (cases x) auto
    have len: "length x + 1 = length a" and hp: "take (length x - 1) (drop 1 s) = h" "drop (length a + 1) s = p"
      using assms i e True by (simp_all add: SplitHostPort_def Let_def split: if_splits)
    have "a @ CHR '':'' # b = (x @ [CHR '']'']) @ y" using s x(1) by simp
    then have "a = x @ [CHR '']'']" using len by (metis append_eq_append_conv length_append_singleton Suc_eq_plus1 append_eq_conv_conj)
    moreover have "h = z" using hp(1) x(1) z by simp
    moreover have "p = b" using hp(2) s by simp
    ultimately show ?thesis using s z by simp
  qed
qed

definition plain_part :: "string \<Rightarrow> bool" where
  "plain_part s \<longleftrightarrow> set s \<inter> {CHR '':'', CHR ''['', CHR '']''} = {}"

lemma SplitHostPort_plain:
  assumes "plain_part h" "plain_part p"
  shows "SplitHostPort (h @ '':'' @ p) = Some (h, p)"
proof -
  have i: "last_index_byte (CHR '':'') (h @ CHR '':'' # p) = Some (length h)"
    using assms(2) by (intro last_index_byte_append) (simp add: plain_part_def)
  have "hd (h @ CHR '':'' # p) \<noteq> CHR ''[''" using assms(1) by (cases h) (auto simp: plain_part_def)
  then show ?thesis using i assms by (simp add: SplitHostPort_def plain_part_def)
qed

lemma SplitHostPort_bracketed:
  assumes "plain_part h" "plain_part p"
  shows "SplitHostPort (''['' @ h @ '']:'' @ p) = Some (h, p)"
proof -
  let ?s = "(''['' @ h @ '']'') @ CHR '':'' # p"
  have i: "last_index_byte (CHR '':'') ?s = Some (length h + 2)"
    using assms(2) last_index_byte_append [of "CHR '':''" p "''['' @ h @ '']''"] by (simp add: plain_part_def)
  have e: "index_byte (CHR '']'') ?s = Some (length h + 1)"
    using assms(1) index_byte_append [of "CHR '']''" "''['' @ h" "CHR '':'' # p"] by (simp add: plain_part_def)
  have "SplitHostPort ?s = Some (h, p)"
    using i e assms by (simp add: SplitHostPort_def plain_part_def)
  then show ?thesis by simp
qed

lemma plain_itoa: "plain_part (itoa n)"
  by (auto simp: plain_part_def is_digit_def dest: itoa_digits)

lemma hostAllowed_iff:
  "hostAllowed port host \<longleftrightarrow>
     (\<exists>h. (h = ''127.0.0.1'' \<or> h = ''localhost'') \<and>
        (host = h @ '':'' @ itoa port \<or> host = ''['' @ h @ '']:'' @ itoa port))" (is "_ \<longleftrightarrow> ?r")
proof
  assume "hostAllowed port host"
  then obtain h where "SplitHostPort host = Some (h, itoa port)" "h = ''127.0.0.1'' \<or> h = ''localhost''"
    by (auto simp: hostAllowed_def split: option.splits if_splits)
  then show ?r by (intro exI [of _ h] conjI SplitHostPort_SomeD)
next
  assume ?r
  then obtain h where h: "h = ''127.0.0.1'' \<or> h = ''localhost''"
    "host = h @ '':'' @ itoa port \<or> host = ''['' @ h @ '']:'' @ itoa port" by (elim exE conjE) (rule that)
  have "plain_part ''127.0.0.1''" "plain_part ''localhost''" by (simp_all add: plain_part_def)
  then have "plain_part h" using h(1) by (elim disjE) simp_all
  then have "SplitHostPort host = Some (h, itoa port)"
    using h(2) SplitHostPort_plain [OF _ plain_itoa] SplitHostPort_bracketed [OF _ plain_itoa] by (elim disjE) simp_all
  then show "hostAllowed port host" using h(1) by (simp only: hostAllowed_def option.case prod.case if_False simp_thms)
qed

lemma either_of: "(\<exists>h. (h = a \<or> h = b) \<and> P h) \<longleftrightarrow> P a \<or> P b"
  by blast

text \<open>
  C22. A request passes exactly when its host is the loopback address or \<^verbatim>\<open>localhost\<close> on the server's own
  port, no browser marked it as coming from another site, a write comes from a page of this very server,
  and a \<^verbatim>\<open>POST\<close> or \<^verbatim>\<open>PATCH\<close> carries JSON: a page that rebinds its name, an absent or null origin and a
  plain form are all turned away.
\<close>
theorem admitted_iff:
  "admit media port r = Admitted \<longleftrightarrow>
     (\<exists>h. (h = ''127.0.0.1'' \<or> h = ''localhost'') \<and>
        (rq_Host r = h @ '':'' @ itoa port \<or> rq_Host r = ''['' @ h @ '']:'' @ itoa port)) \<and>
     rq_SecFetchSite r \<in> {[], ''same-origin'', ''none''} \<and>
     (rq_Method r \<in> {''POST'', ''PATCH'', ''DELETE''} \<longrightarrow>
        (\<exists>h. (h = ''127.0.0.1'' \<or> h = ''localhost'') \<and> rq_Origin r = ''http://'' @ h @ '':'' @ itoa port)) \<and>
     (rq_Method r \<in> {''POST'', ''PATCH''} \<longrightarrow> media (rq_ContentType r) = Some ''application/json'')"
proof -
  have origin: "originAllowed port (rq_Origin r) \<longleftrightarrow>
      (\<exists>h. (h = ''127.0.0.1'' \<or> h = ''localhost'') \<and> rq_Origin r = ''http://'' @ h @ '':'' @ itoa port)"
    unfolding originAllowed_def either_of by (simp only: append.simps)
  show ?thesis
    unfolding hostAllowed_iff [symmetric] origin [symmetric] admit_def isMutating_def isJSONContentType_def
    by (simp only: insert_iff empty_iff simp_thms admission.distinct split: if_split) argo
qed

definition form_post :: request where
  "form_post =
     \<lparr>rq_Method = ''POST'', rq_Host = ''localhost:42'', rq_SecFetchSite = [], rq_Origin = ''null'',
      rq_ContentType = ''text/plain''\<rparr>"

theorem admitted_iff_witness:
  "admit (\<lambda>ct. Some ct) 42 form_post \<noteq> Admitted \<and>
   admit (\<lambda>ct. Some ct) 42 (form_post\<lparr>rq_Origin := ''http://localhost:42'', rq_ContentType := ''application/json''\<rparr>) = Admitted"
proof -
  have port: "itoa 42 = ''42''" by code_simp
  have "admit (\<lambda>ct. Some ct) 42 form_post \<noteq> Admitted"
    unfolding admitted_iff port either_of form_post_def by simp
  moreover have "admit (\<lambda>ct. Some ct) 42 (form_post\<lparr>rq_Origin := ''http://localhost:42'', rq_ContentType := ''application/json''\<rparr>) = Admitted"
    unfolding admitted_iff port either_of form_post_def by simp
  ultimately show ?thesis by (rule conjI)
qed

end
