(* ===== verification/Brief_Tree.thy ===== *)
theory Brief_Tree
  imports Url_Gates Claim_Decode Digest_Store Lock_Audit
begin

text \<open>
  Briefs (\<^verbatim>\<open>internal/briefs\<close>: \<^verbatim>\<open>briefs.go\<close>, \<^verbatim>\<open>frontmatter.go\<close>, \<^verbatim>\<open>rules.go\<close>): the tree of brief files and
  their images, the strict reading of the block that opens a brief, the hash a lock signs, and the rules of
  the tree. A finding is its rule and the path it is about; what YAML and the markdown passes make of a text is an
  argument, and so is SHA-256.
\<close>

section \<open>Line endings and digests\<close>

fun normalizeLineEndings :: "string \<Rightarrow> string" where
  "normalizeLineEndings (a # b # s) =
     (if a = CHR 0x0D \<and> b = CHR 0x0A then CHR 0x0A # normalizeLineEndings s else a # normalizeLineEndings (b # s))"
| "normalizeLineEndings s = s"

text \<open>\<^verbatim>\<open>crlfWriter\<close>: whether a carriage return is held, and what was written through; one byte, one chunk, the end.\<close>

definition crlf_byte :: "char \<Rightarrow> bool \<times> string \<Rightarrow> bool \<times> string" where
  "crlf_byte b st =
     (let out = (if fst st \<and> b \<noteq> CHR 0x0A then snd st @ [CHR 0x0D] else snd st);
          cr = (b = CHR 0x0D)
      in (cr, if cr then out else out @ [b]))"

definition crlf_write :: "string \<Rightarrow> bool \<times> string \<Rightarrow> bool \<times> string" where
  "crlf_write p st = fold crlf_byte p st"

definition crlf_flush :: "bool \<times> string \<Rightarrow> string" where
  "crlf_flush st = (if fst st then snd st @ [CHR 0x0D] else snd st)"

definition name_of :: "string \<Rightarrow> string" where
  "name_of rel = last (split_on (CHR ''/'') rel)"

definition textImage :: "string \<Rightarrow> bool" where
  "textImage rel \<longleftrightarrow> path_Ext (name_of rel) = ''.svg''"

text \<open>The digest of an image as \<^verbatim>\<open>Load\<close> takes it from the stream of the file.\<close>

definition fileDigest :: "(string \<Rightarrow> string) \<Rightarrow> string list \<Rightarrow> bool \<Rightarrow> string \<times> nat" where
  "fileDigest sha chunks is_text =
     (let bytes = (if is_text then crlf_flush (fold crlf_write chunks (False, [])) else concat chunks)
      in (hex_encode (sha bytes), length bytes))"

section \<open>Briefs\<close>

record brief_image =
  im_Name :: string
  im_Bytes :: nat
  im_Present :: bool
  im_Digest :: string
  im_ContentBytes :: nat

record brief =
  bf_ID :: string
  bf_Path :: string
  bf_Folder :: string
  bf_Slug :: string
  bf_Title :: string
  bf_Summary :: string
  bf_Status :: string
  bf_RestsOn :: "string list"
  bf_Content :: string
  bf_Body :: string
  bf_Digest :: string
  bf_Comments :: "comment list"
  bf_LockHash :: string
  bf_Words :: nat
  bf_Images :: "brief_image list"

record brief_caps =
  bc_Words :: nat
  bc_Images :: nat
  bc_ImageBytes :: nat
  bc_PerFolder :: nat
  bc_Total :: nat

record brief_file =
  fl_Rel :: string
  fl_Size :: nat
  fl_Regular :: bool
  fl_Data :: "string option"
  fl_Digest :: string
  fl_ContentSize :: nat

record brief_set =
  bs_DisplayDir :: string
  bs_Briefs :: "brief list"
  bs_Folders :: "(string \<times> nat) list"
  bs_Caps :: brief_caps
  bs_findings :: "audit_finding list"

text \<open>
  The passes a brief is read with: YAML (\<open>None\<close> where it fails, no node for an empty block), the strict decoder of comment
  threads, and the markdown passes over a body.
\<close>

record brief_reader =
  rd_sha :: "string \<Rightarrow> string"
  rd_yaml :: "string \<Rightarrow> ynode option option"
  rd_threads :: "ynode \<Rightarrow> comment list option"
  rd_title :: "string \<Rightarrow> string option"
  rd_words :: "string \<Rightarrow> nat"
  rd_images :: "string \<Rightarrow> string list"
  rd_refused :: "string \<Rightarrow> string list"

definition briefExt :: string where
  "briefExt = ''.md''"

definition lock_input :: "string \<Rightarrow> string list \<Rightarrow> string \<Rightarrow> string" where
  "lock_input summary restsOn body =
     ''dossierx-brief-lock/v1'' @ nl # ''summary='' @ itoa (length summary) @ CHR '':'' # summary @ nl #
     ''rests_on='' @ itoa (length restsOn) @ nl #
     concat (map (\<lambda>i. ''id='' @ itoa (length i) @ CHR '':'' # i @ [nl]) (sort restsOn)) @
     ''body='' @ itoa (length body) @ CHR '':'' # body @ [nl]"

definition BriefLockHash :: "(string \<Rightarrow> string) \<Rightarrow> string \<Rightarrow> string list \<Rightarrow> string \<Rightarrow> string" where
  "BriefLockHash sha summary restsOn body = hex_encode (sha (lock_input summary restsOn body))"

definition OpenThreads :: "brief \<Rightarrow> nat" where
  "OpenThreads b = length (filter (\<lambda>c. cm_Status c = CommentStatusOpen) (bf_Comments b))"

definition ImageDigests :: "brief \<Rightarrow> string gomap" where
  "ImageDigests b = fold (\<lambda>im m. if im_Present im then gm_put (im_Name im) (im_Digest im) m else m) (bf_Images b) []"

definition Lookup :: "brief_set \<Rightarrow> string \<Rightarrow> brief option" where
  "Lookup S arg =
     (let want = (if has_prefix arg ''./'' then drop 2 arg else arg)
      in find (\<lambda>b. bf_ID b = want \<or> bf_Path b = want) (bs_Briefs S))"

section \<open>The block that opens a brief\<close>

record frontmatter =
  fm_summary :: string
  fm_status :: string
  fm_restsOn :: "string list"
  fm_comments :: "comment list"

datatype fm_problem =
    NoFence | NotClosed | NotYAML | NotMapping
  | KeyNotName | UnknownField string | SetTwice string
  | SummaryNotText | SummaryMissing | SummaryBlank | SummaryLines | SummaryLong
  | BadStatus | RestsNotList | RestsNoID | RestsTwice string
  | CommentsNotList | CommentsUnread | ThreadStatus nat | ThreadAuthor nat

definition zero_frontmatter :: frontmatter where
  "zero_frontmatter = \<lparr>fm_summary = [], fm_status = [], fm_restsOn = [], fm_comments = []\<rparr>"

definition MaxSummaryChars :: nat where
  "MaxSummaryChars = 200"

definition frontmatterFields :: "string list" where
  "frontmatterFields = [''summary'', ''status'', ''rests_on'', ''comments'']"

definition isFrontmatterField :: "string \<Rightarrow> bool" where
  "isFrontmatterField name \<longleftrightarrow> name \<in> set frontmatterFields"

definition stringScalar :: "ynode \<Rightarrow> string option" where
  "stringScalar n = (if yn_Kind n \<noteq> ScalarNode \<or> yn_Tag n \<noteq> ''!!str'' then None else Some (yn_Value n))"

fun rests_on_items :: "ynode list \<Rightarrow> string list \<Rightarrow> fm_problem list \<Rightarrow> string list \<times> fm_problem list" where
  "rests_on_items [] ids ps = (ids, ps)"
| "rests_on_items (item # items) ids ps =
     (case stringScalar item of
        None \<Rightarrow> rests_on_items items ids (ps @ [RestsNoID])
      | Some i \<Rightarrow>
          if blank i then rests_on_items items ids (ps @ [RestsNoID])
          else if i \<in> set ids then rests_on_items items ids (ps @ [RestsTwice i])
          else rests_on_items items (ids @ [i]) ps)"

definition restsOnList :: "ynode \<Rightarrow> string list \<times> fm_problem list" where
  "restsOnList n =
     (if yn_Kind n = ScalarNode \<and> yn_Tag n = ''!!null'' then ([], [])
      else if yn_Kind n \<noteq> SequenceNode then ([], [RestsNotList])
      else rests_on_items (yn_Content n) [] [])"

definition thread_problems :: "nat \<times> comment \<Rightarrow> fm_problem list" where
  "thread_problems x =
     (case x of (i, t) \<Rightarrow>
       (if cm_Status t \<noteq> CommentStatusOpen \<and> cm_Status t \<noteq> CommentStatusResolved then [ThreadStatus (i + 1)] else []) @
       (if cm_Author t \<noteq> CommentRoleHuman \<and> cm_Author t \<noteq> CommentRoleAgent then [ThreadAuthor (i + 1)] else []))"

definition commentThreads :: "(ynode \<Rightarrow> comment list option) \<Rightarrow> ynode \<Rightarrow> comment list \<times> fm_problem list" where
  "commentThreads decode n =
     (if yn_Kind n = ScalarNode \<and> yn_Tag n = ''!!null'' then ([], [])
      else if yn_Kind n \<noteq> SequenceNode then ([], [CommentsNotList])
      else
        (case decode n of
           None \<Rightarrow> ([], [CommentsUnread])
         | Some threads \<Rightarrow> (threads, concat (map thread_problems (enumerate 0 threads)))))"

text \<open>The loop over the keys: what was read, the keys seen, whether the summary was refused, and the problems.\<close>

fun fm_keys ::
  "(ynode \<Rightarrow> comment list option) \<Rightarrow> (ynode \<times> ynode) list \<Rightarrow> frontmatter \<Rightarrow> string list \<Rightarrow> bool \<Rightarrow> fm_problem list \<Rightarrow>
   frontmatter \<times> string list \<times> bool \<times> fm_problem list" where
  "fm_keys dec [] fm seen refused ps = (fm, seen, refused, ps)"
| "fm_keys dec ((key, value) # kvs) fm seen refused ps =
     (if yn_Kind key \<noteq> ScalarNode \<or> yn_Tag key \<noteq> ''!!str'' then fm_keys dec kvs fm seen refused (ps @ [KeyNotName])
      else if \<not> isFrontmatterField (yn_Value key) then fm_keys dec kvs fm seen refused (ps @ [UnknownField (yn_Value key)])
      else if yn_Value key \<in> set seen then fm_keys dec kvs fm seen refused (ps @ [SetTwice (yn_Value key)])
      else
        let seen1 = yn_Value key # seen in
        if yn_Value key = ''summary'' then
          (case stringScalar value of
             None \<Rightarrow> fm_keys dec kvs fm seen1 True (ps @ [SummaryNotText])
           | Some s \<Rightarrow> fm_keys dec kvs (fm\<lparr>fm_summary := s\<rparr>) seen1 refused ps)
        else if yn_Value key = ''status'' then
          (case stringScalar value of
             None \<Rightarrow> fm_keys dec kvs fm seen1 refused (ps @ [BadStatus])
           | Some s \<Rightarrow>
               if s \<noteq> StatusDraft \<and> s \<noteq> StatusLocked then fm_keys dec kvs fm seen1 refused (ps @ [BadStatus])
               else fm_keys dec kvs (fm\<lparr>fm_status := s\<rparr>) seen1 refused ps)
        else if yn_Value key = ''rests_on'' then
          (case restsOnList value of
             (ids, p) \<Rightarrow> fm_keys dec kvs (fm\<lparr>fm_restsOn := ids\<rparr>) seen1 refused (ps @ p))
        else
          (case commentThreads dec value of
             (threads, p) \<Rightarrow> fm_keys dec kvs (fm\<lparr>fm_comments := threads\<rparr>) seen1 refused (ps @ p)))"

definition summary_problems :: "bool \<Rightarrow> string list \<Rightarrow> string \<Rightarrow> fm_problem list" where
  "summary_problems refused seen s =
     (if refused then []
      else if ''summary'' \<notin> set seen then [SummaryMissing]
      else if blank s then [SummaryBlank]
      else if CHR 0x0A \<in> set s \<or> CHR 0x0D \<in> set s then [SummaryLines]
      else if rune_count s > MaxSummaryChars then [SummaryLong]
      else [])"

text \<open>\<^verbatim>\<open>strings.SplitAfter\<close> at the line feeds; a fence is the line of three dashes, with its line feed or without.\<close>

definition split_after :: "string \<Rightarrow> string list" where
  "split_after s = (let ps = split_on nl s in map (\<lambda>p. p @ [nl]) (butlast ps) @ [last ps])"

definition fence :: "string \<Rightarrow> bool" where
  "fence line \<longleftrightarrow> line = ''---'' \<or> line = ''---'' @ [nl]"

definition parseFrontmatter :: "brief_reader \<Rightarrow> string \<Rightarrow> frontmatter \<times> string \<times> fm_problem list" where
  "parseFrontmatter R content =
     (let lines = split_after content in
      if \<not> fence (hd lines) then (zero_frontmatter, content, [NoFence])
      else if \<not> list_ex fence (tl lines) then (zero_frontmatter, content, [NotClosed])
      else
        let block = concat (takeWhile (\<lambda>l. \<not> fence l) (tl lines));
            body = concat (tl (dropWhile (\<lambda>l. \<not> fence l) (tl lines)))
        in (case rd_yaml R block of
              None \<Rightarrow> (zero_frontmatter, body, [NotYAML])
            | Some doc \<Rightarrow>
                let root = (case doc of Some n \<Rightarrow> if yn_Kind n \<noteq> MappingNode \<and> yn_Tag n = ''!!null'' then None else Some n
                            | None \<Rightarrow> None)
                in if (case root of Some n \<Rightarrow> yn_Kind n \<noteq> MappingNode | None \<Rightarrow> False)
                   then (zero_frontmatter, body, [NotMapping])
                   else
                     (case fm_keys (rd_threads R) (case root of Some n \<Rightarrow> node_pairs (yn_Content n) | None \<Rightarrow> [])
                          zero_frontmatter [] False [] of
                        (fm, seen, refused, ps) \<Rightarrow> (fm, body, ps @ summary_problems refused seen (fm_summary fm)))))"

section \<open>Rules\<close>

definition RuleShape :: string where
  "RuleShape = ''brief-shape''"

definition RuleFrontmatter :: string where
  "RuleFrontmatter = ''brief-frontmatter''"

definition RuleWordCap :: string where
  "RuleWordCap = ''brief-word-cap''"

definition RuleImageCap :: string where
  "RuleImageCap = ''brief-image-cap''"

definition RuleFolderCap :: string where
  "RuleFolderCap = ''brief-folder-cap''"

definition RuleTotalCap :: string where
  "RuleTotalCap = ''brief-total-cap''"

definition RuleRestsOnUnknown :: string where
  "RuleRestsOnUnknown = ''brief-rests-on-unknown''"

definition RuleRestsOnDuplicate :: string where
  "RuleRestsOnDuplicate = ''brief-rests-on-duplicate''"

definition RuleRestsOnMissing :: string where
  "RuleRestsOnMissing = ''brief-rests-on-missing''"

definition RuleDependencyDrift :: string where
  "RuleDependencyDrift = ''brief-dependency-drift''"

text \<open>The rules in the order of a report, with whether a finding is an error.\<close>

definition Rules :: "(string \<times> bool) list" where
  "Rules =
     [(RuleShape, True), (RuleFrontmatter, True), (RuleWordCap, True), (RuleImageCap, True), (RuleFolderCap, True),
      (RuleTotalCap, True), (RuleRestsOnUnknown, True), (RuleRestsOnDuplicate, False), (RuleRestsOnMissing, True),
      (RuleDependencyDrift, False)]"

definition severityError :: "string \<Rightarrow> bool" where
  "severityError rule = (case map_of Rules rule of None \<Rightarrow> True | Some e \<Rightarrow> e)"

definition ruleOrder :: "string \<Rightarrow> nat" where
  "ruleOrder rule = length (takeWhile (\<lambda>r. fst r \<noteq> rule) Rules)"

definition sortFindings :: "audit_finding list \<Rightarrow> audit_finding list" where
  "sortFindings = sort_key (\<lambda>f. (ruleOrder (fd_Rule f), fd_ClaimID f))"

section \<open>The tree\<close>

text \<open>\<^verbatim>\<open>path.Join\<close> of the clean directory and a clean path below it.\<close>

definition path_join :: "string \<Rightarrow> string \<Rightarrow> string" where
  "path_join dir rel = (if dir = ''.'' then rel else dir @ CHR ''/'' # rel)"

definition dirPath :: "string \<Rightarrow> string" where
  "dirPath p = p @ ''/''"

definition hiddenPath :: "string list \<Rightarrow> bool" where
  "hiddenPath segs \<longleftrightarrow> list_ex (\<lambda>seg. has_prefix seg ''.'') segs"

definition DocumentNameStem :: "string \<Rightarrow> bool" where
  "DocumentNameStem stem \<longleftrightarrow> stem \<noteq> [] \<and>
     list_all (\<lambda>c. (CHR ''a'' \<le> c \<and> c \<le> CHR ''z'') \<or> (CHR ''0'' \<le> c \<and> c \<le> CHR ''9'') \<or> c = CHR ''-'') stem"

definition IsDocumentImageExt :: "string \<Rightarrow> bool" where
  "IsDocumentImageExt ext \<longleftrightarrow> ext \<in> set assetExtensions \<and> ext = to_lower ext"

definition stem_of :: "string \<Rightarrow> string" where
  "stem_of name = take (length name - length (path_Ext name)) name"

text \<open>What a file of the tree is: left aside, refused under a path, a brief of a folder, or an image.\<close>

datatype tree_entry = Hidden | Refused string | BriefIn string | ImageIn string string

definition tree_entry_of :: "string \<Rightarrow> brief_file \<Rightarrow> tree_entry" where
  "tree_entry_of dir f =
     (if fl_Rel f = ''.'' then Refused (dirPath dir)
      else
        let segs = split_on (CHR ''/'') (fl_Rel f); display = path_join dir (fl_Rel f) in
        if hiddenPath segs then Hidden
        else if length segs = 1 \<and> \<not> fl_Regular f then Refused (dirPath display)
        else if length segs = 1 then Refused display
        else if length segs > 2 then Refused display
        else
          let folder = segs ! 0; name = segs ! 1; ext = path_Ext name in
          if \<not> DocumentNameStem folder then Refused display
          else if \<not> fl_Regular f then Refused display
          else if ext = briefExt then (if \<not> DocumentNameStem (stem_of name) then Refused display else BriefIn folder)
          else if IsDocumentImageExt ext then
            (if \<not> DocumentNameStem (stem_of name) then Refused display else ImageIn folder name)
          else Refused display)"

definition imageContent :: "brief_reader \<Rightarrow> brief_file \<Rightarrow> string \<times> nat" where
  "imageContent R f =
     (if fl_Digest f \<noteq> [] then (fl_Digest f, fl_ContentSize f)
      else
        (case fl_Data f of
           None \<Rightarrow> ([], fl_Size f)
         | Some d \<Rightarrow>
             let bytes = (if textImage (fl_Rel f) then normalizeLineEndings d else d)
             in (hex_encode (rd_sha R bytes), length bytes)))"

text \<open>The letters of a slug are ASCII, where \<^verbatim>\<open>unicode.ToUpper\<close> is a shift of the byte.\<close>

definition upper_byte :: "char \<Rightarrow> char" where
  "upper_byte c = (let n = (of_char c :: nat) in if 97 \<le> n \<and> n \<le> 122 then char_of (n - 32) else c)"

definition titleCase :: "string \<Rightarrow> string" where
  "titleCase slug =
     (let words = filter (\<lambda>w. w \<noteq> []) (split_on (CHR ''-'') slug)
      in if words = [] then slug else join_str '' '' (map (\<lambda>w. upper_byte (hd w) # tl w) words))"

text \<open>One brief from its file, with the findings of its own text.\<close>

definition brief_parse :: "brief_reader \<Rightarrow> string \<Rightarrow> string \<Rightarrow> brief_file \<Rightarrow> brief \<times> audit_finding list" where
  "brief_parse R dir folder f =
     (let slug = stem_of (name_of (fl_Rel f));
          content = normalizeLineEndings (case fl_Data f of None \<Rightarrow> [] | Some d \<Rightarrow> d);
          path = path_join dir (fl_Rel f)
      in case parseFrontmatter R content of (fm, body, problems) \<Rightarrow>
        (\<lparr>bf_ID = folder @ CHR ''.'' # slug, bf_Path = path, bf_Folder = folder, bf_Slug = slug,
          bf_Title = (case rd_title R body of None \<Rightarrow> titleCase slug | Some t \<Rightarrow> t),
          bf_Summary = fm_summary fm, bf_Status = (if fm_status fm \<noteq> [] then fm_status fm else StatusDraft),
          bf_RestsOn = fm_restsOn fm, bf_Content = content, bf_Body = body, bf_Digest = hex_encode (rd_sha R content),
          bf_Comments = fm_comments fm,
          bf_LockHash = BriefLockHash (rd_sha R) (fm_summary fm) (fm_restsOn fm) body,
          bf_Words = rd_words R body,
          bf_Images = map (\<lambda>name. \<lparr>im_Name = name, im_Bytes = 0, im_Present = False, im_Digest = [], im_ContentBytes = 0\<rparr>)
            (dedupe_acc [] (rd_images R body))\<rparr>,
         map (\<lambda>_. Finding RuleFrontmatter path) problems @
         map (\<lambda>_. Finding RuleShape path) (dedupe_acc [] (rd_refused R body))))"

text \<open>A reference against the images of the folder.\<close>

definition place_image :: "brief_reader \<Rightarrow> brief_file gomap \<Rightarrow> brief_image \<Rightarrow> brief_image" where
  "place_image R images im =
     (case gm_get images (im_Name im) of
        None \<Rightarrow> im\<lparr>im_Present := False, im_Bytes := 0\<rparr>
      | Some f \<Rightarrow> im\<lparr>im_Present := True, im_Bytes := fl_Size f, im_Digest := fst (imageContent R f),
                     im_ContentBytes := snd (imageContent R f)\<rparr>)"

definition place_brief :: "brief_reader \<Rightarrow> string \<Rightarrow> string \<Rightarrow> brief_file gomap \<Rightarrow> brief_file \<Rightarrow> brief \<times> audit_finding list" where
  "place_brief R dir folder images f =
     (case brief_parse R dir folder f of (b, fs) \<Rightarrow>
       let b1 = b\<lparr>bf_Images := map (place_image R images) (bf_Images b)\<rparr>
       in (b1, fs @ map (\<lambda>im. Finding RuleShape (bf_Path b1)) (filter (\<lambda>im. \<not> im_Present im) (bf_Images b1))))"

text \<open>One folder: its briefs, and the images none of them references.\<close>

definition folder_briefs :: "string \<Rightarrow> brief_file list \<Rightarrow> string \<Rightarrow> brief_file list" where
  "folder_briefs dir files folder = filter (\<lambda>f. tree_entry_of dir f = BriefIn folder) files"

definition folder_images :: "string \<Rightarrow> brief_file list \<Rightarrow> string \<Rightarrow> brief_file gomap" where
  "folder_images dir files folder =
     fold (\<lambda>f m. case tree_entry_of dir f of ImageIn d name \<Rightarrow> if d = folder then gm_put name f m else m | _ \<Rightarrow> m) files []"

definition read_folder :: "brief_reader \<Rightarrow> string \<Rightarrow> brief_file list \<Rightarrow> string \<Rightarrow> brief list \<times> audit_finding list" where
  "read_folder R dir files folder =
     (let images = folder_images dir files folder;
          placed = map (place_brief R dir folder images) (folder_briefs dir files folder);
          referenced = concat (map (\<lambda>(b, _). map im_Name (bf_Images b)) placed)
      in (map fst placed,
          concat (map snd placed) @
          map (\<lambda>name. Finding RuleShape (path_join dir (folder @ CHR ''/'' # name)))
            (filter (\<lambda>name. name \<notin> set referenced) (sorted_set (map fst images)))))"

definition folder_names :: "string \<Rightarrow> brief_file list \<Rightarrow> string list" where
  "folder_names dir files =
     sorted_set (concat (map (\<lambda>f. case tree_entry_of dir f of BriefIn d \<Rightarrow> [d] | ImageIn d _ \<Rightarrow> [d] | _ \<Rightarrow> []) files))"

definition brief_caps_findings :: "brief_caps \<Rightarrow> brief \<Rightarrow> audit_finding list" where
  "brief_caps_findings c b =
     (if bf_Words b > bc_Words c then [Finding RuleWordCap (bf_Path b)] else []) @
     (if length (bf_Images b) > bc_Images c then [Finding RuleImageCap (bf_Path b)] else []) @
     map (\<lambda>_. Finding RuleImageCap (bf_Path b))
       (filter (\<lambda>im. im_Present im \<and> im_ContentBytes im > bc_ImageBytes c) (bf_Images b))"

definition checkCaps :: "brief_set \<Rightarrow> audit_finding list" where
  "checkCaps S =
     concat (map (brief_caps_findings (bs_Caps S)) (bs_Briefs S)) @
     map (\<lambda>(d, n). Finding RuleFolderCap (dirPath (path_join (bs_DisplayDir S) d)))
       (filter (\<lambda>(d, n). n > bc_PerFolder (bs_Caps S)) (bs_Folders S)) @
     (if length (bs_Briefs S) > bc_Total (bs_Caps S) then [Finding RuleTotalCap (dirPath (bs_DisplayDir S))] else [])"

definition FromFiles :: "brief_reader \<Rightarrow> string \<Rightarrow> brief_caps \<Rightarrow> brief_file list \<Rightarrow> brief_set" where
  "FromFiles R dir caps files =
     (let sorted_files = sort_key fl_Rel files;
          refused = concat (map (\<lambda>f. case tree_entry_of dir f of Refused p \<Rightarrow> [Finding RuleShape p] | _ \<Rightarrow> []) sorted_files);
          names = folder_names dir sorted_files;
          folders = map (\<lambda>d. (d, read_folder R dir sorted_files d)) names;
          S = \<lparr>bs_DisplayDir = dir,
               bs_Briefs = sort_key bf_ID (concat (map (\<lambda>(d, bs, fs). bs) folders)),
               bs_Folders = map (\<lambda>(d, bs, fs). (d, length bs)) (filter (\<lambda>(d, bs, fs). length bs > 0) folders),
               bs_Caps = caps,
               bs_findings = refused @ concat (map (\<lambda>(d, bs, fs). fs) folders)\<rparr>
      in S\<lparr>bs_findings := bs_findings S @ checkCaps S\<rparr>)"

section \<open>The rules that read the claims\<close>

definition rests_key :: "brief \<Rightarrow> string" where
  "rests_key b = join_str [CHR 0x00] (sort (bf_RestsOn b))"

definition restsOnFindings :: "brief_set \<Rightarrow> claim list \<Rightarrow> (string \<Rightarrow> string list) \<Rightarrow> audit_finding list" where
  "restsOnFindings S claims baselined =
     concat (map (\<lambda>b. map (\<lambda>_. Finding RuleRestsOnUnknown (bf_Path b))
       (filter (\<lambda>i. i \<notin> cl_ID ` set claims \<and> i \<notin> set (baselined (bf_Path b))) (bf_RestsOn b))) (bs_Briefs S)) @
     (let resting = filter (\<lambda>b. bf_RestsOn b \<noteq> []) (bs_Briefs S) in
      concat (map (\<lambda>key.
          let paths = map bf_Path (filter (\<lambda>b. rests_key b = key) resting)
          in if length paths < 2 then [] else map (Finding RuleRestsOnDuplicate) paths)
        (dedupe_acc [] (map rests_key resting))))"

definition FindingsWith :: "brief_set \<Rightarrow> claim list \<Rightarrow> audit_finding list \<Rightarrow> (string \<Rightarrow> string list) \<Rightarrow> audit_finding list" where
  "FindingsWith S claims lint baselined =
     sortFindings (bs_findings S @ lint @ restsOnFindings S claims baselined)"

definition Findings :: "brief_set \<Rightarrow> claim list \<Rightarrow> audit_finding list" where
  "Findings S claims = FindingsWith S claims [] (\<lambda>_. [])"

definition TreeFindings :: "brief_set \<Rightarrow> audit_finding list" where
  "TreeFindings S = sortFindings (bs_findings S)"

section \<open>One image, one digest\<close>

lemma normalizeLineEndings_other: "b \<noteq> CHR 0x0D \<Longrightarrow> normalizeLineEndings (b # s) = b # normalizeLineEndings s"
  by (cases s) simp_all

lemma crlf_byte_pair:
  "crlf_byte b (cr, out) =
     (b = CHR 0x0D, (if cr \<and> b \<noteq> CHR 0x0A then out @ [CHR 0x0D] else out) @ (if b = CHR 0x0D then [] else [b]))"
  by (simp add: crlf_byte_def)

lemma crlf_fold:
  "crlf_flush (fold crlf_byte s (cr, out)) = out @ normalizeLineEndings ((if cr then [CHR 0x0D] else []) @ s)"
proof (induction s arbitrary: cr out)
  case Nil
  then show ?case by (simp add: crlf_flush_def)
next
  case (Cons b s)
  show ?case
    by (cases cr; cases "b = CHR 0x0D"; cases "b = CHR 0x0A")
      (simp_all add: Cons.IH crlf_byte_pair normalizeLineEndings_other)
qed

lemma fold_crlf_write: "fold crlf_write chunks st = fold crlf_byte (concat chunks) st"
  by (induction chunks arbitrary: st) (simp_all add: crlf_write_def)

text \<open>
  An image has one digest and one counted size, whether it is streamed from the working tree, however
  the reads split its bytes, or handed over whole from the index.
\<close>
theorem image_digest_sources:
  "fileDigest (rd_sha R) chunks (textImage (fl_Rel f)) =
     imageContent R (f\<lparr>fl_Data := Some (concat chunks), fl_Digest := []\<rparr>)"
  by (simp add: fileDigest_def imageContent_def fold_crlf_write crlf_fold Let_def)

section \<open>What a lock of a brief signs\<close>

lemma sized_delim:
  assumes "itoa (length x) @ CHR '':'' # x @ s = itoa (length y) @ CHR '':'' # y @ t"
  shows "x = y \<and> s = t"
  using itoa_delim [OF assms] by (auto simp: is_digit_def)

lemma id_line_reads_back: "reads_back (\<lambda>i. ''id='' @ itoa (length i) @ CHR '':'' # i @ [nl]) xs ys"
proof (rule reads_backI)
  fix x y s t
  assume "(''id='' @ itoa (length x) @ CHR '':'' # x @ [nl]) @ s = (''id='' @ itoa (length y) @ CHR '':'' # y @ [nl]) @ t"
  then have "itoa (length x) @ CHR '':'' # x @ (nl # s) = itoa (length y) @ CHR '':'' # y @ (nl # t)" by simp
  from sized_delim [OF this] show "x = y \<and> s = t" by simp
qed

text \<open>
  C31. The bytes a lock of a brief signs are the same for two briefs exactly when the summary and the body are
  the same and the claims they rest on are, in whatever order.
\<close>
theorem lock_input_iff:
  "lock_input summary restsOn body = lock_input summary' restsOn' body' \<longleftrightarrow>
     summary = summary' \<and> mset restsOn = mset restsOn' \<and> body = body'"
proof
  assume eq: "lock_input summary restsOn body = lock_input summary' restsOn' body'"
  let ?ids = "\<lambda>r. concat (map (\<lambda>i. ''id='' @ itoa (length i) @ CHR '':'' # i @ [nl]) (sort r))"
  let ?tail = "\<lambda>b. ''body='' @ itoa (length b) @ CHR '':'' # b @ [nl]"
  have "itoa (length summary) @ CHR '':'' # summary @ (nl # ''rests_on='' @ itoa (length restsOn) @ nl # ?ids restsOn @ ?tail body) =
      itoa (length summary') @ CHR '':'' # summary' @ (nl # ''rests_on='' @ itoa (length restsOn') @ nl # ?ids restsOn' @ ?tail body')"
    using eq by (simp add: lock_input_def)
  from sized_delim [OF this] have s: "summary = summary'"
    and rest: "itoa (length restsOn) @ nl # (?ids restsOn @ ?tail body) = itoa (length restsOn') @ nl # (?ids restsOn' @ ?tail body')"
    by simp_all
  from itoa_delim [OF rest] have n: "length restsOn = length restsOn'"
    and ids: "?ids restsOn @ ?tail body = ?ids restsOn' @ ?tail body'" by (simp_all only: is_digit_def) simp_all
  have r: "sort restsOn = sort restsOn'" and b: "?tail body = ?tail body'"
    using counted_delim [OF _ id_line_reads_back ids] n by simp_all
  have "itoa (length body) @ CHR '':'' # body @ [nl] = itoa (length body') @ CHR '':'' # body' @ [nl]" using b by simp
  from sized_delim [OF this] have "body = body'" by simp
  moreover have "mset restsOn = mset restsOn'" using r by (metis mset_sort)
  ultimately show "summary = summary' \<and> mset restsOn = mset restsOn' \<and> body = body'" using s by simp
next
  assume same: "summary = summary' \<and> mset restsOn = mset restsOn' \<and> body = body'"
  then have "sort restsOn = sort restsOn'" "length restsOn = length restsOn'"
    by (metis properties_for_sort mset_sort sorted_sort) (metis same size_mset)
  with same show "lock_input summary restsOn body = lock_input summary' restsOn' body'" by (simp add: lock_input_def)
qed

section \<open>A block without problems\<close>

definition thread_ok :: "comment \<Rightarrow> bool" where
  "thread_ok t \<longleftrightarrow> (cm_Status t = CommentStatusOpen \<or> cm_Status t = CommentStatusResolved) \<and>
     (cm_Author t = CommentRoleHuman \<or> cm_Author t = CommentRoleAgent)"

definition fm_ok :: "frontmatter \<Rightarrow> fm_problem list \<Rightarrow> bool" where
  "fm_ok fm ps \<longleftrightarrow> fm_status fm \<in> {[], StatusDraft, StatusLocked} \<and> distinct (fm_restsOn fm) \<and>
     list_all (\<lambda>i. \<not> blank i) (fm_restsOn fm) \<and> (ps = [] \<longrightarrow> list_all thread_ok (fm_comments fm))"

lemma rests_on_items_ok:
  assumes "distinct ids" "list_all (\<lambda>i. \<not> blank i) ids"
  shows "distinct (fst (rests_on_items items ids ps)) \<and> list_all (\<lambda>i. \<not> blank i) (fst (rests_on_items items ids ps))"
  using assms by (induction items ids ps rule: rests_on_items.induct) (auto split: option.split)

lemma restsOnList_ok: "restsOnList n = (ids, ps) \<Longrightarrow> distinct ids \<and> list_all (\<lambda>i. \<not> blank i) ids"
  using rests_on_items_ok [of "[]" "yn_Content n" "[]"] by (auto simp: restsOnList_def split: if_splits)

lemma thread_problems_Nil: "thread_problems (i, t) = [] \<longleftrightarrow> thread_ok t"
  by (auto simp: thread_problems_def thread_ok_def)

lemma commentThreads_ok: "commentThreads dec n = (threads, []) \<Longrightarrow> list_all thread_ok threads"
proof -
  assume c: "commentThreads dec n = (threads, [])"
  have "list_all thread_ok ts" if "concat (map thread_problems (enumerate k ts)) = []" for ts k
    using that by (induction ts arbitrary: k) (auto simp: thread_problems_Nil)
  with c show "list_all thread_ok threads" by (auto simp: commentThreads_def split: if_splits option.splits)
qed

lemma fm_ok_snoc: "fm_ok fm ps \<Longrightarrow> fm_ok fm (ps @ [p])"
  by (simp add: fm_ok_def)

lemma fm_keys_ok:
  assumes "fm_keys dec kvs fm seen refused ps = (fm', seen', refused', ps')" "fm_ok fm ps"
  shows "fm_ok fm' ps'"
  using assms
proof (induction kvs arbitrary: fm seen refused ps)
  case (Cons kv kvs)
  obtain key node where kv: "kv = (key, node)" by (rule prod.exhaust)
  show ?case
  proof (cases "(yn_Kind key \<noteq> ScalarNode \<or> yn_Tag key \<noteq> ''!!str'') \<or> \<not> isFrontmatterField (yn_Value key) \<or> yn_Value key \<in> set seen")
    case True
    then obtain p where "fm_keys dec kvs fm seen refused (ps @ [p]) = (fm', seen', refused', ps')"
      using Cons.prems(1) by (auto simp: kv split: if_splits)
    then show ?thesis using Cons.IH fm_ok_snoc [OF Cons.prems(2)] by blast
  next
    case False
    then obtain gm ref qs where next_key: "fm_keys dec kvs gm (yn_Value key # seen) ref qs = (fm', seen', refused', ps')"
      and "fm_ok gm qs"
    proof -
      consider "yn_Value key = ''summary''" | "yn_Value key = ''status''" | "yn_Value key = ''rests_on''"
        | "yn_Value key = ''comments''"
        using False by (auto simp: isFrontmatterField_def frontmatterFields_def)
      then show thesis
      proof cases
        case 1
        then show thesis using False Cons.prems that
          by (cases "stringScalar node") (auto simp: kv Let_def fm_ok_def)
      next
        case 2
        then show thesis using False Cons.prems that
          by (cases "stringScalar node") (auto simp: kv Let_def fm_ok_def split: if_splits)
      next
        case 3
        obtain ids rs where rests: "restsOnList node = (ids, rs)" by (rule prod.exhaust)
        show thesis using 3 False Cons.prems that rests restsOnList_ok [OF rests]
          by (auto simp: kv Let_def fm_ok_def)
      next
        case 4
        obtain threads rs where rests: "commentThreads dec node = (threads, rs)" by (rule prod.exhaust)
        show thesis using 4 False Cons.prems that rests commentThreads_ok [of dec node threads]
          by (auto simp: kv Let_def fm_ok_def)
      qed
    qed
    then show ?thesis using Cons.IH by blast
  qed
qed simp

lemma fm_keys_refused:
  assumes "fm_keys dec kvs fm seen refused ps = (fm', seen', refused', [])" "refused \<longrightarrow> ps \<noteq> []"
  shows "\<not> refused'"
proof -
  have "(ps \<noteq> [] \<longrightarrow> qs \<noteq> []) \<and> ((refused \<longrightarrow> ps \<noteq> []) \<longrightarrow> r \<longrightarrow> qs \<noteq> [])"
    if "fm_keys dec kvs fm seen refused ps = (gm, zs, r, qs)" for fm seen refused ps gm zs r qs
    using that
  proof (induction kvs arbitrary: fm seen refused ps)
    case (Cons kv kvs)
    obtain key node where kv: "kv = (key, node)" by (rule prod.exhaust)
    obtain hm ws ref rs where "fm_keys dec kvs hm ws ref rs = (gm, zs, r, qs)"
      and "ps \<noteq> [] \<longrightarrow> rs \<noteq> []" "(refused \<longrightarrow> ps \<noteq> []) \<longrightarrow> ref \<longrightarrow> rs \<noteq> []"
      using Cons.prems by (auto simp: kv Let_def split: if_splits option.splits prod.splits)
    then show ?case using Cons.IH by meson
  qed auto
  with assms show ?thesis by blast
qed

lemma parseFrontmatter_keys:
  assumes "parseFrontmatter R content = (fm, body, [])"
  shows "\<exists>kvs seen refused. fm_keys (rd_threads R) kvs zero_frontmatter [] False [] = (fm, seen, refused, []) \<and>
    summary_problems refused seen (fm_summary fm) = []"
proof -
  have "\<exists>kvs seen refused ps. fm_keys (rd_threads R) kvs zero_frontmatter [] False [] = (fm, seen, refused, ps) \<and>
      ps @ summary_problems refused seen (fm_summary fm) = []"
    using assms unfolding parseFrontmatter_def Let_def
    by (simp split: if_splits option.splits prod.splits) (metis fm_keys.simps(1))+
  then show ?thesis by simp
qed

lemma parseFrontmatter_ok:
  assumes "parseFrontmatter R content = (fm, body, [])"
  shows "fm_ok fm []" "\<not> blank (fm_summary fm)" "nl \<notin> set (fm_summary fm)" "CHR 0x0D \<notin> set (fm_summary fm)"
    "rune_count (fm_summary fm) \<le> MaxSummaryChars"
proof -
  obtain kvs seen refused where keys: "fm_keys (rd_threads R) kvs zero_frontmatter [] False [] = (fm, seen, refused, [])"
    and Nil: "summary_problems refused seen (fm_summary fm) = []"
    using parseFrontmatter_keys [OF assms] by blast
  have zero: "fm_ok zero_frontmatter []" by (simp add: fm_ok_def zero_frontmatter_def)
  show "fm_ok fm []" by (rule fm_keys_ok [OF keys zero])
  have "\<not> refused" using fm_keys_refused [OF keys] by simp
  then show "\<not> blank (fm_summary fm)" "nl \<notin> set (fm_summary fm)" "CHR 0x0D \<notin> set (fm_summary fm)"
    "rune_count (fm_summary fm) \<le> MaxSummaryChars"
    using Nil by (auto simp: summary_problems_def split: if_splits)
qed

section \<open>Names\<close>

lemma split_on_two: "length (split_on d s) = 2 \<Longrightarrow> s = split_on d s ! 0 @ d # split_on d s ! 1"
proof -
  assume two: "length (split_on d s) = 2"
  then obtain a b where ab: "split_on d s = [a, b]" by (auto simp: numeral_2_eq_2 length_Suc_conv)
  then have "join_str [d] [a, b] = s" by (metis join_split_on)
  then show ?thesis unfolding ab by simp
qed

definition stem_char :: "char \<Rightarrow> bool" where
  "stem_char c \<longleftrightarrow> (CHR ''a'' \<le> c \<and> c \<le> CHR ''z'') \<or> (CHR ''0'' \<le> c \<and> c \<le> CHR ''9'') \<or> c = CHR ''-''"

lemma stem_char_not: "stem_char c \<Longrightarrow> c \<noteq> CHR ''.'' \<and> c \<noteq> CHR ''/''"
  by (auto simp: stem_char_def less_eq_char_def)

lemma stem_chars: "DocumentNameStem s \<Longrightarrow> s \<noteq> [] \<and> CHR ''.'' \<notin> set s \<and> CHR ''/'' \<notin> set s"
  unfolding DocumentNameStem_def list_all_iff stem_char_def [symmetric] using stem_char_not by blast

lemma path_Ext_append: "CHR ''.'' \<notin> set e \<Longrightarrow> path_Ext (s @ CHR ''.'' # e) = CHR ''.'' # e"
proof -
  assume "CHR ''.'' \<notin> set e"
  then have "takeWhile (\<lambda>c. c \<noteq> CHR ''.'') (rev (s @ CHR ''.'' # e)) = rev e" by (simp add: takeWhile_append)
  then show ?thesis by (simp add: path_Ext_def)
qed

lemma path_Ext_split: "name = stem_of name @ path_Ext name"
proof (cases "CHR ''.'' \<in> set name")
  case True
  then obtain a e where name: "name = a @ CHR ''.'' # e" "CHR ''.'' \<notin> set e" using split_list_last by metis
  then show ?thesis by (simp add: stem_of_def path_Ext_append)
next
  case False
  then show ?thesis by (simp add: stem_of_def path_Ext_def)
qed

lemma brief_entry:
  assumes "tree_entry_of dir f = BriefIn folder"
  shows "fl_Rel f = folder @ CHR ''/'' # stem_of (name_of (fl_Rel f)) @ ''.md''"
    "DocumentNameStem folder" "DocumentNameStem (stem_of (name_of (fl_Rel f)))"
proof -
  let ?segs = "split_on (CHR ''/'') (fl_Rel f)"
  have two: "length ?segs = 2" and folder: "folder = ?segs ! 0" "DocumentNameStem folder"
    and md: "path_Ext (?segs ! 1) = briefExt" and stem: "DocumentNameStem (stem_of (?segs ! 1))"
    using assms by (auto simp: tree_entry_of_def Let_def not_less_eq_eq split: if_splits)
      (metis Suc_lessI One_nat_def length_greater_0_conv linorder_neqE_nat numeral_2_eq_2 split_on_nonempty)+
  have name: "name_of (fl_Rel f) = ?segs ! 1"
    using two by (simp add: name_of_def last_conv_nth)
  show "fl_Rel f = folder @ CHR ''/'' # stem_of (name_of (fl_Rel f)) @ ''.md''"
    using split_on_two [OF two] path_Ext_split [of "?segs ! 1"] md folder(1) by (simp add: name briefExt_def)
  show "DocumentNameStem folder" "DocumentNameStem (stem_of (name_of (fl_Rel f)))" using folder(2) stem by (simp_all add: name)
qed

lemma distinct_pairs:
  "distinct ds \<Longrightarrow> (\<And>d. d \<in> set ds \<Longrightarrow> distinct (g d)) \<Longrightarrow> distinct (concat (map (\<lambda>d. map (Pair d) (g d)) ds))"
  by (induction ds) (auto simp: distinct_map inj_on_def)

lemma find_only: "b \<in> set xs \<Longrightarrow> P b \<Longrightarrow> (\<And>c. c \<in> set xs \<Longrightarrow> P c \<Longrightarrow> c = b) \<Longrightarrow> find P xs = Some b"
proof (induction xs)
  case (Cons x xs)
  show ?case
  proof (cases "P x")
    case True
    then show ?thesis using Cons.prems(3) [of x] by simp
  next
    case False
    then have "b \<in> set xs" using Cons.prems(1,2) by auto
    then have "find P xs = Some b"
    proof (rule Cons.IH [OF _ Cons.prems(2)])
      fix c assume "c \<in> set xs" "P c"
      then show "c = b" by (intro Cons.prems(3)) simp_all
    qed
    with False show ?thesis by simp
  qed
qed simp

lemma place_brief_names [simp]:
  "bf_ID (fst (place_brief R dir folder images f)) = folder @ CHR ''.'' # stem_of (name_of (fl_Rel f))"
  "bf_Path (fst (place_brief R dir folder images f)) = path_join dir (fl_Rel f)"
  "bf_Folder (fst (place_brief R dir folder images f)) = folder"
  "bf_Slug (fst (place_brief R dir folder images f)) = stem_of (name_of (fl_Rel f))"
  by (simp_all add: place_brief_def brief_parse_def Let_def split: prod.split)

definition tree_pairs :: "string \<Rightarrow> brief_file list \<Rightarrow> (string \<times> brief_file) list" where
  "tree_pairs dir files = concat (map (\<lambda>d. map (Pair d) (folder_briefs dir files d)) (folder_names dir files))"

definition placed_pair :: "brief_reader \<Rightarrow> string \<Rightarrow> brief_file list \<Rightarrow> string \<times> brief_file \<Rightarrow> brief \<times> audit_finding list" where
  "placed_pair R dir files x = place_brief R dir (fst x) (folder_images dir files (fst x)) (snd x)"

lemma bs_Briefs_FromFiles:
  "bs_Briefs (FromFiles R dir caps files) =
     sort_key bf_ID (map (fst \<circ> placed_pair R dir (sort_key fl_Rel files)) (tree_pairs dir (sort_key fl_Rel files)))"
  by (simp add: FromFiles_def Let_def read_folder_def tree_pairs_def map_concat placed_pair_def comp_def)

lemma tree_pairs_iff: "(d, f) \<in> set (tree_pairs dir files) \<longleftrightarrow> f \<in> set files \<and> tree_entry_of dir f = BriefIn d"
proof
  assume "(d, f) \<in> set (tree_pairs dir files)"
  then show "f \<in> set files \<and> tree_entry_of dir f = BriefIn d" by (auto simp: tree_pairs_def folder_briefs_def)
next
  assume f: "f \<in> set files \<and> tree_entry_of dir f = BriefIn d"
  then have "d \<in> set (folder_names dir files)" unfolding folder_names_def set_sorted_set set_concat set_map
    by (intro UnionI [of "{d}"] image_eqI [of _ _ "[d]"] image_eqI [of _ _ f]) simp_all
  with f show "(d, f) \<in> set (tree_pairs dir files)" by (auto simp: tree_pairs_def folder_briefs_def)
qed

lemma distinct_tree_pairs: "distinct files \<Longrightarrow> distinct (tree_pairs dir files)"
  by (auto simp: tree_pairs_def folder_briefs_def folder_names_def sorted_set_def intro!: distinct_pairs)

lemma brief_of_file:
  assumes "b \<in> set (bs_Briefs (FromFiles R dir caps files))"
  shows "\<exists>f\<in>set files. tree_entry_of dir f = BriefIn (bf_Folder b) \<and>
    b = fst (place_brief R dir (bf_Folder b) (folder_images dir (sort_key fl_Rel files) (bf_Folder b)) f)"
proof -
  obtain d f where df: "(d, f) \<in> set (tree_pairs dir (sort_key fl_Rel files))"
    and b: "b = fst (placed_pair R dir (sort_key fl_Rel files) (d, f))"
    using assms unfolding bs_Briefs_FromFiles by auto
  have "bf_Folder b = d" using b by (simp add: placed_pair_def)
  then show ?thesis using df b unfolding tree_pairs_iff placed_pair_def by auto
qed

lemma same_name_same_file:
  assumes "tree_entry_of dir f = BriefIn d" "tree_entry_of dir g = BriefIn e"
    and "d @ CHR ''.'' # stem_of (name_of (fl_Rel f)) = e @ CHR ''.'' # stem_of (name_of (fl_Rel g))"
  shows "d = e \<and> fl_Rel f = fl_Rel g"
proof -
  note f = brief_entry [OF assms(1)] and g = brief_entry [OF assms(2)]
  have "d = e \<and> stem_of (name_of (fl_Rel f)) = stem_of (name_of (fl_Rel g))"
    using stem_chars [OF f(2)] stem_chars [OF g(2)] assms(3) by (intro cut_unique) simp_all
  then show ?thesis using f(1) g(1) by simp
qed

lemma distinct_brief_ids:
  assumes "distinct (map fl_Rel files)"
  shows "distinct (map bf_ID (bs_Briefs (FromFiles R dir caps files)))"
proof -
  let ?fs = "sort_key fl_Rel files"
  have inj: "inj_on fl_Rel (set files)" and d: "distinct files" using assms by (simp_all add: distinct_map)
  have "distinct (map (\<lambda>x. fst x @ CHR ''.'' # stem_of (name_of (fl_Rel (snd x)))) (tree_pairs dir ?fs))"
    unfolding distinct_map
  proof
    show "distinct (tree_pairs dir ?fs)" by (rule distinct_tree_pairs) (simp add: d)
    show "inj_on (\<lambda>x. fst x @ CHR ''.'' # stem_of (name_of (fl_Rel (snd x)))) (set (tree_pairs dir ?fs))"
    proof (rule inj_onI)
      fix x y
      assume xy: "x \<in> set (tree_pairs dir ?fs)" "y \<in> set (tree_pairs dir ?fs)"
        "fst x @ CHR ''.'' # stem_of (name_of (fl_Rel (snd x))) = fst y @ CHR ''.'' # stem_of (name_of (fl_Rel (snd y)))"
      then have "snd x \<in> set files" "snd y \<in> set files" "tree_entry_of dir (snd x) = BriefIn (fst x)"
        "tree_entry_of dir (snd y) = BriefIn (fst y)"
        using tree_pairs_iff [of "fst x" "snd x" dir ?fs] tree_pairs_iff [of "fst y" "snd y" dir ?fs] by simp_all
      with same_name_same_file [OF _ _ xy(3)] inj show "x = y" by (auto simp: prod_eq_iff inj_on_def)
    qed
  qed
  then show ?thesis unfolding bs_Briefs_FromFiles distinct_map_sort_key by (simp add: comp_def placed_pair_def)
qed

lemma path_join_slash: "CHR ''/'' \<in> set r \<Longrightarrow> CHR ''/'' \<in> set (path_join dir r)"
  by (simp add: path_join_def)

lemma path_join_inj: "path_join dir r = path_join dir r' \<Longrightarrow> r = r'"
  by (simp add: path_join_def split: if_splits)

text \<open>
  C30. The id of a brief names one brief: in a tree of distinct files no two briefs share an id, and
  both the id and the path of a brief, as they are printed, look it up and nothing else.
\<close>
theorem brief_names:
  assumes "distinct (map fl_Rel files)" "\<not> has_prefix dir ''./''" "b \<in> set (bs_Briefs (FromFiles R dir caps files))"
  shows "Lookup (FromFiles R dir caps files) (bf_ID b) = Some b \<and> Lookup (FromFiles R dir caps files) (bf_Path b) = Some b \<and>
    bf_ID b = bf_Folder b @ CHR ''.'' # bf_Slug b \<and>
    bf_Path b = path_join dir (bf_Folder b @ CHR ''/'' # bf_Slug b @ briefExt)"
proof -
  let ?S = "FromFiles R dir caps files"
  have inj: "inj_on fl_Rel (set files)" using assms(1) by (simp add: distinct_map)
  have ids: "inj_on bf_ID (set (bs_Briefs ?S))" using distinct_brief_ids [OF assms(1)] by (simp add: distinct_map)
  have parts: "\<exists>f\<in>set files. tree_entry_of dir f = BriefIn (bf_Folder c) \<and>
      bf_ID c = bf_Folder c @ CHR ''.'' # bf_Slug c \<and> bf_Slug c = stem_of (name_of (fl_Rel f)) \<and> bf_Path c = path_join dir (fl_Rel f)"
    if c: "c \<in> set (bs_Briefs ?S)" for c
    using brief_of_file [OF c] by (metis place_brief_names(1,2,4))
  have slash: "CHR ''/'' \<notin> set (bf_ID c)" "CHR ''/'' \<in> set (bf_Path c)" if c: "c \<in> set (bs_Briefs ?S)" for c
  proof -
    obtain f where f: "tree_entry_of dir f = BriefIn (bf_Folder c)" "bf_ID c = bf_Folder c @ CHR ''.'' # bf_Slug c"
      "bf_Slug c = stem_of (name_of (fl_Rel f))" "bf_Path c = path_join dir (fl_Rel f)" using parts [OF c] by blast
    note e = brief_entry [OF f(1)]
    show "CHR ''/'' \<notin> set (bf_ID c)" using stem_chars [OF e(2)] stem_chars [OF e(3)] f(2,3) by simp
    have "CHR ''/'' \<in> set (fl_Rel f)" by (subst e(1)) simp
    then show "CHR ''/'' \<in> set (bf_Path c)" using f(4) path_join_slash by simp
  qed
  obtain f where f: "f \<in> set files" "tree_entry_of dir f = BriefIn (bf_Folder b)" "bf_ID b = bf_Folder b @ CHR ''.'' # bf_Slug b"
    "bf_Slug b = stem_of (name_of (fl_Rel f))" "bf_Path b = path_join dir (fl_Rel f)" using parts [OF assms(3)] by blast
  note e = brief_entry [OF f(2)]
  have rel: "fl_Rel f = bf_Folder b @ CHR ''/'' # bf_Slug b @ briefExt" using e(1) f(4) by (simp add: briefExt_def)
  obtain x xs where x: "bf_Folder b = x # xs" "x \<noteq> CHR ''.''" using stem_chars [OF e(2)] by (cases "bf_Folder b") auto
  have id_prefix: "\<not> has_prefix (bf_ID b) ''./''" using x f(3) by simp
  have path_prefix: "\<not> has_prefix (bf_Path b) ''./''"
  proof (cases "dir = ''.''")
    case True
    then show ?thesis using x rel f(5) by (simp add: path_join_def)
  next
    case False
    then show ?thesis using assms(2) f(5) by (cases dir; cases "tl dir") (auto simp: path_join_def)
  qed
  have "find (\<lambda>c. bf_ID c = bf_ID b \<or> bf_Path c = bf_ID b) (bs_Briefs ?S) = Some b"
    using assms(3) slash ids by (intro find_only) (metis inj_onD)+
  then have by_id: "Lookup ?S (bf_ID b) = Some b" using id_prefix by (simp add: Lookup_def)
  have "find (\<lambda>c. bf_ID c = bf_Path b \<or> bf_Path c = bf_Path b) (bs_Briefs ?S) = Some b"
  proof (rule find_only [OF assms(3)])
    fix c
    assume c: "c \<in> set (bs_Briefs ?S)" "bf_ID c = bf_Path b \<or> bf_Path c = bf_Path b"
    then have same: "bf_Path c = bf_Path b" using slash(1) [OF c(1)] slash(2) [OF assms(3)] by auto
    obtain g where g: "g \<in> set files" "tree_entry_of dir g = BriefIn (bf_Folder c)" "bf_ID c = bf_Folder c @ CHR ''.'' # bf_Slug c"
      "bf_Slug c = stem_of (name_of (fl_Rel g))" "bf_Path c = path_join dir (fl_Rel g)" using parts [OF c(1)] by blast
    have "g = f" using same g(1,5) f(1,5) path_join_inj inj by (auto simp: inj_on_def)
    then have "bf_ID c = bf_ID b" using g f by simp
    then show "c = b" using ids c(1) assms(3) by (simp add: inj_on_def)
  qed simp
  then have "Lookup ?S (bf_Path b) = Some b" using path_prefix by (simp add: Lookup_def)
  with by_id f(3,5) rel show ?thesis by simp
qed

definition demo_yaml :: "string \<Rightarrow> ynode option option" where
  "demo_yaml block = (if block = [] then Some None else
     Some (Some (YNode MappingNode ''!!map'' [] [YNode ScalarNode ''!!str'' ''summary'' [], YNode ScalarNode ''!!str'' block []])))"

definition demo_threads :: "ynode \<Rightarrow> comment list option" where
  "demo_threads n = None"

definition demo_title :: "string \<Rightarrow> string option" where
  "demo_title body = None"

definition demo_images :: "string \<Rightarrow> string list" where
  "demo_images body = (if body = [] then [] else [body])"

definition demo_refused :: "string \<Rightarrow> string list" where
  "demo_refused body = []"

definition demo_reader :: brief_reader where
  "demo_reader =
     \<lparr>rd_sha = rev, rd_yaml = (\<lambda>b. demo_yaml (butlast b)), rd_threads = demo_threads, rd_title = demo_title,
      rd_words = length, rd_images = demo_images, rd_refused = demo_refused\<rparr>"

definition demo_caps :: brief_caps where
  "demo_caps = \<lparr>bc_Words = 9, bc_Images = 1, bc_ImageBytes = 5, bc_PerFolder = 1, bc_Total = 1\<rparr>"

definition demo_files :: "brief_file list" where
  "demo_files =
     [\<lparr>fl_Rel = ''shop/flow.md'', fl_Size = 0, fl_Regular = True,
       fl_Data = Some (''---'' @ [nl] @ ''Pay'' @ [nl] @ ''---'' @ [nl] @ ''a.svg''), fl_Digest = [], fl_ContentSize = 0\<rparr>,
      \<lparr>fl_Rel = ''shop/a.svg'', fl_Size = 2, fl_Regular = True, fl_Data = Some ''xy'', fl_Digest = [], fl_ContentSize = 0\<rparr>]"

definition demo_set :: brief_set where
  "demo_set = FromFiles demo_reader ''briefs'' demo_caps demo_files"

lemma demo_ids: "map bf_ID (bs_Briefs demo_set) = [''shop.flow'']"
  by code_simp

theorem brief_names_witness:
  "Lookup demo_set ''shop.flow'' = Some (hd (bs_Briefs demo_set)) \<and> Lookup demo_set ''briefs/shop/flow.md'' = Some (hd (bs_Briefs demo_set))"
proof -
  obtain b where b: "bs_Briefs demo_set = [b]" "bf_ID b = ''shop.flow''" using demo_ids by (cases "bs_Briefs demo_set") auto
  have path: "map bf_Path (bs_Briefs demo_set) = [''briefs/shop/flow.md'']" by code_simp
  have "distinct (map fl_Rel demo_files)" "\<not> has_prefix ''briefs'' ''./''" by code_simp+
  note names = brief_names [OF this, of b demo_reader demo_caps, folded demo_set_def]
  have mem: "b \<in> set (bs_Briefs demo_set)" using b(1) by simp
  have "Lookup demo_set (bf_ID b) = Some b" by (rule names [OF mem, THEN conjunct1])
  moreover have "Lookup demo_set (bf_Path b) = Some b" by (rule names [OF mem, THEN conjunct2, THEN conjunct1])
  ultimately show ?thesis using b path by simp
qed

section \<open>A silent tree\<close>

definition brief_ok :: "brief_caps \<Rightarrow> brief \<Rightarrow> bool" where
  "brief_ok caps b \<longleftrightarrow>
     \<not> blank (bf_Summary b) \<and> nl \<notin> set (bf_Summary b) \<and> rune_count (bf_Summary b) \<le> MaxSummaryChars \<and>
     (bf_Status b = StatusDraft \<or> bf_Status b = StatusLocked) \<and>
     distinct (bf_RestsOn b) \<and> list_all (\<lambda>i. \<not> blank i) (bf_RestsOn b) \<and> list_all thread_ok (bf_Comments b) \<and>
     bf_Words b \<le> bc_Words caps \<and> length (bf_Images b) \<le> bc_Images caps \<and>
     list_all (\<lambda>im. im_Present im \<and> im_ContentBytes im \<le> bc_ImageBytes caps) (bf_Images b)"

lemma place_brief_silent:
  assumes "snd (place_brief R dir folder images f) = []" "brief_caps_findings caps (fst (place_brief R dir folder images f)) = []"
  shows "brief_ok caps (fst (place_brief R dir folder images f))"
proof -
  let ?content = "normalizeLineEndings (case fl_Data f of None \<Rightarrow> [] | Some d \<Rightarrow> d)"
  obtain fm body problems where fm: "parseFrontmatter R ?content = (fm, body, problems)" using prod_cases3 by blast
  have Nil: "problems = []" and present: "list_all im_Present (bf_Images (fst (place_brief R dir folder images f)))"
    using assms(1) fm by (auto simp: place_brief_def brief_parse_def Let_def list_all_iff filter_empty_conv)
  note ok = parseFrontmatter_ok [OF fm [unfolded Nil]]
  have "bf_Summary (fst (place_brief R dir folder images f)) = fm_summary fm"
    "bf_Status (fst (place_brief R dir folder images f)) = (if fm_status fm \<noteq> [] then fm_status fm else StatusDraft)"
    "bf_RestsOn (fst (place_brief R dir folder images f)) = fm_restsOn fm"
    "bf_Comments (fst (place_brief R dir folder images f)) = fm_comments fm"
    using fm by (simp_all add: place_brief_def brief_parse_def Let_def)
  then show ?thesis
    using ok present assms(2)
    by (auto simp: brief_ok_def fm_ok_def brief_caps_findings_def list_all_iff filter_empty_conv not_less split: if_splits)
qed

text \<open>An image of a folder is referenced by one of its briefs.\<close>

definition image_used :: "brief_set \<Rightarrow> string \<Rightarrow> string \<Rightarrow> bool" where
  "image_used S d name \<longleftrightarrow> list_ex (\<lambda>b. bf_Folder b = d \<and> list_ex (\<lambda>im. im_Name im = name) (bf_Images b)) (bs_Briefs S)"

lemma folder_images_dom:
  "fst ` set (folder_images dir files d) = {name. \<exists>f\<in>set files. tree_entry_of dir f = ImageIn d name}"
proof -
  have "fst ` set (fold (\<lambda>f m. case tree_entry_of dir f of ImageIn e name \<Rightarrow> if e = d then gm_put name f m else m | _ \<Rightarrow> m) files m) =
      fst ` set m \<union> {name. \<exists>f\<in>set files. tree_entry_of dir f = ImageIn d name}" for m :: "brief_file gomap"
    by (induction files arbitrary: m) (auto simp: dom_update split: tree_entry.split)
  then show ?thesis by (simp add: folder_images_def)
qed

lemma bs_findings_FromFiles:
  "bs_findings (FromFiles R dir caps files) = [] \<longleftrightarrow>
     (\<forall>f\<in>set files. \<forall>p. tree_entry_of dir f \<noteq> Refused p) \<and>
     (\<forall>d\<in>set (folder_names dir (sort_key fl_Rel files)). snd (read_folder R dir (sort_key fl_Rel files) d) = []) \<and>
     checkCaps (FromFiles R dir caps files) = []"
proof -
  have refused: "(\<forall>f\<in>set files. (case tree_entry_of dir f of Refused p \<Rightarrow> [Finding RuleShape p] | _ \<Rightarrow> []) = []) \<longleftrightarrow>
      (\<forall>f\<in>set files. \<forall>p. tree_entry_of dir f \<noteq> Refused p)"
    by (auto split: tree_entry.split)
  show ?thesis
    unfolding refused [symmetric] checkCaps_def FromFiles_def Let_def by (simp add: split_beta comp_def)
qed

lemma folder_in_names:
  "f \<in> set files \<Longrightarrow> tree_entry_of dir f = BriefIn d \<or> tree_entry_of dir f = ImageIn d name \<Longrightarrow> d \<in> set (folder_names dir files)"
  unfolding folder_names_def set_sorted_set set_concat set_map
  by (intro UnionI [of "{d}"] image_eqI [of _ _ "[d]"] image_eqI [of _ _ f]) auto

text \<open>
  C29. A tree without a finding holds nothing but well-formed briefs and the images they show: every file is
  a brief, an image that a brief of its folder references, or hidden; every brief has a one-line summary within the
  ceiling, a status of the two, distinct claim ids, well-formed threads and only images that are there; and
  every cap holds.
\<close>
theorem silent_tree:
  assumes "TreeFindings (FromFiles R dir caps files) = []"
  shows "(\<forall>f\<in>set files. case tree_entry_of dir f of
        Hidden \<Rightarrow> True | Refused _ \<Rightarrow> False | BriefIn d \<Rightarrow> True | ImageIn d name \<Rightarrow> image_used (FromFiles R dir caps files) d name) \<and>
    list_all (brief_ok caps) (bs_Briefs (FromFiles R dir caps files)) \<and>
    list_all (\<lambda>(d, n). n \<le> bc_PerFolder caps) (bs_Folders (FromFiles R dir caps files)) \<and>
    length (bs_Briefs (FromFiles R dir caps files)) \<le> bc_Total caps"
proof -
  let ?S = "FromFiles R dir caps files" and ?fs = "sort_key fl_Rel files"
  have Nil: "bs_findings ?S = []" using assms by (simp add: TreeFindings_def sortFindings_def)
  note parts = Nil [unfolded bs_findings_FromFiles]
  have dir: "bs_DisplayDir ?S = dir" "bs_Caps ?S = caps" by (simp_all add: FromFiles_def Let_def)
  have caps: "checkCaps ?S = []" using parts by blast
  have folder: "snd (place_brief R dir d (folder_images dir ?fs d) f) = []"
    if "tree_entry_of dir f = BriefIn d" "f \<in> set files" for d f
  proof -
    have "d \<in> set (folder_names dir ?fs)" using that by (intro folder_in_names [of f]) auto
    then have "snd (read_folder R dir ?fs d) = []" using parts by blast
    then show ?thesis using that by (auto simp: read_folder_def Let_def folder_briefs_def)
  qed
  have briefs: "brief_ok caps b" if b: "b \<in> set (bs_Briefs ?S)" for b
  proof -
    obtain f where f: "f \<in> set files" "tree_entry_of dir f = BriefIn (bf_Folder b)"
      "b = fst (place_brief R dir (bf_Folder b) (folder_images dir ?fs (bf_Folder b)) f)" using brief_of_file [OF b] by blast
    have "brief_caps_findings caps b = []" using caps b by (auto simp: checkCaps_def dir)
    then show ?thesis using place_brief_silent [OF folder [OF f(2,1)]] f(3) by metis
  qed
  have image: "image_used ?S d name" if f: "f \<in> set files" "tree_entry_of dir f = ImageIn d name" for d name f
  proof -
    have "d \<in> set (folder_names dir ?fs)" using f by (intro folder_in_names [of f]) auto
    then have "snd (read_folder R dir ?fs d) = []" using parts by blast
    moreover have "name \<in> fst ` set (folder_images dir ?fs d)" unfolding folder_images_dom using f by auto
    ultimately obtain g where g: "g \<in> set (folder_briefs dir ?fs d)"
      "name \<in> im_Name ` set (bf_Images (fst (place_brief R dir d (folder_images dir ?fs d) g)))"
      by (auto simp: read_folder_def Let_def filter_empty_conv split_beta)
    have "(d, g) \<in> set (tree_pairs dir ?fs)" using g(1) by (simp add: tree_pairs_iff folder_briefs_def)
    then have "fst (placed_pair R dir ?fs (d, g)) \<in> set (bs_Briefs ?S)" unfolding bs_Briefs_FromFiles by force
    then show ?thesis using g(2) by (auto simp: image_used_def list_ex_iff placed_pair_def intro!: bexI)
  qed
  have "list_all (\<lambda>(d, n). n \<le> bc_PerFolder caps) (bs_Folders ?S)" "length (bs_Briefs ?S) \<le> bc_Total caps"
    using caps by (auto simp: checkCaps_def dir list_all_iff filter_empty_conv not_less split: if_splits)
  then show ?thesis using parts briefs image by (auto simp: list_all_iff split: tree_entry.split)
qed

theorem silent_tree_witness: "list_all (brief_ok demo_caps) (bs_Briefs demo_set) \<and> length (bs_Briefs demo_set) = 1"
proof -
  have "TreeFindings (FromFiles demo_reader ''briefs'' demo_caps demo_files) = []" by code_simp
  from silent_tree [OF this] have "list_all (brief_ok demo_caps) (bs_Briefs demo_set)" by (simp add: demo_set_def)
  moreover have "length (map bf_ID (bs_Briefs demo_set)) = 1" unfolding demo_ids by simp
  ultimately show ?thesis by simp
qed

end
