(* ===== verification/Brief_Locks.thy ===== *)
theory Brief_Locks
  imports Brief_Tree Commands
begin

text \<open>
  The lock of a brief (\<^verbatim>\<open>lockstate.go\<close> and \<^verbatim>\<open>write.go\<close> of \<^verbatim>\<open>internal/briefs\<close>, \<^verbatim>\<open>brief_lock.go\<close> of
  \<^verbatim>\<open>cmd/dossierx\<close>): what the records of the store say of the briefs in the tree, the baselines a lock
  takes or carries over, and the commands \<^verbatim>\<open>brief lock\<close>, \<^verbatim>\<open>brief unlock\<close> and \<^verbatim>\<open>brief reaudit\<close>. A write of a file
  goes through or not by the counter of the world; the file locks are taken as held, and the sentences of
  findings and refusals are left out.
\<close>

section \<open>What moved\<close>

datatype lock_state = LockDraft | LockLocked | LockEdited | LockUnrecorded

datatype moved = TextMoved | ImageNew string | ImageChanged string | ImageGone string

text \<open>The parts that moved, without the order of the sentence they are named in.\<close>

definition ContentMoved :: "brief \<Rightarrow> brief_record \<Rightarrow> moved list" where
  "ContentMoved b r =
     (if br_Hash r \<noteq> bf_LockHash b then [TextMoved] else []) @
     concat (map (\<lambda>(name, digest).
       (case gm_get (br_Images r) name of
          None \<Rightarrow> [ImageNew name]
        | Some was \<Rightarrow> if was \<noteq> digest then [ImageChanged name] else [])) (ImageDigests b)) @
     concat (map (\<lambda>(name, was). if gm_get (ImageDigests b) name = None then [ImageGone name] else []) (br_Images r))"

record wording =
  wo_Summary :: string
  wo_Body :: string
  wo_Steps :: "string list"

definition wordingOf :: "claim \<Rightarrow> wording" where
  "wordingOf c = \<lparr>wo_Summary = cl_Summary c, wo_Body = cl_Body c, wo_Steps = cl_Steps c\<rparr>"

record changed_claim =
  ch_ID :: string
  ch_Missing :: bool
  ch_BaselineHash :: string
  ch_CurrentHash :: string
  ch_ChangedAt :: string
  ch_Baseline :: "wording option"
  ch_BaselineNote :: string
  ch_Current :: "wording option"

record review =
  rv_LockState :: lock_state
  rv_LockedAt :: string
  rv_LockReason :: string
  rv_LockedBy :: string
  rv_ReviewPending :: bool
  rv_Trigger :: string
  rv_ChangedClaims :: "changed_claim list"
  rv_OpenThreads :: nat
  rv_Approved :: "(string \<times> string list \<times> string) option"
  rv_ApprovedImages :: "string gomap"

definition RuleContentDrift :: string where
  "RuleContentDrift = ''brief-content-drift''"

definition RuleUnrecorded :: string where
  "RuleUnrecorded = ''brief-unrecorded''"

definition RuleOrphan :: string where
  "RuleOrphan = ''brief-orphan''"

definition RuleAbandoned :: string where
  "RuleAbandoned = ''brief-abandoned''"

definition TriggerDependencyDrift :: string where
  "TriggerDependencyDrift = ''dependency_drift''"

definition TriggerRestsOnMissing :: string where
  "TriggerRestsOnMissing = ''rests_on_missing''"

definition UnavailableWording :: string where
  "UnavailableWording = ''earlier wording not available''"

definition changedAt :: "(string \<Rightarrow> string) \<Rightarrow> store \<Rightarrow> claim \<Rightarrow> string" where
  "changedAt sha s c =
     (if cl_Status c \<noteq> StatusLocked then []
      else
        (case st_Record s (cl_ID c) of
           None \<Rightarrow> []
         | Some r \<Rightarrow> if Released r \<or> lr_Hash r \<noteq> LockedClaimHash sha c then [] else lr_At r))"

definition baselineWording :: "(string \<Rightarrow> string) \<Rightarrow> store \<Rightarrow> brief_record \<Rightarrow> string \<Rightarrow> string \<Rightarrow> wording option \<times> string" where
  "baselineWording sha s r i h =
     (case filter (\<lambda>c. ContentHash sha c = h) (case gm_get (br_Receipts r) i of None \<Rightarrow> [] | Some c \<Rightarrow> [c]) of
        c # _ \<Rightarrow> (Some (wordingOf c), [])
      | [] \<Rightarrow>
          (case RetainedClaimContent sha s i h of
             Some c \<Rightarrow> (Some (wordingOf c), [])
           | None \<Rightarrow> (None, UnavailableWording)))"

text \<open>One baseline against the claims: nothing where the claim reads as it did.\<close>

definition changed_claim_of :: "(string \<Rightarrow> string) \<Rightarrow> store \<Rightarrow> claim list \<Rightarrow> brief_record \<Rightarrow> string \<times> string \<Rightarrow> changed_claim option" where
  "changed_claim_of sha s claims r x =
     (case x of (i, base) \<Rightarrow>
       (case byID claims i of
          None \<Rightarrow>
            Some \<lparr>ch_ID = i, ch_Missing = True, ch_BaselineHash = base, ch_CurrentHash = [], ch_ChangedAt = [],
                  ch_Baseline = fst (baselineWording sha s r i base), ch_BaselineNote = snd (baselineWording sha s r i base),
                  ch_Current = None\<rparr>
        | Some c \<Rightarrow>
            if ContentHash sha c = base then None
            else
              Some \<lparr>ch_ID = i, ch_Missing = False, ch_BaselineHash = base, ch_CurrentHash = ContentHash sha c,
                    ch_ChangedAt = changedAt sha s c, ch_Baseline = fst (baselineWording sha s r i base),
                    ch_BaselineNote = snd (baselineWording sha s r i base), ch_Current = Some (wordingOf c)\<rparr>))"

definition changed_claims :: "(string \<Rightarrow> string) \<Rightarrow> store \<Rightarrow> claim list \<Rightarrow> brief_record \<Rightarrow> changed_claim list" where
  "changed_claims sha s claims r = List.map_filter (changed_claim_of sha s claims r) (sort_key fst (br_Baselines r))"

section \<open>The state of every brief\<close>

definition draft_review :: "brief \<Rightarrow> review" where
  "draft_review b =
     \<lparr>rv_LockState = LockDraft, rv_LockedAt = [], rv_LockReason = [], rv_LockedBy = [], rv_ReviewPending = False,
      rv_Trigger = [], rv_ChangedClaims = [], rv_OpenThreads = OpenThreads b, rv_Approved = None, rv_ApprovedImages = []\<rparr>"

definition standing_record :: "store option \<Rightarrow> string \<Rightarrow> brief_record option" where
  "standing_record os i =
     (case os of None \<Rightarrow> None
      | Some s \<Rightarrow> (case BriefRecordFor s i of None \<Rightarrow> None | Some r \<Rightarrow> if br_Released r then None else Some r))"

definition approved_review :: "brief \<Rightarrow> brief_record \<Rightarrow> review" where
  "approved_review b r =
     (draft_review b)\<lparr>rv_LockedAt := br_At r, rv_LockReason := br_Reason r, rv_LockedBy := br_Actor r,
       rv_Approved := Some (br_Summary r, br_RestsOn r, br_Markdown r), rv_ApprovedImages := br_Images r\<rparr>"

text \<open>One brief: its review, its rule findings, its integrity findings, and the claims it holds a baseline for.\<close>

definition evaluate_brief ::
  "(string \<Rightarrow> string) \<Rightarrow> claim list \<Rightarrow> store option \<Rightarrow> bool \<Rightarrow> brief \<Rightarrow>
   review \<times> audit_finding list \<times> audit_finding list \<times> string list" where
  "evaluate_brief sha claims os compare b =
     (case standing_record os (bf_ID b) of
        None \<Rightarrow>
          if bf_Status b \<noteq> StatusLocked then (draft_review b, [], [], [])
          else ((draft_review b)\<lparr>rv_LockState := LockUnrecorded\<rparr>, [], [Finding RuleUnrecorded (bf_Path b)], [])
      | Some r \<Rightarrow>
          if bf_Status b \<noteq> StatusLocked then (approved_review b r, [], [Finding RuleOrphan (bf_Path b)], [])
          else
            let moved = ContentMoved b r;
                rv = (approved_review b r)\<lparr>rv_LockState := (if moved = [] then LockLocked else LockEdited)\<rparr>;
                integrity = (if moved = [] then [] else [Finding RuleContentDrift (bf_Path b)])
            in if \<not> compare then (rv, [], integrity, [])
               else
                 let changed = (case os of None \<Rightarrow> [] | Some s \<Rightarrow> changed_claims sha s claims r);
                     lint = map (\<lambda>c. Finding (if ch_Missing c then RuleRestsOnMissing else RuleDependencyDrift) (bf_Path b)) changed;
                     trigger = (if list_ex (\<lambda>c. \<not> ch_Missing c) changed then TriggerDependencyDrift
                                else if list_ex ch_Missing changed then TriggerRestsOnMissing else [])
                 in (rv\<lparr>rv_ReviewPending := (trigger \<noteq> []), rv_Trigger := trigger, rv_ChangedClaims := changed\<rparr>,
                     lint, integrity, map fst (br_Baselines r)))"

definition PathOf :: "brief_set \<Rightarrow> string \<Rightarrow> string" where
  "PathOf S i =
     (case cut_at (CHR ''.'') i of
        None \<Rightarrow> path_join (bs_DisplayDir S) i
      | Some (folder, slug) \<Rightarrow> path_join (bs_DisplayDir S) (folder @ CHR ''/'' # slug @ briefExt))"

definition abandonedFindings :: "brief_set \<Rightarrow> store option \<Rightarrow> audit_finding list" where
  "abandonedFindings S os =
     (case os of
        None \<Rightarrow> []
      | Some s \<Rightarrow>
          map (\<lambda>(i, r). Finding RuleAbandoned (if br_Path r = [] then PathOf S i else br_Path r))
            (filter (\<lambda>(i, r). \<not> (i \<in> bf_ID ` set (bs_Briefs S) \<or> br_Released r)) (st_Briefs s)))"

record evaluation =
  ev_Reviews :: "review gomap"
  ev_Lint :: "audit_finding list"
  ev_Integrity :: "audit_finding list"
  ev_baselined :: "(string \<times> string list) list"

definition evaluate :: "(string \<Rightarrow> string) \<Rightarrow> brief_set \<Rightarrow> claim list \<Rightarrow> store option \<Rightarrow> bool \<Rightarrow> evaluation" where
  "evaluate sha S claims os compare =
     (let parts = map (\<lambda>b. (b, evaluate_brief sha claims os compare b)) (bs_Briefs S)
      in \<lparr>ev_Reviews = fold (\<lambda>(b, rv, _). gm_put (bf_ID b) rv) parts [],
          ev_Lint = sortFindings (concat (map (\<lambda>(b, rv, lint, _). lint) parts)),
          ev_Integrity = sort_key (\<lambda>f. (fd_ClaimID f, fd_Rule f))
            (concat (map (\<lambda>(b, rv, lint, integrity, _). integrity) parts) @ abandonedFindings S os),
          ev_baselined = map (\<lambda>(b, rv, lint, integrity, ids). (bf_Path b, ids)) parts\<rparr>)"

definition Evaluate :: "(string \<Rightarrow> string) \<Rightarrow> brief_set \<Rightarrow> claim list \<Rightarrow> store option \<Rightarrow> evaluation" where
  "Evaluate sha S claims os = evaluate sha S claims os True"

definition EvaluateLocks :: "(string \<Rightarrow> string) \<Rightarrow> brief_set \<Rightarrow> store option \<Rightarrow> evaluation" where
  "EvaluateLocks sha S os = evaluate sha S [] os False"

definition Review :: "evaluation \<Rightarrow> brief \<Rightarrow> review" where
  "Review e b = (case gm_get (ev_Reviews e) (bf_ID b) of None \<Rightarrow> draft_review b | Some r \<Rightarrow> r)"

section \<open>Baselines\<close>

record baselines =
  bl_hashes :: "string gomap"
  bl_receipts :: "claim gomap"
  bl_unknown :: "string list"

definition Baselines :: "(string \<Rightarrow> string) \<Rightarrow> brief \<Rightarrow> claim list \<Rightarrow> baselines" where
  "Baselines sha b claims =
     fold (\<lambda>i bl. case byID claims i of
         None \<Rightarrow> bl\<lparr>bl_unknown := bl_unknown bl @ [i]\<rparr>
       | Some c \<Rightarrow> bl\<lparr>bl_hashes := gm_put i (ContentHash sha (c\<lparr>cl_SourcePath := []\<rparr>)) (bl_hashes bl),
                     bl_receipts := gm_put i (c\<lparr>cl_SourcePath := []\<rparr>) (bl_receipts bl)\<rparr>)
       (bf_RestsOn b) \<lparr>bl_hashes = [], bl_receipts = [], bl_unknown = []\<rparr>"

definition carry_baseline :: "brief_record \<Rightarrow> string \<Rightarrow> baselines \<times> string list \<Rightarrow> baselines \<times> string list" where
  "carry_baseline prev i x =
     (case gm_get (br_Baselines prev) i of
        None \<Rightarrow> x
      | Some base \<Rightarrow>
          ((fst x)\<lparr>bl_hashes := gm_put i base (bl_hashes (fst x)),
                   bl_receipts := (case gm_get (br_Receipts prev) i of
                       Some c \<Rightarrow> gm_put i c (bl_receipts (fst x)) | None \<Rightarrow> gm_del i (bl_receipts (fst x)))\<rparr>,
           snd x @ [i]))"

definition RelockBaselines :: "(string \<Rightarrow> string) \<Rightarrow> brief \<Rightarrow> claim list \<Rightarrow> brief_record option \<Rightarrow> baselines \<times> string list" where
  "RelockBaselines sha b claims prev =
     (case prev of
        None \<Rightarrow> (Baselines sha b claims, [])
      | Some r \<Rightarrow>
          let (bl, carried) = fold (carry_baseline r) (bf_RestsOn b) (Baselines sha b claims, [])
          in (bl\<lparr>bl_unknown := filter (\<lambda>i. gm_get (br_Baselines r) i = None) (bl_unknown bl)\<rparr>, carried))"

section \<open>The files\<close>

text \<open>
  The surroundings of a command on briefs: the engine, the readers, the directory and the caps, and the
  surgery on the lines of a file at the places YAML gives, which \<^verbatim>\<open>SetStatus\<close> and \<^verbatim>\<open>SetComments\<close> only accept after
  they have read the result back.
\<close>

record brief_env =
  be_engine :: engine
  be_reader :: brief_reader
  be_dir :: string
  be_caps :: brief_caps
  be_status_line :: "string \<Rightarrow> string \<Rightarrow> string option"
  be_comments_block :: "string \<Rightarrow> comment list \<Rightarrow> string option"
  be_encoded :: "comment list \<Rightarrow> string option"

record brief_world =
  bw_world :: world
  bw_tree :: "brief_file list"

definition be_sha :: "brief_env \<Rightarrow> string \<Rightarrow> string" where
  "be_sha B = en_sha (be_engine B)"

definition be_read :: "brief_env \<Rightarrow> brief_reader" where
  "be_read B = (be_reader B)\<lparr>rd_sha := be_sha B\<rparr>"

definition loadBriefs :: "brief_env \<Rightarrow> brief_world \<Rightarrow> brief_set" where
  "loadBriefs B w = FromFiles (be_read B) (be_dir B) (be_caps B) (bw_tree w)"

definition FilePath :: "brief \<Rightarrow> string" where
  "FilePath b = bf_Folder b @ CHR ''/'' # bf_Slug b @ briefExt"

definition file_at :: "brief_world \<Rightarrow> string \<Rightarrow> brief_file option" where
  "file_at w rel = find (\<lambda>f. fl_Rel f = rel) (bw_tree w)"

definition file_bytes :: "brief_file \<Rightarrow> string" where
  "file_bytes f = (case fl_Data f of None \<Rightarrow> [] | Some d \<Rightarrow> d)"

definition readBriefFile :: "brief_world \<Rightarrow> brief \<Rightarrow> string option" where
  "readBriefFile w b =
     (case file_at w (FilePath b) of None \<Rightarrow> None | Some f \<Rightarrow> if \<not> fl_Regular f then None else Some (file_bytes f))"

definition put_bytes :: "string \<Rightarrow> string \<Rightarrow> brief_file list \<Rightarrow> brief_file list" where
  "put_bytes rel bytes = map (\<lambda>f. if fl_Rel f = rel then f\<lparr>fl_Data := Some bytes, fl_Size := length bytes\<rparr> else f)"

definition rewriteBriefFile :: "brief_env \<Rightarrow> brief \<Rightarrow> string \<Rightarrow> string \<Rightarrow> brief_world \<Rightarrow> bool \<times> brief_world" where
  "rewriteBriefFile B b before after w =
     (case readBriefFile w b of
        None \<Rightarrow> (False, w)
      | Some now \<Rightarrow>
          if now \<noteq> before then (False, w)
          else
            let w1 = w\<lparr>bw_world := (bw_world w)\<lparr>wd_tick := Suc (wd_tick (bw_world w))\<rparr>\<rparr> in
            if en_os (be_engine B) (wd_tick (bw_world w)) then (True, w1\<lparr>bw_tree := put_bytes (FilePath b) after (bw_tree w1)\<rparr>)
            else (False, w1))"

definition verifyRewrite :: "brief_env \<Rightarrow> string \<Rightarrow> string \<Rightarrow> (frontmatter \<Rightarrow> bool) \<Rightarrow> bool" where
  "verifyRewrite B before after want =
     (case (parseFrontmatter (be_read B) (normalizeLineEndings before), parseFrontmatter (be_read B) (normalizeLineEndings after)) of
        ((fm1, body1, _), (fm2, body2, problems)) \<Rightarrow>
          if problems \<noteq> [] then False
          else if BriefLockHash (be_sha B) (fm_summary fm1) (fm_restsOn fm1) body1 \<noteq>
              BriefLockHash (be_sha B) (fm_summary fm2) (fm_restsOn fm2) body2 then False
          else want fm2)"

definition SetStatus :: "brief_env \<Rightarrow> string \<Rightarrow> string \<Rightarrow> string option" where
  "SetStatus B raw status =
     (case be_status_line B raw status of
        None \<Rightarrow> None
      | Some result \<Rightarrow>
          if verifyRewrite B raw result (\<lambda>fm. fm_status fm = status \<or> (fm_status fm = [] \<and> status = StatusDraft))
          then Some result else None)"

section \<open>The commands\<close>

datatype brief_error =
    BriefReasonMissing | BriefStoresGitignored | BriefNotFound | BriefChanged
  | BriefLintFailed "audit_finding list" | BriefThreadsOpen nat | BriefStoreUnread store_error
  | BriefAlreadyLocked | BriefCrossingFailed cross_error | BriefUnknownClaims "string list"
  | BriefNotRewritable | BriefFileUnwritten | BriefStoreUnwritten
  | BriefNotLocked lock_state | BriefEdited | BriefNotPending | BriefClaimsGone "string list"

definition findingsAbout :: "audit_finding list \<Rightarrow> string \<Rightarrow> audit_finding list" where
  "findingsAbout fs path =
     filter (\<lambda>f. fd_ClaimID f = path \<or> (fd_ClaimID f \<noteq> [] \<and> last (fd_ClaimID f) = CHR ''/'' \<and> has_prefix path (fd_ClaimID f))) fs"

definition briefErrorFindings :: "brief_set \<Rightarrow> brief \<Rightarrow> claim list \<Rightarrow> audit_finding list" where
  "briefErrorFindings S b claims = filter (\<lambda>f. severityError (fd_Rule f)) (findingsAbout (Findings S claims) (bf_Path b))"

definition write_brief_store :: "store \<Rightarrow> brief_world \<Rightarrow> bool \<times> brief_world" where
  "write_brief_store s w = (let (ok, w1) = write_store s (bw_world w) in (ok, w\<lparr>bw_world := w1\<rparr>))"

definition brief_approval :: "brief_env \<Rightarrow> string \<Rightarrow> string \<Rightarrow> brief \<Rightarrow> baselines \<Rightarrow> brief_record" where
  "brief_approval B now reason b bl =
     \<lparr>br_Path = bf_Path b, br_Hash = bf_LockHash b, br_At = now, br_Actor = en_actor (be_engine B), br_Reason = reason,
      br_Summary = bf_Summary b, br_RestsOn = bf_RestsOn b, br_Markdown = bf_Body b, br_Images = ImageDigests b,
      br_Baselines = bl_hashes bl, br_Receipts = bl_receipts bl, br_Reaudits = [],
      br_ReleasedAt = [], br_ReleasedBy = [], br_ReleasedReason = []\<rparr>"

text \<open>The part of \<^verbatim>\<open>brief lock\<close> after its refusals: the crossing, the sweep, the file, then the store.\<close>

definition brief_sign ::
  "brief_env \<Rightarrow> string \<Rightarrow> string \<Rightarrow> brief \<Rightarrow> string \<Rightarrow> store \<Rightarrow> brief_world \<Rightarrow> (brief_error + string list) \<times> brief_world" where
  "brief_sign B now reason b raw s0 w =
     (let claims = loadClaims (bw_world w) in
      case CrossPreLedger s0 (wd_disk (bw_world w)) claims of
        (Some e, _, dk) \<Rightarrow> (Inl (BriefCrossingFailed e), w\<lparr>bw_world := (bw_world w)\<lparr>wd_disk := dk\<rparr>\<rparr>)
      | (None, s1, dk) \<Rightarrow>
          (case prepareStore (be_sha B) s1 dk claims of
             (_, adopted, s, dk1) \<Rightarrow>
               let w1 = w\<lparr>bw_world := (bw_world w)\<lparr>wd_disk := dk1\<rparr>\<rparr>;
                   (bl, carried) = RelockBaselines (be_sha B) b claims (BriefRecordFor s0 (bf_ID b))
               in if bl_unknown bl \<noteq> [] then (Inl (BriefUnknownClaims (bl_unknown bl)), w1)
                  else
                    (case SetStatus B raw StatusLocked of
                       None \<Rightarrow> (Inl BriefNotRewritable, w1)
                     | Some locked \<Rightarrow>
                         (case (if locked \<noteq> raw then rewriteBriefFile B b raw locked w1 else (True, w1)) of
                            (False, w2) \<Rightarrow> (Inl BriefFileUnwritten, w2)
                          | (True, w2) \<Rightarrow>
                              (case write_brief_store (RecordBriefApproval (bf_ID b) (brief_approval B now reason b bl) s) w2 of
                                 (False, w3) \<Rightarrow> (Inl BriefStoreUnwritten, w3)
                               | (True, w3) \<Rightarrow> (Inr carried, w3))))))"

definition brief_lock_command ::
  "brief_env \<Rightarrow> string \<Rightarrow> bool \<Rightarrow> string \<Rightarrow> string \<Rightarrow> brief_world \<Rightarrow> (brief_error + string list) \<times> brief_world" where
  "brief_lock_command B now carrier reason arg w =
     (if \<not> requireReason reason then (Inl BriefReasonMissing, w)
      else if \<not> carrier then (Inl BriefStoresGitignored, w)
      else
        (case Lookup (loadBriefs B w) arg of
           None \<Rightarrow> (Inl BriefNotFound, w)
         | Some b \<Rightarrow>
             (case readBriefFile w b of
                None \<Rightarrow> (Inl BriefChanged, w)
              | Some raw \<Rightarrow>
                  if normalizeLineEndings raw \<noteq> bf_Content b then (Inl BriefChanged, w)
                  else
                    let fs = briefErrorFindings (loadBriefs B w) b (loadClaims (bw_world w)) in
                    if length fs > 0 then (Inl (BriefLintFailed fs), w)
                    else if OpenThreads b > 0 then (Inl (BriefThreadsOpen (OpenThreads b)), w)
                    else
                      (case LoadStore now (dk_store (wd_disk (bw_world w))) (en_path (be_engine B)) of
                         Inl e \<Rightarrow> (Inl (BriefStoreUnread e), w)
                       | Inr s \<Rightarrow>
                           if bf_Status b = StatusLocked \<and>
                              (case standing_record (Some s) (bf_ID b) of None \<Rightarrow> False | Some r \<Rightarrow> ContentMoved b r = [])
                           then (Inl BriefAlreadyLocked, w)
                           else brief_sign B now reason b raw s w))))"

definition brief_unlock_command ::
  "brief_env \<Rightarrow> string \<Rightarrow> string \<Rightarrow> string \<Rightarrow> brief_world \<Rightarrow> (brief_error + bool) \<times> brief_world" where
  "brief_unlock_command B now reason arg w =
     (if \<not> requireReason reason then (Inl BriefReasonMissing, w)
      else
        (case Lookup (loadBriefs B w) arg of
           None \<Rightarrow> (Inl BriefNotFound, w)
         | Some b \<Rightarrow>
             if bf_Status b \<noteq> StatusLocked then (Inl (BriefNotLocked LockDraft), w)
             else
               (case readBriefFile w b of
                  None \<Rightarrow> (Inl BriefFileUnwritten, w)
                | Some raw \<Rightarrow>
                    (case LoadStore now (dk_store (wd_disk (bw_world w))) (en_path (be_engine B)) of
                       Inl e \<Rightarrow> (Inl (BriefStoreUnread e), w)
                     | Inr s \<Rightarrow>
                         (case SetStatus B raw StatusDraft of
                            None \<Rightarrow> (Inl BriefNotRewritable, w)
                          | Some draft \<Rightarrow>
                              (case ReleaseBriefApproval now (bf_ID b) \<lparr>ap_Actor = en_actor (be_engine B), ap_Reason = reason\<rparr> s of
                                 (released, s1) \<Rightarrow>
                                   (case (if released then write_brief_store s1 w else (True, w)) of
                                      (False, w1) \<Rightarrow> (Inl BriefStoreUnwritten, w1)
                                    | (True, w1) \<Rightarrow>
                                        (case rewriteBriefFile B b raw draft w1 of
                                           (False, w2) \<Rightarrow> (Inl BriefFileUnwritten, w2)
                                         | (True, w2) \<Rightarrow> (Inr released, w2)))))))))"

text \<open>\<^verbatim>\<open>brief reaudit --confirm\<close>, and the preview, which only reads.\<close>

definition brief_reaudit_preview ::
  "brief_env \<Rightarrow> string \<Rightarrow> string \<Rightarrow> brief_world \<Rightarrow> brief_error + review" where
  "brief_reaudit_preview B now arg w =
     (case Lookup (loadBriefs B w) arg of
        None \<Rightarrow> Inl BriefNotFound
      | Some b \<Rightarrow>
          (case LoadStore now (dk_store (wd_disk (bw_world w))) (en_path (be_engine B)) of
             Inl e \<Rightarrow> Inl (BriefStoreUnread e)
           | Inr s \<Rightarrow>
               let r = Review (Evaluate (be_sha B) (loadBriefs B w) (loadClaims (bw_world w)) (Some s)) b in
               if rv_LockState r = LockDraft \<or> rv_LockState r = LockUnrecorded then Inl (BriefNotLocked (rv_LockState r))
               else Inr r))"

definition brief_reaudit_command ::
  "brief_env \<Rightarrow> string \<Rightarrow> bool \<Rightarrow> string \<Rightarrow> string \<Rightarrow> brief_world \<Rightarrow> (brief_error + review) \<times> brief_world" where
  "brief_reaudit_command B now carrier reason arg w =
     (if \<not> requireReason reason then (Inl BriefReasonMissing, w)
      else if \<not> carrier then (Inl BriefStoresGitignored, w)
      else
        let claims = loadClaims (bw_world w) in
        (case Lookup (loadBriefs B w) arg of
           None \<Rightarrow> (Inl BriefNotFound, w)
         | Some b \<Rightarrow>
             (case LoadStore now (dk_store (wd_disk (bw_world w))) (en_path (be_engine B)) of
                Inl e \<Rightarrow> (Inl (BriefStoreUnread e), w)
              | Inr s0 \<Rightarrow>
                  let r = Review (Evaluate (be_sha B) (loadBriefs B w) claims (Some s0)) b in
                  if rv_LockState r = LockDraft \<or> rv_LockState r = LockUnrecorded then (Inl (BriefNotLocked (rv_LockState r)), w)
                  else if rv_LockState r = LockEdited then (Inl BriefEdited, w)
                  else if OpenThreads b > 0 then (Inl (BriefThreadsOpen (OpenThreads b)), w)
                  else if \<not> rv_ReviewPending r then (Inl BriefNotPending, w)
                  else
                    let bl = Baselines (be_sha B) b claims in
                    if bl_unknown bl \<noteq> [] then (Inl (BriefClaimsGone (bl_unknown bl)), w)
                    else
                      (case CrossPreLedger s0 (wd_disk (bw_world w)) claims of
                         (Some e, _, dk) \<Rightarrow> (Inl (BriefCrossingFailed e), w\<lparr>bw_world := (bw_world w)\<lparr>wd_disk := dk\<rparr>\<rparr>)
                       | (None, s1, dk) \<Rightarrow>
                           (case prepareStore (be_sha B) s1 dk claims of
                              (_, adopted, s2, dk1) \<Rightarrow>
                                let w1 = w\<lparr>bw_world := (bw_world w)\<lparr>wd_disk := dk1\<rparr>\<rparr> in
                                (case RecordBriefReaudit now (bf_ID b) (bl_hashes bl) (bl_receipts bl) (ImageDigests b)
                                    \<lparr>ap_Actor = en_actor (be_engine B), ap_Reason = reason\<rparr> (map ch_ID (rv_ChangedClaims r)) s2 of
                                   (False, _) \<Rightarrow> (Inl (BriefNotLocked (rv_LockState r)), w1)
                                 | (True, s3) \<Rightarrow>
                                     (case write_brief_store s3 w1 of
                                        (False, w2) \<Rightarrow> (Inl BriefStoreUnwritten, w2)
                                      | (True, w2) \<Rightarrow> (Inr (r\<lparr>rv_ReviewPending := False\<rparr>), w2))))))))"

section \<open>What a review says\<close>

lemma gm_get_ImageDigests_wf: "gm_wf (ImageDigests b)"
proof -
  have wf: "gm_wf m \<Longrightarrow> gm_wf (fold (\<lambda>im m. if im_Present im then gm_put (im_Name im) (im_Digest im) m else m) ims m)" for ims m
    by (induction ims arbitrary: m) simp_all
  show ?thesis unfolding ImageDigests_def by (rule wf) simp
qed

text \<open>Nothing moved: the text has the signed hash, and the images are the signed ones, name by name.\<close>

lemma ContentMoved_Nil:
  assumes "gm_wf (br_Images r)"
  shows "ContentMoved b r = [] \<longleftrightarrow>
    bf_LockHash b = br_Hash r \<and> (\<forall>name. gm_get (ImageDigests b) name = gm_get (br_Images r) name)"
proof
  assume m: "ContentMoved b r = []"
  have "gm_get (br_Images r) name = Some d" if "gm_get (ImageDigests b) name = Some d" for name d
    using m map_of_SomeD [OF that] by (fastforce simp: ContentMoved_def split: option.splits if_splits)
  moreover have "gm_get (ImageDigests b) name \<noteq> None" if "gm_get (br_Images r) name = Some d" for name d
    using m map_of_SomeD [OF that] by (fastforce simp: ContentMoved_def split: if_splits)
  ultimately have "gm_get (ImageDigests b) name = gm_get (br_Images r) name" for name
    by (metis option.collapse)
  then show "bf_LockHash b = br_Hash r \<and> (\<forall>name. gm_get (ImageDigests b) name = gm_get (br_Images r) name)"
    using m by (simp add: ContentMoved_def split: if_splits)
next
  assume eq: "bf_LockHash b = br_Hash r \<and> (\<forall>name. gm_get (ImageDigests b) name = gm_get (br_Images r) name)"
  have "gm_get (br_Images r) name = Some d" if "(name, d) \<in> set (ImageDigests b)" for name d
    using eq that gm_get_mem [OF gm_get_ImageDigests_wf] by metis
  moreover have "gm_get (ImageDigests b) name = Some d" if "(name, d) \<in> set (br_Images r)" for name d
    using eq that gm_get_mem [OF assms] by metis
  ultimately show "ContentMoved b r = []" using eq by (auto simp: ContentMoved_def)
qed

definition baseline_moved :: "(string \<Rightarrow> string) \<Rightarrow> claim list \<Rightarrow> string \<Rightarrow> string \<Rightarrow> bool" where
  "baseline_moved sha claims i h \<longleftrightarrow> (case byID claims i of None \<Rightarrow> True | Some c \<Rightarrow> ContentHash sha c \<noteq> h)"

lemma changed_claims_ids:
  "ch_ID ` set (changed_claims sha s claims r) = {i. \<exists>h. (i, h) \<in> set (br_Baselines r) \<and> baseline_moved sha claims i h}"
proof -
  have one: "changed_claim_of sha s claims r (i, h) \<noteq> None \<longleftrightarrow> baseline_moved sha claims i h"
    "changed_claim_of sha s claims r (i, h) = Some c \<Longrightarrow> ch_ID c = i" for i h c
    by (auto simp: changed_claim_of_def baseline_moved_def split: option.splits if_splits)
  show ?thesis
  proof (intro set_eqI iffI)
    fix i assume "i \<in> ch_ID ` set (changed_claims sha s claims r)"
    then obtain c j h where "(j, h) \<in> set (br_Baselines r)" "changed_claim_of sha s claims r (j, h) = Some c" "i = ch_ID c"
      by (auto simp: changed_claims_def List.map_filter_def)
    then show "i \<in> {i. \<exists>h. (i, h) \<in> set (br_Baselines r) \<and> baseline_moved sha claims i h}"
      using one by (metis (mono_tags, lifting) mem_Collect_eq option.distinct(1))
  next
    fix i assume "i \<in> {i. \<exists>h. (i, h) \<in> set (br_Baselines r) \<and> baseline_moved sha claims i h}"
    then obtain h where h: "(i, h) \<in> set (br_Baselines r)" "baseline_moved sha claims i h" by auto
    then obtain c where c: "changed_claim_of sha s claims r (i, h) = Some c" using one(1) by blast
    have "c \<in> set (changed_claims sha s claims r)"
      using h(1) c by (force simp: changed_claims_def List.map_filter_def)
    then show "i \<in> ch_ID ` set (changed_claims sha s claims r)" using one(2) [OF c] by blast
  qed
qed

lemma Review_evaluate:
  assumes "distinct (map bf_ID (bs_Briefs S))" "b \<in> set (bs_Briefs S)"
  shows "Review (evaluate sha S claims os compare) b = fst (evaluate_brief sha claims os compare b)"
proof -
  have get: "gm_get (fold (\<lambda>(b, rv, _). gm_put (bf_ID b) rv) (map (\<lambda>b. (b, f b)) bs) m) (bf_ID b) = Some (fst (f b))"
    if "distinct (map bf_ID bs)" "b \<in> set bs"
    for f :: "brief \<Rightarrow> review \<times> audit_finding list \<times> audit_finding list \<times> string list" and bs m
  proof -
    have other: "i \<notin> bf_ID ` set bs \<Longrightarrow>
        gm_get (fold (\<lambda>(b, rv, _). gm_put (bf_ID b) rv) (map (\<lambda>b. (b, f b)) bs) m) i = gm_get m i" for bs i m
      by (induction bs arbitrary: m) (auto split: prod.split)
    show ?thesis using that
    proof (induction bs arbitrary: m)
      case (Cons a bs)
      then show ?case by (cases "a = b") (auto simp: other split: prod.split)
    qed simp
  qed
  show ?thesis using get [OF assms] by (simp add: Review_def evaluate_def Let_def)
qed

text \<open>The review of a brief that is locked under a standing record.\<close>

lemma review_standing:
  assumes "distinct (map bf_ID (bs_Briefs S))" "b \<in> set (bs_Briefs S)"
    "standing_record (Some s) (bf_ID b) = Some r" "bf_Status b = StatusLocked"
  shows "rv_LockState (Review (Evaluate sha S claims (Some s)) b) = (if ContentMoved b r = [] then LockLocked else LockEdited)"
    "rv_ReviewPending (Review (Evaluate sha S claims (Some s)) b) \<longleftrightarrow> changed_claims sha s claims r \<noteq> []"
    "rv_ChangedClaims (Review (Evaluate sha S claims (Some s)) b) = changed_claims sha s claims r"
    "rv_LockReason (Review (Evaluate sha S claims (Some s)) b) = br_Reason r"
proof -
  have rv: "Review (Evaluate sha S claims (Some s)) b = fst (evaluate_brief sha claims (Some s) True b)"
    unfolding Evaluate_def by (rule Review_evaluate [OF assms(1,2)])
  have trigger: "(if list_ex (\<lambda>c. \<not> ch_Missing c) cs then TriggerDependencyDrift
      else if list_ex ch_Missing cs then TriggerRestsOnMissing else []) \<noteq> [] \<longleftrightarrow> cs \<noteq> []" for cs
    by (cases cs) (auto simp: TriggerDependencyDrift_def TriggerRestsOnMissing_def)
  show "rv_LockState (Review (Evaluate sha S claims (Some s)) b) = (if ContentMoved b r = [] then LockLocked else LockEdited)"
    "rv_ReviewPending (Review (Evaluate sha S claims (Some s)) b) \<longleftrightarrow> changed_claims sha s claims r \<noteq> []"
    "rv_ChangedClaims (Review (Evaluate sha S claims (Some s)) b) = changed_claims sha s claims r"
    "rv_LockReason (Review (Evaluate sha S claims (Some s)) b) = br_Reason r"
    using assms(3,4) trigger [of "changed_claims sha s claims r"]
    by (simp_all add: rv evaluate_brief_def approved_review_def Let_def)
qed

lemma review_not_standing:
  assumes "distinct (map bf_ID (bs_Briefs S))" "b \<in> set (bs_Briefs S)"
    "standing_record (Some s) (bf_ID b) = None \<or> bf_Status b \<noteq> StatusLocked"
  shows "rv_LockState (Review (Evaluate sha S claims (Some s)) b) \<in> {LockDraft, LockUnrecorded}"
    "\<not> rv_ReviewPending (Review (Evaluate sha S claims (Some s)) b)"
proof -
  have rv: "Review (Evaluate sha S claims (Some s)) b = fst (evaluate_brief sha claims (Some s) True b)"
    unfolding Evaluate_def by (rule Review_evaluate [OF assms(1,2)])
  show "rv_LockState (Review (Evaluate sha S claims (Some s)) b) \<in> {LockDraft, LockUnrecorded}"
    "\<not> rv_ReviewPending (Review (Evaluate sha S claims (Some s)) b)"
    using assms(3) by (auto simp: rv evaluate_brief_def draft_review_def approved_review_def split: option.split)
qed

lemma standing_recordD: "standing_record (Some s) i = Some r \<longleftrightarrow> BriefRecordFor s i = Some r \<and> \<not> br_Released r"
  by (auto simp: standing_record_def split: option.split)

text \<open>
  C28. A brief is reported locked exactly when its file says so and a standing record has the hash of its
  words and the digests of its images, and under review exactly when it is locked with a standing record and a
  claim it was read against is gone or no longer has the content it was read with; those claims are the
  ones listed.
\<close>
theorem review_iff:
  assumes "distinct (map bf_ID (bs_Briefs S))" "b \<in> set (bs_Briefs S)" "\<And>i r. BriefRecordFor s i = Some r \<Longrightarrow> gm_wf (br_Images r)"
  shows "(rv_LockState (Review (Evaluate sha S claims (Some s)) b) = LockLocked \<longleftrightarrow>
      bf_Status b = StatusLocked \<and>
      (\<exists>r. BriefRecordFor s (bf_ID b) = Some r \<and> \<not> br_Released r \<and> br_Hash r = bf_LockHash b \<and>
        (\<forall>name. gm_get (br_Images r) name = gm_get (ImageDigests b) name))) \<and>
    (rv_ReviewPending (Review (Evaluate sha S claims (Some s)) b) \<longleftrightarrow>
      bf_Status b = StatusLocked \<and>
      (\<exists>r. BriefRecordFor s (bf_ID b) = Some r \<and> \<not> br_Released r \<and>
        (\<exists>(i, h)\<in>set (br_Baselines r). baseline_moved sha claims i h))) \<and>
    (rv_ReviewPending (Review (Evaluate sha S claims (Some s)) b) \<longrightarrow>
      (\<forall>r. BriefRecordFor s (bf_ID b) = Some r \<longrightarrow>
        ch_ID ` set (rv_ChangedClaims (Review (Evaluate sha S claims (Some s)) b)) =
          {i. \<exists>h. (i, h) \<in> set (br_Baselines r) \<and> baseline_moved sha claims i h}))"
proof (cases "bf_Status b = StatusLocked \<and> (\<exists>r. standing_record (Some s) (bf_ID b) = Some r)")
  case False
  then have no: "standing_record (Some s) (bf_ID b) = None \<or> bf_Status b \<noteq> StatusLocked" by auto
  show ?thesis using review_not_standing [OF assms(1,2) no, of sha claims] no standing_recordD [of s "bf_ID b"] by auto
next
  case True
  then obtain r where locked: "bf_Status b = StatusLocked" and st: "standing_record (Some s) (bf_ID b) = Some r" by blast
  have r: "BriefRecordFor s (bf_ID b) = Some r" "\<not> br_Released r" using st by (simp_all add: standing_recordD)
  have unmoved: "ContentMoved b r = [] \<longleftrightarrow>
      br_Hash r = bf_LockHash b \<and> (\<forall>name. gm_get (br_Images r) name = gm_get (ImageDigests b) name)"
    unfolding ContentMoved_Nil [OF assms(3) [OF r(1)]] by (simp add: eq_commute)
  note ids = changed_claims_ids [of sha s claims r]
  have pending: "changed_claims sha s claims r \<noteq> [] \<longleftrightarrow> (\<exists>(i, h)\<in>set (br_Baselines r). baseline_moved sha claims i h)"
    using ids by (cases "changed_claims sha s claims r") auto
  note rvs = review_standing [OF assms(1,2) st locked, of sha claims]
  show ?thesis unfolding rvs pending using locked r ids unmoved by (cases "ContentMoved b r = []") auto
qed

definition drifted_brief :: brief where
  "drifted_brief =
     \<lparr>bf_ID = ''f.b'', bf_Path = ''briefs/f/b.md'', bf_Folder = ''f'', bf_Slug = ''b'', bf_Title = [], bf_Summary = ''s'',
      bf_Status = StatusLocked, bf_RestsOn = [''a''], bf_Content = [], bf_Body = [], bf_Digest = [], bf_Comments = [],
      bf_LockHash = ''h'', bf_Words = 0, bf_Images = []\<rparr>"

definition drifted_set :: brief_set where
  "drifted_set =
     \<lparr>bs_DisplayDir = ''briefs'', bs_Briefs = [drifted_brief], bs_Folders = [(''f'', 1)], bs_Caps = demo_caps, bs_findings = []\<rparr>"

definition drifted_record :: brief_record where
  "drifted_record =
     \<lparr>br_Path = ''briefs/f/b.md'', br_Hash = ''h'', br_At = ''t'', br_Actor = ''me'', br_Reason = ''ok'', br_Summary = ''s'',
      br_RestsOn = [''a''], br_Markdown = [], br_Images = [], br_Baselines = [(''a'', ''x'')], br_Receipts = [], br_Reaudits = [],
      br_ReleasedAt = [], br_ReleasedBy = [], br_ReleasedReason = []\<rparr>"

definition drifted_store :: store where
  "drifted_store = (emptyStore ''p'')\<lparr>st_Briefs := [(''f.b'', drifted_record)]\<rparr>"

theorem review_iff_witness:
  "rv_LockState (Review (Evaluate (\<lambda>x. x) drifted_set [] (Some drifted_store)) drifted_brief) = LockLocked \<and>
   rv_ReviewPending (Review (Evaluate (\<lambda>x. x) drifted_set [] (Some drifted_store)) drifted_brief)"
proof -
  have S: "distinct (map bf_ID (bs_Briefs drifted_set))" "drifted_brief \<in> set (bs_Briefs drifted_set)"
    by (simp_all add: drifted_set_def)
  have r: "BriefRecordFor drifted_store (bf_ID drifted_brief) = Some drifted_record" "\<not> br_Released drifted_record"
    by (simp_all add: BriefRecordFor_def drifted_store_def drifted_brief_def drifted_record_def br_Released_def)
  have wf: "gm_wf (br_Images q)" if "BriefRecordFor drifted_store i = Some q" for i q
    using that by (auto simp: BriefRecordFor_def drifted_store_def drifted_record_def split: if_splits)
  have facts: "bf_Status drifted_brief = StatusLocked" "br_Hash drifted_record = bf_LockHash drifted_brief"
    "\<forall>name. gm_get (br_Images drifted_record) name = gm_get (ImageDigests drifted_brief) name"
    "\<exists>(i, h)\<in>set (br_Baselines drifted_record). baseline_moved (\<lambda>x. x) [] i h"
    by (simp_all add: drifted_brief_def drifted_record_def ImageDigests_def baseline_moved_def byID_def)
  note iff = review_iff [where sha = "\<lambda>x. x" and claims = "[]" and s = drifted_store, OF S]
  have "rv_LockState (Review (Evaluate (\<lambda>x. x) drifted_set [] (Some drifted_store)) drifted_brief) = LockLocked"
    by (rule iff [THEN conjunct1, THEN iffD2]) (erule wf, intro conjI exI [of _ drifted_record] facts r)
  moreover have "rv_ReviewPending (Review (Evaluate (\<lambda>x. x) drifted_set [] (Some drifted_store)) drifted_brief)"
    by (rule iff [THEN conjunct2, THEN conjunct1, THEN iffD2]) (erule wf, intro conjI exI [of _ drifted_record] facts r)
  ultimately show ?thesis by simp
qed

end
