(* ===== verification/Brief_Runs.thy ===== *)
theory Brief_Runs
  imports Histories Brief_Locks Lifecycle
begin

text \<open>
  Histories of a project with briefs: the commands on claims and on briefs in any order, refused or not, with
  the tree of briefs and the claim files edited by hand in between. No command on a claim touches a record of
  a brief; the claims a brief was read against are forgotten only by a re-audit with a reason, however often
  the brief is unlocked, edited and locked again; and a locked brief goes back to a lock with a reason.
\<close>

section \<open>The records of briefs in the store file\<close>

text \<open>The records without the wording kept beside the baselines, which the file holds as JSON tells it.\<close>

definition bare_record :: "brief_record \<Rightarrow> brief_record" where
  "bare_record r = r\<lparr>br_Receipts := []\<rparr>"

definition disk_briefs :: "disk \<Rightarrow> brief_record gomap" where
  "disk_briefs dk = (case dk_store dk of Bytes (Some f) \<Rightarrow> gm_values bare_record (opt_map (sf_briefs f)) | _ \<Rightarrow> [])"

abbreviation store_briefs :: "store \<Rightarrow> brief_record gomap" where
  "store_briefs s \<equiv> gm_values bare_record (st_Briefs s)"

lemma bare_via [simp]: "bare_record (brief_via f r) = bare_record r"
  by (simp add: bare_record_def brief_via_def)

lemma bare_briefs: "gm_values bare_record (gm_values (brief_via f) m) = gm_values bare_record m"
  by (simp add: gm_values_comp)

lemma bare_simps [simp]:
  "br_Hash (bare_record r) = br_Hash r" "br_Reason (bare_record r) = br_Reason r" "br_Released (bare_record r) = br_Released r"
  "br_Baselines (bare_record r) = br_Baselines r" "br_Receipts (bare_record r) = []" "br_Images (bare_record r) = br_Images r"
  by (simp_all add: bare_record_def br_Released_def)

lemma bare_stamp:
  "bare_record (r\<lparr>br_ReleasedAt := x, br_ReleasedBy := y, br_ReleasedReason := z\<rparr>) =
   (bare_record r)\<lparr>br_ReleasedAt := x, br_ReleasedBy := y, br_ReleasedReason := z\<rparr>"
  by (simp add: bare_record_def)

lemma bare_reading:
  "bare_record (r\<lparr>br_Baselines := bs, br_Receipts := rs, br_Images := ims, br_Reaudits := ras\<rparr>) =
   (bare_record r)\<lparr>br_Baselines := bs, br_Receipts := [], br_Images := ims, br_Reaudits := ras\<rparr>"
  by (simp add: bare_record_def)

lemma gm_put_values [simp]: "gm_values f (gm_put k v m) = gm_put k (f v) (gm_values f m)"
  by (induction m) (auto simp: gm_values_def)

lemma disk_briefs_cong: "dk_store dk = dk_store dk' \<Longrightarrow> disk_briefs dk = disk_briefs dk'"
  by (simp add: disk_briefs_def)

lemma disk_briefs_digests [simp]: "disk_briefs (dk\<lparr>dk_digests := x\<rparr>) = disk_briefs dk"
  by (rule disk_briefs_cong) simp

lemma loaded_briefs:
  assumes "LoadStore now (dk_store dk) p = Inr s"
  shows "store_briefs s = disk_briefs dk"
  using assms
  by (auto simp: LoadStore_def decodeStore_def disk_briefs_def Let_def emptyStore_def bare_briefs
      split: disk_file.splits option.splits if_splits)

lemma saved_briefs:
  assumes "Save s dk = (ok, dk')"
  shows "disk_briefs dk' = (if ok then store_briefs s else disk_briefs dk)"
proof (cases ok)
  case True
  have "opt_map (some_map m) = m" for m :: "brief_record gomap" by (simp add: opt_map_def some_map_def)
  with assms True show ?thesis by (simp add: disk_briefs_def Save_stored marshal_def bare_briefs)
next
  case False
  with assms Save_failed [of s dk dk'] show ?thesis by simp
qed

text \<open>The operations on the store that leave the records of briefs alone.\<close>

lemma kept_migrate_deps: "st_Briefs (fst (migrate_deps sha claims i deps (s, reb))) = st_Briefs s"
  by (induction deps arbitrary: s reb) (auto simp: recordBaseline_def Let_def split: option.split)

lemma kept_migrate_claims: "st_Briefs (fst (migrate_claims sha claims cs sr)) = st_Briefs (fst sr)"
proof (induction cs arbitrary: sr)
  case (Cons c cs)
  then show ?case using kept_migrate_deps [of sha claims "cl_ID c" _ "fst sr" "snd sr"] by simp
qed simp

lemma kept_Migrate: "MigrateLegacyStore sha s dk claims = (b, s') \<Longrightarrow> st_Briefs s' = st_Briefs s"
  using kept_migrate_claims [of sha claims claims "(s, [])"]
  by (auto simp: MigrateLegacyStore_def Let_def split: if_splits prod.splits)

lemma kept_prepare:
  assumes "prepareStore sha s dk claims = (changed, adopted, s', dk')"
  shows "st_Briefs s' = st_Briefs s" "dk_store dk' = dk_store dk"
  using assms kept_Migrate [of sha s dk claims] sweep_store [of sha _ dk claims]
  by (auto simp: prepareStore_def PrepareStore_def Let_def split: prod.splits)

lemma created_store: "dk_store (snd (createCommentDigestStore p dk)) = dk_store dk"
  by (auto simp: createCommentDigestStore_def split: sum.split)

lemma kept_cross:
  assumes "CrossPreLedger s dk claims = (e, s', dk')" "store_briefs s = disk_briefs dk"
  shows "st_Briefs s' = st_Briefs s" "disk_briefs dk' = disk_briefs dk"
proof -
  have "st_Briefs s' = st_Briefs s \<and> disk_briefs dk' = disk_briefs dk"
  proof (cases "PreLedger s \<and> preLedgerUnadoptedOnDisk s dk \<and> \<not> countLocked claims > 0")
    case False
    then have "snd (CrossPreLedger s dk claims) = (s, dk)" by (simp add: CrossPreLedger_def)
    with assms(1) show ?thesis by simp
  next
    case True
    obtain ok dk1 where c: "createCommentDigestStore (st_path s) dk = (ok, dk1)" by fastforce
    have d1: "disk_briefs dk1 = disk_briefs dk" by (rule disk_briefs_cong) (use created_store [of "st_path s" dk] c in simp)
    let ?s1 = "s\<lparr>st_diskVersion := ledgerSchemaVersion, st_Version := storeSchemaVersion, st_LockedAt := [], st_Hashes := []\<rparr>"
    obtain ok2 dk2 where sv: "Save ?s1 dk1 = (ok2, dk2)" by fastforce
    have d2: "disk_briefs dk2 = disk_briefs dk" using saved_briefs [OF sv] assms(2) d1 by simp
    have run: "CrossPreLedger s dk claims =
      (if \<not> ok then (Some DigestStoreFailed, s, dk1)
       else if ok2 then (None, ?s1, dk2)
       else (Some SaveFailed, s, if digestStorePresentBeside (st_path s) dk then dk2 else dk2\<lparr>dk_digests := Absent\<rparr>))"
      using True c sv by (simp add: CrossPreLedger_def split: bool.split)
    show ?thesis using assms(1) d1 d2 unfolding run by (auto split: if_splits)
  qed
  then show "st_Briefs s' = st_Briefs s" "disk_briefs dk' = disk_briefs dk" by auto
qed

lemma kept_release: "st_Briefs (snd (ReleaseApproval now i ap s)) = st_Briefs s"
  by (simp add: ReleaseApproval_def putRecord_def split: option.split)

lemma kept_refresh: "st_Briefs (RefreshBaseline sha now c claims s) = st_Briefs s"
proof -
  have "st_Briefs (refresh_loop sha i claims deps s) = st_Briefs s" for i deps s
    by (induction deps arbitrary: s)
      (auto simp: recordReceipt_def put_receipt_def recordBaseline_def Let_def split: option.split)
  then show ?thesis by (simp add: RefreshBaseline_def st_LockedAt_put_def)
qed

lemma kept_approval:
  assumes "RecordApproval sha now c ap (s, dk) = (s', dk')"
  shows "st_Briefs s' = st_Briefs s" "dk_store dk' = dk_store dk"
  using assms
  by (auto simp: RecordApproval_def putRecord_def recordCommentDigestBeside_def Let_def split: sum.splits if_splits)

lemma kept_approve_claims:
  "approve_claims sha now ap R finals cs (s, dk) = (s', dk') \<Longrightarrow> st_Briefs s' = st_Briefs s \<and> dk_store dk' = dk_store dk"
proof (induction cs arbitrary: s dk)
  case (Cons c cs)
  obtain s1 dk1 where r: "RecordApproval sha now c ap (RefreshBaseline sha now c finals s, dk) = (s1, dk1)" by fastforce
  show ?case using Cons.IH [of s dk] Cons.IH [of s1 dk1] Cons.prems r kept_approval [OF r] kept_refresh [of sha now c finals s]
    by (auto split: if_splits)
qed simp


text \<open>The commands on claims leave the records of briefs alone, whatever their outcome.\<close>

abbreviation world_briefs :: "world \<Rightarrow> brief_record gomap" where
  "world_briefs w \<equiv> disk_briefs (wd_disk w)"

lemma kept_write: "write_store s w = (ok, w') \<Longrightarrow> world_briefs w' = (if ok then store_briefs s else world_briefs w)"
  using saved_briefs write_store_frame(2) by blast

lemma kept_save_claim: "SaveClaimIfUnchanged os storable c t w = (e, w') \<Longrightarrow> world_briefs w' = world_briefs w"
  using save_claim_frame(1) by (rule arg_cong)

lemma kept_clear_flag: "clear_flag i w = (r, w') \<Longrightarrow> world_briefs w' = world_briefs w"
  using clear_flag_frame(2) by (rule arg_cong)

lemma kept_write_flags: "write_flags fs w = (ok, w') \<Longrightarrow> world_briefs w' = world_briefs w"
  using write_flags_frame(2) [of fs w] by simp

lemma kept_open_store:
  assumes "open_store E now gate w = (r, w')"
  shows "world_briefs w' = world_briefs w \<and> (\<forall>a s. r = Inr (a, s) \<longrightarrow> store_briefs s = world_briefs w)"
proof (cases "LoadStore now (dk_store (wd_disk w)) (en_path E)")
  case (Inl e)
  then have "open_store E now gate w = (Inl (StoreUnread e), w)" by (simp add: open_store_def)
  with assms show ?thesis by auto
next
  case (Inr s0)
  note b0 = loaded_briefs [OF Inr]
  obtain ch ad s1 dk where p: "prepareStore (en_sha E) s0 (wd_disk w) (loadClaims w) = (ch, ad, s1, dk)"
    using prod_cases4 by blast
  note k = kept_prepare [OF p]
  obtain ok w2 where wr: "write_store s1 (w\<lparr>wd_disk := dk\<rparr>) = (ok, w2)" by fastforce
  have b1: "world_briefs (w\<lparr>wd_disk := dk\<rparr>) = world_briefs w" using disk_briefs_cong [OF k(2)] by simp
  then have b2: "world_briefs w2 = world_briefs w" using kept_write [OF wr] k(1) b0 by simp
  have "open_store E now gate w =
    (if \<not> gate s0 then (Inl RoofNotLocked, w) else if \<not> ch then (Inr (ad, s1), w\<lparr>wd_disk := dk\<rparr>)
     else if ok then (Inr (ad, s1), w2) else (Inl StoreUnwritten, w2))"
    using Inr p wr by (simp add: open_store_def Let_def split: bool.split)
  with assms b0 b1 b2 k(1) show ?thesis by (auto split: if_splits)
qed

lemma kept_opened: "open_store E now gate w = (Inr (a, s), w') \<Longrightarrow> world_briefs w' = world_briefs w \<and> store_briefs s = world_briefs w"
  using kept_open_store by blast

lemma kept_unopened: "open_store E now gate w = (Inl e, w') \<Longrightarrow> world_briefs w' = world_briefs w"
  using kept_open_store by blast

lemmas kept_dests = kept_write kept_save_claim kept_clear_flag kept_write_flags kept_opened kept_unopened

lemma kept_unlock_command: "unlock_command E now reason i w = (res, w') \<Longrightarrow> world_briefs w' = world_briefs w"
  by (auto simp: unlock_command_def Unlock_def kept_release
      split: if_splits option.splits sum.splits prod.splits bool.splits dest!: kept_dests)

lemma kept_flag_command: "flag_command E now carrier says does reason i w = (res, w') \<Longrightarrow> world_briefs w' = world_briefs w"
  by (erule flag_cases) simp_all

lemma kept_confirm:
  assumes "confirm_reaudit E now reason c token d flagged s fs w = (res, w')" "store_briefs s = world_briefs w"
  shows "world_briefs w' = world_briefs w"
proof -
  obtain e s1 dk where x: "CrossPreLedger s (wd_disk w) (loadClaims w) = (e, s1, dk)"
    using prod_cases3 by blast
  note k = kept_cross [OF x assms(2)]
  have app: "store_briefs s3 = world_briefs w \<and> disk_briefs dk1 = world_briefs w"
    if "RecordApproval sha now a ap (RefreshBaseline sha now a claims s1, dk) = (s3, dk1)" for sha a ap claims s3 dk1
    using kept_approval [OF that] k assms(2) disk_briefs_cong [of dk1 dk] by (simp add: kept_refresh)
  show ?thesis
    using assms(1) x k
    by (auto simp: confirm_reaudit_def Let_def
        split: if_splits option.splits sum.splits prod.splits bool.splits dest!: kept_dests app)
qed

lemma kept_reaudit_command:
  "reaudit_command E now carrier roof confirm reason i w = (res, w') \<Longrightarrow> world_briefs w' = world_briefs w"
  by (auto simp: reaudit_command_def Let_def
      split: if_splits option.splits sum.splits prod.splits bool.splits dest!: kept_dests kept_confirm)

lemma kept_save_digests: "save_digests os d w = (ok, w') \<Longrightarrow> world_briefs w' = world_briefs w"
  by (auto simp: save_digests_def Let_def split: if_splits)

lemma kept_comment_command:
  "comment_command E now i actor op w k = Some ((out, w'), k') \<Longrightarrow> world_briefs w' = world_briefs w"
  by (auto simp: comment_command_def mutate_def mutate_opened_def recordCommentDigest_def Let_def
      split: if_splits option.splits sum.splits prod.splits bool.splits dest!: kept_save_claim kept_save_digests)

lemma kept_ReauditDigest: "ReauditDigest E now i actor reason w = (out, w') \<Longrightarrow> world_briefs w' = world_briefs w"
  by (erule readopt_cases) simp_all

lemma kept_write_claims:
  "write_claims os storable fault R tokens cs (written, w) = (ok, written', w') \<Longrightarrow> wd_disk w' = wd_disk w"
proof (induction cs arbitrary: written w)
  case (Cons c cs)
  from Cons.prems show ?case
    by (auto split: if_splits option.splits prod.splits dest!: Cons.IH save_claim_frame(1))
qed simp

lemma kept_rollback_claims: "wd_disk (snd (rollback_claims os storable originals is w)) = wd_disk w"
proof (induction "is" arbitrary: w)
  case (Cons i "is")
  show ?case using Cons.IH by (auto simp: Let_def split: option.split prod.split) (metis Save_disk snd_conv)+
qed simp

lemma kept_rollback:
  assumes "rollback os storable originals (readOptional (dk_store dk)) digestRaw written w = (failures, w')"
    "dk_store (wd_disk w) = dk_store dk"
  shows "world_briefs w' = disk_briefs dk"
proof -
  obtain fs w1 where r: "rollback_claims os storable originals written w = (fs, w1)" by fastforce
  have d: "wd_disk w1 = wd_disk w" using kept_rollback_claims [of os storable originals written w] r by simp
  show ?thesis using assms r
    by (cases "dk_store dk")
      (auto simp: rollback_def Let_def d disk_briefs_def readOptional_def restoreOptional_def split: prod.splits if_splits)
qed

lemma kept_write_set:
  assumes "write_set os storable fault sha call e claims s w = (out, w')" "store_briefs s = world_briefs w"
  shows "world_briefs w' = world_briefs w"
proof (cases "capture_originals (se_RequestedIDs e) claims w ([], [])")
  case None
  with assms show ?thesis by (simp add: write_set_def)
next
  case (Some ot)
  obtain originals tokens where ot: "ot = (originals, tokens)" by fastforce
  let ?R = "se_RequestedIDs e"
  let ?finals = "candidate_claims ?R claims"
  let ?ap = "\<lparr>ap_Actor = lc_Actor call, ap_Reason = lc_Reason call\<rparr>"
  obtain ok written w1 where wc: "write_claims os storable fault ?R tokens ?finals ([], w) = (ok, written, w1)"
    using prod_cases3 by blast
  have d1: "wd_disk w1 = wd_disk w" by (rule kept_write_claims [OF wc])
  obtain s1 dk1 where ap: "approve_claims sha (lc_Now call) ?ap ?R ?finals ?finals (s, wd_disk w1) = (s1, dk1)" by fastforce
  have k: "store_briefs s1 = world_briefs w" "dk_store dk1 = dk_store (wd_disk w)"
    using kept_approve_claims [OF ap] assms(2) d1 by auto
  obtain ok2 dk2 where sv: "Save s1 dk1 = (ok2, dk2)" by fastforce
  have d2: "disk_briefs dk2 = world_briefs w" "\<not> ok2 \<Longrightarrow> dk_store dk2 = dk_store (wd_disk w)"
    using saved_briefs [OF sv] k disk_briefs_cong [OF k(2)] Save_failed [of s1 dk1 dk2] sv by auto
  have restored: "world_briefs x' = world_briefs w"
    if "rollback os storable originals (readOptional (dk_store (wd_disk w))) raw written' x = (fs, x')"
      "dk_store (wd_disk x) = dk_store (wd_disk w)" for x x' raw written' fs
    by (rule kept_rollback [OF that])
  show ?thesis
    using assms(1) Some ot wc d1 ap k(2) sv d2
    by (auto simp: write_set_def Let_def split: if_splits prod.splits bool.splits dest!: restored)
qed

lemma kept_set_lock:
  assumes "runPolicySetLock os storable fault sha call w = (out, w')"
  shows "world_briefs w' = world_briefs w"
proof (cases "LoadStore (lc_Now call) (dk_store (wd_disk w)) (lc_Path call)")
  case (Inl e)
  with assms show ?thesis by (auto simp: runPolicySetLock_def split: if_splits)
next
  case (Inr s0)
  obtain e s1 dk where x: "CrossPreLedger s0 (wd_disk w) (loadClaims w) = (e, s1, dk)"
    using prod_cases3 by blast
  note b0 = loaded_briefs [OF Inr]
  note k = kept_cross [OF x b0]
  have set: "world_briefs w' = world_briefs w"
    if "write_set os storable fault sha call ev claims s1 (w\<lparr>wd_disk := dk\<rparr>) = (o', w')" for ev claims o' w'
    using kept_write_set [OF that] k b0 by simp
  show ?thesis
    using assms Inr x k
    by (auto simp: runPolicySetLock_def Let_def split: if_splits option.splits dest!: set)
qed

lemma kept_life_step: "life_step E w e w' \<Longrightarrow> world_briefs w' = world_briefs w"
  by (induction rule: life_step.induct)
    (auto elim!: newLockCmd_cases dest: kept_set_lock kept_unlock_command kept_flag_command kept_reaudit_command kept_comment_command kept_ReauditDigest)

section \<open>The commands on briefs\<close>

lemma kept_write_brief:
  "write_brief_store s w = (ok, w') \<Longrightarrow>
   world_briefs (bw_world w') = (if ok then store_briefs s else world_briefs (bw_world w))"
  by (auto simp: write_brief_store_def split: prod.splits dest: kept_write)

lemma kept_rewrite: "rewriteBriefFile B b before after w = (ok, w') \<Longrightarrow> world_briefs (bw_world w') = world_briefs (bw_world w)"
  by (auto simp: rewriteBriefFile_def Let_def split: option.splits if_splits)

lemma RecordBriefApproval_briefs:
  "st_Briefs (RecordBriefApproval i r s) = gm_put i (r\<lparr>br_ReleasedAt := [], br_ReleasedBy := [], br_ReleasedReason := []\<rparr>) (st_Briefs s)"
  by (simp add: RecordBriefApproval_def put_brief_def earnBriefsSchema_def)

text \<open>What a lock that goes through writes, for a brief found in the tree; a refused one writes no record.\<close>

definition lock_files :: "brief_env \<Rightarrow> string \<Rightarrow> string \<Rightarrow> brief \<Rightarrow> brief_world \<Rightarrow> brief_record" where
  "lock_files B now reason b w =
     bare_record (brief_approval B now reason b
       (fst (RelockBaselines (be_sha B) b (loadClaims (bw_world w)) (gm_get (world_briefs (bw_world w)) (bf_ID b)))))"

lemma relock_bare:
  "bl_hashes (fst (RelockBaselines sha b claims (map_option bare_record q))) = bl_hashes (fst (RelockBaselines sha b claims q))"
proof (cases q)
  case (Some r)
  have "bl_hashes (fst x) = bl_hashes (fst y) \<Longrightarrow>
      bl_hashes (fst (fold (carry_baseline (bare_record r)) ids x)) = bl_hashes (fst (fold (carry_baseline r) ids y))" for ids x y
  proof (induction ids arbitrary: x y)
    case (Cons i ids)
    have "bl_hashes (fst (carry_baseline (bare_record r) i x)) = bl_hashes (fst (carry_baseline r i y))"
      using Cons.prems by (auto simp: carry_baseline_def split: option.split)
    from Cons.IH [OF this] show ?case by simp
  qed simp
  from this [of "(Baselines sha b claims, [])" "(Baselines sha b claims, [])"] Some show ?thesis
    by (simp add: RelockBaselines_def split_def Let_def)
qed (simp add: RelockBaselines_def)

lemma sign_effect:
  assumes "brief_sign B now reason b raw s0 w = (res, w')" "store_briefs s0 = world_briefs (bw_world w)"
  shows "world_briefs (bw_world w') =
    (case res of Inl _ \<Rightarrow> world_briefs (bw_world w)
     | Inr _ \<Rightarrow> gm_put (bf_ID b) (lock_files B now reason b w) (world_briefs (bw_world w)))"
proof -
  obtain e s1 dk where x: "CrossPreLedger s0 (wd_disk (bw_world w)) (loadClaims (bw_world w)) = (e, s1, dk)"
    using prod_cases3 by blast
  note k = kept_cross [OF x assms(2)]
  obtain ch ad s dk1 where p: "prepareStore (be_sha B) s1 dk (loadClaims (bw_world w)) = (ch, ad, s, dk1)"
    using prod_cases4 by blast
  have k2: "store_briefs s = world_briefs (bw_world w)" "disk_briefs dk1 = world_briefs (bw_world w)"
    using kept_prepare [OF p] disk_briefs_cong [of dk1 dk] k assms(2) by auto
  obtain bl carried where rb: "RelockBaselines (be_sha B) b (loadClaims (bw_world w)) (BriefRecordFor s0 (bf_ID b)) = (bl, carried)"
    by fastforce
  have "gm_get (world_briefs (bw_world w)) (bf_ID b) = map_option bare_record (BriefRecordFor s0 (bf_ID b))"
    using assms(2) [symmetric] by (simp add: BriefRecordFor_def)
  then have files: "lock_files B now reason b w = bare_record (brief_approval B now reason b bl)"
    using rb relock_bare [of "be_sha B" b "loadClaims (bw_world w)" "BriefRecordFor s0 (bf_ID b)"]
    by (simp add: lock_files_def brief_approval_def bare_record_def)
  have clean: "(brief_approval B now reason b bl)\<lparr>br_ReleasedAt := [], br_ReleasedBy := [], br_ReleasedReason := []\<rparr> =
      brief_approval B now reason b bl" by (simp add: brief_approval_def)
  show ?thesis unfolding files
    using assms(1) x p rb k k2
    by (auto simp: brief_sign_def Let_def RecordBriefApproval_briefs clean
        split: if_splits option.splits bool.splits prod.splits dest!: kept_write_brief kept_rewrite)
qed

lemma lock_effect:
  assumes "brief_lock_command B now carrier reason arg w = (res, w')"
  shows "case res of
      Inl _ \<Rightarrow> world_briefs (bw_world w') = world_briefs (bw_world w)
    | Inr _ \<Rightarrow> requireReason reason \<and> (\<exists>b. Lookup (loadBriefs B w) arg = Some b \<and>
        world_briefs (bw_world w') = gm_put (bf_ID b) (lock_files B now reason b w) (world_briefs (bw_world w)))"
proof -
  have sign: "store_briefs s = world_briefs (bw_world w)"
    if "LoadStore now (dk_store (wd_disk (bw_world w))) p = Inr s" for p s
    using loaded_briefs that by blast
  show ?thesis using assms
    by (auto simp: brief_lock_command_def Let_def split: if_splits option.splits sum.splits dest: sign dest!: sign_effect)
qed

lemma ReleaseBriefApproval_briefs:
  assumes "ReleaseBriefApproval now i ap s = (released, s')"
  shows "store_briefs s' = store_briefs s \<and> \<not> released \<or>
    (\<exists>r. gm_get (store_briefs s) i = Some r \<and> \<not> br_Released r \<and> store_briefs s' =
      gm_put i (r\<lparr>br_ReleasedAt := now, br_ReleasedBy := ap_Actor ap, br_ReleasedReason := ap_Reason ap\<rparr>) (store_briefs s))"
  using assms
  by (auto simp: ReleaseBriefApproval_def put_brief_def earnBriefsSchema_def BriefRecordFor_def bare_stamp split: option.splits if_splits)

text \<open>An unlock at most stamps the record it releases.\<close>

lemma unlock_effect:
  assumes "brief_unlock_command B now reason arg w = (res, w')"
  shows "world_briefs (bw_world w') = world_briefs (bw_world w) \<or>
    (\<exists>i r. gm_get (world_briefs (bw_world w)) i = Some r \<and> \<not> br_Released r \<and>
      world_briefs (bw_world w') = gm_put i (r\<lparr>br_ReleasedAt := now, br_ReleasedBy := en_actor (be_engine B),
        br_ReleasedReason := reason\<rparr>) (world_briefs (bw_world w)))"
  using assms
  by (auto simp: brief_unlock_command_def split: if_splits option.splits sum.splits prod.splits bool.splits
      dest!: kept_rewrite kept_write_brief ReleaseBriefApproval_briefs loaded_briefs) blast+

lemma RecordBriefReaudit_briefs:
  assumes "RecordBriefReaudit now i baselines rcpts images ap ids s = (True, s')"
  shows "\<exists>r ras. gm_get (store_briefs s) i = Some r \<and> \<not> br_Released r \<and> store_briefs s' =
    gm_put i (r\<lparr>br_Baselines := baselines, br_Receipts := [], br_Images := images, br_Reaudits := ras\<rparr>) (store_briefs s)"
  using assms
  by (auto simp: RecordBriefReaudit_def put_brief_def earnBriefsSchema_def BriefRecordFor_def bare_reading split: option.splits if_splits)

text \<open>A re-audit that goes through has a reason and replaces what the standing record was read against.\<close>

lemma reaudit_effect:
  assumes "brief_reaudit_command B now carrier reason arg w = (res, w')"
  shows "case res of
      Inl _ \<Rightarrow> world_briefs (bw_world w') = world_briefs (bw_world w)
    | Inr _ \<Rightarrow> requireReason reason \<and> (\<exists>b r bs rs ims ras. Lookup (loadBriefs B w) arg = Some b \<and>
        gm_get (world_briefs (bw_world w)) (bf_ID b) = Some r \<and> \<not> br_Released r \<and>
        world_briefs (bw_world w') = gm_put (bf_ID b)
          (r\<lparr>br_Baselines := bs, br_Receipts := rs, br_Images := ims, br_Reaudits := ras\<rparr>) (world_briefs (bw_world w)))"
proof -
  have cross: "store_briefs s1 = world_briefs (bw_world w) \<and> disk_briefs dk = world_briefs (bw_world w)"
    if "CrossPreLedger s0 (wd_disk (bw_world w)) claims = (e, s1, dk)"
      "LoadStore now (dk_store (wd_disk (bw_world w))) p = Inr s0" for s0 claims e s1 dk p
    using kept_cross [OF that(1) loaded_briefs [OF that(2)]] loaded_briefs [OF that(2)] by simp
  have prep: "store_briefs s2 = store_briefs s1 \<and> disk_briefs dk1 = disk_briefs dk"
    if "prepareStore sha s1 dk claims = (ch, ad, s2, dk1)" for sha s1 dk claims ch ad s2 dk1
    using kept_prepare [OF that] disk_briefs_cong [of dk1 dk] by simp
  show ?thesis using assms
    apply (auto simp: brief_reaudit_command_def Let_def
        split: if_splits option.splits sum.splits prod.splits bool.splits
        dest!: cross prep RecordBriefReaudit_briefs kept_write_brief)
    by blast
qed

text \<open>A lock keeps the baseline of every claim the brief still lists.\<close>

lemma carry_fold:
  "gm_get (bl_hashes (fst (fold (carry_baseline r) ids x))) j =
    (if j \<in> set ids \<and> gm_get (br_Baselines r) j \<noteq> None then gm_get (br_Baselines r) j else gm_get (bl_hashes (fst x)) j)"
  by (induction ids arbitrary: x) (auto simp: carry_baseline_def split: option.split)

lemma relock_carries:
  assumes "gm_get (br_Baselines r) j = Some h" "j \<in> set (bf_RestsOn b)"
  shows "gm_get (bl_hashes (fst (RelockBaselines sha b claims (Some r)))) j = Some h"
  using assms carry_fold [of r "bf_RestsOn b" "(Baselines sha b claims, [])" j]
  by (auto simp: RelockBaselines_def split: prod.splits)

section \<open>Histories\<close>

datatype brief_event =
    ClaimEvent event
  | HandEdit
  | BriefLocked string string string "string list"
  | BriefUnlocked string string
  | BriefReaudited string string
  | BriefRefused

text \<open>
  One event: a command on claims, an edit of claim and brief files by hand, a command on a brief. A lock that
  goes through notes the brief, the reason, the hash of what it signed and the claims the brief listed.
\<close>

inductive brief_step :: "brief_env \<Rightarrow> brief_world \<Rightarrow> brief_event \<Rightarrow> brief_world \<Rightarrow> bool" for B :: brief_env where
  claims: "life_step (be_engine B) (bw_world w) e w1 \<Longrightarrow> brief_step B w (ClaimEvent e) (w\<lparr>bw_world := w1\<rparr>)"
| edit: "wd_disk w1 = wd_disk (bw_world w) \<Longrightarrow> brief_step B w HandEdit \<lparr>bw_world = w1, bw_tree = tree\<rparr>"
| lock: "brief_lock_command B now carrier reason arg w = (Inr carried, w') \<Longrightarrow> Lookup (loadBriefs B w) arg = Some b \<Longrightarrow>
    brief_step B w (BriefLocked (bf_ID b) reason (bf_LockHash b) (bf_RestsOn b)) w'"
| lock_refused: "brief_lock_command B now carrier reason arg w = (Inl e', w') \<Longrightarrow> brief_step B w BriefRefused w'"
| unlock: "brief_unlock_command B now reason arg w = (res, w') \<Longrightarrow> brief_step B w (BriefUnlocked arg reason) w'"
| reaudit: "brief_reaudit_command B now carrier reason arg w = (Inr rv, w') \<Longrightarrow> Lookup (loadBriefs B w) arg = Some b \<Longrightarrow>
    brief_step B w (BriefReaudited (bf_ID b) reason) w'"
| reaudit_refused: "brief_reaudit_command B now carrier reason arg w = (Inl e'', w') \<Longrightarrow> brief_step B w BriefRefused w'"

inductive_cases brief_stepE: "brief_step B w e w'"

inductive brief_run :: "brief_env \<Rightarrow> brief_world \<Rightarrow> brief_event list \<Rightarrow> brief_world \<Rightarrow> bool" for B :: brief_env where
  start: "brief_run B w [] w"
| then_step: "brief_run B w es w' \<Longrightarrow> brief_step B w' e w'' \<Longrightarrow> brief_run B w (es @ [e]) w''"

interpretation briefs_run: history "brief_step B" "brief_run B"
proof
  show "brief_run B w es w' \<longleftrightarrow> es = [] \<and> w' = w \<or> (\<exists>ds e u. es = ds @ [e] \<and> brief_run B w ds u \<and> brief_step B u e w')" for w es w'
    by (subst brief_run.simps) auto
qed

text \<open>What an event does to the records: nothing, or one record signed, released or re-audited.\<close>

lemma step_effect:
  assumes "brief_step B w e w'"
  obtains (same) "world_briefs (bw_world w') = world_briefs (bw_world w)"
    | (locked) now b reason where "e = BriefLocked (bf_ID b) reason (bf_LockHash b) (bf_RestsOn b)" "requireReason reason"
      "world_briefs (bw_world w') = gm_put (bf_ID b) (lock_files B now reason b w) (world_briefs (bw_world w))"
    | (released) i r x y z where "gm_get (world_briefs (bw_world w)) i = Some r"
      "world_briefs (bw_world w') = gm_put i (r\<lparr>br_ReleasedAt := x, br_ReleasedBy := y, br_ReleasedReason := z\<rparr>) (world_briefs (bw_world w))"
      "\<not> br_Released r"
    | (reaudited) i r reason bs rs ims ras where "e = BriefReaudited i reason" "requireReason reason"
      "gm_get (world_briefs (bw_world w)) i = Some r" "\<not> br_Released r"
      "world_briefs (bw_world w') =
         gm_put i (r\<lparr>br_Baselines := bs, br_Receipts := rs, br_Images := ims, br_Reaudits := ras\<rparr>) (world_briefs (bw_world w))"
  using assms
proof (cases rule: brief_step.cases)
  case (claims e w1)
  then show ?thesis using kept_life_step [OF claims(3)] by (intro same) simp
next
  case (edit w1 tree)
  then show ?thesis by (intro same) simp
next
  case (lock now carrier reason arg carried b)
  then show ?thesis using lock_effect [OF lock(2)] by (intro locked [of b reason now]) auto
next
  case (lock_refused now carrier reason arg e')
  then show ?thesis using lock_effect [OF lock_refused(2)] by (intro same) simp
next
  case (unlock now reason arg res)
  then show ?thesis using unlock_effect [OF unlock(2)] by (auto intro: same released)
next
  case (reaudit now carrier reason arg rv b)
  then show ?thesis using reaudit_effect [OF reaudit(2)] by (auto intro: reaudited)
next
  case (reaudit_refused now carrier reason arg e'')
  then show ?thesis using reaudit_effect [OF reaudit_refused(2)] by (intro same) simp
qed

lemma reading_step:
  assumes "brief_step B w e w'" "gm_get (world_briefs (bw_world w)) i = Some r" "gm_get (br_Baselines r) j = Some h"
    "\<And>reason. e \<noteq> BriefReaudited i reason" "\<And>reason hash rests. e = BriefLocked i reason hash rests \<Longrightarrow> j \<in> set rests"
  shows "\<exists>r'. gm_get (world_briefs (bw_world w')) i = Some r' \<and> gm_get (br_Baselines r') j = Some h"
  using assms(1)
proof (cases rule: step_effect)
  case same
  with assms show ?thesis by simp
next
  case (locked now b reason)
  show ?thesis
  proof (cases "bf_ID b = i")
    case False
    with locked assms show ?thesis by simp
  next
    case True
    with assms(5) locked(1) have "j \<in> set (bf_RestsOn b)" by simp
    from relock_carries [OF assms(3) this] show ?thesis
      using locked(3) True assms(2) by (simp add: lock_files_def brief_approval_def)
  qed
next
  case (released k q x y z)
  with assms show ?thesis by (cases "k = i") auto
next
  case (reaudited k q reason bs rs ims ras)
  with assms show ?thesis by (cases "k = i") auto
qed

lemma event_reason:
  "brief_step B w (BriefReaudited i reason) w' \<Longrightarrow> requireReason reason"
  "brief_step B w (BriefLocked i reason hash rests) w' \<Longrightarrow> requireReason reason"
  by (erule brief_step.cases; auto dest: reaudit_effect lock_effect)+

text \<open>
  What ends the reading of a claim by a brief: a re-audit with a reason, or a lock of the brief while it does
  not list the claim.
\<close>

definition ends_reading :: "string \<Rightarrow> string \<Rightarrow> brief_event \<Rightarrow> bool" where
  "ends_reading i j e \<longleftrightarrow> (\<exists>reason. e = BriefReaudited i reason \<and> requireReason reason) \<or>
     (\<exists>reason hash rests. e = BriefLocked i reason hash rests \<and> requireReason reason \<and> j \<notin> set rests)"

definition reading_ended :: "string \<Rightarrow> string \<Rightarrow> brief_event list \<Rightarrow> bool" where
  "reading_ended i j es \<longleftrightarrow> (\<exists>e \<in> set es. ends_reading i j e)"

lemma reading_run:
  assumes "brief_run B w es w'" "gm_get (world_briefs (bw_world w)) i = Some r" "gm_get (br_Baselines r) j = Some h"
    "\<not> reading_ended i j es"
  shows "\<exists>r'. gm_get (world_briefs (bw_world w')) i = Some r' \<and> gm_get (br_Baselines r') j = Some h"
proof (rule briefs_run.preserved [OF assms(1)])
  show "\<exists>r'. gm_get (world_briefs (bw_world w)) i = Some r' \<and> gm_get (br_Baselines r') j = Some h"
    using assms(2,3) by blast
next
  fix u e u' assume e: "brief_step B u e u'" "e \<in> set es"
    and "\<exists>r'. gm_get (world_briefs (bw_world u)) i = Some r' \<and> gm_get (br_Baselines r') j = Some h"
  then obtain r' where r': "gm_get (world_briefs (bw_world u)) i = Some r'" "gm_get (br_Baselines r') j = Some h" by blast
  from assms(4) e(2) have keeps: "\<not> ends_reading i j e" by (simp add: reading_ended_def)
  show "\<exists>r'. gm_get (world_briefs (bw_world u')) i = Some r' \<and> gm_get (br_Baselines r') j = Some h"
  proof (rule reading_step [OF e(1) r'])
    show "e \<noteq> BriefReaudited i reason" for reason
      using keeps event_reason(1) e(1) by (auto simp: ends_reading_def)
    show "j \<in> set rests" if "e = BriefLocked i reason hash rests" for reason hash rests
      using keeps event_reason(2) e(1) that by (auto simp: ends_reading_def)
  qed
qed

lemma standing_step:
  assumes "brief_step B w e w'" "gm_get (world_briefs (bw_world w')) i = Some r'" "\<not> br_Released r'"
  shows "(\<exists>r. gm_get (world_briefs (bw_world w)) i = Some r \<and> \<not> br_Released r \<and> br_Hash r = br_Hash r' \<and> br_Reason r = br_Reason r') \<or>
    (requireReason (br_Reason r') \<and> (\<exists>rests. e = BriefLocked i (br_Reason r') (br_Hash r') rests))"
  using assms(1)
proof (cases rule: step_effect)
  case same
  with assms(2,3) show ?thesis by auto
next
  case (locked now b reason)
  with assms(2,3) show ?thesis by (cases "bf_ID b = i") (auto simp: lock_files_def brief_approval_def)
next
  case (released k q x y z)
  with assms(2,3) show ?thesis by (cases "k = i") auto
next
  case (reaudited k q reason bs rs ims ras)
  with assms(2,3) show ?thesis by (cases "k = i") auto
qed

lemma standing_run:
  assumes "brief_run B w es w'" "gm_get (world_briefs (bw_world w')) i = Some r'" "\<not> br_Released r'"
  shows "(\<exists>r. gm_get (world_briefs (bw_world w)) i = Some r \<and> \<not> br_Released r \<and> br_Hash r = br_Hash r' \<and> br_Reason r = br_Reason r') \<or>
    (requireReason (br_Reason r') \<and> (\<exists>rests. BriefLocked i (br_Reason r') (br_Hash r') rests \<in> set es))"
proof -
  let ?I = "\<lambda>w. \<exists>r. gm_get (world_briefs (bw_world w)) i = Some r \<and> \<not> br_Released r \<and> br_Hash r = br_Hash r' \<and> br_Reason r = br_Reason r'"
  let ?Q = "\<lambda>e. requireReason (br_Reason r') \<and> (\<exists>rests. e = BriefLocked i (br_Reason r') (br_Hash r') rests)"
  have "?I w \<or> (\<exists>e\<in>set es. ?Q e)"
  proof (rule briefs_run.origin [where I = ?I and Q = ?Q, OF assms(1)])
    show "?I w'" using assms(2,3) by blast
  next
    fix u e u' assume "brief_step B u e u'" "?I u'"
    then show "?I u \<or> ?Q e" using standing_step [of B u e u' i] by metis
  qed
  then show ?thesis by blast
qed

lemma loaded_ids: "distinct (map fl_Rel (bw_tree w)) \<Longrightarrow> distinct (map bf_ID (bs_Briefs (loadBriefs B w)))"
  unfolding loadBriefs_def by (rule distinct_brief_ids)

lemma review_locked:
  assumes "distinct (map bf_ID (bs_Briefs S))" "b \<in> set (bs_Briefs S)"
    "rv_LockState (Review (Evaluate sha S claims (Some s)) b) \<in> {LockLocked, LockEdited}"
  obtains r where "standing_record (Some s) (bf_ID b) = Some r" "bf_Status b = StatusLocked"
  using review_not_standing(1) [OF assms(1,2), of s sha claims] assms(3)
  by (cases "standing_record (Some s) (bf_ID b)"; cases "bf_Status b = StatusLocked") auto

section \<open>What holds of every history\<close>

text \<open>
  C26. A claim that moved under a brief is not forgotten in silence. However the brief was unlocked, edited and
  locked again, and whatever was done to claims and files in between: the brief, when it is locked and
  evaluated, is pending review and names the claim, if the claim is gone or does not have the content the brief
  was first read with; or in between the brief was re-audited with a reason, or was locked with a reason by a
  lock under which it did not list the claim.
\<close>
theorem moved_claim_stays_under_review:
  assumes "brief_run B w es w'" "gm_get (world_briefs (bw_world w)) i = Some r" "gm_get (br_Baselines r) j = Some h"
    "baseline_moved (be_sha B) (loadClaims (bw_world w')) j h"
    "LoadStore now (dk_store (wd_disk (bw_world w'))) (en_path (be_engine B)) = Inr s"
    "distinct (map fl_Rel (bw_tree w'))" "b \<in> set (bs_Briefs (loadBriefs B w'))" "bf_ID b = i"
    "rv_LockState (Review (Evaluate (be_sha B) (loadBriefs B w') (loadClaims (bw_world w')) (Some s)) b) \<in> {LockLocked, LockEdited}"
  shows "(rv_ReviewPending (Review (Evaluate (be_sha B) (loadBriefs B w') (loadClaims (bw_world w')) (Some s)) b) \<and>
      j \<in> ch_ID ` set (rv_ChangedClaims (Review (Evaluate (be_sha B) (loadBriefs B w') (loadClaims (bw_world w')) (Some s)) b))) \<or>
    (\<exists>reason. BriefReaudited i reason \<in> set es \<and> requireReason reason) \<or>
    (\<exists>reason hash rests. BriefLocked i reason hash rests \<in> set es \<and> requireReason reason \<and> j \<notin> set rests)"
proof (cases "reading_ended i j es")
  case True
  then show ?thesis unfolding reading_ended_def ends_reading_def by blast
next
  case False
  let ?S = "loadBriefs B w'" and ?claims = "loadClaims (bw_world w')"
  note found = loaded_ids [OF assms(6), of B] assms(7)
  obtain r' where r': "gm_get (world_briefs (bw_world w')) i = Some r'" "gm_get (br_Baselines r') j = Some h"
    using reading_run [OF assms(1-3) False] by blast
  obtain q where q: "standing_record (Some s) (bf_ID b) = Some q" "bf_Status b = StatusLocked"
    using review_locked [OF found assms(9)] .
  have "gm_get (br_Baselines q) j = Some h"
    using q(1) r' loaded_briefs [OF assms(5), symmetric] assms(8) by (auto simp: standing_recordD BriefRecordFor_def)
  note rv = review_standing [OF found q, of "be_sha B" ?claims]
  have "j \<in> ch_ID ` set (changed_claims (be_sha B) s ?claims q)"
    unfolding changed_claims_ids using map_of_SomeD [OF \<open>gm_get (br_Baselines q) j = Some h\<close>] assms(4) by blast
  then show ?thesis unfolding rv(2,3) by auto
qed

text \<open>
  C27. A locked brief is one a human locked. Whatever happened to a project, every brief that is reported
  locked carries words that were signed under its reason, by a standing approval the history began with or by
  a lock of the history that gave that reason.
\<close>
theorem locked_brief_by_reason:
  assumes "brief_run B w es w'"
    "LoadStore now (dk_store (wd_disk (bw_world w'))) (en_path (be_engine B)) = Inr s"
    "distinct (map fl_Rel (bw_tree w'))" "b \<in> set (bs_Briefs (loadBriefs B w'))"
    "rv_LockState (Review (Evaluate (be_sha B) (loadBriefs B w') (loadClaims (bw_world w')) (Some s)) b) = LockLocked"
    "reason = rv_LockReason (Review (Evaluate (be_sha B) (loadBriefs B w') (loadClaims (bw_world w')) (Some s)) b)"
  shows "(\<exists>r. gm_get (world_briefs (bw_world w)) (bf_ID b) = Some r \<and> \<not> br_Released r \<and>
        br_Hash r = bf_LockHash b \<and> br_Reason r = reason) \<or>
    (requireReason reason \<and> (\<exists>rests. BriefLocked (bf_ID b) reason (bf_LockHash b) rests \<in> set es))"
proof -
  note found = loaded_ids [OF assms(3), of B] assms(4)
  have state: "rv_LockState (Review (Evaluate (be_sha B) (loadBriefs B w') (loadClaims (bw_world w')) (Some s)) b) \<in>
      {LockLocked, LockEdited}" using assms(5) by simp
  obtain r' where st: "standing_record (Some s) (bf_ID b) = Some r'" and locked: "bf_Status b = StatusLocked"
    using review_locked [OF found state] .
  note rv = review_standing [OF found st locked, of "be_sha B" "loadClaims (bw_world w')"]
  have "ContentMoved b r' = []" using assms(5) rv(1) by (simp split: if_splits)
  then have hash: "br_Hash r' = bf_LockHash b" by (simp add: ContentMoved_def split: if_splits)
  have r': "gm_get (world_briefs (bw_world w')) (bf_ID b) = Some (bare_record r')" "\<not> br_Released (bare_record r')"
    using st loaded_briefs [OF assms(2), symmetric] by (simp_all add: standing_recordD BriefRecordFor_def)
  show ?thesis using standing_run [OF assms(1) r'] hash rv(4) assms(6) by auto
qed

section \<open>A brief locked again over a claim that moved\<close>

definition run_yaml :: "string \<Rightarrow> ynode option option" where
  "run_yaml block =
     Some (Some (YNode MappingNode ''!!map'' []
       [YNode ScalarNode ''!!str'' ''summary'' [], YNode ScalarNode ''!!str'' ''Pay'' [],
        YNode ScalarNode ''!!str'' ''status'' [], YNode ScalarNode ''!!str'' (butlast block) [],
        YNode ScalarNode ''!!str'' ''rests_on'' [],
        YNode SequenceNode ''!!seq'' [] [YNode ScalarNode ''!!str'' ''m.contract.p'' []]]))"

definition run_text :: "string \<Rightarrow> string" where
  "run_text status = ''---'' @ [nl] @ status @ [nl] @ ''---'' @ [nl]"

definition run_env :: brief_env where
  "run_env = \<lparr>be_engine = test_engine\<lparr>en_sha := tail_hash\<rparr>, be_reader = demo_reader\<lparr>rd_yaml := run_yaml\<rparr>, be_dir = ''briefs'',
     be_caps = demo_caps, be_status_line = (\<lambda>raw status. Some (run_text status)),
     be_comments_block = (\<lambda>raw cs. None), be_encoded = (\<lambda>cs. None)\<rparr>"

definition run_tree :: "string \<Rightarrow> brief_file list" where
  "run_tree status =
     [\<lparr>fl_Rel = ''shop/flow.md'', fl_Size = length (run_text status), fl_Regular = True, fl_Data = Some (run_text status),
       fl_Digest = [], fl_ContentSize = 0\<rparr>]"

text \<open>A brief that was locked, then unlocked, and whose claim moved since it was read; it is locked again.\<close>

definition run_record :: brief_record where
  "run_record =
     \<lparr>br_Path = ''briefs/shop/flow.md'', br_Hash = ''0a3a303d'', br_At = ''t'', br_Actor = ''me'', br_Reason = ''first'', br_Summary = ''Pay'',
      br_RestsOn = [''m.contract.p''], br_Markdown = [], br_Images = [], br_Baselines = [(''m.contract.p'', ''0a3d7964'')], br_Receipts = [],
      br_Reaudits = [], br_ReleasedAt = ''u'', br_ReleasedBy = ''me'', br_ReleasedReason = ''edit''\<rparr>"

definition run_start :: brief_world where
  "run_start =
     \<lparr>bw_world = settled\<lparr>wd_files := [(''p.yaml'', file_p\<lparr>cl_Body := ''moved''\<rparr>)],
        wd_disk := (wd_disk settled)\<lparr>dk_store := Bytes (Some (marshal
          (settled_store\<lparr>st_Version := briefsSchemaVersion, st_Briefs := [(''shop.flow'', run_record)]\<rparr>)))\<rparr>\<rparr>,
      bw_tree = run_tree StatusDraft\<rparr>"

definition run_relocked :: brief_world where
  "run_relocked = snd (brief_lock_command run_env ''v'' True ''second'' ''shop.flow'' run_start)"

lemma run_history:
  obtains h where "brief_run run_env run_start [BriefLocked ''shop.flow'' ''second'' h [''m.contract.p'']] run_relocked"
proof -
  let ?res = "brief_lock_command run_env ''v'' True ''second'' ''shop.flow'' run_start"
  have "(case fst ?res of Inr _ \<Rightarrow> True | Inl _ \<Rightarrow> False)" by code_simp
  then obtain carried where run: "?res = (Inr carried, run_relocked)"
    by (cases "fst ?res") (auto simp: run_relocked_def prod_eq_iff)
  have "map_option (\<lambda>b. (bf_ID b, bf_RestsOn b)) (Lookup (loadBriefs run_env run_start) ''shop.flow'') =
      Some (''shop.flow'', [''m.contract.p''])" by code_simp
  then obtain b where "Lookup (loadBriefs run_env run_start) ''shop.flow'' = Some b" "bf_ID b = ''shop.flow''"
    "bf_RestsOn b = [''m.contract.p'']" by auto
  from brief_step.lock [OF run this(1)] this(2,3)
  have "brief_step run_env run_start (BriefLocked ''shop.flow'' ''second'' (bf_LockHash b) [''m.contract.p'']) run_relocked" by simp
  from brief_run.then_step [OF brief_run.start this] show ?thesis by (intro that) simp
qed

lemma run_end_tree: "bw_tree run_relocked = run_tree StatusLocked"
  by code_simp

lemma run_end_claims: "wd_files (bw_world run_relocked) = wd_files (bw_world run_start)"
  by code_simp

lemma run_end_briefs: "map (\<lambda>b. (bf_ID b, bf_Status b, bf_LockHash b, bf_Images b)) (bs_Briefs (loadBriefs run_env run_relocked)) =
    [(''shop.flow'', StatusLocked, ''0a3a303d'', [])]"
proof -
  have "map (\<lambda>b. (bf_ID b, bf_Status b, bf_LockHash b, bf_Images b))
      (bs_Briefs (FromFiles (be_read run_env) (be_dir run_env) (be_caps run_env) (run_tree StatusLocked))) =
    [(''shop.flow'', StatusLocked, ''0a3a303d'', [])]" by code_simp
  then show ?thesis by (simp only: loadBriefs_def run_end_tree)
qed

lemma run_end_record: "map_option (\<lambda>r. (br_Hash r, br_Images r, br_Released r, br_Reason r))
    (gm_get (world_briefs (bw_world run_relocked)) ''shop.flow'') = Some (''0a3a303d'', [], False, ''second'')"
  by code_simp

lemma run_end_loads: "(case LoadStore ''z'' (dk_store (wd_disk (bw_world run_relocked))) (en_path (be_engine run_env)) of Inl _ \<Rightarrow> False | Inr _ \<Rightarrow> True)"
  by code_simp

lemma run_end:
  obtains s b where "LoadStore ''z'' (dk_store (wd_disk (bw_world run_relocked))) (en_path (be_engine run_env)) = Inr s"
    "b \<in> set (bs_Briefs (loadBriefs run_env run_relocked))" "bf_ID b = ''shop.flow''"
    "rv_LockState (Review (Evaluate (be_sha run_env) (loadBriefs run_env run_relocked) (loadClaims (bw_world run_relocked)) (Some s)) b) = LockLocked"
    "rv_LockReason (Review (Evaluate (be_sha run_env) (loadBriefs run_env run_relocked) (loadClaims (bw_world run_relocked)) (Some s)) b) = ''second''"
proof -
  let ?S = "loadBriefs run_env run_relocked" and ?claims = "loadClaims (bw_world run_relocked)"
  from run_end_loads obtain s
    where s: "LoadStore ''z'' (dk_store (wd_disk (bw_world run_relocked))) (en_path (be_engine run_env)) = Inr s"
    by (cases "LoadStore ''z'' (dk_store (wd_disk (bw_world run_relocked))) (en_path (be_engine run_env))") (simp_all only: sum.case)
  obtain b where b: "bs_Briefs ?S = [b]" "bf_ID b = ''shop.flow''" "bf_Status b = StatusLocked" "bf_LockHash b = ''0a3a303d''" "bf_Images b = []"
    using run_end_briefs by auto
  obtain r where r: "gm_get (world_briefs (bw_world run_relocked)) ''shop.flow'' = Some r" "br_Hash r = ''0a3a303d''" "br_Images r = []"
    "\<not> br_Released r" "br_Reason r = ''second''"
    using run_end_record by auto
  obtain q where q: "BriefRecordFor s ''shop.flow'' = Some q" "bare_record q = r"
    using r(1) loaded_briefs [OF s, symmetric] by (auto simp: BriefRecordFor_def)
  have st: "standing_record (Some s) (bf_ID b) = Some q" using q r(4) b(2) by (auto simp: standing_recordD)
  have "distinct (map bf_ID (bs_Briefs ?S))" "b \<in> set (bs_Briefs ?S)" by (simp_all add: b(1))
  note rv = review_standing [OF this st b(3), of "be_sha run_env" ?claims]
  have "br_Hash q = ''0a3a303d''" "br_Images q = []" using r(2,3) q(2) by auto
  then have "ContentMoved b q = []" using b(4,5) by (simp add: ContentMoved_def ImageDigests_def)
  with rv(1) have "rv_LockState (Review (Evaluate (be_sha run_env) ?S ?claims (Some s)) b) = LockLocked" by simp
  moreover have "br_Reason q = ''second''" using r(5) q(2) by auto
  ultimately show ?thesis using s b(1,2) rv(4) by (intro that [of s b]) simp_all
qed

lemma run_files: "distinct (map fl_Rel (bw_tree run_relocked))"
  unfolding run_end_tree by code_simp

lemma run_read: "map_option (\<lambda>r. gm_get (br_Baselines r) ''m.contract.p'') (gm_get (world_briefs (bw_world run_start)) ''shop.flow'') =
    Some (Some ''0a3d7964'')"
  by code_simp

lemma run_claim_moved: "baseline_moved (be_sha run_env) (loadClaims (bw_world run_relocked)) ''m.contract.p'' ''0a3d7964''"
  unfolding loadClaims_def run_end_claims by code_simp

theorem moved_claim_stays_under_review_witness:
  "\<exists>s b. LoadStore ''z'' (dk_store (wd_disk (bw_world run_relocked))) (en_path (be_engine run_env)) = Inr s \<and>
    rv_ReviewPending (Review (Evaluate (be_sha run_env) (loadBriefs run_env run_relocked) (loadClaims (bw_world run_relocked)) (Some s)) b)"
proof -
  obtain h where run: "brief_run run_env run_start
    [BriefLocked ''shop.flow'' ''second'' h [''m.contract.p'']] run_relocked"
    by (rule run_history)
  obtain r where r: "gm_get (world_briefs (bw_world run_start)) ''shop.flow'' = Some r"
    "gm_get (br_Baselines r) ''m.contract.p'' = Some ''0a3d7964''" using run_read by auto
  obtain s b where s: "LoadStore ''z'' (dk_store (wd_disk (bw_world run_relocked))) (en_path (be_engine run_env)) = Inr s"
    and b: "b \<in> set (bs_Briefs (loadBriefs run_env run_relocked))" "bf_ID b = ''shop.flow''"
    and locked: "rv_LockState (Review (Evaluate (be_sha run_env) (loadBriefs run_env run_relocked) (loadClaims (bw_world run_relocked)) (Some s)) b) = LockLocked"
    by (rule run_end)
  have "rv_ReviewPending (Review (Evaluate (be_sha run_env) (loadBriefs run_env run_relocked) (loadClaims (bw_world run_relocked)) (Some s)) b)"
    using moved_claim_stays_under_review [OF run r run_claim_moved s run_files b] locked by auto
  with s show ?thesis by blast
qed

theorem locked_brief_by_reason_witness:
  "\<exists>h rests b. brief_run run_env run_start [BriefLocked ''shop.flow'' ''second'' h rests] run_relocked \<and>
    b \<in> set (bs_Briefs (loadBriefs run_env run_relocked)) \<and> bf_LockHash b = h"
proof -
  obtain h where run: "brief_run run_env run_start
    [BriefLocked ''shop.flow'' ''second'' h [''m.contract.p'']] run_relocked"
    by (rule run_history)
  obtain s b where s: "LoadStore ''z'' (dk_store (wd_disk (bw_world run_relocked))) (en_path (be_engine run_env)) = Inr s"
    and b: "b \<in> set (bs_Briefs (loadBriefs run_env run_relocked))" "bf_ID b = ''shop.flow''"
    and locked: "rv_LockState (Review (Evaluate (be_sha run_env) (loadBriefs run_env run_relocked) (loadClaims (bw_world run_relocked)) (Some s)) b) = LockLocked"
    and why: "rv_LockReason (Review (Evaluate (be_sha run_env) (loadBriefs run_env run_relocked) (loadClaims (bw_world run_relocked)) (Some s)) b) = ''second''"
    by (rule run_end)
  have "map_option br_Reason (gm_get (world_briefs (bw_world run_start)) ''shop.flow'') = Some ''first''" by code_simp
  then have before: "r = r' \<Longrightarrow> br_Reason r \<noteq> ''second''" if "gm_get (world_briefs (bw_world run_start)) ''shop.flow'' = Some r'" for r r'
    using that by auto
  from locked_brief_by_reason [OF run s run_files b(1) locked why [symmetric]] b(2) before have "h = bf_LockHash b" by auto
  with run b(1) show ?thesis by blast
qed

end
