(* ===== verification/Spec2Isabelle.thy ===== *)
theory Spec2Isabelle
  imports Prelude Histories Claim_Model Display_Order Claim_Decode Embodiment Locked_Hash
    Content_Hash Claim_Json Digest_Store Lock_Store Ledger Lock_Audit Lint_Rules Cycle_Lint
    Policy Proposal Set_Lock
    Threads Reaudit Comment_Ops Commands Lifecycle
    Strong_Components Readiness_Paths Readiness Readiness_Trails
    Text_Diff Url_Gates Asset_Route Serve_Loop
    Brief_Tree Brief_Locks Brief_Runs
begin

text \<open>
  A verification development for \<^verbatim>\<open>dossierx\<close>, the Go command-line engine that keeps a corpus of
  human-approved claims.

  \<^bold>\<open>The program.\<close> A project is a tree of YAML files, one claim a file, with two stores beside it: the lock store
  (\<^verbatim>\<open>lock-store.json\<close>: the ledger of approvals, the hashes each locked claim had of its dependencies, the records
  of briefs) and the comment digest store. A human approves claims with \<^verbatim>\<open>claim lock\<close>, singly or as a set,
  against a proposal token that binds the approval to what was reviewed. An approval signs a hash of the claim.
  A locked claim whose dependency moves, that is flagged, or that has an open comment is under review until
  \<^verbatim>\<open>claim reaudit\<close>, and goes back to a draft with \<^verbatim>\<open>claim unlock\<close>. \<^verbatim>\<open>check\<close> runs the lint rules and audits the
  ledger against the files. Readiness tells for each claim whether everything it rests on is approved and
  undisturbed. Briefs are Markdown documents that rest on claims and have locks of their own. A local server
  shows all this in a browser.

  \<^bold>\<open>The theories, and what they model under\<close> \<^verbatim>\<open>src/\<close>.

  \<^item> \<open>Prelude\<close>: Go maps as association lists (\<open>gomap\<close>, in the order the model inserts), Go strings as byte strings,
    the library functions the code calls (trimming, splitting, decimal and hexadecimal numerals, runes, stable sorts), and
    three interfaces: \<open>keyed_store\<close> (what is put under a key is what is read), \<open>sort_order\<close> (a comparison that is the
    order of a key), \<open>terminated_code\<close> (a writer whose output can be cut apart again). \<open>Histories\<close>: runs of a step
    relation, as the locales \<open>history\<close> and \<open>simulation\<close>.
  \<^item> \<open>Claim_Model\<close>, \<open>Display_Order\<close>, \<open>Claim_Decode\<close>, \<open>Embodiment\<close>: \<^verbatim>\<open>internal/model\<close>. The structs are records with
    a prefix per struct (\<open>cl_\<close>, \<open>ro_\<close>, \<open>cm_\<close>, \<open>em_\<close>), the custom YAML decoders functions on the node tree.
  \<^item> \<open>Locked_Hash\<close>, \<open>Content_Hash\<close>: \<^verbatim>\<open>LockedClaimHash\<close> of \<^verbatim>\<open>lockedhash.go\<close> and \<^verbatim>\<open>ContentHash\<close> of \<^verbatim>\<open>lock.go\<close>, as the
    byte streams that are hashed. \<open>Claim_Json\<close>: what \<^verbatim>\<open>encoding/json\<close> keeps of a claim that is embedded in the lock
    store: integers come back as \<^verbatim>\<open>float64\<close>, times as text, typed lists as \<^verbatim>\<open>[]any\<close>, unexported flags not at all.
  \<^item> \<open>Digest_Store\<close>: \<^verbatim>\<open>internal/digest\<close>. \<open>Lock_Store\<close>, \<open>Ledger\<close>, \<open>Lock_Audit\<close>: \<^verbatim>\<open>lock.go\<close>, \<^verbatim>\<open>ledger.go\<close>, \<^verbatim>\<open>briefs.go\<close> and
    \<^verbatim>\<open>audit.go\<close> of \<^verbatim>\<open>internal/lock\<close>: the store record, its file, loading and saving, approvals and releases, the
    migrations of old stores, the sweep of the digests, and the findings of the audit.
  \<^item> \<open>Lint_Rules\<close>, \<open>Cycle_Lint\<close>: the rules of \<^verbatim>\<open>internal/lint\<close>.
  \<^item> \<open>Policy\<close>, \<open>Proposal\<close>, \<open>Set_Lock\<close>: \<^verbatim>\<open>internal/lock/policy.go\<close> and \<^verbatim>\<open>cmd/dossierx/lock_policy.go\<close>: which sets may
    be locked, the proposal token, and \<^verbatim>\<open>runPolicySetLock\<close> with its recovery. The record \<open>world\<close> is the disk: claim
    files, the two stores with the faults they can have, the flag store.
  \<^item> \<open>Threads\<close>, \<open>Comment_Ops\<close>: \<^verbatim>\<open>internal/comments\<close>. \<open>Reaudit\<close>: \<^verbatim>\<open>internal/reaudit\<close>. \<open>Commands\<close>: unlock, flag and re-audit
    of \<^verbatim>\<open>cmd/dossierx/main.go\<close> and \<^verbatim>\<open>flag.go\<close>, each a function from a world to a result and a world.
  \<^item> \<open>Lifecycle\<close>: all commands on claims in any order, as the step relation \<open>life_step\<close> and its runs \<open>life\<close>. An event is
    what a run came to: \<open>ELock\<close>, \<open>EUnlock\<close> and \<open>EReaudit\<close> stand for runs that went through (the re-audit confirmed),
    \<open>EPreview\<close> for a re-audit that was not confirmed and \<open>ERefused\<close> for the rest.
  \<^item> \<open>Strong_Components\<close>, \<open>Readiness_Paths\<close>, \<open>Readiness\<close>, \<open>Readiness_Trails\<close>: \<^verbatim>\<open>internal/readiness/readiness.go\<close>: Tarjan's
    algorithm, the two breadth-first searches, the assessment, and the paths it reports.
  \<^item> \<open>Text_Diff\<close>: \<^verbatim>\<open>internal/textdiff\<close>. \<open>Url_Gates\<close>: \<^verbatim>\<open>internal/urlsafe\<close> and the image gate of \<^verbatim>\<open>internal/render\<close>.
    \<open>Asset_Route\<close>, \<open>Serve_Loop\<close>: the image route, the shared renders, the watcher and the admission of requests of
    \<^verbatim>\<open>internal/serve\<close>.
  \<^item> \<open>Brief_Tree\<close>, \<open>Brief_Locks\<close>, \<open>Brief_Runs\<close>: \<^verbatim>\<open>internal/briefs\<close> and \<^verbatim>\<open>cmd/dossierx/brief_lock.go\<close>: the tree of brief files
    read into a set with its findings, the review of a brief against its record and the claims, the commands
    that lock, unlock and re-audit a brief, and histories that mix them with the commands on claims.
\<close>

text \<open>
  \<^bold>\<open>How the parts meet.\<close> A command loads the claims (\<open>loadClaims\<close>) and the store (\<open>LoadStore\<close>), crosses or sweeps what
  an older engine left (\<open>CrossPreLedger\<close>, \<open>prepareStore\<close>), decides, writes a claim file only if it still holds
  what was read (\<open>SaveClaimIfUnchanged\<close>) and saves the store. Errors are \<open>Inl\<close> values or constructors of an outcome
  type, one for each refusal of the code, and the world that a refused command returns is part of its result.
  The audit, the policy, readiness and the review of briefs only read.

  \<^bold>\<open>What the lemmas show.\<close>
  \<^item> Round trips and injectivity: a saved store loads as itself but for what JSON does to the claims in it, and from then on
    as itself; the signed streams of a claim and of a brief
    determine what is signed, so equal hashes mean equal content or a collision of the hash; a difference reads
    back as both texts.
  \<^item> Equivalences with declarative statements: the policy, the audit, the structural rules, readiness, the
    admission of requests, link and image gates, the review of a brief.
  \<^item> Algorithms: the component search and both breadth-first searches terminate and meet their graph
    specifications; the cycle rule is silent exactly on acyclic graphs.
  \<^item> Histories: a project in order stays in order under every command, refused or not; the commands implement a
    map of standing approvals; every locked claim, and every locked brief, goes back to a lock or a confirmed
    re-audit with a reason; a claim that moved under a brief keeps it under review until a re-audit with a reason, or
    a lock of the brief while it does not list the claim; a failed lock restores what it touched.
  \<^item> The server: a request never gets a render older than itself, and an image is sent only from the directory
    of the claim it is asked for.

  The interfaces are locales, interpreted on the model in the theory of the component that provides them: \<open>keyed_store\<close>
  on the ledger, the baselines, the receipts, the digests and the records of briefs; \<open>sort_order\<close> on the display order
  and the order of findings; \<open>terminated_code\<close> on the writer of the signed hash; \<open>history\<close> on the runs of claims, of
  approvals and of briefs; \<open>simulation\<close> on the commands over the map of approvals.

  \<^bold>\<open>Termination and bounds.\<close> Recursions are structural or carry a measure; each has its proof. The component
  search takes the number of claims as its fuel and is proved never to run out of it; id
  minting takes a stream of random bytes and is proved to return where that stream is fair. Cells of the difference table are
  16-bit words as in the code, and the limit on passages is what keeps them from wrapping. The similarity test of the
  word marks is on the 53 bits of a double. A representative path of readiness is at most one longer
  than the number of claims. An image index is never staler than the poll interval and the grace.

  \<^bold>\<open>Parameters.\<close> SHA-256 (an arbitrary function; no theorem assumes it injective, collisions are a case of the
  conclusions), the table of named character references, which writes of the operating system succeed (by a counter),
  whether the YAML emitter can write a claim back, the random source, the clock, the reader of YAML nodes, the passes over
  Markdown, the surgery on the lines of a brief file that YAML positions give (accepted, as in the code, only after the
  result is read back), and the file listing of a directory.

  \<^bold>\<open>What is not modelled.\<close> The text of messages and findings, flag parsing, dry runs and what is printed; the
  HTML renderer but for its gates; file locks, taken as held; directory walks, version control and source scanning;
  configuration, manifests and catalog, which are file readers and projections; comment threads on briefs, whose
  operations on a thread list are those of \<open>Threads\<close>. JSON files are the records of their keys: what the strict
  decoders refuse is modelled by the shape of those records, and strings are taken as valid UTF-8. A save that fails
  because a cell is not a JSON number (an infinity, a NaN), like every other failure of a write, is the flag of the
  disk that says whether a store can be written, which does not change in the course of one run. An integer that a
  YAML reader yields is unbounded. In the scan of claim assets the test that a file lies inside the claims directory
  is a parameter of the claim, and the scan and the loading of the claims are one instant.
\<close>

end
